(* ===== verification/Prelude.thy ===== *)
theory Prelude
  imports Main "HOL-Library.Word" "HOL-Library.Monad_Syntax"
begin

text \<open>
  Prelude of the development: what every component theory shares.

  It holds the collections of facts the component proofs pass to the simplifier, the model of
  a C array as a list with checked indexing, the widths of the machine integers used by the
  programs, and generic facts on lists and natural numbers.
\<close>

named_theorems frame_simps \<open>updates of a store outside a footprint\<close>
named_theorems inv_intros \<open>preservation of component invariants\<close>

type_synonym u32 = "32 word"
type_synonym u64 = "64 word"

section \<open>C arrays with checked access\<close>

text \<open>
  A C array of fixed length is a list.  An access outside of it is undefined behaviour in C;
  the checked operations return \<open>None\<close> there, so that every result a model computes comes
  from accesses inside the array.
\<close>

definition aget :: "'a list \<Rightarrow> nat \<Rightarrow> 'a option" where
  "aget xs i = (if i < length xs then Some (xs ! i) else None)"

definition aset :: "'a list \<Rightarrow> nat \<Rightarrow> 'a \<Rightarrow> 'a list option" where
  "aset xs i v = (if i < length xs then Some (xs[i := v]) else None)"

lemma aget_Some_iff [simp]: "aget xs i = Some v \<longleftrightarrow> i < length xs \<and> xs ! i = v"
  by (auto simp: aget_def)

lemma aget_None_iff [simp]: "aget xs i = None \<longleftrightarrow> length xs \<le> i"
  by (auto simp: aget_def)

lemma aset_Some_iff [simp]: "aset xs i v = Some ys \<longleftrightarrow> i < length xs \<and> ys = xs[i := v]"
  by (auto simp: aset_def)

lemma aset_None_iff [simp]: "aset xs i v = None \<longleftrightarrow> length xs \<le> i"
  by (auto simp: aset_def)

lemma aget_in_range: "i < length xs \<Longrightarrow> aget xs i = Some (xs ! i)"
  by simp

lemma aset_in_range: "i < length xs \<Longrightarrow> aset xs i v = Some (xs[i := v])"
  by simp

lemma nth_update: "k < length xs \<Longrightarrow> xs[i := v] ! k = (if k = i then v else xs ! k)"
  by (auto simp: nth_list_update)

section \<open>Alignment\<close>

text \<open>Rounding up to a multiple of eight, as the allocators do it.\<close>

definition align8 :: "nat \<Rightarrow> nat" where
  "align8 n = 8 * ((n + 7) div 8)"

lemma align8_ge: "n \<le> align8 n"
  unfolding align8_def by presburger

lemma align8_less: "align8 n < n + 8"
  unfolding align8_def by presburger

lemma align8_dvd [simp]: "8 dvd align8 n"
  by (simp add: align8_def)

section \<open>Characters\<close>

abbreviation char_code :: "char \<Rightarrow> nat" where
  "char_code c \<equiv> of_char c"

definition is_digit :: "char \<Rightarrow> bool" where
  "is_digit c \<longleftrightarrow> 48 \<le> char_code c \<and> char_code c \<le> 57"

definition is_space :: "char \<Rightarrow> bool" where
  "is_space c \<longleftrightarrow> char_code c = 32 \<or> (9 \<le> char_code c \<and> char_code c \<le> 13)"

text \<open>The digits at the front of a string, as the conversions of the C library read them.\<close>

fun scan_digits :: "string \<Rightarrow> nat \<Rightarrow> nat" where
  "scan_digits [] acc = acc"
| "scan_digits (c # cs) acc =
     (if is_digit c then scan_digits cs (10 * acc + (char_code c - 48)) else acc)"

text \<open>\<^verbatim>\<open>atoi\<close>, on the strings whose value fits an \<^verbatim>\<open>int\<close>.\<close>

definition atoi :: "string \<Rightarrow> int" where
  "atoi s = (case dropWhile is_space s of
     [] \<Rightarrow> 0
   | c # cs \<Rightarrow> if c = CHR ''-'' then - int (scan_digits cs 0)
              else if c = CHR ''+'' then int (scan_digits cs 0)
              else int (scan_digits (c # cs) 0))"

text \<open>Hexadecimal digits.\<close>

definition hex_value :: "char \<Rightarrow> nat option" where
  "hex_value c = (if is_digit c then Some (char_code c - 48)
     else if 97 \<le> char_code c \<and> char_code c \<le> 102 then Some (char_code c - 87)
     else if 65 \<le> char_code c \<and> char_code c \<le> 70 then Some (char_code c - 55) else None)"

fun scan_hex :: "string \<Rightarrow> nat \<Rightarrow> nat" where
  "scan_hex [] acc = acc"
| "scan_hex (x # xs) acc = (case hex_value x of Some d \<Rightarrow> scan_hex xs (16 * acc + d) | None \<Rightarrow> acc)"

section \<open>Counting\<close>

text \<open>The threads of a system at certain statements.\<close>

definition count :: "('a \<Rightarrow> bool) \<Rightarrow> 'a list \<Rightarrow> nat" where
  "count P xs = length (filter P xs)"

lemma count_update:
  "i < length xs \<Longrightarrow> count P (xs[i := v]) + (if P (xs ! i) then 1 else 0) = count P xs + (if P v then 1 else 0)"
proof (induction xs arbitrary: i)
  case (Cons x xs)
  then show ?case by (cases i) (auto simp: count_def)
qed simp

lemma count_pos: "i < length xs \<Longrightarrow> P (xs ! i) \<Longrightarrow> 0 < count P xs"
  by (auto simp: count_def filter_empty_conv)

end
