(* ===== verification/Memlib.thy ===== *)
theory Memlib
  imports Prelude
begin

text \<open>
  The simulated memory system of the malloc lab (\<^verbatim>\<open>sp_03_malloclab/src/memlib.c\<close>) and its
  64-bit variant (\<^verbatim>\<open>sp_03_malloclab/lab5/memlib.c\<close>).

  The three private pointers of the module are a record of addresses.  Addresses are natural
  numbers; the programs of \<^verbatim>\<open>src/\<close> are built with \<^verbatim>\<open>-m32\<close>, those of \<^verbatim>\<open>lab5/\<close> for 64 bits,
  so a pointer addition wraps at \<open>2 ^ 32\<close> and \<open>2 ^ 64\<close>.  The storage that
  \<^verbatim>\<open>mem_init\<close> obtains from the C library starts at an address that is a parameter.
\<close>

definition MAX_HEAP :: nat where
  "MAX_HEAP = 20 * 2 ^ 20"

record memlib =
  mem_start_brk :: nat
  mem_brk :: nat
  mem_max_addr :: nat

section \<open>Operations\<close>

text \<open>
  \<open>base\<close> is the result of \<^verbatim>\<open>malloc(MAX_HEAP)\<close> of the C library; \<open>0\<close> is NULL, on which the
  program exits (\<open>None\<close>).
\<close>

definition mem_init :: "nat \<Rightarrow> memlib option" where
  "mem_init base =
     (if base = 0 then None
      else Some \<lparr>mem_start_brk = base, mem_brk = base, mem_max_addr = base + MAX_HEAP\<rparr>)"

definition mem_reset_brk :: "memlib \<Rightarrow> memlib" where
  "mem_reset_brk s = s\<lparr>mem_brk := mem_start_brk s\<rparr>"

text \<open>\<open>None\<close> is the result \<^verbatim>\<open>(void *)-1\<close>; \<open>incr\<close> is a C \<^verbatim>\<open>int\<close>.\<close>

definition mem_sbrk :: "memlib \<Rightarrow> int \<Rightarrow> memlib \<times> nat option" where
  "mem_sbrk s incr =
     (if incr < 0 \<or> (mem_brk s + nat incr) mod 2 ^ 32 > mem_max_addr s then (s, None)
      else (s\<lparr>mem_brk := (mem_brk s + nat incr) mod 2 ^ 32\<rparr>, Some (mem_brk s)))"

definition mem_heap_lo :: "memlib \<Rightarrow> nat" where
  "mem_heap_lo s = mem_start_brk s"

definition mem_heap_hi :: "memlib \<Rightarrow> int" where
  "mem_heap_hi s = int (mem_brk s) - 1"

definition mem_heapsize :: "memlib \<Rightarrow> int" where
  "mem_heapsize s = int (mem_brk s) - int (mem_start_brk s)"

text \<open>
  The variant of \<^verbatim>\<open>lab5/memlib.c\<close> takes a \<^verbatim>\<open>size_t\<close>: the test \<^verbatim>\<open>incr < 0\<close> never holds.
\<close>

definition mem_sbrk5 :: "memlib \<Rightarrow> u64 \<Rightarrow> memlib \<times> nat option" where
  "mem_sbrk5 s incr =
     (if incr < 0 \<or> (mem_brk s + unat incr) mod 2 ^ 64 > mem_max_addr s then (s, None)
      else (s\<lparr>mem_brk := (mem_brk s + unat incr) mod 2 ^ 64\<rparr>, Some (mem_brk s)))"

section \<open>The invariant and the operations\<close>

definition mem_wf :: "memlib \<Rightarrow> bool" where
  "mem_wf s \<longleftrightarrow> 0 < mem_start_brk s \<and> mem_start_brk s \<le> mem_brk s \<and>
     mem_brk s \<le> mem_max_addr s \<and> mem_max_addr s \<le> 2 ^ 31"

lemma mem_wf_init:
  "mem_init base = Some s \<Longrightarrow> base + MAX_HEAP \<le> 2 ^ 31 \<Longrightarrow> mem_wf s"
  by (auto simp: mem_init_def mem_wf_def split: if_splits)

lemma mem_wf_reset [inv_intros]: "mem_wf s \<Longrightarrow> mem_wf (mem_reset_brk s)"
  by (auto simp: mem_wf_def mem_reset_brk_def)

lemma mem_sbrk_wf_eq:
  assumes "mem_wf s" and "incr < 2 ^ 31"
  shows "mem_sbrk s incr =
     (if 0 \<le> incr \<and> int (mem_brk s) + incr \<le> int (mem_max_addr s)
      then (s\<lparr>mem_brk := mem_brk s + nat incr\<rparr>, Some (mem_brk s)) else (s, None))"
proof (cases "0 \<le> incr")
  case True
  have "nat incr < 2 ^ 31" using assms(2) True by (simp add: nat_less_iff)
  then have "mem_brk s + nat incr < 2 ^ 32"
    using assms(1) by (simp add: mem_wf_def)
  then show ?thesis using True by (auto simp: mem_sbrk_def)
next
  case False
  then show ?thesis by (simp add: mem_sbrk_def)
qed

lemma mem_sbrk_wf [inv_intros]:
  assumes "mem_wf s" and "incr < 2 ^ 31"
  shows "mem_wf (fst (mem_sbrk s incr))"
  using assms by (auto simp: mem_sbrk_wf_eq mem_wf_def)

text \<open>
  On a well-formed simulated heap, \<^verbatim>\<open>mem_sbrk\<close> either fails and changes nothing, exactly
  when the increment is negative or does not fit below the limit, or returns the old break and
  moves the break up by exactly the increment: the areas it hands out are adjacent, disjoint
  and inside the heap.
\<close>

theorem mem_sbrk_correct:
  assumes "mem_wf s" and "incr < 2 ^ 31"
  shows "mem_sbrk s incr = (s, None) \<and>
           (incr < 0 \<or> int (mem_max_addr s) - int (mem_brk s) < incr) \<or>
         (\<exists>s'. mem_sbrk s incr = (s', Some (mem_brk s)) \<and> 0 \<le> incr \<and>
           int (mem_brk s') = int (mem_brk s) + incr \<and> mem_brk s' \<le> mem_max_addr s \<and>
           mem_start_brk s' = mem_start_brk s \<and> mem_max_addr s' = mem_max_addr s \<and> mem_wf s')"
  using assms mem_sbrk_wf [OF assms] by (auto simp: mem_sbrk_wf_eq)

theorem mem_sbrk_correct_witness:
  "\<exists>s'. mem_sbrk \<lparr>mem_start_brk = 4096, mem_brk = 4096, mem_max_addr = 8192\<rparr> 32 = (s', Some 4096)
     \<and> mem_brk s' = 4128"
proof -
  let ?s = "\<lparr>mem_start_brk = 4096, mem_brk = 4096, mem_max_addr = 8192\<rparr> :: memlib"
  have "mem_wf ?s" by (simp add: mem_wf_def)
  from mem_sbrk_correct [OF this, of 32] show ?thesis by auto
qed

text \<open>
  The \<^verbatim>\<open>size_t\<close> variant accepts what the other one refuses: an increment that stands for a
  negative number wraps around and moves the break down, although the comment above it says
  that the heap cannot be shrunk.
\<close>

lemma mem_sbrk5_shrinks:
  "mem_sbrk5 \<lparr>mem_start_brk = 4096, mem_brk = 4128, mem_max_addr = 8192\<rparr> (- 8)
     = (\<lparr>mem_start_brk = 4096, mem_brk = 4120, mem_max_addr = 8192\<rparr>, Some 4128)"
  by (simp add: mem_sbrk5_def)

end
