(* ===== verification/MmMem.thy ===== *)
theory MmMem
  imports Memlib
begin

unbundle bit_operations_syntax

text \<open>
  The memory of the 32-bit allocators (\<^verbatim>\<open>mm.c\<close>, \<^verbatim>\<open>mm-2014-17831.c\<close>) and the macros with
  which they read and write it.

  The state is the simulated memory system, its bytes, and the two global pointers.  A word
  access is checked: outside of the storage of the simulated memory system it is undefined
  behaviour (in practice a fault), and the model returns \<open>None\<close>.  Pointers are natural
  numbers; a pointer subtraction that would leave the address space gives \<open>0\<close>, which is
  outside of the storage, so the next access through it is refused.
\<close>

record mmst =
  lib :: memlib
  mem :: "nat \<Rightarrow> 8 word"
  heap_listp :: nat
  free_listp :: nat

definition ALIGNMENT :: nat where "ALIGNMENT = 8"
definition WSIZE :: nat where "WSIZE = 4"
definition DSIZE :: nat where "DSIZE = 8"
definition FSIZE :: nat where "FSIZE = 24"
definition CHUNKSIZE :: nat where "CHUNKSIZE = 2 ^ 12"

lemmas mm_consts = ALIGNMENT_def WSIZE_def DSIZE_def FSIZE_def CHUNKSIZE_def

text \<open>The little-endian word at an address, and the store of one.\<close>

definition rd4 :: "(nat \<Rightarrow> 8 word) \<Rightarrow> nat \<Rightarrow> nat" where
  "rd4 m p = unat (m p) + 256 * unat (m (p + 1)) + 65536 * unat (m (p + 2))
     + 16777216 * unat (m (p + 3))"

definition wr4 :: "(nat \<Rightarrow> 8 word) \<Rightarrow> nat \<Rightarrow> nat \<Rightarrow> (nat \<Rightarrow> 8 word)" where
  "wr4 m p v = m(p := of_nat v, p + 1 := of_nat (v div 256), p + 2 := of_nat (v div 65536),
     p + 3 := of_nat (v div 16777216))"

definition valid :: "mmst \<Rightarrow> nat \<Rightarrow> bool" where
  "valid s p \<longleftrightarrow> mem_start_brk (lib s) \<le> p \<and> p + 4 \<le> mem_max_addr (lib s)"

definition GET :: "mmst \<Rightarrow> nat \<Rightarrow> nat option" where
  "GET s p = (if valid s p then Some (rd4 (mem s) p) else None)"

definition PUT :: "mmst \<Rightarrow> nat \<Rightarrow> nat \<Rightarrow> mmst option" where
  "PUT s p v = (if valid s p then Some (s\<lparr>mem := wr4 (mem s) p v\<rparr>) else None)"

definition SET_PTR :: "mmst \<Rightarrow> nat \<Rightarrow> nat \<Rightarrow> mmst option" where
  "SET_PTR s p v = PUT s p v"

definition PACK :: "nat \<Rightarrow> nat \<Rightarrow> nat" where
  "PACK sz alloc = sz OR alloc"

definition GET_SIZE :: "mmst \<Rightarrow> nat \<Rightarrow> nat option" where
  "GET_SIZE s p = do { v \<leftarrow> GET s p; Some (v AND 0xFFFFFFF8) }"

definition GET_ALLOC :: "mmst \<Rightarrow> nat \<Rightarrow> nat option" where
  "GET_ALLOC s p = do { v \<leftarrow> GET s p; Some (v AND 1) }"

definition HDRP :: "nat \<Rightarrow> nat" where
  "HDRP bp = bp - WSIZE"

definition FTRP :: "mmst \<Rightarrow> nat \<Rightarrow> nat option" where
  "FTRP s bp = do { z \<leftarrow> GET_SIZE s (HDRP bp); Some (bp + z - DSIZE) }"

definition NEXT_BLKP :: "mmst \<Rightarrow> nat \<Rightarrow> nat option" where
  "NEXT_BLKP s bp = do { z \<leftarrow> GET_SIZE s (bp - WSIZE); Some (bp + z) }"

definition PREV_BLKP :: "mmst \<Rightarrow> nat \<Rightarrow> nat option" where
  "PREV_BLKP s bp = do { z \<leftarrow> GET_SIZE s (bp - DSIZE); Some (bp - z) }"

definition NEXT_FREEP :: "nat \<Rightarrow> nat" where
  "NEXT_FREEP bp = bp"

definition PREV_FREEP :: "nat \<Rightarrow> nat" where
  "PREV_FREEP bp = bp + WSIZE"

definition NEXT_FREE :: "mmst \<Rightarrow> nat \<Rightarrow> nat option" where
  "NEXT_FREE s bp = GET s bp"

definition PREV_FREE :: "mmst \<Rightarrow> nat \<Rightarrow> nat option" where
  "PREV_FREE s bp = GET s (PREV_FREEP bp)"

text \<open>The adjusted block size: \<^verbatim>\<open>size_t\<close> arithmetic of 32 bits.\<close>

definition get_asize :: "nat \<Rightarrow> nat" where
  "get_asize sz =
     (if sz \<le> DSIZE then 2 * DSIZE
      else DSIZE * (((sz + DSIZE + (DSIZE - 1)) mod 2 ^ 32) div DSIZE))"

text \<open>The conversion of a \<^verbatim>\<open>size_t\<close> to the \<^verbatim>\<open>int\<close> parameter of \<^verbatim>\<open>mem_sbrk\<close>.\<close>

definition to_int32 :: "nat \<Rightarrow> int" where
  "to_int32 n = (if n mod 2 ^ 32 < 2 ^ 31 then int (n mod 2 ^ 32) else int (n mod 2 ^ 32) - 2 ^ 32)"

section \<open>Reading what was written\<close>

lemma rd4_less: "rd4 m p < 2 ^ 32"
proof -
  have "unat (m q) < 256" for q using unsigned_less [of "m q"] by simp
  from this [of p] this [of "p + 1"] this [of "p + 2"] this [of "p + 3"]
  have "rd4 m p < 4294967296" unfolding rd4_def by linarith
  then show ?thesis by simp
qed

lemma unat_of_nat_byte: "unat (of_nat v :: 8 word) = v mod 256"
  by (simp add: unat_of_nat)

lemma rd4_wr4_same: "rd4 (wr4 m p v) p = v mod 2 ^ 32"
proof -
  have "v mod (256 * 16777216) = 256 * (v div 256 mod 16777216) + v mod 256"
    "v div 256 mod (256 * 65536) = 256 * (v div 256 div 256 mod 65536) + v div 256 mod 256"
    "v div 65536 mod (256 * 256) = 256 * (v div 65536 div 256 mod 256) + v div 65536 mod 256"
    by (rule mod_mult2_eq)+
  moreover have "v div 256 div 256 = v div 65536" "v div 65536 div 256 = v div 16777216"
    by (simp_all add: div_mult2_eq [symmetric])
  ultimately have "v mod 2 ^ 32 = v mod 256 + 256 * (v div 256 mod 256) + 65536 * (v div 65536 mod 256)
      + 16777216 * (v div 16777216 mod 256)"
    by simp
  then show ?thesis by (simp add: rd4_def wr4_def unat_of_nat_byte)
qed

lemma rd4_wr4_other: "p + 4 \<le> q \<or> q + 4 \<le> p \<Longrightarrow> rd4 (wr4 m p v) q = rd4 m q"
  by (auto simp: rd4_def wr4_def)

text \<open>
  The heap as the allocator sees it: the word at every aligned address.  A store to an aligned
  address is then an update of that function at one point.
\<close>

definition aw :: "mmst \<Rightarrow> nat \<Rightarrow> nat" where
  "aw s p = (if 4 dvd p then rd4 (mem s) p else 0)"

definition put :: "mmst \<Rightarrow> nat \<Rightarrow> nat \<Rightarrow> mmst" where
  "put s p v = s\<lparr>mem := wr4 (mem s) p v\<rparr>"

lemma aw_put [simp]:
  assumes "4 dvd p"
  shows "aw (put s p v) = (aw s)(p := v mod 2 ^ 32)"
proof
  fix q
  show "aw (put s p v) q = ((aw s)(p := v mod 2 ^ 32)) q"
  proof (cases "q = p \<or> \<not> 4 dvd q")
    case True
    then show ?thesis using assms by (auto simp: aw_def put_def rd4_wr4_same)
  next
    case False
    then have "p + 4 \<le> q \<or> q + 4 \<le> p" using assms by presburger
    then show ?thesis using False assms by (auto simp: aw_def put_def rd4_wr4_other)
  qed
qed

lemma aw_less [simp]: "aw s p < 4294967296"
  using rd4_less [of "mem s" p] by (simp add: aw_def)

lemma put_simps [simp]:
  "lib (put s p v) = lib s" "heap_listp (put s p v) = heap_listp s"
  "free_listp (put s p v) = free_listp s" "valid (put s p v) q = valid s q"
  by (simp_all add: put_def valid_def)

lemma put_mem_other: "q < p \<or> p + 4 \<le> q \<Longrightarrow> mem (put s p v) q = mem s q"
  by (auto simp: put_def wr4_def)

lemma GET_aw: "valid s p \<Longrightarrow> 4 dvd p \<Longrightarrow> GET s p = Some (aw s p)"
  by (simp add: GET_def aw_def)

lemma PUT_put: "valid s p \<Longrightarrow> PUT s p v = Some (put s p v)"
  by (simp add: PUT_def put_def)

section \<open>Tags\<close>

lemma and_not7: "v < 2 ^ 32 \<Longrightarrow> v AND 0xFFFFFFF8 = 8 * (v div 8)" for v :: nat
proof -
  assume v: "v < 2 ^ 32"
  have k: "(0xFFFFFFF8 :: nat) = push_bit 3 (mask 29)"
    by (simp add: mask_eq_exp_minus_1 push_bit_eq_mult)
  have "v AND push_bit 3 (mask 29) = push_bit 3 (drop_bit 3 v AND mask 29)"
    by (rule bit_eqI) (auto simp: bit_and_iff bit_push_bit_iff bit_drop_bit_eq)
  also have "drop_bit 3 v AND mask 29 = v div 8"
    using v by (simp add: drop_bit_eq_div take_bit_eq_mask [symmetric] take_bit_eq_mod)
  finally show ?thesis by (simp add: k push_bit_eq_mult)
qed

definition tg :: "nat \<Rightarrow> bool \<Rightarrow> nat" where
  "tg z al = z + of_bool al"

lemma dvd8_mod2: "8 dvd z \<Longrightarrow> z mod 2 = 0" for z :: nat
  by presburger

lemma PACK_tg: "8 dvd z \<Longrightarrow> PACK z 0 = tg z False" "8 dvd z \<Longrightarrow> PACK z 1 = tg z True"
  using or_one_eq [of z] by (auto simp: PACK_def tg_def dest: dvd8_mod2)

lemma tg_size: "8 dvd z \<Longrightarrow> z < 2 ^ 32 \<Longrightarrow> tg z al AND 0xFFFFFFF8 = z"
  by (subst and_not7) (auto simp: tg_def elim!: dvdE)

lemma tg_alloc: "8 dvd z \<Longrightarrow> tg z al AND 1 = of_bool al"
  using and_one_eq [of "tg z al"] dvd8_mod2 [of z] by (auto simp: tg_def mod_Suc)

lemma GET_SIZE_tg:
  "valid s p \<Longrightarrow> 4 dvd p \<Longrightarrow> aw s p = tg z al \<Longrightarrow> 8 dvd z \<Longrightarrow> z < 2 ^ 32 \<Longrightarrow>
     GET_SIZE s p = Some z"
  by (simp add: GET_SIZE_def GET_aw tg_size)

lemma GET_ALLOC_tg:
  "valid s p \<Longrightarrow> 4 dvd p \<Longrightarrow> aw s p = tg z al \<Longrightarrow> 8 dvd z \<Longrightarrow>
     GET_ALLOC s p = Some (of_bool al)"
  using tg_alloc [of z al] by (simp add: GET_ALLOC_def GET_aw del: and_one_eq)

section \<open>The adjusted size\<close>

lemma get_asize_bounds:
  assumes "0 < sz" and "sz < 2 ^ 32 - 15"
  shows "16 \<le> get_asize sz" and "8 dvd get_asize sz" and "sz + 8 \<le> get_asize sz"
    and "get_asize sz < sz + 16"
proof -
  have "get_asize sz = (if sz \<le> 8 then 16 else 8 * ((sz + 15) div 8))"
    using assms by (simp add: get_asize_def mm_consts add.commute)
  then show "16 \<le> get_asize sz" "8 dvd get_asize sz" "sz + 8 \<le> get_asize sz"
    "get_asize sz < sz + 16"
    using assms(1) by (auto; presburger)+
qed

text \<open>Near the top of \<^verbatim>\<open>size_t\<close> the rounding wraps around and the block is too small.\<close>

lemma get_asize_wraps: "get_asize (2 ^ 32 - 1) = 8"
  by (simp add: get_asize_def mm_consts)

end
