(* ===== verification/MmShared.thy ===== *)
theory MmShared
  imports MmMem
begin

text \<open>
  The code that \<^verbatim>\<open>sp_03_malloclab/src/mm-2014-17831.c\<close> and \<^verbatim>\<open>sp_03_malloclab/src/mm.c\<close> share word for word: the four-case
  coalescing, growing the heap, placing a block, and the interface.  The operations on the free list
  that the two files define in their own ways are arguments: \<open>rm\<close> and \<open>ins\<close> for \<^verbatim>\<open>remove_block\<close> and
  \<^verbatim>\<open>insert_block\<close>, \<open>fit\<close> for \<^verbatim>\<open>find_fit\<close>.

  Every function is a definition over the state of theory \<open>MmMem\<close>.  A result \<open>None\<close> means an access
  outside of the storage, or a loop that does not end.  A pointer result \<open>0\<close> is NULL.
\<close>

type_synonym list_op = "mmst \<Rightarrow> nat \<Rightarrow> mmst option"
type_synonym fit_op = "mmst \<Rightarrow> nat \<Rightarrow> nat option"

section \<open>Coalescing, extending and placing\<close>

text \<open>The four cases, and then the insertion of the merged block into the free list.\<close>

definition merge_with :: "list_op \<Rightarrow> mmst \<Rightarrow> nat \<Rightarrow> (mmst \<times> nat) option" where
  "merge_with rm s bp = do {
     pb \<leftarrow> PREV_BLKP s bp;
     pf \<leftarrow> FTRP s pb;
     pa \<leftarrow> GET_ALLOC s pf;
     nb \<leftarrow> NEXT_BLKP s bp;
     na \<leftarrow> GET_ALLOC s (HDRP nb);
     sz \<leftarrow> GET_SIZE s (HDRP bp);
     let prev_alloc = (pa \<noteq> 0 \<or> pb = bp);
     let next_alloc = (na \<noteq> 0);
     if prev_alloc \<and> next_alloc then Some (s, bp)
      else if prev_alloc \<and> \<not> next_alloc then do {
          nz \<leftarrow> GET_SIZE s (HDRP nb);
          let sz = sz + nz;
          s \<leftarrow> rm s nb;
          s \<leftarrow> PUT s (HDRP bp) (PACK sz 0);
          f \<leftarrow> FTRP s bp;
          s \<leftarrow> PUT s f (PACK sz 0);
          Some (s, bp) }
      else if \<not> prev_alloc \<and> next_alloc then do {
          pz \<leftarrow> GET_SIZE s (HDRP pb);
          let sz = sz + pz;
          s \<leftarrow> rm s pb;
          f \<leftarrow> FTRP s bp;
          s \<leftarrow> PUT s f (PACK sz 0);
          pb \<leftarrow> PREV_BLKP s bp;
          s \<leftarrow> PUT s (HDRP pb) (PACK sz 0);
          pb \<leftarrow> PREV_BLKP s bp;
          Some (s, pb) }
      else do {
          pz \<leftarrow> GET_SIZE s (HDRP pb);
          nf \<leftarrow> FTRP s nb;
          nz \<leftarrow> GET_SIZE s nf;
          let sz = sz + (pz + nz);
          s \<leftarrow> rm s nb;
          pb \<leftarrow> PREV_BLKP s bp;
          s \<leftarrow> rm s pb;
          pb \<leftarrow> PREV_BLKP s bp;
          s \<leftarrow> PUT s (HDRP pb) (PACK sz 0);
          nb \<leftarrow> NEXT_BLKP s bp;
          f \<leftarrow> FTRP s nb;
          s \<leftarrow> PUT s f (PACK sz 0);
          pb \<leftarrow> PREV_BLKP s bp;
          Some (s, pb) } }"

definition coalesce_with :: "list_op \<Rightarrow> list_op \<Rightarrow> mmst \<Rightarrow> nat \<Rightarrow> (mmst \<times> nat) option" where
  "coalesce_with rm ins s bp = do {
     (s, bp) \<leftarrow> merge_with rm s bp;
     s \<leftarrow> ins s bp;
     Some (s, bp) }"

text \<open>The result \<open>0\<close> is NULL: the simulated memory system has no more memory.\<close>

definition extend_with :: "list_op \<Rightarrow> list_op \<Rightarrow> mmst \<Rightarrow> nat \<Rightarrow> (mmst \<times> nat) option" where
  "extend_with rm ins s words =
     (let sz = (if words mod 2 \<noteq> 0 then (words + 1) * WSIZE else words * WSIZE) in
      case mem_sbrk (lib s) (to_int32 sz) of
        (l, None) \<Rightarrow> Some (s\<lparr>lib := l\<rparr>, 0)
      | (l, Some bp) \<Rightarrow> do {
          let s = s\<lparr>lib := l\<rparr>;
          s \<leftarrow> PUT s (HDRP bp) (PACK sz 0);
          f \<leftarrow> FTRP s bp;
          s \<leftarrow> PUT s f (PACK sz 0);
          nb \<leftarrow> NEXT_BLKP s bp;
          s \<leftarrow> PUT s (HDRP nb) (PACK 0 1);
          coalesce_with rm ins s bp })"

definition place_with :: "list_op \<Rightarrow> list_op \<Rightarrow> mmst \<Rightarrow> nat \<Rightarrow> nat \<Rightarrow> mmst option" where
  "place_with rm ins s bp asize = do {
     csize \<leftarrow> GET_SIZE s (HDRP bp);
     let rest = (csize + 2 ^ 32 - asize) mod 2 ^ 32;
     if rest > FSIZE then do {
       s \<leftarrow> PUT s (HDRP bp) (PACK asize 1);
       f \<leftarrow> FTRP s bp;
       s \<leftarrow> PUT s f (PACK asize 1);
       s \<leftarrow> rm s bp;
       bp \<leftarrow> NEXT_BLKP s bp;
       s \<leftarrow> PUT s (HDRP bp) (PACK rest 0);
       f \<leftarrow> FTRP s bp;
       s \<leftarrow> PUT s f (PACK rest 0);
       (s, _) \<leftarrow> coalesce_with rm ins s bp;
       Some s }
     else do {
       s \<leftarrow> PUT s (HDRP bp) (PACK csize 1);
       f \<leftarrow> FTRP s bp;
       s \<leftarrow> PUT s f (PACK csize 1);
       rm s bp } }"

text \<open>The loop of the two versions of \<^verbatim>\<open>find_fit\<close> over a list.\<close>

partial_function (option) find_fit_from :: "mmst \<Rightarrow> nat \<Rightarrow> nat \<Rightarrow> nat option" where
  "find_fit_from s asize bp =
     (if NEXT_FREEP bp = 0 then Some 0
      else do {
        a \<leftarrow> GET_ALLOC s (HDRP bp);
        z \<leftarrow> GET_SIZE s (HDRP bp);
        if a = 0 \<and> asize \<le> z then Some bp
        else do { nx \<leftarrow> NEXT_FREE s bp; find_fit_from s asize nx } })"

section \<open>The interface\<close>

definition malloc_with :: "list_op \<Rightarrow> list_op \<Rightarrow> fit_op \<Rightarrow> mmst \<Rightarrow> nat \<Rightarrow> (mmst \<times> nat) option" where
  "malloc_with rm ins fit s sz =
     (if sz = 0 then Some (s, 0)
      else do {
        let asize = get_asize sz;
        bp \<leftarrow> fit s asize;
        if bp \<noteq> 0 then do { s \<leftarrow> place_with rm ins s bp asize; Some (s, bp) }
        else do {
          let extendsize = max asize CHUNKSIZE;
          (s, bp) \<leftarrow> extend_with rm ins s (extendsize div WSIZE);
          if bp = 0 then Some (s, 0)
          else do { s \<leftarrow> place_with rm ins s bp asize; Some (s, bp) } } })"

definition free_with :: "list_op \<Rightarrow> list_op \<Rightarrow> mmst \<Rightarrow> nat \<Rightarrow> mmst option" where
  "free_with rm ins s ptr = do {
     z \<leftarrow> GET_SIZE s (HDRP ptr);
     s \<leftarrow> PUT s (HDRP ptr) (PACK z 0);
     f \<leftarrow> FTRP s ptr;
     s \<leftarrow> PUT s f (PACK z 0);
     (s, _) \<leftarrow> coalesce_with rm ins s ptr;
     Some s }"

text \<open>\<^verbatim>\<open>memcpy\<close> of \<open>n\<close> bytes; the areas do not overlap where the code calls it.\<close>

definition memcpy :: "mmst \<Rightarrow> nat \<Rightarrow> nat \<Rightarrow> nat \<Rightarrow> mmst option" where
  "memcpy s dst src n =
     (if n = 0 \<or> (mem_start_brk (lib s) \<le> dst \<and> dst + n \<le> mem_max_addr (lib s) \<and>
         mem_start_brk (lib s) \<le> src \<and> src + n \<le> mem_max_addr (lib s))
      then Some (s\<lparr>mem := (\<lambda>a. if dst \<le> a \<and> a < dst + n then mem s (src + (a - dst)) else mem s a)\<rparr>)
      else None)"

definition realloc_with :: "list_op \<Rightarrow> list_op \<Rightarrow> fit_op \<Rightarrow> mmst \<Rightarrow> nat \<Rightarrow> nat \<Rightarrow> (mmst \<times> nat) option" where
  "realloc_with rm ins fit s ptr sz =
     (if sz = 0 then do { s \<leftarrow> free_with rm ins s ptr; Some (s, 0) }
      else if ptr = 0 then malloc_with rm ins fit s sz
      else do {
        copySize \<leftarrow> GET_SIZE s (HDRP ptr);
        (s, newptr) \<leftarrow> malloc_with rm ins fit s sz;
        if newptr = 0 then Some (s, 0)
        else do {
          s \<leftarrow> memcpy s newptr ptr (min copySize sz);
          s \<leftarrow> free_with rm ins s ptr;
          Some (s, newptr) } })"

end
