(* ===== verification/Blocks.thy ===== *)
theory Blocks
  imports Prelude
begin

text \<open>
  A heap as a sequence of contiguous blocks with their sizes and allocation bits: where the blocks
  start, which are free, and how the sequence splits at a block.  The allocators share it.
\<close>

type_synonym block = "nat \<times> bool"

section \<open>Contiguous blocks\<close>

fun blks :: "nat \<Rightarrow> block list \<Rightarrow> (nat \<times> nat \<times> bool) list" where
  "blks a [] = []"
| "blks a ((z, al) # bs) = (a, z, al) # blks (a + z) bs"

definition tot :: "block list \<Rightarrow> nat" where
  "tot bs = sum_list (map fst bs)"

definition wfb :: "block list \<Rightarrow> bool" where
  "wfb bs \<longleftrightarrow> (\<forall>z al. (z, al) \<in> set bs \<longrightarrow> 16 \<le> z \<and> 8 dvd z)"

definition starts :: "nat \<Rightarrow> block list \<Rightarrow> nat set" where
  "starts a bs = {x. \<exists>z al. (x, z, al) \<in> set (blks a bs)}"

definition frees :: "nat \<Rightarrow> block list \<Rightarrow> nat set" where
  "frees a bs = {x. \<exists>z. (x, z, False) \<in> set (blks a bs)}"

lemma tot_simps [simp]:
  "tot [] = 0" "tot ((z, al) # bs) = z + tot bs" "tot (xs @ ys) = tot xs + tot ys"
  by (simp_all add: tot_def)

lemma wfb_simps [simp]:
  "wfb []" "wfb ((z, al) # bs) \<longleftrightarrow> 16 \<le> z \<and> 8 dvd z \<and> wfb bs"
  "wfb (xs @ ys) \<longleftrightarrow> wfb xs \<and> wfb ys"
  by (auto simp: wfb_def)

lemma blks_append [simp]: "blks a (xs @ ys) = blks a xs @ blks (a + tot xs) ys"
  by (induction a xs rule: blks.induct) (auto simp: add.assoc)

lemma starts_simps [simp]:
  "starts a [] = {}" "starts a ((z, al) # bs) = insert a (starts (a + z) bs)"
  "starts a (xs @ ys) = starts a xs \<union> starts (a + tot xs) ys"
  by (auto simp: starts_def)

lemma frees_simps [simp]:
  "frees a [] = {}"
  "frees a ((z, al) # bs) = (if al then frees (a + z) bs else insert a (frees (a + z) bs))"
  "frees a (xs @ ys) = frees a xs \<union> frees (a + tot xs) ys"
  by (auto simp: frees_def)

lemma frees_starts: "frees a bs \<subseteq> starts a bs"
  by (auto simp: frees_def starts_def)

lemma tot_dvd: "wfb bs \<Longrightarrow> 8 dvd tot bs"
  by (induction bs) auto

lemma blks_bounds:
  "(x, z, al) \<in> set (blks a bs) \<Longrightarrow> wfb bs \<Longrightarrow> 8 dvd a \<Longrightarrow>
     a \<le> x \<and> x + z \<le> a + tot bs \<and> 16 \<le> z \<and> 8 dvd z \<and> 8 dvd x"
  by (induction a bs rule: blks.induct) force+

lemma starts_bounds:
  "x \<in> starts a bs \<Longrightarrow> wfb bs \<Longrightarrow> 8 dvd a \<Longrightarrow> a \<le> x \<and> x + 16 \<le> a + tot bs \<and> 8 dvd x"
  by (auto simp: starts_def dest: blks_bounds)

lemma starts_split: "x \<in> starts a bs \<Longrightarrow> \<exists>xs z al ys. bs = xs @ (z, al) # ys \<and> x = a + tot xs"
proof (induction a bs rule: blks.induct)
  case (2 a z al bs)
  show ?case
  proof (cases "x = a")
    case True
    then show ?thesis by (metis add.right_neutral append_Nil tot_simps(1))
  next
    case False
    with 2 obtain xs w bl ys where "bs = xs @ (w, bl) # ys" "x = a + z + tot xs" by auto
    then have "(z, al) # bs = ((z, al) # xs) @ (w, bl) # ys" "x = a + tot ((z, al) # xs)" by auto
    then show ?thesis by blast
  qed
qed simp

lemma frees_split: "x \<in> frees a bs \<Longrightarrow> \<exists>xs z ys. bs = xs @ (z, False) # ys \<and> x = a + tot xs"
proof (induction a bs rule: blks.induct)
  case (2 a z al bs)
  show ?case
  proof (cases "x = a \<and> \<not> al")
    case True
    then show ?thesis by (metis (full_types) add.right_neutral append_Nil tot_simps(1))
  next
    case False
    with 2 obtain xs w ys where "bs = xs @ (w, False) # ys" "x = a + z + tot xs"
      by (auto split: if_splits)
    then have "(z, al) # bs = ((z, al) # xs) @ (w, False) # ys" "x = a + tot ((z, al) # xs)" by auto
    then show ?thesis by blast
  qed
qed simp

lemma blks_unique:
  "(x, z, al) \<in> set (blks a bs) \<Longrightarrow> (x, w, bl) \<in> set (blks a bs) \<Longrightarrow> wfb bs \<Longrightarrow> z = w \<and> al = bl"
proof (induction a bs rule: blks.induct)
  case (2 a v cl bs)
  have "c + v \<le> y" if "(y, u, dl) \<in> set (blks (c + v) bs)" for y u dl c
    using that by (induction "c + v" bs arbitrary: c v rule: blks.induct) (auto, force)
  then show ?case using 2 by fastforce
qed simp

end
