(* ===== verification/MmHeap.thy ===== *)
theory MmHeap
  imports MmShared Blocks
begin

text \<open>
  The heap of an allocator with boundary tags, abstractly: a list of blocks with their sizes
  and allocation bits, and the list of the blocks that are on the free list.  The theory holds
  the layout predicates, their frame lemmas, and the well-formedness of a heap.
\<close>

section \<open>The tags of contiguous blocks\<close>

definition tagged :: "(nat \<Rightarrow> nat) \<Rightarrow> nat \<Rightarrow> block list \<Rightarrow> bool" where
  "tagged W a bs \<longleftrightarrow> (\<forall>x z al. (x, z, al) \<in> set (blks a bs) \<longrightarrow>
     W (x - 4) = tg z al \<and> W (x + z - 8) = tg z al)"

lemma tagged_simps [simp]:
  "tagged W a []"
  "tagged W a ((z, al) # bs) \<longleftrightarrow>
     W (a - 4) = tg z al \<and> W (a + z - 8) = tg z al \<and> tagged W (a + z) bs"
  "tagged W a (xs @ ys) \<longleftrightarrow> tagged W a xs \<and> tagged W (a + tot xs) ys"
  by (auto simp: tagged_def)

text \<open>A block start is neither a tag address nor the word before one.\<close>

lemma starts_not_tag:
  assumes "f \<in> starts a bs" and "(x, z, al) \<in> set (blks a bs)" and "wfb bs" and "8 dvd a"
    and "8 \<le> a"
  shows "x - 4 \<noteq> f" and "x - 4 \<noteq> f + 4" and "x + z - 8 \<noteq> f" and "x + z - 8 \<noteq> f + 4"
    and "f = x \<or> f + 16 \<le> x \<or> x + z \<le> f"
proof -
  have "f = x \<or> f + 16 \<le> x \<or> x + z \<le> f"
    using assms(1-4)
  proof (induction a bs rule: blks.induct)
    case (2 a w bl bs)
    then show ?case using starts_bounds [of f "a + w" bs] blks_bounds [of x z al "a + w" bs] by auto
  qed simp
  moreover have "16 \<le> z" "8 \<le> x"
    using assms blks_bounds [OF assms(2-4)] by auto
  ultimately show "x - 4 \<noteq> f" "x - 4 \<noteq> f + 4" "x + z - 8 \<noteq> f" "x + z - 8 \<noteq> f + 4"
    "f = x \<or> f + 16 \<le> x \<or> x + z \<le> f"
    by linarith+
qed

section \<open>The doubly linked free list\<close>

fun dll :: "(nat \<Rightarrow> nat) \<Rightarrow> nat \<Rightarrow> nat list \<Rightarrow> bool" where
  "dll W p [] \<longleftrightarrow> W p = 0"
| "dll W p (x # xs) \<longleftrightarrow> x \<noteq> 0 \<and> W p = x \<and> W (x + 4) = p \<and> dll W x xs"

lemma dll_cong:
  "(\<And>q. q \<in> insert p (set xs) \<Longrightarrow> W' q = W q) \<Longrightarrow> (\<And>q. q \<in> set xs \<Longrightarrow> W' (q + 4) = W (q + 4)) \<Longrightarrow>
     dll W' p xs = dll W p xs"
  by (induction W p xs rule: dll.induct) auto

lemma dll_next:
  "dll W p (us @ x # vs) \<Longrightarrow> W x = (case vs of [] \<Rightarrow> 0 | v # _ \<Rightarrow> v) \<and> W (x + 4) = last (p # us) \<and> x \<noteq> 0"
  by (induction us arbitrary: p) (auto split: list.splits)

lemma aligned_ne: "8 dvd p \<Longrightarrow> 8 dvd q \<Longrightarrow> p \<noteq> q + 4" for p q :: nat
  by presburger

text \<open>The two link words of a node do not collide with those of another.\<close>

definition apart :: "nat set \<Rightarrow> bool" where
  "apart A \<longleftrightarrow> (\<forall>p\<in>A. \<forall>q\<in>A. p \<noteq> q + 4)"

lemma apart_D: "apart A \<Longrightarrow> p \<in> A \<Longrightarrow> q \<in> A \<Longrightarrow> p \<noteq> q + 4"
  by (simp add: apart_def)

lemma apart_mono: "apart A \<Longrightarrow> C \<subseteq> A \<Longrightarrow> apart C"
  by (auto simp: apart_def)

lemma apart_aligned: "\<forall>q\<in>A. 8 dvd q \<Longrightarrow> apart A"
  by (simp add: apart_def aligned_ne)

lemma dll_remove_last:
  assumes "dll W p (us @ [x])" and "distinct (p # us @ [x])" and "apart (set (p # us @ [x]))"
  shows "dll (W(last (p # us) := 0)) p us"
  using assms
proof (induction us arbitrary: p)
  case (Cons u us)
  define l W' where "l = last (u # us)" and "W' = W(l := 0)"
  have "apart (set (u # us @ [x]))" using Cons.prems(3) by (rule apart_mono) auto
  then have "dll W' u us"
    unfolding l_def W'_def by (intro Cons.IH) (use Cons.prems in auto)
  moreover have l: "l \<in> set (u # us)" unfolding l_def by (rule last_in_set) simp
  then have "p \<noteq> l" using Cons.prems by auto
  moreover have "l \<noteq> u + 4" by (rule apart_D [OF Cons.prems(3)]) (use l in auto)
  ultimately have "dll W' p (u # us)" using Cons.prems(1) by (auto simp: W'_def)
  moreover have "last (p # u # us) = l" by (simp add: l_def)
  ultimately show ?case unfolding W'_def by metis
qed simp

lemma dll_remove_mid:
  assumes "dll W p (us @ x # v # vs)" and "distinct (p # us @ x # v # vs)"
    and "apart (set (p # us @ x # v # vs))"
  shows "dll (W(last (p # us) := v, v + 4 := last (p # us))) p (us @ v # vs)"
  using assms
proof (induction us arbitrary: p)
  case Nil
  note A = apart_D [OF Nil.prems(3)]
  have "dll (W(p := v, v + 4 := p)) v vs = dll W v vs"
  proof (rule dll_cong)
    fix q assume q: "q \<in> insert v (set vs)"
    then have "q \<noteq> p" using Nil.prems by auto
    moreover have "q \<noteq> v + 4" by (rule A) (use q in auto)
    ultimately show "(W(p := v, v + 4 := p)) q = W q" by simp
  next
    fix q assume q: "q \<in> set vs"
    then have "q \<noteq> v" using Nil.prems by auto
    moreover have "p \<noteq> q + 4" by (rule A) (use q in auto)
    ultimately show "(W(p := v, v + 4 := p)) (q + 4) = W (q + 4)" by simp
  qed
  moreover have "p \<noteq> v + 4" by (rule A) auto
  moreover define W' where "W' = W(p := v, v + 4 := p)"
  ultimately have "dll W' p (v # vs)" using Nil.prems by simp
  then show ?case unfolding W'_def by (metis append_Nil last_ConsL)
next
  case (Cons u us)
  define l W' where "l = last (u # us)" and "W' = W(l := v, v + 4 := l)"
  note A = apart_D [OF Cons.prems(3)]
  have "apart (set (u # us @ x # v # vs))" using Cons.prems(3) by (rule apart_mono) auto
  then have "dll W' u (us @ v # vs)"
    unfolding l_def W'_def by (intro Cons.IH) (use Cons.prems in auto)
  moreover have l: "l \<in> set (u # us)" unfolding l_def by (rule last_in_set) simp
  then have "p \<noteq> l" and "u \<noteq> v" using Cons.prems by auto
  moreover have "l \<noteq> u + 4" by (rule A) (use l in auto)
  moreover have "p \<noteq> v + 4" by (rule A) auto
  ultimately have "dll W' p (u # us @ v # vs)" using Cons.prems(1) by (auto simp: W'_def)
  moreover have "last (p # u # us) = l" by (simp add: l_def)
  ultimately show ?case unfolding W'_def by (metis append_Cons)
qed

text \<open>A new node behind the node \<open>p\<close>, which is the head or a node of the list.\<close>

lemma dll_insert_empty:
  assumes "dll W p []" and "p \<noteq> x" and "p \<noteq> x + 4" and "x \<noteq> 0"
  shows "dll (W(x + 4 := p, x := 0, p := x)) p [x]"
  using assms by simp

lemma dll_insert_cons:
  assumes "dll W p (v # vs)" and "distinct (p # x # v # vs)"
    and "apart (set (p # x # v # vs))" and "x \<noteq> 0"
  shows "dll (W(x + 4 := p, x := v, v + 4 := x, p := x)) p (x # v # vs)"
proof -
  let ?W = "W(x + 4 := p, x := v, v + 4 := x, p := x)"
  note A = apart_D [OF assms(3)]
  have ne: "x \<noteq> v" "p \<noteq> v" "p \<noteq> x" using assms by auto
  have "dll ?W v vs = dll W v vs"
  proof (rule dll_cong)
    fix q assume q: "q \<in> insert v (set vs)"
    then have "q \<noteq> x" "q \<noteq> p" using assms by auto
    moreover have "q \<noteq> x + 4" "q \<noteq> v + 4" by (rule A; use q in auto)+
    ultimately show "?W q = W q" by simp
  next
    fix q assume q: "q \<in> set vs"
    then have "q \<noteq> x" "q \<noteq> v" using assms by auto
    moreover have "x \<noteq> q + 4" "p \<noteq> q + 4" by (rule A; use q in auto)+
    ultimately show "?W (q + 4) = W (q + 4)" by simp
  qed
  moreover have "p \<noteq> x + 4" "p \<noteq> v + 4" "x \<noteq> v + 4" by (rule A; simp)+
  ultimately show ?thesis using assms ne by simp
qed

section \<open>Well-formed heaps\<close>

text \<open>
  The heap starts at \<open>B\<close>: the word at \<open>B + 4\<close> is a tag of the prologue block, the first
  block is at \<open>B + 32\<close>, the word at \<open>B + 24\<close> is the zero that \<^verbatim>\<open>PREV_BLKP\<close> of the first block
  reads, and the epilogue header is the last word below the break.
\<close>

text \<open>
  How an allocator organises its free blocks: the heap starts \<open>fl_off\<close> bytes above the storage, \<open>fl_heads\<close>
  are the addresses of the words that head the free lists, \<open>fl_start\<close> is the value of \<^verbatim>\<open>free_listp\<close>,
  and \<open>fl_links W B fl\<close> says that in the words \<open>W\<close> of the heap at \<open>B\<close> the blocks of \<open>fl\<close> are linked.
\<close>

record flist =
  fl_off :: nat
  fl_heads :: "nat \<Rightarrow> nat set"
  fl_start :: "nat \<Rightarrow> nat"
  fl_links :: "(nat \<Rightarrow> nat) \<Rightarrow> nat \<Rightarrow> nat list \<Rightarrow> bool"

definition layout :: "flist \<Rightarrow> (nat \<Rightarrow> nat) \<Rightarrow> nat \<Rightarrow> nat \<Rightarrow> block list \<Rightarrow> nat list \<Rightarrow> bool" where
  "layout P W B brk bs fl \<longleftrightarrow> wfb bs \<and> brk = B + 32 + tot bs \<and> W (B + 4) = tg 24 True \<and>
     W (B + 24) = 0 \<and> W (brk - 4) = 1 \<and> tagged W (B + 32) bs \<and> fl_links P W B fl \<and> distinct fl \<and>
     set fl \<subseteq> starts (B + 32) bs"

definition base :: "flist \<Rightarrow> mmst \<Rightarrow> nat" where
  "base P s = mem_start_brk (lib s) + fl_off P"

definition hp0 :: "flist \<Rightarrow> mmst \<Rightarrow> block list \<Rightarrow> nat list \<Rightarrow> bool" where
  "hp0 P s bs fl \<longleftrightarrow> mem_wf (lib s) \<and> 8 dvd base P s \<and> free_listp s = fl_start P (base P s) \<and>
     layout P (aw s) (base P s) (mem_brk (lib s)) bs fl"

text \<open>No two neighbours are both free.\<close>

fun coalesced :: "block list \<Rightarrow> bool" where
  "coalesced ((_, al) # (w, bl) # bs) \<longleftrightarrow> (al \<or> bl) \<and> coalesced ((w, bl) # bs)"
| "coalesced _ \<longleftrightarrow> True"

definition heap_ok :: "flist \<Rightarrow> mmst \<Rightarrow> block list \<Rightarrow> nat list \<Rightarrow> bool" where
  "heap_ok P s bs fl \<longleftrightarrow> hp0 P s bs fl \<and> set fl = frees (base P s + 32) bs \<and> coalesced bs"

text \<open>Everything but the bytes is unchanged.\<close>

definition ctl :: "mmst \<Rightarrow> mmst \<Rightarrow> bool" where
  "ctl s s' \<longleftrightarrow> lib s' = lib s \<and> free_listp s' = free_listp s \<and> heap_listp s' = heap_listp s"

text \<open>The bytes of a set of addresses are unchanged.\<close>

definition keeps :: "nat set \<Rightarrow> mmst \<Rightarrow> mmst \<Rightarrow> bool" where
  "keeps A s s' \<longleftrightarrow> (\<forall>q\<in>A. mem s' q = mem s q)"

lemma ctl_refl [simp]: "ctl s s" and ctl_trans: "ctl s t \<Longrightarrow> ctl t u \<Longrightarrow> ctl s u"
  by (auto simp: ctl_def)

lemma ctl_put [simp]: "ctl s (put s p v)"
  by (simp add: ctl_def)

lemma ctl_put_iff [simp]: "ctl t (put s p v) = ctl t s"
  by (simp add: ctl_def)

lemma keeps_refl [simp]: "keeps A s s"
  and keeps_trans: "keeps A s t \<Longrightarrow> keeps A t u \<Longrightarrow> keeps A s u"
  and keeps_mono: "keeps A s t \<Longrightarrow> C \<subseteq> A \<Longrightarrow> keeps C s t"
  by (auto simp: keeps_def)

lemma keeps_put:
  "keeps A t s \<Longrightarrow> (\<And>q. q \<in> A \<Longrightarrow> q < p \<or> p + 4 \<le> q) \<Longrightarrow> keeps A t (put s p v)"
  by (simp add: keeps_def put_mem_other)

lemma ctl_simps:
  "ctl s t \<Longrightarrow> base P t = base P s" "ctl s t \<Longrightarrow> valid t p = valid s p"
  by (auto simp: ctl_def base_def valid_def)

lemma layout_bounds:
  assumes "layout P W B brk bs fl" and "8 dvd B" and "(x, z, al) \<in> set (blks (B + 32) bs)"
  shows "B + 32 \<le> x" "x + z \<le> brk" "16 \<le> z" "8 dvd z" "8 dvd x"
  using assms blks_bounds [of x z al "B + 32" bs] by (auto simp: layout_def)

end
