(* ===== verification/MmFreeList.thy ===== *)
theory MmFreeList
  imports MmHeap
begin

text \<open>
  The free list on a well-formed heap: the contract that \<^verbatim>\<open>insert_block\<close> and \<^verbatim>\<open>remove_block\<close> of an allocator
  have to meet, a locale, and what follows for the heap.
\<close>

section \<open>Blocks as free-list nodes\<close>

definition node :: "mmst \<Rightarrow> nat \<Rightarrow> bool" where
  "node s f \<longleftrightarrow> 8 dvd f \<and> 0 < f \<and> f < 2 ^ 31 \<and> valid s f \<and> valid s (f + 4)"

lemma node_put [simp]: "node (put s p v) f = node s f"
  by (simp add: node_def)

lemma dvd8_dvd4: "8 dvd f \<Longrightarrow> 4 dvd f" "8 dvd f \<Longrightarrow> 4 dvd f + 4" for f :: nat
  by presburger+

lemma node_get:
  "node s f \<Longrightarrow> NEXT_FREE s f = Some (aw s f)" "node s f \<Longrightarrow> PREV_FREE s f = Some (aw s (f + 4))"
  by (auto simp: node_def NEXT_FREE_def PREV_FREE_def PREV_FREEP_def WSIZE_def GET_aw dvd8_dvd4)

lemma node_set:
  "node s f \<Longrightarrow> SET_PTR s f v = Some (put s f v)"
  "node s f \<Longrightarrow> SET_PTR s (PREV_FREEP f) v = Some (put s (f + 4) v)"
  by (auto simp: node_def SET_PTR_def PREV_FREEP_def WSIZE_def PUT_put)

lemma aw_put_node:
  "node s f \<Longrightarrow> v < 2 ^ 32 \<Longrightarrow> aw (put s f v) = (aw s)(f := v)"
  "node s f \<Longrightarrow> v < 2 ^ 32 \<Longrightarrow> aw (put s (f + 4) v) = (aw s)(f + 4 := v)"
  by (auto simp: node_def dvd8_dvd4)

lemma node_D: "node s f \<Longrightarrow> 8 dvd f" "node s f \<Longrightarrow> f < 2 ^ 32" "node s f \<Longrightarrow> f \<noteq> 0"
  by (auto simp: node_def)

text \<open>The word that heads a list can be read and written like the first word of a node.\<close>

definition cell :: "mmst \<Rightarrow> nat \<Rightarrow> bool" where
  "cell s f \<longleftrightarrow> 4 dvd f \<and> 0 < f \<and> f < 2 ^ 31 \<and> valid s f"

lemma cell_put [simp]: "cell (put s p v) f = cell s f"
  by (simp add: cell_def)

lemma node_cell: "node s f \<Longrightarrow> cell s f"
  by (auto simp: node_def cell_def dvd8_dvd4)

lemma cell_get: "cell s f \<Longrightarrow> NEXT_FREE s f = Some (aw s f)"
  by (simp add: cell_def NEXT_FREE_def GET_aw)

lemma cell_set: "cell s f \<Longrightarrow> SET_PTR s f v = Some (put s f v)"
  by (simp add: cell_def SET_PTR_def PUT_put)

lemma aw_put_cell: "cell s f \<Longrightarrow> v < 2 ^ 32 \<Longrightarrow> aw (put s f v) = (aw s)(f := v)"
  by (simp add: cell_def)

lemma cell_D: "cell s f \<Longrightarrow> f < 2 ^ 32" "cell s f \<Longrightarrow> f \<noteq> 0"
  by (auto simp: cell_def)

text \<open>The bytes outside of the links of the nodes of a list.\<close>

definition off_links :: "nat set \<Rightarrow> nat set" where
  "off_links A = {q. \<forall>f\<in>A. q < f \<or> f + 8 \<le> q}"

lemma keeps_link:
  "keeps (off_links A) t s \<Longrightarrow> f \<in> A \<Longrightarrow> keeps (off_links A) t (put s f v)"
  "keeps (off_links A) t s \<Longrightarrow> f \<in> A \<Longrightarrow> keeps (off_links A) t (put s (f + 4) v)"
  by (rule keeps_put; force simp: off_links_def)+

definition link_change :: "nat set \<Rightarrow> mmst \<Rightarrow> mmst \<Rightarrow> bool" where
  "link_change A s s' \<longleftrightarrow> ctl s s' \<and> keeps (off_links A) s s' \<and>
     (\<forall>q. aw s' q \<noteq> aw s q \<longrightarrow> (\<exists>f\<in>A. q = f \<or> q = f + 4))"

lemma link_change_refl [simp]: "link_change A s s"
  by (simp add: link_change_def)

lemma link_change_put:
  "link_change A t s \<Longrightarrow> f \<in> A \<Longrightarrow> node s f \<Longrightarrow> v < 2 ^ 32 \<Longrightarrow> link_change A t (put s f v)"
  "link_change A t s \<Longrightarrow> f \<in> A \<Longrightarrow> node s f \<Longrightarrow> v < 2 ^ 32 \<Longrightarrow> link_change A t (put s (f + 4) v)"
  by (auto simp: link_change_def keeps_link aw_put_node split: if_splits)

lemma link_change_cell:
  "link_change A t s \<Longrightarrow> f \<in> A \<Longrightarrow> cell s f \<Longrightarrow> v < 2 ^ 32 \<Longrightarrow> link_change A t (put s f v)"
  by (auto simp: link_change_def keeps_link aw_put_cell split: if_splits)

lemma link_change_mono:
  "link_change A s t \<Longrightarrow> A \<subseteq> C \<Longrightarrow> link_change C s t"
  unfolding link_change_def by (fastforce elim: keeps_mono simp: off_links_def)

section \<open>The contract of the operations on the free list\<close>

text \<open>
  The situation in which they are called: the heads and the nodes can be written, the nodes are above
  the heads, and the header of every node can be read.
\<close>

definition listed :: "flist \<Rightarrow> mmst \<Rightarrow> nat \<Rightarrow> nat set \<Rightarrow> bool" where
  "listed P s B A \<longleftrightarrow> 8 dvd B \<and> fl_off P \<le> B \<and> (\<forall>h\<in>fl_heads P B. cell s h) \<and>
     (\<forall>f\<in>A. node s f \<and> B + 32 \<le> f \<and> valid s (f - 4))"

lemma listed_put [simp]: "listed P (put s p v) B A = listed P s B A"
  by (simp add: listed_def)

text \<open>
  The laws: the heads are below the blocks and away from the two words that the coalescing reads; the
  links do not depend on other words; a removal and an insertion change the set of the linked
  blocks as they should, and only words of links.
\<close>

locale free_list =
  fixes P :: flist and rm ins :: list_op
  assumes heads_law: "8 dvd B \<Longrightarrow> fl_off P \<le> B \<Longrightarrow> h \<in> fl_heads P B \<Longrightarrow>
      4 dvd h \<and> B \<le> h + fl_off P \<and> h + 8 \<le> B + 24 \<and> h \<noteq> B + 4 \<and> h \<noteq> B"
    and links_law: "(\<And>h. h \<in> fl_heads P B \<Longrightarrow> W' h = W h) \<Longrightarrow>
      (\<And>f. f \<in> set fl \<Longrightarrow> W' f = W f \<and> W' (f + 4) = W (f + 4)) \<Longrightarrow> fl_links P W' B fl = fl_links P W B fl"
    and remove_law: "listed P s B (set fl) \<Longrightarrow> fl_links P (aw s) B fl \<Longrightarrow> distinct fl \<Longrightarrow> x \<in> set fl \<Longrightarrow>
      \<exists>s'. rm s x = Some s' \<and> fl_links P (aw s') B (remove1 x fl) \<and>
        link_change (fl_heads P B \<union> (set fl - {x})) s s'"
    and insert_law: "listed P s B (insert x (set fl)) \<Longrightarrow> fl_links P (aw s) B fl \<Longrightarrow> distinct fl \<Longrightarrow> x \<notin> set fl \<Longrightarrow>
      free_listp s = fl_start P B \<Longrightarrow>
      \<exists>s' fl'. ins s x = Some s' \<and> fl_links P (aw s') B fl' \<and> distinct fl' \<and> set fl' = insert x (set fl) \<and>
        link_change (fl_heads P B \<union> insert x (set fl)) s s'"

context free_list
begin

subsection \<open>Changing links and tags\<close>

lemma layout_links:
  assumes lay: "layout P W B brk bs fl" and B: "8 dvd B" "fl_off P \<le> B"
    and ch: "\<And>q. W' q \<noteq> W q \<Longrightarrow> \<exists>f\<in>fl_heads P B \<union> starts (B + 32) bs. q = f \<or> q = f + 4"
    and dll: "fl_links P W' B fl'" "distinct fl'" "set fl' \<subseteq> starts (B + 32) bs"
  shows "layout P W' B brk bs fl'"
proof -
  have wf: "wfb bs" and brk: "brk = B + 32 + tot bs" using lay by (auto simp: layout_def)
  have st: "B + 32 \<le> f \<and> f + 16 \<le> brk" if "f \<in> starts (B + 32) bs" for f
    using starts_bounds [OF that wf] B brk by simp
  have keep: "W' q = W q" if q: "q = B + 4 \<or> q = B + 24 \<or> q = brk - 4" for q
  proof (rule ccontr)
    assume "W' q \<noteq> W q"
    from ch [OF this] obtain f where "f \<in> fl_heads P B \<or> f \<in> starts (B + 32) bs" "q = f \<or> q = f + 4"
      by blast
    then show False using q heads_law [OF B, of f] st [of f] brk by auto
  qed
  have "tagged W' (B + 32) bs"
    unfolding tagged_def
  proof (intro allI impI)
    fix x z al assume b: "(x, z, al) \<in> set (blks (B + 32) bs)"
    have bd: "B + 32 \<le> x" "16 \<le> z" using blks_bounds [OF b wf] B by auto
    have ne: "t \<noteq> f \<and> t \<noteq> f + 4"
      if "t = x - 4 \<or> t = x + z - 8" and f: "f \<in> fl_heads P B \<union> starts (B + 32) bs" for t f
    proof (cases "f \<in> fl_heads P B")
      case True
      then show ?thesis using that(1) bd heads_law [OF B True] by auto
    next
      case False
      then show ?thesis using starts_not_tag [OF _ b wf, of f] f B that(1) by auto
    qed
    have "W' (x - 4) = W (x - 4)" "W' (x + z - 8) = W (x + z - 8)"
      using ch ne by blast+
    then show "W' (x - 4) = tg z al \<and> W' (x + z - 8) = tg z al"
      using lay b by (auto simp: layout_def tagged_def)
  qed
  have eq: "W' (B + 4) = W (B + 4)" "W' (B + 24) = W (B + 24)" "W' (brk - 4) = W (brk - 4)"
    by (rule keep; simp)+
  have "W (B + 4) = tg 24 True" "W (B + 24) = 0" "W (brk - 4) = 1" using lay unfolding layout_def by blast+
  with eq have "W' (B + 4) = tg 24 True" "W' (B + 24) = 0" "W' (brk - 4) = 1" by simp_all
  with \<open>tagged W' (B + 32) bs\<close> dll wf brk show ?thesis unfolding layout_def by blast
qed

lemma layout_retag:
  assumes lay: "layout P W B brk (xs @ ms @ ys) fl" and B: "8 dvd B" "fl_off P \<le> B"
    and bp: "bp = B + 32 + tot xs" and Z: "tot ns = tot ms" and ns: "wfb ns"
    and tag: "tagged W' bp ns"
    and same: "\<And>q. q < bp - 4 \<or> bp + tot ms - 8 < q \<Longrightarrow> W' q = W q"
    and link: "\<And>f. f \<in> set fl \<Longrightarrow> W' f = W f \<and> W' (f + 4) = W (f + 4)"
    and sub: "set fl \<subseteq> starts (B + 32) (xs @ ns @ ys)"
  shows "layout P W' B brk (xs @ ns @ ys) fl"
proof -
  have wf: "wfb xs" "wfb ms" "wfb ys" and brk: "brk = bp + tot ms + tot ys"
    using lay bp by (auto simp: layout_def)
  have "tagged W' (B + 32) xs"
    unfolding tagged_def
  proof (intro allI impI)
    fix x z al assume b: "(x, z, al) \<in> set (blks (B + 32) xs)"
    have "x + z \<le> bp" "16 \<le> z" using blks_bounds [OF b wf(1)] B bp by auto
    then have "W' (x - 4) = W (x - 4)" "W' (x + z - 8) = W (x + z - 8)" by (intro same; linarith)+
    then show "W' (x - 4) = tg z al \<and> W' (x + z - 8) = tg z al"
      using lay b by (auto simp: layout_def tagged_def)
  qed
  moreover have "tagged W' (bp + tot ms) ys"
    unfolding tagged_def
  proof (intro allI impI)
    fix x z al assume b: "(x, z, al) \<in> set (blks (bp + tot ms) ys)"
    have "8 dvd bp + tot ms" using bp B tot_dvd [OF wf(1)] tot_dvd [OF wf(2)] by auto
    then have "bp + tot ms \<le> x" "16 \<le> z" using blks_bounds [OF b wf(3)] by auto
    then have "W' (x - 4) = W (x - 4)" "W' (x + z - 8) = W (x + z - 8)"
      using bp by (intro same; linarith)+
    then show "W' (x - 4) = tg z al \<and> W' (x + z - 8) = tg z al"
      using lay b bp by (auto simp: layout_def tagged_def add.assoc)
  qed
  have eq: "W' (B + 4) = W (B + 4)" "W' (B + 24) = W (B + 24)" "W' (brk - 4) = W (brk - 4)"
    using brk bp by (intro same; simp)+
  have "W (B + 4) = tg 24 True" "W (B + 24) = 0" "W (brk - 4) = 1" "fl_links P W B fl" "distinct fl"
    using lay unfolding layout_def by blast+
  with eq have "W' (B + 4) = tg 24 True" "W' (B + 24) = 0" "W' (brk - 4) = 1" by simp_all
  moreover have "fl_links P W' B fl = fl_links P W B fl"
  proof (rule links_law)
    fix h assume "h \<in> fl_heads P B"
    then have "h < bp - 4" using heads_law [OF B] bp by fastforce
    then show "W' h = W h" by (intro same) simp
  qed (rule link)
  moreover have "tagged W' (B + 32) (xs @ ns @ ys)"
    using \<open>tagged W' (B + 32) xs\<close> \<open>tagged W' (bp + tot ms) ys\<close> tag bp Z by simp
  ultimately show ?thesis
    using \<open>fl_links P W B fl\<close> \<open>distinct fl\<close> ns wf sub brk bp Z unfolding layout_def by simp
qed


end

section \<open>Reading a well-formed heap\<close>

lemma hp0_node:
  assumes "hp0 P s bs fl" and "f \<in> starts (base P s + 32) bs"
  shows "node s f"
proof -
  have wf: "mem_wf (lib s)" "8 dvd base P s" "wfb bs" "mem_brk (lib s) = base P s + 32 + tot bs"
    using assms(1) by (auto simp: hp0_def layout_def)
  have "base P s + 32 \<le> f \<and> f + 8 \<le> mem_brk (lib s) \<and> 8 dvd f"
    using assms(2) starts_bounds [of f "base P s + 32" bs] wf by auto
  then show ?thesis using wf by (auto simp: node_def valid_def mem_wf_def base_def)
qed

lemma hp0_tags:
  assumes h: "hp0 P s bs fl" and b: "(x, z, al) \<in> set (blks (base P s + 32) bs)"
  shows "GET_SIZE s (x - 4) = Some z" "GET_ALLOC s (x - 4) = Some (of_bool al)"
    "GET_SIZE s (x + z - 8) = Some z" "GET_ALLOC s (x + z - 8) = Some (of_bool al)"
    "valid s (x - 4)" "valid s (x + z - 8)" "z < 2 ^ 31"
proof -
  have lay: "layout P (aw s) (base P s) (mem_brk (lib s)) bs fl" and B: "8 dvd base P s" and
    m: "mem_wf (lib s)" using h by (auto simp: hp0_def)
  note bd = layout_bounds [OF lay B b]
  have t: "aw s (x - 4) = tg z al" "aw s (x + z - 8) = tg z al"
    using lay b by (auto simp: layout_def tagged_def)
  have v: "valid s (x - 4)" "valid s (x + z - 8)" and z: "z < 2 ^ 31"
    using bd m by (auto simp: valid_def mem_wf_def base_def)
  have "4 dvd x - 4" "4 dvd x + z - 8" using bd by presburger+
  then show "GET_SIZE s (x - 4) = Some z" "GET_SIZE s (x + z - 8) = Some z"
    using t v z bd by (auto intro: GET_SIZE_tg)
  show "GET_ALLOC s (x - 4) = Some (of_bool al)" "GET_ALLOC s (x + z - 8) = Some (of_bool al)"
    using GET_ALLOC_tg [of s "x - 4" z al] GET_ALLOC_tg [of s "x + z - 8" z al] t v bd
      \<open>4 dvd x - 4\<close> \<open>4 dvd x + z - 8\<close> by simp_all
  show "valid s (x - 4)" "valid s (x + z - 8)" "z < 2 ^ 31" by fact+
qed

lemma hp0_epilogue:
  assumes "hp0 P s bs fl"
  shows "GET_ALLOC s (mem_brk (lib s) - 4) = Some 1" "GET_SIZE s (base P s + 24) = Some 0"
    "GET_ALLOC s (base P s + 4) = Some 1" "valid s (mem_brk (lib s) - 4)" "8 dvd mem_brk (lib s)"
proof -
  have lay: "layout P (aw s) (base P s) (mem_brk (lib s)) bs fl" and B: "8 dvd base P s" and
    m: "mem_wf (lib s)" using assms by (auto simp: hp0_def)
  have brk: "mem_brk (lib s) = base P s + 32 + tot bs" "wfb bs" using lay by (auto simp: layout_def)
  then show d: "8 dvd mem_brk (lib s)" using B tot_dvd [of bs] by auto
  have "aw s (mem_brk (lib s) - 4) = 1" "aw s (base P s + 24) = 0" "aw s (base P s + 4) = tg 24 True"
    using lay unfolding layout_def by blast+
  then have t: "aw s (mem_brk (lib s) - 4) = tg 0 True" "aw s (base P s + 24) = tg 0 False"
    "aw s (base P s + 4) = tg 24 True" by (simp_all add: tg_def)
  have a: "4 dvd mem_brk (lib s) - 4" "4 dvd base P s + 24" "4 dvd base P s + 4" using d B by presburger+
  show v: "valid s (mem_brk (lib s) - 4)" using m brk by (auto simp: valid_def mem_wf_def base_def)
  have "valid s (base P s + 24)" "valid s (base P s + 4)"
    using m brk by (auto simp: valid_def mem_wf_def base_def)
  then show "GET_ALLOC s (mem_brk (lib s) - 4) = Some 1" "GET_SIZE s (base P s + 24) = Some 0"
    "GET_ALLOC s (base P s + 4) = Some 1"
    using GET_ALLOC_tg [OF v a(1) t(1)] GET_SIZE_tg [OF _ a(2) t(2)] GET_ALLOC_tg [OF _ a(3) t(3)]
    by simp_all
qed

section \<open>Free-list operations on a well-formed heap\<close>

lemma hp0_fl:
  assumes "hp0 P s bs fl"
  shows "fl_links P (aw s) (base P s) fl" "distinct fl" "set fl \<subseteq> starts (base P s + 32) bs"
    "\<forall>f\<in>set fl. node s f" "fl_off P \<le> base P s" "8 dvd base P s"
proof -
  show "fl_links P (aw s) (base P s) fl" "distinct fl" and sub: "set fl \<subseteq> starts (base P s + 32) bs"
    and "fl_off P \<le> base P s" "8 dvd base P s"
    using assms by (auto simp: hp0_def layout_def base_def)
  show "\<forall>f\<in>set fl. node s f" using hp0_node [OF assms] sub by blast
qed

context free_list
begin

lemma hp0_listed:
  assumes h: "hp0 P s bs fl" and A: "A \<subseteq> starts (base P s + 32) bs"
  shows "listed P s (base P s) A"
proof -
  note F = hp0_fl [OF h]
  have wf: "mem_wf (lib s)" "wfb bs" "mem_brk (lib s) = base P s + 32 + tot bs"
    using h by (auto simp: hp0_def layout_def)
  have "cell s h'" if "h' \<in> fl_heads P (base P s)" for h'
    using heads_law [OF F(6,5) that] wf by (auto simp: cell_def valid_def mem_wf_def base_def)
  moreover have "node s f \<and> base P s + 32 \<le> f \<and> valid s (f - 4)" if f: "f \<in> A" for f
  proof -
    obtain z al where "(f, z, al) \<in> set (blks (base P s + 32) bs)" using A f by (auto simp: starts_def)
    then show ?thesis
      using hp0_node [OF h, of f] hp0_tags(5) [OF h] starts_bounds [of f "base P s + 32" bs] A f wf F(6) by auto
  qed
  ultimately show ?thesis using F by (simp add: listed_def)
qed

lemma hp0_link:
  assumes h: "hp0 P s bs fl" and lc: "link_change A s s'"
    and A: "A \<subseteq> fl_heads P (base P s) \<union> starts (base P s + 32) bs"
    and dll: "fl_links P (aw s') (base P s) fl'" "distinct fl'" "set fl' \<subseteq> starts (base P s + 32) bs"
  shows "hp0 P s' bs fl'"
proof -
  have c: "lib s' = lib s" "free_listp s' = free_listp s" using lc by (auto simp: link_change_def ctl_def)
  have "layout P (aw s') (base P s) (mem_brk (lib s)) bs fl'"
  proof (rule layout_links)
    show "layout P (aw s) (base P s) (mem_brk (lib s)) bs fl" "8 dvd base P s" "fl_off P \<le> base P s"
      using h by (auto simp: hp0_def base_def)
    show "\<exists>f\<in>fl_heads P (base P s) \<union> starts (base P s + 32) bs. q = f \<or> q = f + 4"
      if "aw s' q \<noteq> aw s q" for q
      using that lc A unfolding link_change_def by blast
  qed (fact dll)+
  then show ?thesis using h c by (simp add: hp0_def base_def)
qed

lemma remove_block_spec:
  assumes h: "hp0 P s bs fl" and x: "x \<in> set fl"
  shows "\<exists>s'. rm s x = Some s' \<and> hp0 P s' bs (remove1 x fl) \<and>
           link_change (fl_heads P (base P s) \<union> set fl) s s'"
proof -
  note f = hp0_fl [OF h]
  obtain s' where s': "rm s x = Some s'" "fl_links P (aw s') (base P s) (remove1 x fl)"
      "link_change (fl_heads P (base P s) \<union> (set fl - {x})) s s'"
    using remove_law [OF hp0_listed [OF h f(3)] f(1,2) x] by blast
  have "hp0 P s' bs (remove1 x fl)"
    by (rule hp0_link [OF h s'(3) _ s'(2)]) (use f in auto)
  moreover have "link_change (fl_heads P (base P s) \<union> set fl) s s'"
    using s'(3) by (rule link_change_mono) auto
  ultimately show ?thesis using s'(1) by blast
qed

lemma insert_block_spec:
  assumes h: "hp0 P s bs fl" and x: "x \<in> starts (base P s + 32) bs" "x \<notin> set fl"
  shows "\<exists>s' fl'. ins s x = Some s' \<and> hp0 P s' bs fl' \<and> set fl' = insert x (set fl) \<and>
           link_change (fl_heads P (base P s) \<union> insert x (set fl)) s s'"
proof -
  note f = hp0_fl [OF h]
  have "insert x (set fl) \<subseteq> starts (base P s + 32) bs" using f(3) x(1) by blast
  moreover have "free_listp s = fl_start P (base P s)" using h by (simp add: hp0_def)
  ultimately obtain s' fl' where s': "ins s x = Some s'" "fl_links P (aw s') (base P s) fl'" "distinct fl'"
      "set fl' = insert x (set fl)" "link_change (fl_heads P (base P s) \<union> insert x (set fl)) s s'"
    using insert_law [OF hp0_listed [OF h] f(1,2) x(2)] by blast
  have "hp0 P s' bs fl'"
    by (rule hp0_link [OF h s'(5) _ s'(2,3)]) (use s'(4) f x in auto)
  then show ?thesis using s' by blast
qed

end

section \<open>Payloads\<close>

text \<open>The bytes of the allocated blocks: all of a block but its tags.\<close>

definition payload :: "nat \<Rightarrow> block list \<Rightarrow> nat set" where
  "payload a bs = {q. \<exists>x z. (x, z, True) \<in> set (blks a bs) \<and> x \<le> q \<and> q + 8 < x + z}"

lemma payload_simps [simp]:
  "payload a [] = {}"
  "payload a ((z, al) # bs) = (if al then {q. a \<le> q \<and> q + 8 < a + z} else {}) \<union> payload (a + z) bs"
  "payload a (xs @ ys) = payload a xs \<union> payload (a + tot xs) ys"
  by (auto simp: payload_def)

lemma payload_bounds:
  "q \<in> payload a bs \<Longrightarrow> wfb bs \<Longrightarrow> 8 dvd a \<Longrightarrow> a \<le> q \<and> q + 8 < a + tot bs"
  by (auto simp: payload_def dest!: blks_bounds)

context free_list
begin

lemma payload_off_links:
  assumes h: "hp0 P s bs fl" and A: "A \<subseteq> fl_heads P (base P s) \<union> frees (base P s + 32) bs"
  shows "payload (base P s + 32) bs \<subseteq> off_links A"
proof
  have wf: "wfb bs" "8 dvd base P s + 32" "8 \<le> base P s + 32" using h by (auto simp: hp0_def layout_def)
  note F = hp0_fl [OF h]
  fix q assume "q \<in> payload (base P s + 32) bs"
  then obtain x z where b: "(x, z, True) \<in> set (blks (base P s + 32) bs)" "x \<le> q" "q + 8 < x + z"
    by (auto simp: payload_def)
  have "q < f \<or> f + 8 \<le> q" if fA: "f \<in> A" for f
  proof (cases "f \<in> fl_heads P (base P s)")
    case True
    then show ?thesis using blks_bounds [OF b(1) wf(1,2)] b heads_law [OF F(6,5) True] by auto
  next
    case False
    then obtain w where f: "(f, w, False) \<in> set (blks (base P s + 32) bs)"
      using fA A False unfolding frees_def by blast
    then have "f \<in> starts (base P s + 32) bs" by (auto simp: starts_def)
    moreover have "f \<noteq> x" using blks_unique [of x w False "base P s + 32" bs z True] f b(1) wf(1) by auto
    ultimately show ?thesis using starts_not_tag(5) [OF _ b(1) wf, of f] b by auto
  qed
  then show "q \<in> off_links A" by (simp add: off_links_def)
qed

end

end
