(* ===== verification/MmCoalesce.thy ===== *)
theory MmCoalesce
  imports MmFreeList
begin

text \<open>
  Retagging and coalescing over a free list with the contract: writing the two tags of a block
  turns one well-formed heap into another, and \<^verbatim>\<open>coalesce\<close> restores the invariant of the free
  list in all of its four cases.
\<close>

section \<open>Allocated blocks\<close>

text \<open>The allocated blocks with their sizes: what a client of the allocator may know.\<close>

definition allocs :: "nat \<Rightarrow> block list \<Rightarrow> (nat \<times> nat) set" where
  "allocs a bs = {(x, z). (x, z, True) \<in> set (blks a bs)}"

abbreviation org :: "flist \<Rightarrow> mmst \<Rightarrow> nat" where
  "org P s \<equiv> base P s + 32"

lemma allocs_simps [simp]:
  "allocs a [] = {}"
  "allocs a ((z, al) # bs) = (if al then insert (a, z) (allocs (a + z) bs) else allocs (a + z) bs)"
  "allocs a (xs @ ys) = allocs a xs \<union> allocs (a + tot xs) ys"
  by (auto simp: allocs_def)

lemma payload_allocs: "payload a bs = {q. \<exists>(x, z)\<in>allocs a bs. x \<le> q \<and> q + 8 < x + z}"
  by (auto simp: payload_def allocs_def)

section \<open>Writing the tags of a block\<close>

definition retag :: "mmst \<Rightarrow> nat \<Rightarrow> nat \<Rightarrow> bool \<Rightarrow> mmst" where
  "retag s bp z al = put (put s (bp - 4) (tg z al)) (bp + z - 8) (tg z al)"

text \<open>A place where a block of size \<open>z\<close> can be tagged.\<close>

definition room :: "mmst \<Rightarrow> nat \<Rightarrow> nat \<Rightarrow> bool" where
  "room s bp z \<longleftrightarrow> 8 dvd bp \<and> 8 \<le> bp \<and> 8 dvd z \<and> 16 \<le> z \<and> z < 2 ^ 31 \<and> valid s (bp - 4) \<and>
     valid s (bp + z - 8)"

lemma room_put [simp]: "room (put s p v) bp z = room s bp z"
  by (simp add: room_def)

lemma room_D:
  assumes "room s bp z"
  shows "4 dvd bp - 4" "4 dvd bp + z - 8" "bp - 4 \<noteq> bp + z - 8" "bp + z - 8 \<noteq> bp - 4"
    "tg z al < 2 ^ 32" "tg z al mod 2 ^ 32 = tg z al"
proof -
  have a: "8 dvd bp" "8 \<le> bp" "8 dvd z" "16 \<le> z" "z < 2 ^ 31" using assms by (auto simp: room_def)
  show "4 dvd bp - 4" "4 dvd bp + z - 8" using a by presburger+
  show "bp - 4 \<noteq> bp + z - 8" "bp + z - 8 \<noteq> bp - 4" using a by linarith+
  show "tg z al < 2 ^ 32" "tg z al mod 2 ^ 32 = tg z al" using a by (auto simp: tg_def)
qed

lemma GET_SIZE_put_other:
  "4 dvd p \<Longrightarrow> 4 dvd q \<Longrightarrow> p \<noteq> q \<Longrightarrow> GET_SIZE (put s p v) q = GET_SIZE s q"
  by (cases "valid s q") (simp_all add: GET_SIZE_def GET_aw, simp add: GET_def)

lemma GET_ALLOC_put_other:
  "4 dvd p \<Longrightarrow> 4 dvd q \<Longrightarrow> p \<noteq> q \<Longrightarrow> GET_ALLOC (put s p v) q = GET_ALLOC s q"
  by (cases "valid s q") (simp_all add: GET_ALLOC_def GET_aw, simp add: GET_def)

lemma HDRP_4: "HDRP bp = bp - 4"
  by (simp add: HDRP_def WSIZE_def)

lemma room_exec:
  assumes r: "room s bp z"
  shows "PUT s (bp - 4) (PACK z 0) = Some (put s (bp - 4) (tg z False))"
    "PUT s (bp - 4) (PACK z 1) = Some (put s (bp - 4) (tg z True))"
    "PUT s (bp + z - 8) (PACK z 0) = Some (put s (bp + z - 8) (tg z False))"
    "PUT s (bp + z - 8) (PACK z 1) = Some (put s (bp + z - 8) (tg z True))"
    "GET_SIZE (put s (bp - 4) (tg z al)) (bp - 4) = Some z"
    "FTRP (put s (bp - 4) (tg z al)) bp = Some (bp + z - 8)"
    "put (put s (bp - 4) (tg z al)) (bp + z - 8) (tg z al) = retag s bp z al"
proof -
  note d = room_D [OF r]
  show "PUT s (bp - 4) (PACK z 0) = Some (put s (bp - 4) (tg z False))"
    "PUT s (bp - 4) (PACK z 1) = Some (put s (bp - 4) (tg z True))"
    "PUT s (bp + z - 8) (PACK z 0) = Some (put s (bp + z - 8) (tg z False))"
    "PUT s (bp + z - 8) (PACK z 1) = Some (put s (bp + z - 8) (tg z True))"
    using r by (simp_all add: room_def PUT_put PACK_tg del: One_nat_def)
  show g: "GET_SIZE (put s (bp - 4) (tg z al)) (bp - 4) = Some z"
    using r d by (intro GET_SIZE_tg) (auto simp: room_def)
  show "FTRP (put s (bp - 4) (tg z al)) bp = Some (bp + z - 8)"
    using g by (simp add: FTRP_def HDRP_4 mm_consts)
qed (simp add: retag_def)

lemma aw_retag:
  assumes "room s bp z"
  shows "aw (retag s bp z al) = (aw s)(bp - 4 := tg z al, bp + z - 8 := tg z al)"
  using room_D(1-4) [OF assms] room_D(6) [OF assms, of al] by (simp add: retag_def)

lemma ctl_retag [simp]: "ctl s (retag s bp z al)"
  by (simp add: retag_def)

lemma keeps_retag:
  assumes "wfb xs" and "wfb ys" and "8 dvd a" and "room s (a + tot xs) z"
  shows "keeps (payload a xs \<union> payload (a + tot xs + z) ys) s (retag s (a + tot xs) z al)"
  unfolding retag_def
proof (intro keeps_put keeps_refl)
  have d: "8 dvd a + tot xs + z" "16 \<le> z" using assms tot_dvd [of xs] by (auto simp: room_def)
  fix q assume "q \<in> payload a xs \<union> payload (a + tot xs + z) ys"
  then have "q + 8 < a + tot xs \<or> a + tot xs + z \<le> q"
    using payload_bounds [of q a xs] payload_bounds [of q "a + tot xs + z" ys] assms d by auto
  then show "q < a + tot xs - 4 \<or> a + tot xs - 4 + 4 \<le> q"
    "q < a + tot xs + z - 8 \<or> a + tot xs + z - 8 + 4 \<le> q"
    using d by linarith+
qed

section \<open>Well-formed heaps with other tags\<close>

lemma hp0_D:
  assumes "hp0 P s bs fl"
  shows "mem_wf (lib s)" "8 dvd base P s" "free_listp s = fl_start P (base P s)" "wfb bs"
    "mem_brk (lib s) = org P s + tot bs" "mem_brk (lib s) \<le> 2 ^ 31"
    "layout P (aw s) (base P s) (mem_brk (lib s)) bs fl" "8 dvd tot bs" "8 dvd org P s"
    "mem_brk (lib s) \<le> mem_max_addr (lib s)" "0 < base P s" "fl_off P \<le> base P s"
    "mem_start_brk (lib s) \<le> base P s"
  using assms tot_dvd [of bs] by (auto simp: hp0_def layout_def mem_wf_def base_def)

lemma hp0_room:
  assumes "hp0 P s (xs @ ms @ ys) fl" and "ms \<noteq> []"
  shows "room s (org P s + tot xs) (tot ms)"
proof -
  note D = hp0_D [OF assms(1)]
  obtain z al ms' where "ms = (z, al) # ms'" using assms(2) by (cases ms) auto
  then have "16 \<le> tot ms" using D(4) by simp
  moreover have "8 dvd tot xs" "8 dvd tot ms" using D(4) by (auto intro: tot_dvd)
  ultimately show ?thesis
    using D by (auto simp: room_def valid_def base_def)
qed

context free_list
begin

lemma hp0_retag:
  assumes h: "hp0 P s (xs @ ms @ ys) fl" and ms: "ms \<noteq> []" "tot ms = z"
    and sub: "set fl \<subseteq> starts (org P s) (xs @ (z, al) # ys)"
  shows "hp0 P (retag s (org P s + tot xs) z al) (xs @ (z, al) # ys) fl"
proof -
  let ?bp = "org P s + tot xs" and ?s = "retag s (org P s + tot xs) z al"
  note D = hp0_D [OF h]
  have r: "room s ?bp z" using hp0_room [OF h ms(1)] ms(2) by simp
  note W = aw_retag [OF r, of al] and rd = room_D [OF r]
  have wf: "wfb (xs @ (z, al) # ys)" "16 \<le> z" using D(4) r by (auto simp: room_def)
  have b: "(?bp, z, al) \<in> set (blks (org P s) (xs @ (z, al) # ys))" by simp
  have "layout P (aw ?s) (base P s) (mem_brk (lib s)) (xs @ [(z, al)] @ ys) fl"
  proof (rule layout_retag [where ms = ms])
    show "layout P (aw s) (base P s) (mem_brk (lib s)) (xs @ ms @ ys) fl" by (fact D(7))
    show "tagged (aw ?s) ?bp [(z, al)]" using rd by (simp add: W)
    show "aw ?s q = aw s q" if "q < ?bp - 4 \<or> ?bp + tot ms - 8 < q" for q
      using that wf ms by (auto simp: W)
    show "aw ?s f = aw s f \<and> aw ?s (f + 4) = aw s (f + 4)" if "f \<in> set fl" for f
    proof -
      have "f \<in> starts (org P s) (xs @ (z, al) # ys)" using sub that by blast
      from starts_not_tag [OF this b wf(1) D(9)] show ?thesis by (auto simp: W)
    qed
  qed (use D ms sub wf in auto)
  then show ?thesis using D by (simp add: hp0_def base_def retag_def)
qed

end

lemma hp0_reads:
  assumes h: "hp0 P s (xs @ (z, al) # ys) fl" and bp: "bp = org P s + tot xs"
  shows "GET_SIZE s (bp - 4) = Some z" "GET_ALLOC s (bp - 4) = Some (of_bool al)"
    "GET_SIZE s (bp + z - 8) = Some z" "GET_ALLOC s (bp + z - 8) = Some (of_bool al)"
    "FTRP s bp = Some (bp + z - 8)" "NEXT_BLKP s bp = Some (bp + z)"
proof -
  have "(bp, z, al) \<in> set (blks (org P s) (xs @ (z, al) # ys))" by (simp add: bp)
  from hp0_tags [OF h this]
  show "GET_SIZE s (bp - 4) = Some z" "GET_ALLOC s (bp - 4) = Some (of_bool al)"
    "GET_SIZE s (bp + z - 8) = Some z" "GET_ALLOC s (bp + z - 8) = Some (of_bool al)" by auto
  then show "FTRP s bp = Some (bp + z - 8)" "NEXT_BLKP s bp = Some (bp + z)"
    by (simp_all add: FTRP_def NEXT_BLKP_def HDRP_4 mm_consts)
qed

text \<open>The neighbours: the block before is found through its footer, the block after through the size.\<close>

lemma hp0_prev_none:
  "hp0 P s ((z, al) # ys) fl \<Longrightarrow> bp = org P s \<Longrightarrow> PREV_BLKP s bp = Some bp"
  using hp0_epilogue(2) [of P s "(z, al) # ys" fl] by (simp add: PREV_BLKP_def mm_consts add.commute)

lemma hp0_prev_some:
  assumes "hp0 P s ((us @ [(w, wl)]) @ ys) fl" and "bp = org P s + tot us + w"
  shows "PREV_BLKP s bp = Some (bp - w)" "FTRP s (bp - w) = Some (bp - 8)"
    "GET_ALLOC s (bp - 8) = Some (of_bool wl)" "GET_SIZE s (bp - w - 4) = Some w"
  using assms hp0_reads [of P s us w wl ys fl "org P s + tot us"]
  by (simp_all add: PREV_BLKP_def mm_consts add.assoc)

lemma hp0_next_none:
  "hp0 P s (xs @ [(z, al)]) fl \<Longrightarrow> bp = org P s + tot xs \<Longrightarrow> GET_ALLOC s (bp + z - 4) = Some 1"
  using hp0_epilogue(1) [of P s "xs @ [(z, al)]" fl] hp0_D(5) [of P s "xs @ [(z, al)]" fl]
  by (simp add: add.assoc)

lemma hp0_next_some:
  assumes "hp0 P s (xs @ (z, al) # (w, wl) # vs) fl" and "bp = org P s + tot xs"
  shows "GET_ALLOC s (bp + z - 4) = Some (of_bool wl)" "GET_SIZE s (bp + z - 4) = Some w"
    "FTRP s (bp + z) = Some (bp + z + w - 8)" "GET_SIZE s (bp + z + w - 8) = Some w"
  using assms hp0_reads [of P s "xs @ [(z, al)]" w wl vs fl "bp + z"] by (simp_all add: add.assoc)

section \<open>Coalescing\<close>

lemma coalesced_append:
  "coalesced (xs @ (z, al) # ys) \<longleftrightarrow>
     coalesced xs \<and> coalesced ys \<and> (xs = [] \<or> snd (last xs) \<or> al) \<and> (ys = [] \<or> al \<or> snd (hd ys))"
proof (induction xs)
  case Nil
  show ?case by (cases ys) auto
next
  case (Cons b xs)
  then show ?case by (cases b; cases xs; cases ys) auto
qed

lemma coalesced_snoc: "coalesced (xs @ [(z, al)]) \<Longrightarrow> coalesced xs \<and> (al \<or> xs = [] \<or> snd (last xs))"
  using coalesced_append [of xs z al "[]"] by auto

lemma coalesced_Cons: "coalesced ((z, al) # ys) \<Longrightarrow> coalesced ys \<and> (al \<or> ys = [] \<or> snd (hd ys))"
  using coalesced_append [of "[]" z al ys] by auto

lemma frees_bounds: "f \<in> frees a bs \<Longrightarrow> wfb bs \<Longrightarrow> 8 dvd a \<Longrightarrow> a \<le> f \<and> f < a + tot bs"
  using starts_bounds [of f a bs] frees_starts by fastforce

text \<open>A heap with a block that is tagged free and is not yet on the free list.\<close>

definition freed :: "flist \<Rightarrow> mmst \<Rightarrow> block list \<Rightarrow> nat \<Rightarrow> block list \<Rightarrow> nat list \<Rightarrow> bool" where
  "freed P s xs z ys fl \<longleftrightarrow> hp0 P s (xs @ (z, False) # ys) fl \<and>
     set fl = frees (org P s) xs \<union> frees (org P s + tot xs + z) ys \<and> coalesced xs \<and> coalesced ys"

text \<open>One state after the other, with the same allocated blocks and the same contents in them.\<close>

definition same_allocs :: "flist \<Rightarrow> mmst \<Rightarrow> block list \<Rightarrow> mmst \<Rightarrow> block list \<Rightarrow> bool" where
  "same_allocs P s bs s' bs' \<longleftrightarrow> ctl s s' \<and> allocs (org P s) bs' = allocs (org P s) bs \<and>
     keeps (payload (org P s) bs) s s'"

lemma same_allocs_refl [simp]: "same_allocs P s bs s bs"
  by (simp add: same_allocs_def)

lemma same_allocs_base: "same_allocs P s bs t bs' \<Longrightarrow> base P t = base P s"
  by (simp add: same_allocs_def ctl_simps)

lemma same_allocs_trans:
  assumes "same_allocs P s bs t bs'" and "same_allocs P t bs' u bs''"
  shows "same_allocs P s bs u bs''"
proof -
  have "org P t = org P s" using assms(1) by (simp add: same_allocs_def ctl_simps)
  then have "payload (org P t) bs' = payload (org P s) bs"
    using assms(1) by (simp add: payload_allocs same_allocs_def)
  then show ?thesis using assms \<open>org P t = org P s\<close>
    by (auto simp: same_allocs_def intro: ctl_trans keeps_trans)
qed

context free_list
begin

lemma link_change_same_allocs:
  assumes "hp0 P s bs fl" and "link_change A s s'" and "A \<subseteq> fl_heads P (base P s) \<union> (frees (org P s) bs)"
  shows "same_allocs P s bs s' bs"
  using assms(2) payload_off_links [OF assms(1,3)]
  by (auto simp: same_allocs_def link_change_def intro: keeps_mono)

lemma remove_free_block:
  assumes h: "hp0 P s bs fl" and x: "x \<in> set fl" and sub: "set fl \<subseteq> frees (org P s) bs"
  shows "\<exists>s'. rm s x = Some s' \<and> hp0 P s' bs (remove1 x fl) \<and>
           set (remove1 x fl) = set fl - {x} \<and> same_allocs P s bs s' bs"
proof -
  obtain s' where s': "rm s x = Some s'" "hp0 P s' bs (remove1 x fl)"
      "link_change (fl_heads P (base P s) \<union> (set fl)) s s'"
    using remove_block_spec [OF h x] by blast
  moreover have "same_allocs P s bs s' bs"
    by (rule link_change_same_allocs [OF h s'(3)]) (use sub in auto)
  moreover have "distinct fl" using hp0_fl(2) [OF h] .
  ultimately show ?thesis by auto
qed

lemma retag_merge:
  assumes h: "hp0 P s (xs @ ms @ ys) fl" and ms: "ms \<noteq> []" "\<forall>b\<in>set ms. \<not> snd b"
    and fl: "set fl = frees (org P s) xs \<union> frees (org P s + tot xs + tot ms) ys"
    and co: "coalesced xs" "coalesced ys"
  shows "freed P (retag s (org P s + tot xs) (tot ms) False) xs (tot ms) ys fl"
    and "same_allocs P s (xs @ ms @ ys) (retag s (org P s + tot xs) (tot ms) False)
           (xs @ (tot ms, False) # ys)"
proof -
  let ?s = "retag s (org P s + tot xs) (tot ms) False"
  have no: "allocs a ms = {}" "payload a ms = {}" for a
    using ms(2) by (induction a ms rule: blks.induct) auto
  have c: "ctl s ?s" "org P ?s = org P s" by (simp, simp add: base_def retag_def)
  have "hp0 P ?s (xs @ (tot ms, False) # ys) fl"
    by (rule hp0_retag [OF h ms(1) refl]) (use fl frees_starts in fastforce)
  then show "freed P ?s xs (tot ms) ys fl" using fl co c by (simp add: freed_def)
  have "room s (org P s + tot xs) (tot ms)" by (rule hp0_room [OF h ms(1)])
  then show "same_allocs P s (xs @ ms @ ys) ?s (xs @ (tot ms, False) # ys)"
    using keeps_retag [of xs ys "org P s" s "tot ms"] hp0_D [OF h] c no
    by (simp add: same_allocs_def)
qed

end

section \<open>The four cases\<close>

definition merged :: "flist \<Rightarrow> mmst \<Rightarrow> block list \<Rightarrow> nat \<Rightarrow> block list \<Rightarrow> mmst \<Rightarrow> nat \<Rightarrow> bool" where
  "merged P s xs z ys s' p \<longleftrightarrow> (\<exists>xs' z' ys' fl'. freed P s' xs' z' ys' fl' \<and>
     coalesced (xs' @ (z', False) # ys') \<and> p = org P s + tot xs' \<and>
     same_allocs P s (xs @ (z, False) # ys) s' (xs' @ (z', False) # ys') \<and>
     tot xs' \<le> tot xs \<and> tot xs + z \<le> tot xs' + z')"

lemma freed_D:
  assumes "freed P s xs z ys fl"
  shows "hp0 P s (xs @ (z, False) # ys) fl" "16 \<le> z" "wfb xs" "wfb ys" "8 dvd z"
    "set fl \<subseteq> frees (org P s) (xs @ (z, False) # ys)" "8 dvd org P s + tot xs" "coalesced xs" "coalesced ys"
proof -
  show h: "hp0 P s (xs @ (z, False) # ys) fl" "set fl \<subseteq> frees (org P s) (xs @ (z, False) # ys)"
    "coalesced xs" "coalesced ys"
    using assms by (auto simp: freed_def)
  show "16 \<le> z" "wfb xs" "wfb ys" "8 dvd z" using hp0_D(4) [OF h(1)] by auto
  then show "8 dvd org P s + tot xs" using hp0_D(9) [OF h(1)] tot_dvd by auto
qed

context free_list
begin

lemma merge_next:
  assumes f: "freed P s xs z ((w, False) # vs) fl" and bp: "bp = org P s + tot xs"
    and prev: "xs = [] \<or> snd (last xs)"
  shows "\<exists>s1 s'. rm s (bp + z) = Some s1 \<and> s' = retag s1 bp (z + w) False \<and>
           room s1 bp (z + w) \<and> merged P s xs z ((w, False) # vs) s' bp"
proof -
  let ?ms = "[(z, False), (w, False)]"
  note D = freed_D [OF f]
  have h: "hp0 P s (xs @ ?ms @ vs) fl" using D(1) by simp
  have x: "bp + z \<in> set fl" using f bp by (auto simp: freed_def)
  obtain s1 where s1: "rm s (bp + z) = Some s1" "hp0 P s1 (xs @ ?ms @ vs) (remove1 (bp + z) fl)"
      "set (remove1 (bp + z) fl) = set fl - {bp + z}" "same_allocs P s (xs @ ?ms @ vs) s1 (xs @ ?ms @ vs)"
    using remove_free_block [OF h x] D(6) by auto
  have o: "org P s1 = org P s" using s1(4) by (simp add: same_allocs_def ctl_simps)
  have al: "8 dvd bp" "8 dvd bp + z + w" "16 \<le> w" and wv: "wfb vs" using D bp by auto
  have "bp + z \<notin> frees (org P s) xs" "bp + z \<notin> frees (bp + z + w) vs"
    using frees_bounds [of "bp + z" "org P s" xs] frees_bounds [of "bp + z" "bp + z + w" vs] D hp0_D(9) [OF h]
      al wv bp by auto
  then have "set (remove1 (bp + z) fl) = frees (org P s1) xs \<union> frees (org P s1 + tot xs + tot ?ms) vs"
    using f s1(3) o bp by (auto simp: freed_def add.assoc)
  moreover have "coalesced vs" using D(9) by (auto dest: coalesced_Cons)
  moreover have "vs = [] \<or> snd (hd vs)" using D(9) by (auto dest: coalesced_Cons)
  ultimately have "freed P (retag s1 bp (z + w) False) xs (z + w) vs (remove1 (bp + z) fl)"
      "same_allocs P s1 (xs @ ?ms @ vs) (retag s1 bp (z + w) False) (xs @ (z + w, False) # vs)"
    using retag_merge [OF s1(2)] D o bp by auto
  moreover have "coalesced (xs @ (z + w, False) # vs)"
    using D(8) \<open>coalesced vs\<close> \<open>vs = [] \<or> _\<close> prev by (simp add: coalesced_append)
  ultimately have "merged P s xs z ((w, False) # vs) (retag s1 bp (z + w) False) bp"
    using s1(4) bp unfolding merged_def by (fastforce intro: same_allocs_trans)
  moreover have "room s1 bp (z + w)" using hp0_room [OF s1(2)] o bp by simp
  ultimately show ?thesis using s1(1) by blast
qed

lemma merge_prev:
  assumes f: "freed P s (us @ [(w, False)]) z ys fl" and p: "p = org P s + tot us"
    and nxt: "ys = [] \<or> snd (hd ys)"
  shows "\<exists>s1 s'. rm s p = Some s1 \<and> s' = retag s1 p (w + z) False \<and> room s1 p (w + z) \<and>
           hp0 P s1 (us @ (w, False) # (z, False) # ys) (remove1 p fl) \<and> org P s1 = org P s \<and>
           merged P s (us @ [(w, False)]) z ys s' p"
proof -
  let ?ms = "[(w, False), (z, False)]"
  note D = freed_D [OF f]
  have h: "hp0 P s (us @ ?ms @ ys) fl" using D(1) by simp
  have x: "p \<in> set fl" using f p by (auto simp: freed_def)
  obtain s1 where s1: "rm s p = Some s1" "hp0 P s1 (us @ ?ms @ ys) (remove1 p fl)"
      "set (remove1 p fl) = set fl - {p}" "same_allocs P s (us @ ?ms @ ys) s1 (us @ ?ms @ ys)"
    using remove_free_block [OF h x] D(6) by auto
  have o: "org P s1 = org P s" using s1(4) by (simp add: same_allocs_def ctl_simps)
  have w: "16 \<le> w" "8 dvd w" and wu: "wfb us" using D(3) by auto
  then have al: "8 dvd p" "8 dvd p + w + z" using D(5) p hp0_D(9) [OF h] tot_dvd [OF wu] by auto
  have "p \<notin> frees (org P s) us" "p \<notin> frees (p + w + z) ys"
    using frees_bounds [of p "org P s" us] frees_bounds [of p "p + w + z" ys] D hp0_D(9) [OF h] al w wu p by auto
  then have "set (remove1 p fl) = frees (org P s1) us \<union> frees (org P s1 + tot us + tot ?ms) ys"
    using f s1(3) o p by (auto simp: freed_def add.assoc)
  moreover have us: "coalesced us" "us = [] \<or> snd (last us)" using D(8) by (auto dest: coalesced_snoc)
  ultimately have "freed P (retag s1 p (w + z) False) us (w + z) ys (remove1 p fl)"
      "same_allocs P s1 (us @ ?ms @ ys) (retag s1 p (w + z) False) (us @ (w + z, False) # ys)"
    using retag_merge [OF s1(2)] D o p by auto
  moreover have "coalesced (us @ (w + z, False) # ys)"
    using D(9) us nxt by (simp add: coalesced_append)
  ultimately have "merged P s (us @ [(w, False)]) z ys (retag s1 p (w + z) False) p"
    using s1(4) p unfolding merged_def by (fastforce intro: same_allocs_trans)
  moreover have "room s1 p (w + z)" using hp0_room [OF s1(2)] o p by simp
  ultimately show ?thesis using s1 o by auto
qed

lemma merge_both:
  assumes f: "freed P s (us @ [(v, False)]) z ((w, False) # vs) fl" and p: "p = org P s + tot us"
    and bp: "bp = p + v"
  shows "\<exists>s1 s2 s'. rm s (bp + z) = Some s1 \<and> rm s1 p = Some s2 \<and>
           s' = retag s2 p (v + z + w) False \<and> room s2 p (v + z + w) \<and>
           hp0 P s1 (us @ (v, False) # (z, False) # (w, False) # vs) (remove1 (bp + z) fl) \<and>
           hp0 P s2 (us @ (v, False) # (z, False) # (w, False) # vs) (remove1 p (remove1 (bp + z) fl)) \<and>
           org P s1 = org P s \<and> org P s2 = org P s \<and>
           merged P s (us @ [(v, False)]) z ((w, False) # vs) s' p"
proof -
  let ?ms = "[(v, False), (z, False), (w, False)]" and ?f1 = "remove1 (bp + z) fl"
  let ?bs = "us @ ?ms @ vs"
  note D = freed_D [OF f]
  have h: "hp0 P s ?bs fl" using D(1) by simp
  have x: "bp + z \<in> set fl" "p \<in> set fl" using f p bp by (auto simp: freed_def add.assoc)
  have sub: "set fl \<subseteq> frees (org P s) ?bs" using D(6) by auto
  obtain s1 where s1: "rm s (bp + z) = Some s1" "hp0 P s1 ?bs ?f1"
      "set ?f1 = set fl - {bp + z}" "same_allocs P s ?bs s1 ?bs"
    using remove_free_block [OF h x(1) sub] by auto
  have o: "org P s1 = org P s" using s1(4) by (simp add: same_allocs_def ctl_simps)
  have w: "16 \<le> w" "8 dvd w" "16 \<le> v" "8 dvd v" and wu: "wfb us" "wfb vs" using D(3,4) by auto
  then have al: "8 dvd p" "8 dvd bp + z" "8 dvd bp + z + w"
    using D(5) p bp hp0_D(9) [OF h] tot_dvd [OF wu(1)] by auto
  have "p \<in> set ?f1" using s1(3) x bp w by auto
  moreover have "set ?f1 \<subseteq> frees (org P s1) ?bs" using s1(3) sub o by auto
  ultimately obtain s2 where s2: "rm s1 p = Some s2" "hp0 P s2 ?bs (remove1 p ?f1)"
      "set (remove1 p ?f1) = set ?f1 - {p}" "same_allocs P s1 ?bs s2 ?bs"
    using remove_free_block [OF s1(2), of p] by blast
  have o2: "org P s2 = org P s" using same_allocs_base [OF s2(4)] o by simp
  have "bp + z \<notin> frees (org P s) us" "bp + z \<notin> frees (bp + z + w) vs" "p \<notin> frees (org P s) us"
    "p \<notin> frees (bp + z + w) vs"
    using frees_bounds [of "bp + z" "org P s" us] frees_bounds [of "bp + z" "bp + z + w" vs]
      frees_bounds [of p "org P s" us] frees_bounds [of p "bp + z + w" vs] hp0_D(9) [OF h] al w wu p bp D(2)
    by auto
  then have "set (remove1 p ?f1) = frees (org P s2) us \<union> frees (org P s2 + tot us + tot ?ms) vs"
    using f s1(3) s2(3) o2 bp p by (auto simp: freed_def add.assoc)
  moreover have us: "coalesced us" "us = [] \<or> snd (last us)" using D(8) by (auto dest: coalesced_snoc)
  moreover have vs: "coalesced vs" "vs = [] \<or> snd (hd vs)" using D(9) by (auto dest: coalesced_Cons)
  ultimately have m: "freed P (retag s2 p (v + z + w) False) us (v + z + w) vs (remove1 p ?f1)"
      "same_allocs P s2 ?bs (retag s2 p (v + z + w) False) (us @ (v + z + w, False) # vs)"
    using retag_merge [OF s2(2)] D o2 p by (auto simp: add.assoc)
  have "coalesced (us @ (v + z + w, False) # vs)" using us vs by (simp add: coalesced_append)
  moreover have "same_allocs P s ?bs (retag s2 p (v + z + w) False) (us @ (v + z + w, False) # vs)"
    using s1(4) s2(4) m(2) by (blast intro: same_allocs_trans)
  ultimately have "merged P s (us @ [(v, False)]) z ((w, False) # vs) (retag s2 p (v + z + w) False) p"
    using m(1) p unfolding merged_def by fastforce
  moreover have "room s2 p (v + z + w)" using hp0_room [OF s2(2)] o2 p by (simp add: add.assoc)
  ultimately show ?thesis using s1 s2 o o2 by auto
qed

end

end
