(* ===== verification/MmCorrect.thy ===== *)
theory MmCorrect
  imports MmCoalesce
begin

text \<open>
  The four cases of \<^verbatim>\<open>coalesce\<close> on a well-formed heap, for any free list with the contract.
\<close>

section \<open>Coalesce\<close>

lemma put_commute:
  assumes "p + 4 \<le> q \<or> q + 4 \<le> p"
  shows "put (put s p v) q w = put (put s q w) p v"
proof -
  have "wr4 (wr4 m p v) q w = wr4 (wr4 m q w) p v" for m
    by (rule ext) (use assms in \<open>auto simp: wr4_def\<close>)
  then show ?thesis by (simp add: put_def)
qed

lemma prev_reads:
  assumes h: "hp0 P s (xs @ (z, False) # ys) fl" and bp: "bp = org P s + tot xs"
  shows "xs = [] \<and> PREV_BLKP s bp = Some bp \<or>
    (\<exists>us w wl. xs = us @ [(w, wl)] \<and> PREV_BLKP s bp = Some (bp - w) \<and> FTRP s (bp - w) = Some (bp - 8) \<and>
      GET_ALLOC s (bp - 8) = Some (of_bool wl) \<and> GET_SIZE s (bp - w - 4) = Some w \<and> 16 \<le> w \<and> 16 \<le> bp - w)"
proof (cases xs rule: rev_cases)
  case Nil
  then show ?thesis using hp0_prev_none [of P s z False ys fl bp] h bp by simp
next
  case (snoc us b)
  obtain w wl where b: "b = (w, wl)" by (cases b)
  have "16 \<le> w" using hp0_D(4) [OF h] snoc b by simp
  then show ?thesis
    using hp0_prev_some [of P s us w wl "(z, False) # ys" fl bp] h snoc b bp by (auto simp: add.assoc)
qed

lemma next_reads:
  assumes h: "hp0 P s (xs @ (z, False) # ys) fl" and bp: "bp = org P s + tot xs"
  shows "ys = [] \<and> GET_ALLOC s (bp + z - 4) = Some 1 \<or>
    (\<exists>w wl vs. ys = (w, wl) # vs \<and> GET_ALLOC s (bp + z - 4) = Some (of_bool wl) \<and>
      GET_SIZE s (bp + z - 4) = Some w \<and> FTRP s (bp + z) = Some (bp + z + w - 8) \<and>
      GET_SIZE s (bp + z + w - 8) = Some w)"
proof (cases ys)
  case Nil
  then show ?thesis using hp0_next_none [of P s xs z False fl bp] h bp by simp
next
  case (Cons b vs)
  obtain w wl where b: "b = (w, wl)" by (cases b)
  then show ?thesis
    using hp0_next_some [of P s xs z False w wl vs fl bp] h Cons bp by auto
qed

lemma merged_refl: "freed P s xs z ys fl \<Longrightarrow> coalesced (xs @ (z, False) # ys) \<Longrightarrow> merged P s xs z ys s (org P s + tot xs)"
  unfolding merged_def by (intro exI conjI) (auto)

lemma coalesce_keep:
  assumes f: "freed P s xs z ys fl" and bp: "bp = org P s + tot xs"
    and prev: "xs = [] \<or> snd (last xs)" and nxt: "ys = [] \<or> snd (hd ys)"
  shows "merge_with rm s bp = Some (s, bp) \<and> merged P s xs z ys s bp"
proof -
  note D = freed_D [OF f]
  note R = hp0_reads [OF D(1) bp]
  have "coalesced (xs @ (z, False) # ys)" using D prev nxt by (simp add: coalesced_append)
  then have m: "merged P s xs z ys s bp" using merged_refl [OF f] bp by simp
  have p: "(PREV_BLKP s bp = Some bp) \<or> (\<exists>w. PREV_BLKP s bp = Some (bp - w) \<and>
      FTRP s (bp - w) = Some (bp - 8) \<and> GET_ALLOC s (bp - 8) = Some 1)"
    using prev_reads [OF D(1) bp] prev by auto
  have n: "GET_ALLOC s (bp + z - 4) = Some 1"
    using next_reads [OF D(1) bp] nxt by auto
  show ?thesis using m R p n by (auto simp: merge_with_def HDRP_4)
qed

context free_list
begin

lemma coalesce_next:
  assumes f: "freed P s xs z ys fl" and bp: "bp = org P s + tot xs"
    and prev: "xs = [] \<or> snd (last xs)" and ys: "ys = (w, False) # vs"
  shows "\<exists>s' p. merge_with rm s bp = Some (s', p) \<and> merged P s xs z ys s' p"
proof -
  note D = freed_D [OF f]
  note R = hp0_reads [OF D(1) bp]
  obtain s1 s' where s1: "rm s (bp + z) = Some s1" "s' = retag s1 bp (z + w) False"
      "room s1 bp (z + w)" "merged P s xs z ((w, False) # vs) s' bp"
    using merge_next [OF _ bp prev] f ys by blast
  have p: "(PREV_BLKP s bp = Some bp) \<or> (\<exists>w. PREV_BLKP s bp = Some (bp - w) \<and>
      FTRP s (bp - w) = Some (bp - 8) \<and> GET_ALLOC s (bp - 8) = Some 1)"
    using prev_reads [OF D(1) bp] prev by auto
  have n: "GET_ALLOC s (bp + z - 4) = Some 0" "GET_SIZE s (bp + z - 4) = Some w"
    using next_reads [OF D(1) bp] ys by auto
  have "room (put s1 (bp - 4) (tg (z + w) False)) bp (z + w)" using s1(3) by simp
  then have "merge_with rm s bp = Some (s', bp)"
    using R p n s1(1,2) room_exec [OF s1(3)] room_exec [of "put s1 (bp - 4) (tg (z + w) False)" bp "z + w"]
    by (auto simp: merge_with_def HDRP_4 Let_def)
  then show ?thesis using s1(4) ys by blast
qed

lemma coalesce_prev:
  assumes f: "freed P s xs z ys fl" and bp: "bp = org P s + tot xs"
    and xs: "xs = us @ [(w, False)]" and nxt: "ys = [] \<or> snd (hd ys)"
  shows "\<exists>s' p. merge_with rm s bp = Some (s', p) \<and> merged P s xs z ys s' p"
proof -
  define p where "p = org P s + tot us"
  note D = freed_D [OF f]
  note R = hp0_reads [OF D(1) bp]
  obtain s1 s' where s1: "rm s p = Some s1" "s' = retag s1 p (w + z) False"
      "room s1 p (w + z)" "hp0 P s1 (us @ (w, False) # (z, False) # ys) (remove1 p fl)" "org P s1 = org P s"
      "merged P s xs z ys s' p"
    using merge_prev [OF f [unfolded xs] p_def nxt] xs by auto
  have bpp: "bp = p + w" using bp xs by (simp add: p_def add.assoc)
  then have "bp - w = p" by simp
  with prev_reads [OF D(1) bp] xs
  have PR: "PREV_BLKP s bp = Some p" "FTRP s p = Some (bp - 8)" "GET_ALLOC s (bp - 8) = Some 0"
      "GET_SIZE s (p - 4) = Some w" and w: "16 \<le> w" by auto
  have n: "GET_ALLOC s (bp + z - 4) = Some 1"
    using next_reads [OF D(1) bp] nxt by auto
  note R1 = hp0_reads [of P s1 "us @ [(w, False)]" z False ys "remove1 p fl" bp]
  have F: "FTRP s1 bp = Some (bp + z - 8)" "PREV_BLKP s1 bp = Some p"
    using R1 hp0_prev_some [of P s1 us w False "(z, False) # ys" "remove1 p fl" bp] s1(4,5) bp xs
    by (auto simp: p_def add.assoc)
  let ?t = "put s1 (bp + z - 8) (tg (w + z) False)"
  have al: "8 dvd bp" "16 \<le> bp" "8 dvd z" "16 \<le> z" using D bp by auto
  have d: "4 dvd bp - 8" "4 dvd bp + z - 8" "bp - 8 \<noteq> bp + z - 8" using al by presburger+
  then have F2: "PREV_BLKP ?t bp = Some p"
    using F(2) GET_SIZE_put_other [of "bp + z - 8" "bp - 8" s1] by (simp add: PREV_BLKP_def mm_consts)
  have eq: "p + (w + z) - 8 = bp + z - 8" using bpp by simp
  have r2: "room ?t p (w + z)" using s1(3) by simp
  have s': "s' = put ?t (p - 4) (tg (w + z) False)"
    unfolding s1(2) retag_def eq by (rule put_commute) (use bpp w al s1(3) in \<open>auto simp: room_def\<close>)
  let ?u = "put ?t (p - 4) (tg (w + z) False)"
  have "p - 4 \<noteq> bp - 8" using bpp w al by presburger
  moreover have "4 dvd p - 4" using room_D(1) [OF s1(3)] .
  ultimately have F3: "PREV_BLKP ?u bp = Some p"
    using F2 GET_SIZE_put_other [of "p - 4" "bp - 8" ?t] d by (simp add: PREV_BLKP_def mm_consts)
  have W: "PUT s1 (bp + z - 8) (PACK (z + w) 0) = Some ?t" "PUT ?t (p - 4) (PACK (z + w) 0) = Some ?u"
    using room_exec(3) [OF s1(3)] room_exec(1) [OF r2] eq by (simp_all add: add.commute)
  have "p \<noteq> bp" using bpp w by simp
  then have "merge_with rm s bp = Some (s', p)"
    using R PR n s1(1) F F2 F3 W s' by (simp add: merge_with_def HDRP_4 Let_def)
  then show ?thesis using s1(6) by blast
qed

lemma coalesce_both:
  assumes f: "freed P s xs z ys fl" and bp: "bp = org P s + tot xs"
    and xs: "xs = us @ [(v, False)]" and ys: "ys = (w, False) # vs"
  shows "\<exists>s' p. merge_with rm s bp = Some (s', p) \<and> merged P s xs z ys s' p"
proof -
  define p where "p = org P s + tot us"
  let ?bs = "us @ (v, False) # (z, False) # (w, False) # vs"
  note D = freed_D [OF f]
  note R = hp0_reads [OF D(1) bp]
  have bpp: "bp = p + v" using bp xs by (simp add: p_def add.assoc)
  then have "bp - v = p" by simp
  with prev_reads [OF D(1) bp] xs
  have PR: "PREV_BLKP s bp = Some p" "FTRP s p = Some (bp - 8)" "GET_ALLOC s (bp - 8) = Some 0"
      "GET_SIZE s (p - 4) = Some v" and v: "16 \<le> v" by auto
  obtain s1 s2 s' f1 f2 where s1: "rm s (bp + z) = Some s1" "rm s1 p = Some s2"
      "s' = retag s2 p (v + z + w) False" "room s2 p (v + z + w)" "hp0 P s1 ?bs f1" "hp0 P s2 ?bs f2"
      "org P s1 = org P s" "org P s2 = org P s" "merged P s xs z ys s' p"
    using merge_both [OF f [unfolded xs ys] p_def bpp] xs ys by auto
  have n: "GET_ALLOC s (bp + z - 4) = Some 0" "FTRP s (bp + z) = Some (bp + z + w - 8)"
      "GET_SIZE s (bp + z + w - 8) = Some w"
    using next_reads [OF D(1) bp] ys by auto
  have al: "8 dvd bp" "16 \<le> bp" "8 dvd z" "16 \<le> z" "8 dvd p" "16 \<le> w" "8 dvd w" "16 \<le> p"
    using D bp bpp xs ys tot_dvd [of us] hp0_D(9) [OF D(1)] by (auto simp: p_def)
  have PV: "PREV_BLKP t bp = Some p" if "hp0 P t ?bs f" "org P t = org P s" for t f
    using hp0_prev_some(1) [of P t us v False "(z, False) # (w, False) # vs" f bp] that bpp
    by (simp add: p_def)
  have NX: "GET_SIZE s2 (bp - 4) = Some z" "GET_SIZE s2 (bp + z - 4) = Some w"
    using hp0_next_some [of P s2 "us @ [(v, False)]" z False w False vs f2 bp]
      hp0_reads(1) [of P s2 "us @ [(v, False)]" z False "(w, False) # vs" f2 bp] s1(6,8) bpp
    by (simp_all add: p_def add.assoc)
  let ?Z = "v + z + w"
  let ?t = "put s2 (p - 4) (tg ?Z False)"
  have dv: "4 dvd a - 4" "4 dvd a - 8" if "8 dvd a" "16 \<le> a" for a :: nat
    using that by presburger+
  have d: "4 dvd p - 4" "4 dvd bp - 4" "4 dvd bp + z - 4" "4 dvd bp - 8" "4 dvd p + ?Z - 8"
    using al room_D(2) [OF s1(4)] dv [of p] dv [of bp] dv [of "bp + z"] by simp_all
  have ne: "p - 4 \<noteq> bp - 4" "p - 4 \<noteq> bp + z - 4" "p - 4 \<noteq> bp - 8" "p + ?Z - 8 \<noteq> bp - 8"
    using al bpp v by linarith+
  have T: "NEXT_BLKP ?t bp = Some (bp + z)" "FTRP ?t (bp + z) = Some (p + ?Z - 8)"
    using NX d ne GET_SIZE_put_other [of "p - 4" "bp - 4" s2] GET_SIZE_put_other [of "p - 4" "bp + z - 4" s2]
      bpp by (simp_all add: NEXT_BLKP_def FTRP_def HDRP_4 mm_consts ac_simps)
  have U: "PREV_BLKP (put ?t (p + ?Z - 8) x) bp = Some p" for x
    using PV [OF s1(6,8)] d ne GET_SIZE_put_other [of "p - 4" "bp - 8" s2]
      GET_SIZE_put_other [of "p + ?Z - 8" "bp - 8" ?t] by (simp add: PREV_BLKP_def mm_consts)
  have eq: "z + (v + w) = ?Z" by simp
  have W: "PUT s2 (p - 4) (PACK ?Z 0) = Some ?t" "PUT ?t (p + ?Z - 8) (PACK ?Z 0) = Some s'"
    using room_exec [OF s1(4)] room_exec [of ?t p ?Z] s1(3,4) by simp_all
  have s': "s' = put ?t (p + ?Z - 8) (tg ?Z False)" using s1(3) by (simp add: retag_def)
  have "p \<noteq> bp" using bpp v by simp
  then have "merge_with rm s bp = Some (s', p)"
    by (simp add: merge_with_def HDRP_4 Let_def eq R PR n s1(1,2) PV [OF s1(5,7)] PV [OF s1(6,8)]
      T W(1) W(2) [unfolded s'] U [folded s'] s' U del: add.assoc)
  then show ?thesis using s1(9) by blast
qed

lemma coalesce_merge_ok:
  assumes f: "freed P s xs z ys fl" and bp: "bp = org P s + tot xs"
  shows "\<exists>s' p. merge_with rm s bp = Some (s', p) \<and> merged P s xs z ys s' p"
proof -
  have "(xs = [] \<or> snd (last xs)) \<or> (\<exists>us w. xs = us @ [(w, False)])"
    by (cases xs rule: rev_cases) auto
  moreover have "(ys = [] \<or> snd (hd ys)) \<or> (\<exists>w vs. ys = (w, False) # vs)"
    by (cases ys) auto
  ultimately show ?thesis
    using coalesce_keep [OF f bp] coalesce_next [OF f bp] coalesce_prev [OF f bp]
      coalesce_both [OF f bp] by blast
qed

end

end
