(* ===== verification/MmAlloc.thy ===== *)
theory MmAlloc
  imports MmCorrect
begin

text \<open>
  Coalescing with insertion and extending the heap, for any free list with the contract.
\<close>

section \<open>Heaps over time\<close>

text \<open>
  What every operation promises about the rest of the heap: the storage is the same, the
  allocated blocks are those of \<open>A\<close>, and the blocks that were allocated in \<open>bs\<close> and are still
  in \<open>A\<close> keep their contents.
\<close>

definition evolves :: "flist \<Rightarrow> mmst \<Rightarrow> block list \<Rightarrow> (nat \<times> nat) set \<Rightarrow> mmst \<Rightarrow> block list \<Rightarrow> bool" where
  "evolves P s bs A s' bs' \<longleftrightarrow> base P s' = base P s \<and> mem_max_addr (lib s') = mem_max_addr (lib s) \<and>
     mem_brk (lib s) \<le> mem_brk (lib s') \<and> allocs (org P s) bs' = A \<and>
     (\<forall>(x, z) \<in> allocs (org P s) bs \<inter> A. \<forall>q. x \<le> q \<and> q + 8 < x + z \<longrightarrow> mem s' q = mem s q)"

lemma same_allocs_evolves:
  "same_allocs P s bs s' bs' \<Longrightarrow> evolves P s bs (allocs (org P s) bs) s' bs'"
  by (auto simp: same_allocs_def evolves_def ctl_def base_def keeps_def payload_allocs)

lemma evolves_trans:
  assumes "evolves P s bs A t bs'" and "evolves P t bs' C u bs''" and "allocs (org P s) bs \<inter> C \<subseteq> A"
  shows "evolves P s bs C u bs''"
proof -
  have b: "base P t = base P s" "allocs (org P t) bs' = A" using assms(1) by (auto simp: evolves_def)
  have "mem u q = mem s q" if "(x, z) \<in> allocs (org P s) bs \<inter> C" "x \<le> q" "q + 8 < x + z" for x z q
  proof -
    have A: "(x, z) \<in> A" using that(1) assms(3) by blast
    then have "mem t q = mem s q" using assms(1) that unfolding evolves_def by blast
    moreover have "(x, z) \<in> allocs (org P t) bs'" using A b(2) by simp
    then have "mem u q = mem t q" using assms(2) that unfolding evolves_def by blast
    ultimately show ?thesis by simp
  qed
  then show ?thesis using assms(1,2) b unfolding evolves_def by auto
qed

lemma heap_ok_D:
  assumes "heap_ok P s bs fl"
  shows "hp0 P s bs fl" "set fl = frees (org P s) bs" "coalesced bs"
  using assms by (auto simp: heap_ok_def)

section \<open>Coalesce with insertion\<close>

context free_list
begin

lemma coalesce_ok:
  assumes f: "freed P s xs z ys fl" and bp: "bp = org P s + tot xs"
  shows "\<exists>s' p bs' fl' z'. coalesce_with rm ins s bp = Some (s', p) \<and> heap_ok P s' bs' fl' \<and>
           same_allocs P s (xs @ (z, False) # ys) s' bs' \<and> (p, z', False) \<in> set (blks (org P s') bs') \<and>
           z \<le> z'"
proof -
  obtain s1 p xs' z' ys' fl' where s1: "merge_with rm s bp = Some (s1, p)"
      "freed P s1 xs' z' ys' fl'" "coalesced (xs' @ (z', False) # ys')" "p = org P s + tot xs'"
      "same_allocs P s (xs @ (z, False) # ys) s1 (xs' @ (z', False) # ys')"
      "tot xs' \<le> tot xs" "tot xs + z \<le> tot xs' + z'"
    using coalesce_merge_ok [OF f bp] unfolding merged_def by blast
  let ?bs = "xs' @ (z', False) # ys'"
  note D = freed_D [OF s1(2)]
  have o: "base P s1 = base P s" by (rule same_allocs_base [OF s1(5)])
  have fl': "set fl' = frees (org P s1) xs' \<union> frees (p + z') ys'"
    using s1(2,4) o by (simp add: freed_def)
  have al: "8 dvd p" using s1(4) o D(7) by simp
  have "p \<notin> set fl'"
    using fl' frees_bounds [of p "org P s1" xs'] frees_bounds [of p "p + z'" ys'] D hp0_D(9) [OF D(1)]
      al s1(4) o by auto
  moreover have "p \<in> starts (org P s1) ?bs" using s1(4) o by simp
  ultimately obtain s2 fl2 where s2: "ins s1 p = Some s2" "hp0 P s2 ?bs fl2" "set fl2 = insert p (set fl')"
      "link_change (fl_heads P (base P s1) \<union> insert p (set fl')) s1 s2"
    using insert_block_spec [OF D(1), of p] by auto
  have sub: "set fl2 = frees (org P s1) ?bs" using s2(3) fl' s1(4) o by auto
  then have sa: "same_allocs P s1 ?bs s2 ?bs"
    by (intro link_change_same_allocs [OF D(1) s2(4)]) (use s2(3) in auto)
  have o2: "base P s2 = base P s1" by (rule same_allocs_base [OF sa])
  have "heap_ok P s2 ?bs fl2" using s2(2) s1(3) sub o2 by (simp add: heap_ok_def)
  moreover have "coalesce_with rm ins s bp = Some (s2, p)" using s1(1) s2(1) by (simp add: coalesce_with_def)
  moreover have "(p, z', False) \<in> set (blks (org P s2) ?bs)" using s1(4) o o2 by simp
  moreover have "same_allocs P s (xs @ (z, False) # ys) s2 ?bs"
    by (rule same_allocs_trans [OF s1(5) sa])
  moreover have "z \<le> z'" using s1(6,7) by simp
  ultimately show ?thesis by blast
qed

end

section \<open>Extending the heap\<close>

context free_list
begin

lemma layout_extend:
  assumes lay: "layout P W B brk bs fl" and B: "8 dvd B" "fl_off P \<le> B" and z: "16 \<le> z" "8 dvd z"
    and same: "\<And>q. q < brk - 4 \<Longrightarrow> W' q = W q"
    and new: "W' (brk - 4) = tg z False" "W' (brk + z - 8) = tg z False" "W' (brk + z - 4) = 1"
  shows "layout P W' B (brk + z) (bs @ [(z, False)]) fl"
proof -
  have wf: "wfb bs" and brk: "brk = B + 32 + tot bs" and sub: "set fl \<subseteq> starts (B + 32) bs"
    using lay by (auto simp: layout_def)
  have "tagged W' (B + 32) bs"
    unfolding tagged_def
  proof (intro allI impI)
    fix x y al assume b: "(x, y, al) \<in> set (blks (B + 32) bs)"
    have "x + y \<le> brk" "16 \<le> y" using layout_bounds [OF lay B(1) b] by auto
    then have "W' (x - 4) = W (x - 4)" "W' (x + y - 8) = W (x + y - 8)" by (intro same; linarith)+
    then show "W' (x - 4) = tg y al \<and> W' (x + y - 8) = tg y al"
      using lay b by (auto simp: layout_def tagged_def)
  qed
  then have t: "tagged W' (B + 32) (bs @ [(z, False)])" using new brk z by simp
  have low: "W' (B + 4) = W (B + 4)" "W' (B + 24) = W (B + 24)"
    using brk by (intro same; simp)+
  have st: "q + 16 \<le> brk" if "q \<in> set fl" for q
    using that sub starts_bounds [OF _ wf, of q "B + 32"] B brk by auto
  have "fl_links P W' B fl = fl_links P W B fl"
  proof (rule links_law)
    show "W' h = W h" if "h \<in> fl_heads P B" for h
      using heads_law [OF B that] brk by (intro same) auto
    show "W' q = W q \<and> W' (q + 4) = W (q + 4)" if "q \<in> set fl" for q
      using st [OF that] by (intro conjI same) auto
  qed
  moreover have "W (B + 4) = tg 24 True" "W (B + 24) = 0" "fl_links P W B fl" "distinct fl"
    using lay unfolding layout_def by blast+
  ultimately show ?thesis using t low new(3) wf z brk sub unfolding layout_def by (auto simp: add.assoc)
qed

end

lemma extend_room:
  assumes h: "hp0 P s bs fl" and z: "16 \<le> z" "8 dvd z" "mem_brk (lib s) + z \<le> mem_max_addr (lib s)"
  shows "room (s\<lparr>lib := (lib s)\<lparr>mem_brk := mem_brk (lib s) + z\<rparr>\<rparr>) (mem_brk (lib s)) z"
    "valid (s\<lparr>lib := (lib s)\<lparr>mem_brk := mem_brk (lib s) + z\<rparr>\<rparr>) (mem_brk (lib s) + z - 4)"
proof -
  have "z < 2 ^ 31" using hp0_D [OF h] z unfolding mem_wf_def by linarith
  moreover have "8 dvd mem_brk (lib s)" using hp0_D [OF h] by auto
  ultimately show "room (s\<lparr>lib := (lib s)\<lparr>mem_brk := mem_brk (lib s) + z\<rparr>\<rparr>) (mem_brk (lib s)) z"
    "valid (s\<lparr>lib := (lib s)\<lparr>mem_brk := mem_brk (lib s) + z\<rparr>\<rparr>) (mem_brk (lib s) + z - 4)"
    using z hp0_D [OF h] by (auto simp: room_def valid_def base_def)
qed

definition extended :: "mmst \<Rightarrow> nat \<Rightarrow> mmst" where
  "extended s z = (let b = mem_brk (lib s) in
     put (retag (s\<lparr>lib := (lib s)\<lparr>mem_brk := b + z\<rparr>\<rparr>) b z False) (b + z - 4) 1)"

context free_list
begin

lemma extended_freed:
  assumes h: "heap_ok P s bs fl" and z: "16 \<le> z" "8 dvd z" "mem_brk (lib s) + z \<le> mem_max_addr (lib s)"
  shows "freed P (extended s z) bs z [] fl"
    and "evolves P s bs (allocs (org P s) bs) (extended s z) (bs @ [(z, False)])"
proof -
  let ?b = "mem_brk (lib s)" and ?t = "extended s z"
  let ?s1 = "s\<lparr>lib := (lib s)\<lparr>mem_brk := ?b + z\<rparr>\<rparr>"
  note H = heap_ok_D [OF h]
  note D = hp0_D [OF H(1)]
  note r = extend_room(1) [OF H(1) z]
  note d = room_D(1-4) [OF r] room_D(6) [OF r]
  have lib: "lib ?t = (lib s)\<lparr>mem_brk := ?b + z\<rparr>" and bas: "base P ?t = base P s" and fp: "free_listp ?t = free_listp s"
    by (simp_all add: extended_def Let_def retag_def base_def)
  have aw1: "aw ?s1 = aw s" by (simp add: aw_def fun_eq_iff)
  have "8 dvd ?b" using r by (simp add: room_def)
  then have d3: "4 dvd ?b + z - 4" using z by presburger
  have W: "aw ?t = (aw s)(?b - 4 := tg z False, ?b + z - 8 := tg z False, ?b + z - 4 := 1)"
    using aw_retag [OF r, of False] d3 by (simp add: extended_def Let_def aw1)
  have b8: "8 \<le> ?b" using r by (simp add: room_def)
  have "layout P (aw ?t) (base P s) (?b + z) (bs @ [(z, False)]) fl"
  proof (rule layout_extend [OF D(7) D(2) D(12) z(1,2)])
    show "aw ?t q = aw s q" if "q < ?b - 4" for q using that z b8 by (auto simp: W)
    show "aw ?t (?b - 4) = tg z False" "aw ?t (?b + z - 8) = tg z False" "aw ?t (?b + z - 4) = 1"
      using z b8 by (auto simp: W)
  qed
  then have "hp0 P ?t (bs @ [(z, False)]) fl"
    using D(1-3) z(3) bas lib fp unfolding hp0_def mem_wf_def by simp
  then show "freed P ?t bs z [] fl" using H bas by (simp add: freed_def)
  have "mem ?t q = mem s q" if "q \<in> payload (org P s) bs" for q
  proof -
    have "q < ?b - 4" using payload_bounds [OF that D(4,9)] D(5) by linarith
    then have "q < ?b - 4" "q < ?b + z - 8" "q < ?b + z - 4" using z(1) by linarith+
    then show ?thesis by (simp add: extended_def Let_def retag_def put_mem_other)
  qed
  then show "evolves P s bs (allocs (org P s) bs) ?t (bs @ [(z, False)])"
    using bas lib unfolding evolves_def payload_allocs by auto
qed

end

lemma to_int32_small: "z < 2 ^ 31 \<Longrightarrow> to_int32 z = int z"
  by (simp add: to_int32_def)

lemma to_int32_big: "2 ^ 31 \<le> z \<Longrightarrow> z < 2 ^ 32 \<Longrightarrow> to_int32 z < 0"
  by (simp add: to_int32_def)

definition chunk :: "nat \<Rightarrow> nat" where
  "chunk words = (if words mod 2 \<noteq> 0 then (words + 1) * WSIZE else words * WSIZE)"

lemma chunk_dvd: "8 dvd chunk words"
  unfolding chunk_def WSIZE_def by (cases "words mod 2 = 0") presburger+

lemma extend_heap_fails:
  assumes "heap_ok P s bs fl" and "chunk words < 2 ^ 32"
    and "mem_max_addr (lib s) < mem_brk (lib s) + chunk words"
  shows "extend_with rm ins s words = Some (s, 0)"
proof -
  note D = hp0_D [OF heap_ok_D(1) [OF assms(1)]]
  have "mem_sbrk (lib s) (to_int32 (chunk words)) = (lib s, None)"
  proof (cases "chunk words < 2 ^ 31")
    case True
    then show ?thesis using mem_sbrk_wf_eq [OF D(1), of "int (chunk words)"] assms(3)
      by (simp add: to_int32_small)
  next
    case False
    then show ?thesis using to_int32_big [of "chunk words"] assms(2) by (simp add: mem_sbrk_def)
  qed
  then show ?thesis unfolding extend_with_def Let_def chunk_def [symmetric] by simp
qed

context free_list
begin

lemma extend_heap_ok:
  assumes h: "heap_ok P s bs fl" and z: "z = chunk words" "16 \<le> z"
    and m: "mem_brk (lib s) + z \<le> mem_max_addr (lib s)"
  shows "\<exists>s' bp bs' fl' z'. extend_with rm ins s words = Some (s', bp) \<and> heap_ok P s' bs' fl' \<and>
           evolves P s bs (allocs (org P s) bs) s' bs' \<and> (bp, z', False) \<in> set (blks (org P s') bs') \<and>
           z \<le> z' \<and> bp \<noteq> 0 \<and> lib s' = (lib s)\<lparr>mem_brk := mem_brk (lib s) + z\<rparr>"
proof -
  let ?b = "mem_brk (lib s)"
  let ?s1 = "s\<lparr>lib := (lib s)\<lparr>mem_brk := ?b + z\<rparr>\<rparr>"
  note D = hp0_D [OF heap_ok_D(1) [OF h]]
  have dz: "8 dvd z" using chunk_dvd z by simp
  note R = extend_room [OF heap_ok_D(1) [OF h] z(2) dz m]
  have zb: "z < 2 ^ 31" using R(1) by (simp add: room_def)
  have sb: "mem_sbrk (lib s) (to_int32 z) = ((lib s)\<lparr>mem_brk := ?b + z\<rparr>, Some ?b)"
    using mem_sbrk_wf_eq [OF D(1), of "int z"] zb m by (simp add: to_int32_small)
  let ?t = "retag ?s1 ?b z False"
  have al: "8 dvd ?b" "16 \<le> ?b" using R(1) D(5) by (auto simp: room_def)
  have ne: "?b - 4 \<noteq> ?b + z - 8" using z(2) al by linarith
  have "GET_SIZE ?t (?b - 4) = Some z"
    using room_exec(5) [OF R(1), of False] GET_SIZE_put_other [of "?b + z - 8" "?b - 4"] room_D [OF R(1)] ne
    by (simp add: retag_def)
  then have nb: "NEXT_BLKP ?t ?b = Some (?b + z)" by (simp add: NEXT_BLKP_def mm_consts)
  have e: "PUT ?t (?b + z - 4) (PACK 0 1) = Some (extended s z)"
    using R(2) by (simp add: PUT_put PACK_def extended_def Let_def retag_def)
  obtain s' p bs' fl' z' where c: "coalesce_with rm ins (extended s z) ?b = Some (s', p)" "heap_ok P s' bs' fl'"
      "same_allocs P (extended s z) (bs @ [(z, False)]) s' bs'" "(p, z', False) \<in> set (blks (org P s') bs')"
      "z \<le> z'"
  proof -
    have "org P (extended s z) = org P s" by (simp add: extended_def Let_def retag_def base_def)
    then show ?thesis
      using that coalesce_ok [OF extended_freed(1) [OF h z(2) dz m], of ?b] D(5) by auto
  qed
  have r2: "room (put ?s1 (?b - 4) (tg z False)) ?b z" using R(1) by simp
  have x: "extend_with rm ins s words = Some (s', p)"
    unfolding extend_with_def Let_def chunk_def [symmetric] z(1) [symmetric] sb
    using room_exec [OF R(1)] room_exec(3) [OF r2] nb e c(1) by (simp add: HDRP_4)
  have ev: "evolves P (extended s z) (bs @ [(z, False)]) (allocs (org P s) bs) s' bs'"
    using same_allocs_evolves [OF c(3)] by (simp add: extended_def Let_def retag_def base_def)
  have "evolves P s bs (allocs (org P s) bs) s' bs'"
    by (rule evolves_trans [OF extended_freed(2) [OF h z(2) dz m] ev]) simp
  moreover have "p \<noteq> 0"
    using c(4) blks_bounds [of p z' False "org P s'" bs'] hp0_D(4,9) [OF heap_ok_D(1) [OF c(2)]] by auto
  moreover have "lib s' = (lib s)\<lparr>mem_brk := mem_brk (lib s) + z\<rparr>"
    using c(3) by (simp add: same_allocs_def ctl_def extended_def Let_def retag_def)
  ultimately show ?thesis using x c(2,4,5) by blast
qed

end

end
