(* ===== verification/MmPlace.thy ===== *)
theory MmPlace
  imports MmAlloc
begin

text \<open>
  Placing, for any free list with the contract: \<^verbatim>\<open>place\<close> turns a free block into an allocated one,
  splitting it when the rest is large enough.
\<close>

lemma free_block_reads:
  assumes h: "heap_ok P s bs fl" and f: "f \<in> set fl"
  shows "\<exists>z. (f, z, False) \<in> set (blks (org P s) bs) \<and> GET_SIZE s (f - 4) = Some z \<and>
           GET_ALLOC s (f - 4) = Some 0"
proof -
  obtain z where "(f, z, False) \<in> set (blks (org P s) bs)"
    using f heap_ok_D(2) [OF h] by (auto simp: frees_def)
  then show ?thesis using hp0_tags(1,2) [OF heap_ok_D(1) [OF h], of f z False] by auto
qed

section \<open>Placing without a split\<close>

lemma sub_mod32:
  fixes a c :: nat
  assumes "a \<le> c" and "c < 2 ^ 32"
  shows "(c + 2 ^ 32 - a) mod 2 ^ 32 = c - a"
proof -
  have "c + 2 ^ 32 - a = (c - a) + 2 ^ 32" using assms(1) by simp
  then show ?thesis using assms(2) by (simp only: mod_add_self2) simp
qed

context free_list
begin

lemma place_whole_ok:
  assumes h: "heap_ok P s (xs @ (c, False) # ys) fl" and bp: "bp = org P s + tot xs"
    and a: "16 \<le> a" "8 dvd a" "a \<le> c" "c - a \<le> 24"
  shows "\<exists>s' fl'. place_with rm ins s bp a = Some s' \<and> heap_ok P s' (xs @ (c, True) # ys) fl' \<and>
           evolves P s (xs @ (c, False) # ys) (insert (bp, c) (allocs (org P s) (xs @ (c, False) # ys))) s'
             (xs @ (c, True) # ys) \<and> lib s' = lib s"
proof -
  let ?bs = "xs @ (c, False) # ys" and ?bs' = "xs @ (c, True) # ys" and ?t = "retag s bp c True"
  note H = heap_ok_D [OF h]
  note D = hp0_D [OF H(1)]
  note R = hp0_reads [OF H(1) bp]
  have r: "room s bp c" using hp0_room [of P s xs "[(c, False)]" ys fl] H(1) bp by simp
  have "set fl \<subseteq> starts (org P s) ?bs'" using H(2) frees_starts [of "org P s" ?bs] by auto
  then have t: "hp0 P ?t ?bs' fl"
    using hp0_retag [of s xs "[(c, False)]" ys fl c True] H(1) bp by simp
  have o: "base P ?t = base P s" by (simp add: retag_def base_def)
  have bpf: "bp \<in> set fl" using H(2) bp by simp
  obtain s' where s': "rm ?t bp = Some s'" "hp0 P s' ?bs' (remove1 bp fl)"
      "link_change (fl_heads P (base P s) \<union> (set fl)) ?t s'"
    using remove_block_spec [OF t bpf] o by auto
  have cs: "ctl s s'" using s'(3) by (auto simp: link_change_def intro: ctl_trans [OF ctl_retag])
  then have o': "base P s' = base P s" by (rule ctl_simps)
  have ds: "distinct fl" using hp0_fl(2) [OF H(1)] .
  have wf: "wfb xs" "wfb ys" "16 \<le> c" "8 dvd c" using D(4) by auto
  have al: "8 dvd bp" using bp D(9) tot_dvd [OF wf(1)] by auto
  have "bp \<notin> frees (org P s) xs" "bp \<notin> frees (bp + c) ys"
    using frees_bounds [of bp "org P s" xs] frees_bounds [of bp "bp + c" ys] wf al D(9) bp by auto
  then have "set (remove1 bp fl) = frees (org P s') ?bs'" using H(2) ds bp o' by auto
  moreover have "coalesced ?bs'" using H(3) by (simp add: coalesced_append)
  ultimately have ok: "heap_ok P s' ?bs' (remove1 bp fl)" using s'(2) by (simp add: heap_ok_def)
  have r2: "room (put s (bp - 4) (tg c True)) bp c" using r by simp
  have "\<not> c - a > 24" using a by simp
  moreover have "(c + 2 ^ 32 - a) mod 2 ^ 32 = c - a"
    using a r by (intro sub_mod32) (auto simp: room_def)
  ultimately have pl: "place_with rm ins s bp a = Some s'"
    using R room_exec [OF r] room_exec(4) [OF r2] s'(1) by (simp add: place_with_def HDRP_4 FSIZE_def)
  have "payload (org P s) ?bs \<subseteq> off_links (fl_heads P (base P s) \<union> (set fl))"
    by (rule payload_off_links [OF H(1)]) (use H(2) in auto)
  then have "keeps (payload (org P s) ?bs) ?t s'"
    using s'(3) by (auto simp: link_change_def intro: keeps_mono)
  moreover have "keeps (payload (org P s) ?bs) s ?t"
    using keeps_retag [OF wf(1,2) D(9), of s c True] r bp by simp
  ultimately have "keeps (payload (org P s) ?bs) s s'" by (rule keeps_trans [rotated])
  then have "evolves P s ?bs (insert (bp, c) (allocs (org P s) ?bs)) s' ?bs'"
    using cs o' bp by (auto simp: evolves_def keeps_def payload_allocs ctl_def)
  then show ?thesis using pl ok cs by (auto simp: ctl_def)
qed

end

section \<open>Placing with a split\<close>

text \<open>
  Between the two retaggings the heap is not well formed: the new allocated block is tagged and
  the rest is not.  The removal from the free list runs in that state.
\<close>

context free_list
begin

lemma split_tags:
  assumes h: "heap_ok P s (xs @ (c, False) # ys) fl" and bp: "bp = org P s + tot xs"
    and a: "16 \<le> a" "8 dvd a" "a + 16 \<le> c" and f: "f \<in> fl_heads P (base P s) \<union> starts (org P s) (xs @ (c, False) # ys)"
    and t: "t \<in> {bp - 4, bp + a - 8, bp + a - 4, bp + c - 8}"
  shows "t \<noteq> f \<and> t \<noteq> f + 4"
proof -
  let ?ns = "xs @ (a, True) # (c - a, False) # ys"
  note D = hp0_D [OF heap_ok_D(1) [OF h]]
  have "8 dvd c" using D(4) by simp
  then have wf: "wfb ?ns" using D(4) a by (auto intro: dvd_diff_nat)
  have b: "(bp, a, True) \<in> set (blks (org P s) ?ns)" "(bp + a, c - a, False) \<in> set (blks (org P s) ?ns)"
    by (simp_all add: bp)
  have "f \<in> fl_heads P (base P s) \<or> f \<in> starts (org P s) ?ns" using f a by (auto simp: add.assoc)
  then show ?thesis
  proof
    assume "f \<in> fl_heads P (base P s)"
    from heads_law [OF D(2,12) this] show ?thesis using t bp a by auto
  next
    assume st: "f \<in> starts (org P s) ?ns"
    have o8: "8 \<le> org P s" by simp
    have "bp + a + (c - a) - 8 = bp + c - 8" using a by simp
    then have n: "bp - 4 \<noteq> f" "bp - 4 \<noteq> f + 4" "bp + a - 8 \<noteq> f" "bp + a - 8 \<noteq> f + 4"
      "bp + a - 4 \<noteq> f" "bp + a - 4 \<noteq> f + 4" "bp + c - 8 \<noteq> f" "bp + c - 8 \<noteq> f + 4"
      using starts_not_tag(1-4) [OF st b(1) wf D(9) o8] starts_not_tag(1-4) [OF st b(2) wf D(9) o8] by metis+
    with t show ?thesis by (metis empty_iff insert_iff)
  qed
qed

lemma place_split_remove:
  assumes h: "heap_ok P s (xs @ (c, False) # ys) fl" and bp: "bp = org P s + tot xs"
    and a: "16 \<le> a" "8 dvd a" "a + 16 \<le> c"
  shows "\<exists>s2. rm (retag s bp a True) bp = Some s2 \<and>
           NEXT_BLKP s2 bp = Some (bp + a) \<and> ctl s s2 \<and> room s2 bp a \<and>
           keeps (payload (org P s) (xs @ (c, False) # ys)) s s2 \<and>
           hp0 P (retag s2 (bp + a) (c - a) False) (xs @ (a, True) # (c - a, False) # ys) (remove1 bp fl)"
proof -
  let ?bs = "xs @ (c, False) # ys" and ?s1 = "retag s bp a True" and ?H = "fl_heads P (base P s)" and ?fl = "remove1 bp fl"
  let ?ns = "xs @ (a, True) # (c - a, False) # ys"
  note H = heap_ok_D [OF h]
  note D = hp0_D [OF H(1)]
  note F = hp0_fl [OF H(1)]
  have rc: "room s bp c" using hp0_room [of P s xs "[(c, False)]" ys fl] H(1) bp by simp
  have r: "room s bp a"
    using rc a D(5,10) bp by (auto simp: room_def valid_def)
  have W1: "aw ?s1 = (aw s)(bp - 4 := tg a True, bp + a - 8 := tg a True)" by (rule aw_retag [OF r])
  note nt = split_tags [OF h bp a]
  have bpf: "bp \<in> set fl" using H(2) bp by simp
  have sub: "set fl \<subseteq> starts (org P s) ?bs" by (fact F(3))
  have d1: "fl_links P (aw ?s1) (base P s) fl"
  proof -
    have same: "aw ?s1 f = aw s f \<and> aw ?s1 (f + 4) = aw s (f + 4)" if "f \<in> ?H \<union> starts (org P s) ?bs" for f
    proof -
      have "bp - 4 \<noteq> f \<and> bp - 4 \<noteq> f + 4" "bp + a - 8 \<noteq> f \<and> bp + a - 8 \<noteq> f + 4" by (rule nt [OF that], simp)+
      then show ?thesis by (auto simp: W1)
    qed
    have "fl_links P (aw ?s1) (base P s) fl = fl_links P (aw s) (base P s) fl"
    proof (rule links_law)
      show "aw ?s1 h = aw s h" if "h \<in> ?H" for h using same [of h] that by blast
      show "aw ?s1 f = aw s f \<and> aw ?s1 (f + 4) = aw s (f + 4)" if "f \<in> set fl" for f
        using same [of f] that sub by blast
    qed
    then show ?thesis using F(1) by simp
  qed
  have "listed P ?s1 (base P s) (set fl)" using hp0_listed [OF H(1) sub] by (simp add: retag_def)
  from remove_law [OF this d1 F(2) bpf] obtain s2 where s2: "rm ?s1 bp = Some s2"
      "fl_links P (aw s2) (base P s) ?fl" "link_change (?H \<union> (set fl - {bp})) ?s1 s2" by blast
  have set1: "set ?fl = set fl - {bp}" using F(2) by simp
  have A: "?H \<union> (set fl - {bp}) \<subseteq> ?H \<union> starts (org P s) ?bs" using sub by auto
  have lc: "\<exists>f\<in>?H \<union> starts (org P s) ?bs. q = f \<or> q = f + 4" if "aw s2 q \<noteq> aw ?s1 q" for q
    using s2(3) that A unfolding link_change_def by blast
  have tags: "aw s2 t = aw ?s1 t" if "t \<in> {bp - 4, bp + a - 8, bp + a - 4, bp + c - 8}" for t
    using lc [of t] nt [OF _ that] by blast
  have cs: "ctl s s2" using s2(3) by (auto simp: link_change_def intro: ctl_trans [OF ctl_retag])
  have r2: "room s2 bp a" using r ctl_simps(2) [OF cs] by (simp add: room_def)
  have ra: "8 dvd c" "8 dvd bp" "8 \<le> bp" "c < 2 ^ 31" using rc by (auto simp: room_def)
  have rs: "16 \<le> c - a" "8 dvd c - a" "c - a < 2 ^ 31" "8 dvd bp + a" "bp + a + (c - a) = bp + c"
    using a ra by (auto intro: dvd_diff_nat dvd_add)
  have "valid s (bp + a - 4)" "valid s (bp + c - 8)"
    using rc r a D(5,10) unfolding room_def valid_def by linarith+
  then have r3: "room s2 (bp + a) (c - a)"
    unfolding room_def rs(5) using rs ra ctl_simps(2) [OF cs] by simp
  let ?s3 = "retag s2 (bp + a) (c - a) False"
  have W3: "aw ?s3 = (aw s2)(bp + a - 4 := tg (c - a) False, bp + c - 8 := tg (c - a) False)"
    using aw_retag [OF r3, of False] rs(5) by simp
  define V where "V = (aw s2)(bp - 4 := aw s (bp - 4), bp + a - 8 := aw s (bp + a - 8))"
  have fne: "aw ?s3 f = V f" "aw ?s3 (f + 4) = V (f + 4)" "V f = aw s2 f" "V (f + 4) = aw s2 (f + 4)"
    if "f \<in> ?H \<union> starts (org P s) ?bs" for f
    using nt [OF that, of "bp - 4"] nt [OF that, of "bp + a - 8"] nt [OF that, of "bp + a - 4"]
      nt [OF that, of "bp + c - 8"] by (auto simp: W3 V_def)
  have lv: "fl_links P V (base P s) ?fl"
  proof -
    have "fl_links P V (base P s) ?fl = fl_links P (aw s2) (base P s) ?fl"
    proof (rule links_law)
      show "V h = aw s2 h" if "h \<in> ?H" for h using fne(3) [of h] that by blast
      show "V f = aw s2 f \<and> V (f + 4) = aw s2 (f + 4)" if "f \<in> set ?fl" for f
        using fne(3,4) [of f] that sub set1 by blast
    qed
    then show ?thesis using s2(2) by simp
  qed
  have "layout P V (base P s) (mem_brk (lib s)) ?bs ?fl"
  proof (rule layout_links [OF D(7) D(2) D(12)])
    show "\<exists>f\<in>?H \<union> starts (org P s) ?bs. q = f \<or> q = f + 4" if "V q \<noteq> aw s q" for q
      using that lc [of q] by (auto simp: W1 V_def split: if_splits)
    show "distinct ?fl" "set ?fl \<subseteq> starts (org P s) ?bs" using F(2) sub set1 by auto
  qed (fact lv)
  then have "layout P V (base P s) (mem_brk (lib s)) (xs @ [(c, False)] @ ys) ?fl" by simp
  then have "layout P (aw ?s3) (base P s) (mem_brk (lib s)) (xs @ [(a, True), (c - a, False)] @ ys) ?fl"
  proof (rule layout_retag [OF _ D(2) D(12) bp])
    show "tot [(a, True), (c - a, False)] = tot [(c, False)]" "wfb [(a, True), (c - a, False)]"
      using a rs by simp_all
    have "aw s2 (bp - 4) = tg a True" "aw s2 (bp + a - 8) = tg a True"
      using tags [of "bp - 4"] tags [of "bp + a - 8"] by (auto simp: W1)
    moreover have "bp - 4 \<noteq> bp + a - 4" "bp - 4 \<noteq> bp + c - 8" "bp + a - 8 \<noteq> bp + a - 4"
      "bp + a - 8 \<noteq> bp + c - 8" using a ra(3) by linarith+
    ultimately show "tagged (aw ?s3) bp [(a, True), (c - a, False)]" using rs(5) by (simp add: W3)
    show "aw ?s3 q = V q" if "q < bp - 4 \<or> bp + tot [(c, False)] - 8 < q" for q
    proof -
      have "q \<noteq> bp - 4 \<and> q \<noteq> bp + a - 8 \<and> q \<noteq> bp + a - 4 \<and> q \<noteq> bp + c - 8"
        using that a ra(3) by (auto; linarith)
      then show ?thesis by (simp add: W3 V_def)
    qed
    show "aw ?s3 f = V f \<and> aw ?s3 (f + 4) = V (f + 4)" if "f \<in> set ?fl" for f
      using fne(1,2) [of f] that sub set1 by auto
    show "set ?fl \<subseteq> starts (org P s) (xs @ [(a, True), (c - a, False)] @ ys)"
      using sub set1 a by (auto simp: add.assoc)
  qed
  then have hp: "hp0 P ?s3 ?ns (remove1 bp fl)"
    using D cs by (simp add: hp0_def base_def ctl_def retag_def)
  have "GET_SIZE s2 (bp - 4) = Some a"
    using tags [of "bp - 4"] r2 room_D [OF r2] by (intro GET_SIZE_tg [of _ _ _ True]) (auto simp: W1 room_def)
  then have nx: "NEXT_BLKP s2 bp = Some (bp + a)" by (simp add: NEXT_BLKP_def mm_consts)
  have "keeps (payload (org P s) ?bs) ?s1 s2"
  proof -
    have "?H \<union> (set fl - {bp}) \<subseteq> ?H \<union> frees (org P s) ?bs" using H(2) by auto
    from payload_off_links [OF H(1) this] show ?thesis
      using s2(3) by (auto simp: link_change_def intro: keeps_mono)
  qed
  moreover have "keeps (payload (org P s) ?bs) s ?s1"
    using keeps_retag [of xs "(c - a, False) # ys" "org P s" s a True] D(4,9) r bp rs a by (simp add: add.assoc)
  ultimately have "keeps (payload (org P s) ?bs) s s2" by (rule keeps_trans [rotated])
  then show ?thesis using s2(1) nx cs r2 hp by blast
qed

lemma place_split_ok:
  assumes h: "heap_ok P s (xs @ (c, False) # ys) fl" and bp: "bp = org P s + tot xs"
    and a: "16 \<le> a" "8 dvd a" "a + 24 < c"
  shows "\<exists>s' bs' fl'. place_with rm ins s bp a = Some s' \<and> heap_ok P s' bs' fl' \<and>
           evolves P s (xs @ (c, False) # ys) (insert (bp, a) (allocs (org P s) (xs @ (c, False) # ys))) s' bs' \<and>
           lib s' = lib s"
proof -
  let ?bs = "xs @ (c, False) # ys" and ?ns = "xs @ (a, True) # (c - a, False) # ys"
  note H = heap_ok_D [OF h]
  note D = hp0_D [OF H(1)]
  note R = hp0_reads [OF H(1) bp]
  have a16: "a + 16 \<le> c" using a by simp
  have rc: "room s bp c" using hp0_room [of P s xs "[(c, False)]" ys fl] H(1) bp by simp
  have r: "room s bp a" using rc a D(5,10) bp by (auto simp: room_def valid_def)
  obtain s2 where s2: "rm (retag s bp a True) bp = Some s2" "NEXT_BLKP s2 bp = Some (bp + a)"
      "ctl s s2" "room s2 bp a" "keeps (payload (org P s) ?bs) s s2"
      "hp0 P (retag s2 (bp + a) (c - a) False) ?ns (remove1 bp fl)"
    using place_split_remove [OF h bp a(1,2) a16] by blast
  let ?s3 = "retag s2 (bp + a) (c - a) False"
  have b2: "base P s2 = base P s" "base P ?s3 = base P s" using ctl_simps(1) [OF s2(3)] by (simp_all add: retag_def base_def)
  have wf: "wfb xs" "wfb ys" "16 \<le> c" "8 dvd c" using D(4) by auto
  have al: "8 dvd bp" using bp D(9) tot_dvd [OF wf(1)] by auto
  have "bp \<notin> frees (org P s) xs" "bp \<notin> frees (bp + c) ys"
    using frees_bounds [of bp "org P s" xs] frees_bounds [of bp "bp + c" ys] wf al D(9) bp by auto
  then have "set (remove1 bp fl) = frees (org P s) xs \<union> frees (bp + c) ys"
    using H(2) hp0_fl(2) [OF H(1)] bp by auto
  moreover have "coalesced xs \<and> coalesced ys" using H(3) by (simp add: coalesced_append)
  moreover have "coalesced (xs @ [(a, True)])" using calculation(2) by (simp add: coalesced_append)
  ultimately have fr: "freed P ?s3 (xs @ [(a, True)]) (c - a) ys (remove1 bp fl)"
    using s2(6) b2 bp a by (simp add: freed_def add.assoc)
  obtain s' p bs' fl' z' where s': "coalesce_with rm ins ?s3 (bp + a) = Some (s', p)" "heap_ok P s' bs' fl'"
      "same_allocs P ?s3 ?ns s' bs'"
    using coalesce_ok [OF fr, of "bp + a"] b2 bp by (auto simp: add.assoc)
  have r3: "room s2 (bp + a) (c - a)"
    using hp0_room [of P ?s3 "xs @ [(a, True)]" "[(c - a, False)]" ys "remove1 bp fl"] s2(6) b2 bp
    by (simp add: add.assoc) (simp add: retag_def)
  have r1: "room (put s (bp - 4) (tg a True)) bp a" and r4: "room (put s2 (bp + a - 4) (tg (c - a) False)) (bp + a) (c - a)"
    using r r3 by simp_all
  have "(c + 2 ^ 32 - a) mod 2 ^ 32 = c - a" using a rc by (intro sub_mod32) (auto simp: room_def)
  moreover have "c - a > 24" using a by simp
  ultimately have pl: "place_with rm ins s bp a = Some s'"
    using R room_exec [OF r] room_exec(4) [OF r1] room_exec [OF r3] room_exec(3) [OF r4] s2(1,2) s'(1)
    by (simp add: place_with_def HDRP_4 FSIZE_def)
  have "keeps (payload (org P s) (xs @ [(a, True)]) \<union> payload (bp + c) ys) s2 ?s3"
    using keeps_retag [of "xs @ [(a, True)]" ys "org P s" s2 "c - a" False] D(4,9) r3 bp a
    by (simp add: add.assoc)
  then have "keeps (payload (org P s) ?bs) s ?s3"
    using s2(5) bp by (auto intro: keeps_trans keeps_mono)
  then have "evolves P s ?bs (insert (bp, a) (allocs (org P s) ?bs)) ?s3 ?ns"
    using b2 s2(3) bp a by (auto simp: evolves_def keeps_def payload_allocs ctl_def retag_def add.assoc)
  moreover have "allocs (org P ?s3) ?ns = insert (bp, a) (allocs (org P s) ?bs)"
    using b2 bp a by (auto simp: add.assoc)
  ultimately have ev: "evolves P s ?bs (insert (bp, a) (allocs (org P s) ?bs)) s' bs'"
    using same_allocs_evolves [OF s'(3)] by (auto intro: evolves_trans)
  have "lib s' = lib s" using s'(3) s2(3) by (simp add: same_allocs_def ctl_def retag_def)
  then show ?thesis using pl s'(2) ev by blast
qed

lemma place_ok:
  assumes h: "heap_ok P s bs fl" and b: "(bp, c, False) \<in> set (blks (org P s) bs)"
    and a: "16 \<le> a" "8 dvd a" "a \<le> c"
  shows "\<exists>s' bs' fl' z. place_with rm ins s bp a = Some s' \<and> heap_ok P s' bs' fl' \<and> a \<le> z \<and> z \<le> a + 24 \<and>
           evolves P s bs (insert (bp, z) (allocs (org P s) bs)) s' bs' \<and> lib s' = lib s"
proof -
  have "bp \<in> frees (org P s) bs" using b by (auto simp: frees_def)
  then obtain xs z ys where bs: "bs = xs @ (z, False) # ys" "bp = org P s + tot xs"
    using frees_split by blast
  then have "(bp, z, False) \<in> set (blks (org P s) bs)" by simp
  then have z: "z = c" using blks_unique [OF _ b] hp0_D(4) [OF heap_ok_D(1) [OF h]] by blast
  have h': "heap_ok P s (xs @ (c, False) # ys) fl" using h bs z by simp
  show ?thesis
  proof (cases "c - a \<le> 24")
    case True
    then have "c \<le> a + 24" by simp
    with place_whole_ok [OF h' bs(2) a True] a show ?thesis unfolding bs(1) z by blast
  next
    case False
    then have "a + 24 < c" by simp
    moreover have "a \<le> a + 24" by simp
    ultimately show ?thesis using place_split_ok [OF h' bs(2) a(1,2)] unfolding bs(1) z by blast
  qed
qed

end

end
