(* ===== verification/MmInterface.thy ===== *)
theory MmInterface
  imports MmPlace
begin

text \<open>
  Correctness of the interface that the allocators with boundary tags share: \<^verbatim>\<open>mm_malloc\<close>, \<^verbatim>\<open>mm_free\<close> and
  \<^verbatim>\<open>mm_realloc\<close>, for any free list and any search with the contract.
\<close>

section \<open>Free\<close>

context free_list
begin

lemma free_ok:
  assumes h: "heap_ok P s bs fl" and b: "(bp, z) \<in> allocs (org P s) bs"
  shows "\<exists>s' bs' fl'. free_with rm ins s bp = Some s' \<and> heap_ok P s' bs' fl' \<and>
           evolves P s bs (allocs (org P s) bs - {(bp, z)}) s' bs' \<and> ctl s s'"
proof -
  have bb: "(bp, z, True) \<in> set (blks (org P s) bs)" using b by (simp add: allocs_def)
  then have "bp \<in> starts (org P s) bs" by (auto simp: starts_def)
  then obtain xs w wl ys where "bs = xs @ (w, wl) # ys" "bp = org P s + tot xs"
    using starts_split by blast
  moreover from this have "(bp, w, wl) \<in> set (blks (org P s) bs)" by simp
  moreover have "w = z \<and> wl"
    using blks_unique [OF calculation(3) bb] hp0_D(4) [OF heap_ok_D(1) [OF h]] by simp
  ultimately have bs: "bs = xs @ (z, True) # ys" and bp: "bp = org P s + tot xs" by simp_all
  note H = heap_ok_D [OF h]
  note D = hp0_D [OF H(1)]
  let ?t = "retag s bp z False" and ?ns = "xs @ (z, False) # ys"
  have r: "room s bp z" using hp0_room [of P s xs "[(z, True)]" ys fl] H(1) bp bs by simp
  then have r1: "room (put s (bp - 4) (tg z False)) bp z" by simp
  have o: "base P ?t = base P s" by (simp add: retag_def base_def)
  have "set fl \<subseteq> starts (org P s) ?ns" using H(2) bs frees_starts [of "org P s" bs] by auto
  then have "hp0 P ?t ?ns fl" using hp0_retag [of s xs "[(z, True)]" ys fl z False] H(1) bp bs by simp
  then have fr: "freed P ?t xs z ys fl"
    using H(2,3) bs o by (simp add: freed_def coalesced_append)
  obtain s' p bs' fl' z' where s': "coalesce_with rm ins ?t bp = Some (s', p)" "heap_ok P s' bs' fl'"
      "same_allocs P ?t ?ns s' bs'"
    using coalesce_ok [OF fr, of bp] o bp by auto
  have "GET_SIZE s (bp - 4) = Some z" using hp0_tags(1) [OF H(1) bb] .
  then have m: "free_with rm ins s bp = Some s'"
    using room_exec [OF r] room_exec(3) [OF r1] s'(1) by (simp add: free_with_def HDRP_4)
  have wf: "wfb xs" "wfb ys" "16 \<le> z" "8 dvd z" using D(4) bs by auto
  have al: "8 dvd bp" using bp D(9) tot_dvd [OF wf(1)] by auto
  have out: "(bp, z) \<notin> allocs (org P s) xs" "(bp, z) \<notin> allocs (bp + z) ys"
    using blks_bounds [of bp z True "org P s" xs] blks_bounds [of bp z True "bp + z" ys] wf D(9) al bp
    by (auto simp: allocs_def)
  then have A: "allocs (org P s) ?ns = allocs (org P s) bs - {(bp, z)}" using bs bp by auto
  have "keeps (payload (org P s) ?ns) s ?t"
    using keeps_retag [OF wf(1,2) D(9), of s z False] r bp by simp
  then have "evolves P s bs (allocs (org P s) bs - {(bp, z)}) ?t ?ns"
    using A o unfolding evolves_def keeps_def payload_allocs by (auto simp: retag_def)
  moreover have "evolves P ?t ?ns (allocs (org P s) bs - {(bp, z)}) s' bs'"
    using same_allocs_evolves [OF s'(3)] A o by simp
  ultimately have "evolves P s bs (allocs (org P s) bs - {(bp, z)}) s' bs'"
    by (rule evolves_trans) auto
  moreover have "ctl s s'" using s'(3) by (auto simp: same_allocs_def intro: ctl_trans [OF ctl_retag])
  ultimately show ?thesis using m s'(2) by blast
qed

end

section \<open>Malloc\<close>

text \<open>The law of \<^verbatim>\<open>find_fit\<close>: NULL, or a free block that is large enough.\<close>

locale boundary_tags = free_list +
  fixes fit :: fit_op
  assumes fit_law: "heap_ok P s bs fl \<Longrightarrow> fit s a = Some 0 \<or>
      (\<exists>bp z. fit s a = Some bp \<and> (bp, z, False) \<in> set (blks (org P s) bs) \<and> a \<le> z)"

lemma free_block_nonzero: "heap_ok P s bs fl \<Longrightarrow> (x, z, al) \<in> set (blks (org P s) bs) \<Longrightarrow> x \<noteq> 0 \<and> 8 dvd x"
  using blks_bounds [of x z al "org P s" bs] hp0_D(4,9) [OF heap_ok_D(1)] by force

context free_list
begin

lemma place_result:
  assumes "heap_ok P s bs fl" and "(bp, c, False) \<in> set (blks (org P s) bs)"
    and "16 \<le> a" "8 dvd a" "a \<le> c"
  shows "\<exists>s' bs' fl' z. place_with rm ins s bp a = Some s' \<and> heap_ok P s' bs' fl' \<and> a \<le> z \<and> z \<le> a + 24 \<and>
           evolves P s bs (insert (bp, z) (allocs (org P s) bs)) s' bs' \<and> bp \<noteq> 0 \<and> 8 dvd bp \<and>
           bp \<notin> fst ` allocs (org P s) bs \<and> lib s' = lib s"
proof -
  have "bp \<notin> fst ` allocs (org P s) bs"
    using blks_unique [OF assms(2)] hp0_D(4) [OF heap_ok_D(1) [OF assms(1)]] by (fastforce simp: allocs_def)
  then show ?thesis using place_ok [OF assms] free_block_nonzero [OF assms(1,2)] by blast
qed

end

context boundary_tags
begin

lemma malloc_found:
  assumes h: "heap_ok P s bs fl" and n: "0 < n" "n < 2 ^ 32 - 15"
    and f: "fit s (get_asize n) = Some bp" "(bp, c, False) \<in> set (blks (org P s) bs)" "get_asize n \<le> c"
  shows "\<exists>s' bs' fl' z. malloc_with rm ins fit s n = Some (s', bp) \<and> bp \<noteq> 0 \<and> 8 dvd bp \<and> heap_ok P s' bs' fl' \<and>
           n + 8 \<le> z \<and> z < n + 40 \<and> evolves P s bs (insert (bp, z) (allocs (org P s) bs)) s' bs' \<and>
           bp \<notin> fst ` allocs (org P s) bs"
proof -
  note a = get_asize_bounds [OF n]
  obtain s' bs' fl' z where s': "place_with rm ins s bp (get_asize n) = Some s'" "heap_ok P s' bs' fl'"
      "get_asize n \<le> z" "z \<le> get_asize n + 24"
      "evolves P s bs (insert (bp, z) (allocs (org P s) bs)) s' bs'" "bp \<noteq> 0" "8 dvd bp"
      "bp \<notin> fst ` allocs (org P s) bs"
    using place_result [OF h f(2) a(1,2) f(3)] by blast
  then have "malloc_with rm ins fit s n = Some (s', bp)" using n f(1) by (simp add: malloc_with_def)
  moreover have "n + 8 \<le> z" "z < n + 40" using a s'(3,4) by linarith+
  ultimately show ?thesis using s' by blast
qed

end

lemma extend_size:
  assumes "0 < n" and "n < 2 ^ 32 - 15"
  defines "e \<equiv> max (get_asize n) CHUNKSIZE"
  shows "chunk (e div WSIZE) = e" and "e < 2 ^ 32" and "16 \<le> e" and "get_asize n \<le> e"
proof -
  note a = get_asize_bounds [OF assms(1,2)]
  have d: "8 dvd e" using a(2) by (auto simp: e_def CHUNKSIZE_def max_def)
  then obtain k where "e = 8 * k" ..
  then show "chunk (e div WSIZE) = e" by (simp add: chunk_def WSIZE_def)
  have "get_asize n < 2 ^ 32 + 1" using a(4) assms(2) by linarith
  then have "e < 2 ^ 32 + 1" by (simp add: e_def CHUNKSIZE_def)
  then show "e < 2 ^ 32" using d by (cases "e = 2 ^ 32") (use a assms(2) in \<open>auto simp: e_def CHUNKSIZE_def max_def split: if_splits\<close>)
  show "16 \<le> e" "get_asize n \<le> e" using a by (auto simp: e_def CHUNKSIZE_def)
qed

context boundary_tags
begin

lemma malloc_extends:
  assumes h: "heap_ok P s bs fl" and n: "0 < n" "n < 2 ^ 32 - 15"
    and f: "fit s (get_asize n) = Some 0"
    and m: "mem_brk (lib s) + max (get_asize n) CHUNKSIZE \<le> mem_max_addr (lib s)"
  shows "\<exists>s' bp bs' fl' z. malloc_with rm ins fit s n = Some (s', bp) \<and> bp \<noteq> 0 \<and> 8 dvd bp \<and> heap_ok P s' bs' fl' \<and>
           n + 8 \<le> z \<and> z < n + 40 \<and> evolves P s bs (insert (bp, z) (allocs (org P s) bs)) s' bs' \<and>
           bp \<notin> fst ` allocs (org P s) bs \<and> lib s' = (lib s)\<lparr>mem_brk := mem_brk (lib s) + max (get_asize n) CHUNKSIZE\<rparr>"
proof -
  let ?e = "max (get_asize n) CHUNKSIZE"
  note a = get_asize_bounds [OF n] and e = extend_size [OF n]
  obtain s1 bp bs1 fl1 c where s1: "extend_with rm ins s (?e div WSIZE) = Some (s1, bp)" "heap_ok P s1 bs1 fl1"
      "evolves P s bs (allocs (org P s) bs) s1 bs1" "(bp, c, False) \<in> set (blks (org P s1) bs1)" "?e \<le> c" "bp \<noteq> 0"
      "lib s1 = (lib s)\<lparr>mem_brk := mem_brk (lib s) + ?e\<rparr>"
    using extend_heap_ok [OF h e(1) [symmetric] e(3) m] by blast
  have "get_asize n \<le> c" using e(4) s1(5) by simp
  from place_result [OF s1(2,4) a(1,2) this]
  obtain s' bs' fl' z where s': "place_with rm ins s1 bp (get_asize n) = Some s'" "heap_ok P s' bs' fl'"
      "get_asize n \<le> z" "z \<le> get_asize n + 24"
      "evolves P s1 bs1 (insert (bp, z) (allocs (org P s1) bs1)) s' bs'" "8 dvd bp"
      "bp \<notin> fst ` allocs (org P s1) bs1" "lib s' = lib s1" by blast
  have al: "allocs (org P s1) bs1 = allocs (org P s) bs" using s1(3) by (simp add: evolves_def)
  then have "evolves P s1 bs1 (insert (bp, z) (allocs (org P s) bs)) s' bs'" using s'(5) by simp
  then have ev: "evolves P s bs (insert (bp, z) (allocs (org P s) bs)) s' bs'"
    by (rule evolves_trans [OF s1(3)]) auto
  have "malloc_with rm ins fit s n = Some (s', bp)" using n f s1(1,6) s'(1) by (simp add: malloc_with_def)
  moreover have "n + 8 \<le> z" "z < n + 40" using a s'(3,4) by linarith+
  ultimately show ?thesis using s'(2,6,7,8) s1(6,7) ev al by auto
qed

lemma malloc_ok:
  assumes h: "heap_ok P s bs fl" and n: "0 < n" "n < 2 ^ 32 - 15"
  shows "malloc_with rm ins fit s n = Some (s, 0) \<and> fit s (get_asize n) = Some 0 \<and>
           mem_max_addr (lib s) < mem_brk (lib s) + max (get_asize n) CHUNKSIZE \<or>
         (\<exists>s' p bs' fl' z. malloc_with rm ins fit s n = Some (s', p) \<and> p \<noteq> 0 \<and> 8 dvd p \<and> heap_ok P s' bs' fl' \<and>
           n + 8 \<le> z \<and> z < n + 40 \<and> evolves P s bs (insert (p, z) (allocs (org P s) bs)) s' bs' \<and>
           p \<notin> fst ` allocs (org P s) bs \<and> (fit s (get_asize n) = Some 0 \<longrightarrow>
             mem_brk (lib s') = mem_brk (lib s) + max (get_asize n) CHUNKSIZE))"
  using fit_law [OF h, of "get_asize n"]
proof (elim disjE exE conjE)
  fix bp z assume f: "fit s (get_asize n) = Some bp" "(bp, z, False) \<in> set (blks (org P s) bs)" "get_asize n \<le> z"
  then have "bp \<noteq> 0" using free_block_nonzero [OF h] by blast
  then show ?thesis using malloc_found [OF h n f] f(1) by auto
next
  assume f: "fit s (get_asize n) = Some 0"
  show ?thesis
  proof (cases "mem_brk (lib s) + max (get_asize n) CHUNKSIZE \<le> mem_max_addr (lib s)")
    case True
    then show ?thesis using malloc_extends [OF h n f] by fastforce
  next
    case False
    note e = extend_size [OF n]
    have "extend_with rm ins s (max (get_asize n) CHUNKSIZE div WSIZE) = Some (s, 0)"
      by (rule extend_heap_fails [OF h]) (use e False in auto)
    then have "malloc_with rm ins fit s n = Some (s, 0)" using n f by (simp add: malloc_with_def)
    then show ?thesis using f False by auto
  qed
qed

end

section \<open>Realloc\<close>

text \<open>A change of bytes inside of the allocated blocks keeps the heap well formed.\<close>

context free_list
begin

lemma payload_frame:
  assumes h: "heap_ok P s bs fl"
  shows "q \<in> payload (org P s) bs \<Longrightarrow> org P s \<le> q \<and> q + 8 < mem_brk (lib s)"
    and "(x, z, al) \<in> set (blks (org P s) bs) \<Longrightarrow> t = x - 4 \<or> t = x + z - 8 \<Longrightarrow> i < 4 \<Longrightarrow> t + i \<notin> payload (org P s) bs"
    and "f \<in> set fl \<Longrightarrow> i < 8 \<Longrightarrow> f + i \<notin> payload (org P s) bs"
proof -
  note H = heap_ok_D [OF h]
  note D = hp0_D [OF H(1)]
  show "org P s \<le> q \<and> q + 8 < mem_brk (lib s)" if "q \<in> payload (org P s) bs"
    using payload_bounds [OF that D(4,9)] D(5) by auto
  show "t + i \<notin> payload (org P s) bs"
    if b: "(x, z, al) \<in> set (blks (org P s) bs)" and t: "t = x - 4 \<or> t = x + z - 8" and i: "i < 4"
  proof
    assume "t + i \<in> payload (org P s) bs"
    then obtain y w where y: "(y, w, True) \<in> set (blks (org P s) bs)" "y \<le> t + i" "t + i + 8 < y + w"
      by (auto simp: payload_def)
    then have st: "y \<in> starts (org P s) bs" by (auto simp: starts_def)
    have B: "16 \<le> z" "16 \<le> w" "32 \<le> x" using blks_bounds [OF b D(4,9)] blks_bounds [OF y(1) D(4,9)] by auto
    have "8 \<le> org P s" by simp
    from starts_not_tag(5) [OF st b D(4,9) this]
    consider "y = x" | "y + 16 \<le> x" | "x + z \<le> y" by blast
    then show False
    proof cases
      case 1
      then have "w = z" using blks_unique [OF _ y(1) D(4)] b by blast
      then show ?thesis using 1 t i y B by linarith
    next
      case 2
      have "x \<in> starts (org P s) bs" using b by (auto simp: starts_def)
      from starts_not_tag(5) [OF this y(1) D(4,9) \<open>8 \<le> org P s\<close>] 2 have "y + w \<le> x" by linarith
      then show ?thesis using t i y B by linarith
    next
      case 3
      then show ?thesis using t i y B by linarith
    qed
  qed
  show "f + i \<notin> payload (org P s) bs" if "f \<in> set fl" "i < 8"
  proof -
    have "set fl \<subseteq> fl_heads P (base P s) \<union> frees (org P s) bs" using H(2) by auto
    from payload_off_links [OF H(1) this] show ?thesis using that by (fastforce simp: off_links_def)
  qed
qed

lemma payload_write:
  assumes h: "heap_ok P s bs fl" and w: "\<And>q. q \<notin> payload (org P s) bs \<Longrightarrow> m q = mem s q"
  shows "heap_ok P (s\<lparr>mem := m\<rparr>) bs fl"
proof -
  let ?t = "s\<lparr>mem := m\<rparr>"
  note D = hp0_D [OF heap_ok_D(1) [OF h]]
  note F = payload_frame [OF h]
  have eq: "aw ?t q = aw s q" if "\<And>i. i < 4 \<Longrightarrow> q + i \<notin> payload (org P s) bs" for q
    using that [of 0] that [of 1] that [of 2] that [of 3] w by (simp add: aw_def rd4_def)
  have lay: "layout P (aw s) (base P s) (mem_brk (lib s)) bs fl" by (fact D(7))
  have "tagged (aw ?t) (org P s) bs"
    unfolding tagged_def
  proof (intro allI impI)
    fix x z al assume b: "(x, z, al) \<in> set (blks (org P s) bs)"
    have "aw ?t (x - 4) = aw s (x - 4)" "aw ?t (x + z - 8) = aw s (x + z - 8)"
      by (rule eq, rule F(2) [OF b], simp_all)+
    then show "aw ?t (x - 4) = tg z al \<and> aw ?t (x + z - 8) = tg z al"
      using lay b by (auto simp: layout_def tagged_def)
  qed
  moreover have low: "aw ?t q = aw s q" if "q + 4 \<le> org P s \<or> mem_brk (lib s) - 4 \<le> q" for q
    using that F(1) D(5) by (intro eq) fastforce
  have "fl_links P (aw ?t) (base P s) fl = fl_links P (aw s) (base P s) fl"
  proof (rule links_law)
    show "aw ?t h = aw s h" if "h \<in> fl_heads P (base P s)" for h
      using heads_law [OF D(2,12) that] by (intro low) simp
    show "aw ?t q = aw s q \<and> aw ?t (q + 4) = aw s (q + 4)" if q: "q \<in> set fl" for q
    proof
      show "aw ?t q = aw s q" by (intro eq F(3) [OF q]) simp
      show "aw ?t (q + 4) = aw s (q + 4)"
        using F(3) [OF q, of "4 + i" for i] by (intro eq) (simp add: add.assoc)
    qed
  qed
  moreover have "aw ?t (base P s + 4) = aw s (base P s + 4)" "aw ?t (base P s + 24) = aw s (base P s + 24)"
    "aw ?t (mem_brk (lib s) - 4) = aw s (mem_brk (lib s) - 4)" by (rule low, simp)+
  ultimately have "layout P (aw ?t) (base P s) (mem_brk (lib s)) bs fl"
    using lay unfolding layout_def by argo
  then show ?thesis using h D by (simp add: heap_ok_def hp0_def base_def)
qed

lemma memcpy_ok:
  assumes h: "heap_ok P s bs fl" and d: "(p, z) \<in> allocs (org P s) bs" "n + 8 \<le> z"
    and src: "(q, w) \<in> allocs (org P s) bs" "n \<le> w" and pq: "p \<noteq> q"
  shows "\<exists>s'. memcpy s p q n = Some s' \<and> heap_ok P s' bs fl \<and> ctl s s' \<and>
           (\<forall>i<n. mem s' (p + i) = mem s (q + i)) \<and>
           (\<forall>a. a < p \<or> p + n \<le> a \<longrightarrow> mem s' a = mem s a)"
proof -
  note D = hp0_D [OF heap_ok_D(1) [OF h]]
  have pb: "org P s \<le> p \<and> p + z \<le> mem_brk (lib s)"
    using blks_bounds [of p z True "org P s" bs] d(1) D(4,5,9) by (simp add: allocs_def)
  have qb: "org P s \<le> q \<and> q + w \<le> mem_brk (lib s)"
    using blks_bounds [of q w True "org P s" bs] src(1) D(4,5,9) by (simp add: allocs_def)
  let ?m = "\<lambda>a. if p \<le> a \<and> a < p + n then mem s (q + (a - p)) else mem s a"
  have "memcpy s p q n = Some (s\<lparr>mem := ?m\<rparr>)"
    using pb qb d(2) src(2) D(10) by (simp add: memcpy_def base_def)
  moreover have "heap_ok P (s\<lparr>mem := ?m\<rparr>) bs fl"
  proof (rule payload_write [OF h])
    fix a assume "a \<notin> payload (org P s) bs"
    then have "\<not> (p \<le> a \<and> a < p + n)" using d by (force simp: payload_allocs)
    then show "?m a = mem s a" by auto
  qed
  ultimately show ?thesis by (auto simp: ctl_def)
qed

end

lemma allocs_disjoint:
  assumes "heap_ok P s bs fl" and "(x, z) \<in> allocs (org P s) bs" and "(y, w) \<in> allocs (org P s) bs"
    and "(x, z) \<noteq> (y, w)"
  shows "x + z \<le> y \<or> y + w \<le> x"
proof -
  note D = hp0_D [OF heap_ok_D(1) [OF assms(1)]]
  have b: "(x, z, True) \<in> set (blks (org P s) bs)" "(y, w, True) \<in> set (blks (org P s) bs)"
    using assms(2,3) by (auto simp: allocs_def)
  then have st: "x \<in> starts (org P s) bs" "y \<in> starts (org P s) bs" by (auto simp: starts_def)
  have "x \<noteq> y" using blks_unique [OF b(1)] b(2) D(4) assms(4) by blast
  then show ?thesis
    using starts_not_tag(5) [OF st(1) b(2) D(4,9)] starts_not_tag(5) [OF st(2) b(1) D(4,9)] by auto
qed

lemma evolves_byte:
  "evolves P s bs A s' bs' \<Longrightarrow> (x, z) \<in> allocs (org P s) bs \<Longrightarrow> (x, z) \<in> A \<Longrightarrow> x \<le> q \<Longrightarrow> q + 8 < x + z \<Longrightarrow>
     mem s' q = mem s q"
  unfolding evolves_def by blast

lemma evolvesI:
  assumes "base P s' = base P s" "mem_max_addr (lib s') = mem_max_addr (lib s)" "allocs (org P s) bs' = A"
    "mem_brk (lib s) \<le> mem_brk (lib s')"
    and "\<And>x z q. (x, z) \<in> allocs (org P s) bs \<Longrightarrow> (x, z) \<in> A \<Longrightarrow> x \<le> q \<Longrightarrow> q + 8 < x + z \<Longrightarrow> mem s' q = mem s q"
  shows "evolves P s bs A s' bs'"
  using assms unfolding evolves_def by blast

context boundary_tags
begin

lemma realloc_ok:
  assumes h: "heap_ok P s bs fl" and p: "(ptr, z) \<in> allocs (org P s) bs" and n: "0 < n" "n < 2 ^ 32 - 15"
  shows "realloc_with rm ins fit s ptr n = Some (s, 0) \<or>
         (\<exists>s' q bs' fl' w. realloc_with rm ins fit s ptr n = Some (s', q) \<and> q \<noteq> 0 \<and> 8 dvd q \<and> heap_ok P s' bs' fl' \<and>
           n + 8 \<le> w \<and> evolves P s bs (insert (q, w) (allocs (org P s) bs - {(ptr, z)})) s' bs' \<and>
           q \<notin> fst ` allocs (org P s) bs \<and> (\<forall>i. i + 8 < z \<and> i < n \<longrightarrow> mem s' (q + i) = mem s (ptr + i)))"
proof -
  have b: "(ptr, z, True) \<in> set (blks (org P s) bs)" using p by (simp add: allocs_def)
  have sz: "GET_SIZE s (ptr - 4) = Some z" by (rule hp0_tags(1) [OF heap_ok_D(1) [OF h] b])
  have p0: "ptr \<noteq> 0" using free_block_nonzero [OF h b] by simp
  from malloc_ok [OF h n] show ?thesis
  proof (elim disjE exE conjE)
    assume "malloc_with rm ins fit s n = Some (s, 0)"
    then show ?thesis using n p0 sz by (simp add: realloc_with_def HDRP_4)
  next
    fix s1 q bs1 fl1 w
    assume m: "malloc_with rm ins fit s n = Some (s1, q)" "q \<noteq> 0" "8 dvd q" "heap_ok P s1 bs1 fl1" "n + 8 \<le> w"
      and ev: "evolves P s bs (insert (q, w) (allocs (org P s) bs)) s1 bs1" and new: "q \<notin> fst ` allocs (org P s) bs"
    have o: "base P s1 = base P s" and A: "allocs (org P s1) bs1 = insert (q, w) (allocs (org P s) bs)"
      using ev by (auto simp: evolves_def)
    have qp: "q \<noteq> ptr" using new p by force
    obtain s2 where s2: "memcpy s1 q ptr (min z n) = Some s2" "heap_ok P s2 bs1 fl1" "ctl s1 s2"
        "\<forall>i<min z n. mem s2 (q + i) = mem s1 (ptr + i)" "\<forall>a. a < q \<or> q + min z n \<le> a \<longrightarrow> mem s2 a = mem s1 a"
    proof -
      have "min z n + 8 \<le> w" "min z n \<le> z" using m(5) by simp_all
      moreover have "(q, w) \<in> allocs (org P s1) bs1" "(ptr, z) \<in> allocs (org P s1) bs1" using A p by simp_all
      ultimately show ?thesis using that memcpy_ok [OF m(4)] qp by blast
    qed
    have o2: "base P s2 = base P s" using ctl_simps(1) [OF s2(3)] o by simp
    have A2: "allocs (org P s2) bs1 = insert (q, w) (allocs (org P s) bs)" using A o o2 by simp
    obtain s3 bs3 fl3 where s3: "free_with rm ins s2 ptr = Some s3" "heap_ok P s3 bs3 fl3"
        "evolves P s2 bs1 (allocs (org P s2) bs1 - {(ptr, z)}) s3 bs3"
      using free_ok [OF s2(2), of ptr z] A2 p by auto
    have "realloc_with rm ins fit s ptr n = Some (s3, q)"
      using n p0 sz m(1,2) s2(1) s3(1) by (simp add: realloc_with_def HDRP_4)
    moreover
    let ?C = "insert (q, w) (allocs (org P s) bs - {(ptr, z)})"
    have C: "allocs (org P s2) bs1 - {(ptr, z)} = ?C" using A2 qp by auto
    have keep: "mem s3 a = mem s2 a" if "(x, v) \<in> ?C" "x \<le> a" "a + 8 < x + v" for x v a
    proof (rule evolves_byte [OF s3(3)])
      show "(x, v) \<in> allocs (org P s2) bs1" using that(1) A2 by auto
      show "(x, v) \<in> allocs (org P s2) bs1 - {(ptr, z)}" using that(1) C by simp
    qed (use that in auto)
    have keep2: "mem s2 a = mem s a" if "(x, v) \<in> allocs (org P s) bs" "x \<le> a" "a + 8 < x + v" for x v a
    proof -
      have "x \<noteq> q" using new that(1) by force
      then have "x + v \<le> q \<or> q + w \<le> x" using allocs_disjoint [OF m(4), of x v q w] A that(1) by auto
      then have "mem s2 a = mem s1 a" using s2(5) that m(5) by (auto simp: min_def)
      also have "\<dots> = mem s a" using evolves_byte [OF ev that(1) _ that(2,3)] that(1) by simp
      finally show ?thesis .
    qed
    have "evolves P s bs ?C s3 bs3"
    proof (rule evolvesI)
      show "base P s3 = base P s" "allocs (org P s) bs3 = ?C" using s3(3) o2 C by (auto simp: evolves_def)
      show "mem_max_addr (lib s3) = mem_max_addr (lib s)" "mem_brk (lib s) \<le> mem_brk (lib s3)"
        using s3(3) ev s2(3) by (auto simp: evolves_def ctl_def)
    qed (use keep keep2 in metis)
    moreover have "mem s3 (q + i) = mem s (ptr + i)" if "i + 8 < z" "i < n" for i
    proof -
      have "mem s3 (q + i) = mem s2 (q + i)" using keep [of q w "q + i"] that m(5) by simp
      also have "\<dots> = mem s1 (ptr + i)" using s2(4) that by simp
      also have "\<dots> = mem s (ptr + i)" using evolves_byte [OF ev p] p that by simp
      finally show ?thesis .
    qed
    ultimately show ?thesis using s3(2) m(2,3,5) new by blast
  qed
qed

end

end
