(* ===== verification/MmExplicit.thy ===== *)
theory MmExplicit
  imports MmShared
begin

text \<open>
  The explicit-free-list allocator of the malloc lab
  (\<^verbatim>\<open>sp_03_malloclab/src/mm-2014-17831.c\<close>): boundary tags, a doubly linked free list that
  starts at the prologue block, and the four-case coalescing.

  Every function of the file is a definition over the state of theory \<open>MmMem\<close>.  A result
  \<open>None\<close> means an access outside of the storage, or a loop that does not end: the two loops
  follow pointers of the heap.  A pointer result \<open>0\<close> is NULL.
\<close>

section \<open>The free list\<close>

partial_function (option) insert_find :: "mmst \<Rightarrow> nat \<Rightarrow> nat \<Rightarrow> nat option" where
  "insert_find s bp ptr = do {
     nx \<leftarrow> NEXT_FREE s ptr;
     if nx = 0 \<and> bp < NEXT_FREEP ptr
     then do { nx' \<leftarrow> NEXT_FREE s ptr; insert_find s bp nx' }
     else Some ptr }"

definition insert_block :: "mmst \<Rightarrow> nat \<Rightarrow> mmst option" where
  "insert_block s bp = do {
     ptr \<leftarrow> insert_find s bp (free_listp s);
     nx \<leftarrow> NEXT_FREE s ptr;
     if nx = 0 then do {
       s \<leftarrow> SET_PTR s (PREV_FREEP bp) ptr;
       s \<leftarrow> SET_PTR s (NEXT_FREEP bp) 0;
       SET_PTR s (NEXT_FREEP ptr) bp }
     else do {
       s \<leftarrow> SET_PTR s (PREV_FREEP bp) ptr;
       nx \<leftarrow> NEXT_FREE s ptr;
       s \<leftarrow> SET_PTR s (NEXT_FREEP bp) nx;
       nb \<leftarrow> NEXT_FREE s bp;
       s \<leftarrow> SET_PTR s (PREV_FREEP nb) bp;
       SET_PTR s (NEXT_FREEP ptr) bp } }"

definition remove_block :: "mmst \<Rightarrow> nat \<Rightarrow> mmst option" where
  "remove_block s bp = do {
     nx \<leftarrow> NEXT_FREE s bp;
     if nx = 0 then do {
       pv \<leftarrow> PREV_FREE s bp;
       s \<leftarrow> SET_PTR s (NEXT_FREEP pv) 0;
       pv \<leftarrow> PREV_FREE s bp;
       SET_PTR s pv 0 }
     else do {
       pv \<leftarrow> PREV_FREE s bp;
       nx \<leftarrow> NEXT_FREE s bp;
       s \<leftarrow> SET_PTR s (NEXT_FREEP pv) nx;
       nx \<leftarrow> NEXT_FREE s bp;
       pv \<leftarrow> PREV_FREE s bp;
       SET_PTR s (PREV_FREEP nx) pv } }"

section \<open>Searching\<close>

definition find_fit :: "mmst \<Rightarrow> nat \<Rightarrow> nat option" where
  "find_fit s asize = find_fit_from s asize (free_listp s)"

section \<open>The shared code with these operations\<close>

definition coalesce :: "mmst \<Rightarrow> nat \<Rightarrow> (mmst \<times> nat) option" where
  "coalesce = coalesce_with remove_block insert_block"

definition extend_heap :: "mmst \<Rightarrow> nat \<Rightarrow> (mmst \<times> nat) option" where
  "extend_heap = extend_with remove_block insert_block"

definition place :: "mmst \<Rightarrow> nat \<Rightarrow> nat \<Rightarrow> mmst option" where
  "place = place_with remove_block insert_block"

section \<open>The interface\<close>

text \<open>The result of \<^verbatim>\<open>mm_init\<close> is \<open>0\<close> or \<open>-1\<close>.\<close>

definition mm_init :: "mmst \<Rightarrow> (mmst \<times> int) option" where
  "mm_init s =
     (case mem_sbrk (lib s) (int (8 * WSIZE)) of
        (l, None) \<Rightarrow> Some (s\<lparr>lib := l, heap_listp := 2 ^ 32 - 1\<rparr>, -1)
      | (l, Some hp) \<Rightarrow> do {
          let s = s\<lparr>lib := l, heap_listp := hp\<rparr>;
          s \<leftarrow> PUT s hp 0;
          s \<leftarrow> PUT s (hp + 1 * WSIZE) (PACK FSIZE 1);
          s \<leftarrow> SET_PTR s (hp + 2 * WSIZE) 0;
          s \<leftarrow> SET_PTR s (hp + 3 * WSIZE) 0;
          s \<leftarrow> PUT s (hp + 4 * WSIZE) (PACK FSIZE 1);
          s \<leftarrow> PUT s (hp + 5 * WSIZE) 0;
          s \<leftarrow> PUT s (hp + 6 * WSIZE) 0;
          s \<leftarrow> PUT s (hp + 7 * WSIZE) (PACK 0 1);
          let s = s\<lparr>heap_listp := hp + DSIZE, free_listp := hp + DSIZE\<rparr>;
          (s, bp) \<leftarrow> extend_heap s (CHUNKSIZE div WSIZE);
          Some (s, if bp = 0 then -1 else 0) })"

definition mm_malloc :: "mmst \<Rightarrow> nat \<Rightarrow> (mmst \<times> nat) option" where
  "mm_malloc = malloc_with remove_block insert_block find_fit"

definition mm_free :: "mmst \<Rightarrow> nat \<Rightarrow> mmst option" where
  "mm_free = free_with remove_block insert_block"

definition mm_realloc :: "mmst \<Rightarrow> nat \<Rightarrow> nat \<Rightarrow> (mmst \<times> nat) option" where
  "mm_realloc = realloc_with remove_block insert_block find_fit"

end
