(* ===== verification/MmExplicitList.thy ===== *)
theory MmExplicitList
  imports MmInterface MmExplicit
begin

text \<open>
  The explicit-free-list allocator (\<^verbatim>\<open>mm-2014-17831.c\<close>) has the contract of an allocator with boundary tags:
  its free list is one doubly linked list that starts at the prologue block, its search is a first
  fit in the order of that list, and \<^verbatim>\<open>mm_init\<close> builds a heap without blocks and extends it.
\<close>

definition explicit_list :: flist where
  "explicit_list = \<lparr>fl_off = 0, fl_heads = (\<lambda>B. {B + 8}), fl_start = (\<lambda>B. B + 8),
     fl_links = (\<lambda>W B. dll W (B + 8))\<rparr>"

lemma explicit_list_simps [simp]:
  "fl_off explicit_list = 0" "fl_heads explicit_list B = {B + 8}" "fl_start explicit_list B = B + 8"
  "fl_links explicit_list W B fl = dll W (B + 8) fl"
  by (simp_all add: explicit_list_def)

section \<open>The free list\<close>

lemma remove_block_exec:
  assumes dll: "dll (aw s) p (us @ x # vs)" and dist: "distinct (p # us @ x # vs)"
    and cl: "cell s p" and nodes: "\<forall>f\<in>set (us @ x # vs). node s f" and ap: "apart (set (p # us @ x # vs))"
  shows "\<exists>s'. remove_block s x = Some s' \<and> dll (aw s') p (us @ vs) \<and>
           link_change (set (p # us @ vs)) s s'"
proof -
  define l where "l = last (p # us)"
  have l: "l \<in> set (p # us)" unfolding l_def by (rule last_in_set) simp
  have nx: "node s x" and cx: "cell s x" and cll: "cell s l" using nodes cl l by (auto intro: node_cell)
  have xl: "x \<noteq> l" using dist l by auto
  have "l \<noteq> x + 4" by (rule apart_D [OF ap]) (use l in auto)
  then have xl4: "x + 4 \<noteq> l" "l \<noteq> x + 4" by simp_all
  have W: "aw s x = (case vs of [] \<Rightarrow> 0 | v # _ \<Rightarrow> v)" "aw s (x + 4) = l"
    using dll_next [OF dll] by (simp_all add: l_def)
  show ?thesis
  proof (cases vs)
    case Nil
    let ?s = "put (put s l 0) l 0"
    have "remove_block s x = Some ?s"
      using W Nil nx cx cll xl xl4
      by (simp add: remove_block_def NEXT_FREEP_def node_get(2) cell_get cell_set aw_put_cell del: aw_put)
    moreover have "aw ?s = (aw s)(l := 0)" using cll by (simp add: aw_put_cell del: aw_put)
    then have "dll (aw ?s) p us"
      using dll_remove_last [of "aw s" p us x] dll dist ap Nil by (simp add: l_def del: dll.simps)
    moreover have "link_change (set (p # us)) s ?s"
      using l cll by (intro link_change_cell) simp_all
    ultimately show ?thesis using Nil by auto
  next
    case (Cons v vs')
    have nv: "node s v" and lv: "l < 2 ^ 32" and vv: "v < 2 ^ 32" "v \<noteq> 0"
      using nodes Cons cll by (auto simp: node_def cell_def)
    let ?s = "put (put s l v) (v + 4) l"
    have "remove_block s x = Some ?s"
      using W Cons nx cx cll nv xl xl4 vv
      by (simp add: remove_block_def NEXT_FREEP_def node_get(2) node_set(2) cell_get cell_set aw_put_cell del: aw_put)
    moreover have "aw ?s = (aw s)(l := v, v + 4 := l)"
      using cll nv lv vv by (simp add: aw_put_cell aw_put_node(2) del: aw_put)
    then have "dll (aw ?s) p (us @ vs)"
      using dll_remove_mid [of "aw s" p us x v vs'] dll dist ap Cons
      by (simp add: l_def del: dll.simps)
    moreover have "link_change (set (p # us @ vs)) s ?s"
      using l cll nv vv lv Cons by (intro link_change_put(2) link_change_cell) auto
    ultimately show ?thesis by blast
  qed
qed

lemma insert_block_exec:
  assumes dll: "dll (aw s) p fl" and dist: "distinct (p # x # fl)" and p: "free_listp s = p" "p < x"
    and cl: "cell s p" and nodes: "\<forall>f\<in>set (x # fl). node s f" and ap: "apart (set (p # x # fl))"
  shows "\<exists>s'. insert_block s x = Some s' \<and> dll (aw s') p (x # fl) \<and>
           link_change (set (p # x # fl)) s s'"
proof -
  have n: "node s x" "cell s x" using nodes by (auto intro: node_cell)
  have lt: "p < 2 ^ 32" "x < 2 ^ 32" "x \<noteq> 0" using n cl by (auto simp: node_def cell_def)
  have ne: "p \<noteq> x + 4" "x \<noteq> p + 4" "p \<noteq> x" using apart_D [OF ap, of p x] apart_D [OF ap, of x p] dist by auto
  have find: "insert_find s x p = Some p"
    using cl p by (subst insert_find.simps) (simp add: cell_get NEXT_FREEP_def)
  show ?thesis
  proof (cases fl)
    case Nil
    let ?s = "put (put (put s (x + 4) p) x 0) p x"
    have "aw s p = 0" using dll Nil by simp
    then have "insert_block s x = Some ?s"
      using find n cl p(1) by (simp add: insert_block_def NEXT_FREEP_def cell_get cell_set node_set(2))
    moreover have "aw ?s = (aw s)(x + 4 := p, x := 0, p := x)"
      using n cl lt by (simp add: aw_put_node(2) aw_put_cell del: aw_put)
    then have "dll (aw ?s) p (x # fl)"
      using dll_insert_empty [of "aw s" p x] dll lt ne Nil by (simp del: dll.simps)
    moreover have "link_change (set (p # x # fl)) s ?s"
      using n cl lt by (intro link_change_put(2) link_change_cell) simp_all
    ultimately show ?thesis by blast
  next
    case (Cons v vs)
    let ?s = "put (put (put (put s (x + 4) p) x v) (v + 4) x) p x"
    have nv: "node s v" and v: "v < 2 ^ 32" "v \<noteq> 0" using nodes Cons by (auto simp: node_def)
    have "aw s p = v" using dll Cons by simp
    then have "insert_block s x = Some ?s"
      using find n cl p(1) nv v ne lt
      by (simp add: insert_block_def NEXT_FREEP_def cell_get cell_set node_set(2) aw_put_node(2) aw_put_cell del: aw_put)
    moreover have "aw ?s = (aw s)(x + 4 := p, x := v, v + 4 := x, p := x)"
      using n cl lt nv v by (simp add: aw_put_node(2) aw_put_cell del: aw_put)
    then have "dll (aw ?s) p (x # fl)"
      using dll_insert_cons [of "aw s" p v vs x] dll dist ap lt Cons by (simp del: dll.simps)
    moreover have "link_change (set (p # x # fl)) s ?s"
      using n cl lt nv v Cons by (intro link_change_put(2) link_change_cell) auto
    ultimately show ?thesis by blast
  qed
qed

text \<open>The head is below the nodes.\<close>

lemma explicit_listed:
  assumes "listed explicit_list s B A"
  shows "cell s (B + 8)" "\<forall>f\<in>A. node s f" "\<forall>f\<in>A. B + 8 < f" "apart (insert (B + 8) A)"
  using assms by (auto simp: listed_def node_def intro!: apart_aligned)

interpretation explicit: free_list explicit_list remove_block insert_block
proof
  show "4 dvd h \<and> B \<le> h + fl_off explicit_list \<and> h + 8 \<le> B + 24 \<and> h \<noteq> B + 4 \<and> h \<noteq> B"
    if "8 dvd B" "h \<in> fl_heads explicit_list B" for B h
    using that by (auto intro: dvd_trans [of 4 8])
  show "fl_links explicit_list W' B fl = fl_links explicit_list W B fl"
    if "\<And>h. h \<in> fl_heads explicit_list B \<Longrightarrow> W' h = W h"
      "\<And>f. f \<in> set fl \<Longrightarrow> W' f = W f \<and> W' (f + 4) = W (f + 4)" for W W' B fl
    using that by (auto intro!: dll_cong)
next
  fix s B x and fl :: "nat list"
  assume L: "listed explicit_list s B (set fl)" and d: "fl_links explicit_list (aw s) B fl" "distinct fl" "x \<in> set fl"
  note E = explicit_listed [OF L]
  obtain us vs where fl: "fl = us @ x # vs" using d(3) by (auto simp: in_set_conv_decomp)
  have "distinct ((B + 8) # us @ x # vs)" using d(2) E(3) fl by auto
  then obtain s' where s': "remove_block s x = Some s'" "dll (aw s') (B + 8) (us @ vs)"
      "link_change (set ((B + 8) # us @ vs)) s s'"
    using remove_block_exec [of s "B + 8" us x vs] d(1) E(1,2,4) fl by auto
  have "remove1 x fl = us @ vs" using d(2) fl by (simp add: remove1_append)
  moreover have "set ((B + 8) # us @ vs) = fl_heads explicit_list B \<union> (set fl - {x})" using d(2) fl by auto
  ultimately show "\<exists>s'. remove_block s x = Some s' \<and> fl_links explicit_list (aw s') B (remove1 x fl) \<and>
      link_change (fl_heads explicit_list B \<union> (set fl - {x})) s s'"
    using s' by auto
next
  fix s B x and fl :: "nat list"
  assume L: "listed explicit_list s B (insert x (set fl))" and d: "fl_links explicit_list (aw s) B fl" "distinct fl" "x \<notin> set fl"
    "free_listp s = fl_start explicit_list B"
  note E = explicit_listed [OF L]
  have "distinct ((B + 8) # x # fl)" using d(2,3) E(3) by auto
  then obtain s' where s': "insert_block s x = Some s'" "dll (aw s') (B + 8) (x # fl)"
      "link_change (set ((B + 8) # x # fl)) s s'"
    using insert_block_exec [of s "B + 8" fl x] d E by auto
  have "distinct (x # fl)" "set (x # fl) = insert x (set fl)"
    "link_change (fl_heads explicit_list B \<union> insert x (set fl)) s s'" using s'(3) d(2,3) by (simp_all add: insert_commute)
  then show "\<exists>s' fl'. insert_block s x = Some s' \<and> fl_links explicit_list (aw s') B fl' \<and> distinct fl' \<and>
      set fl' = insert x (set fl) \<and> link_change (fl_heads explicit_list B \<union> insert x (set fl)) s s'"
    using s'(1,2) explicit_list_simps(4) by blast
qed

section \<open>First fit\<close>

lemma find_fit_from_dll:
  assumes "dll (aw s) p fl" and "\<forall>f\<in>set fl. node s f \<and> GET_ALLOC s (f - 4) = Some 0 \<and> (\<exists>z. GET_SIZE s (f - 4) = Some z)"
  shows "find_fit_from s a (aw s p) =
           Some (case find (\<lambda>f. a \<le> the (GET_SIZE s (f - 4))) fl of None \<Rightarrow> 0 | Some f \<Rightarrow> f)"
  using assms
proof (induction fl arbitrary: p)
  case Nil
  then show ?case by (subst find_fit_from.simps) (simp add: NEXT_FREEP_def)
next
  case (Cons x fl)
  then obtain z where z: "GET_SIZE s (x - 4) = Some z" by auto
  have "find_fit_from s a x = (if a \<le> z then Some x else find_fit_from s a (aw s x))"
    using Cons.prems z by (subst find_fit_from.simps) (auto simp: NEXT_FREEP_def HDRP_4 node_get)
  then show ?case using Cons z by auto
qed

lemma find_fit_first:
  assumes h: "heap_ok explicit_list s bs fl"
  shows "find_fit s a =
           Some (case find (\<lambda>f. a \<le> the (GET_SIZE s (f - 4))) fl of None \<Rightarrow> 0 | Some f \<Rightarrow> f)"
proof -
  note H = heap_ok_D [OF h]
  have p: "free_listp s = base explicit_list s + 8" using H(1) by (simp add: hp0_def)
  have n: "cell s (base explicit_list s + 8)"
    using explicit_listed(1) [OF explicit.hp0_listed [OF H(1) hp0_fl(3) [OF H(1)]]] .
  have "find_fit_from s a (base explicit_list s + 8) = find_fit_from s a (aw s (base explicit_list s + 8))"
  proof -
    have "GET_ALLOC s (base explicit_list s + 4) = Some 1" by (rule hp0_epilogue(3) [OF H(1)])
    moreover obtain z where "GET_SIZE s (base explicit_list s + 4) = Some z"
      using calculation by (cases "GET s (base explicit_list s + 4)") (auto simp: GET_SIZE_def GET_ALLOC_def)
    ultimately show ?thesis
      using n by (subst find_fit_from.simps) (auto simp: NEXT_FREEP_def HDRP_4 cell_get cell_D add.commute [of 4])
  qed
  moreover have "\<forall>f\<in>set fl. node s f \<and> GET_ALLOC s (f - 4) = Some 0 \<and> (\<exists>z. GET_SIZE s (f - 4) = Some z)"
    using free_block_reads [OF h] hp0_fl(4) [OF H(1)] by blast
  ultimately show ?thesis
    using find_fit_from_dll [of s "base explicit_list s + 8" fl a] hp0_fl(1) [OF H(1)] p by (simp add: find_fit_def)
qed

lemma find_fit_cases:
  assumes h: "heap_ok explicit_list s bs fl"
  shows "(\<exists>xs z ys. find_fit s a = Some (org explicit_list s + tot xs) \<and> bs = xs @ (z, False) # ys \<and> a \<le> z) \<or>
         find_fit s a = Some 0 \<and> (\<forall>x z. (x, z, False) \<in> set (blks (org explicit_list s) bs) \<longrightarrow> z < a)"
proof (cases "find (\<lambda>f. a \<le> the (GET_SIZE s (f - 4))) fl")
  case None
  then have n: "\<not> a \<le> the (GET_SIZE s (f - 4))" if "f \<in> set fl" for f
    using that by (simp add: find_None_iff)
  have "z < a" if b: "(x, z, False) \<in> set (blks (org explicit_list s) bs)" for x z
  proof -
    have "x \<in> set fl" using b heap_ok_D(2) [OF h] by (auto simp: frees_def)
    then show ?thesis using n [of x] hp0_tags(1) [OF heap_ok_D(1) [OF h] b] by simp
  qed
  then show ?thesis using find_fit_first [OF h] None by simp
next
  case (Some f)
  then have f: "f \<in> set fl" "a \<le> the (GET_SIZE s (f - 4))" by (auto simp: find_Some_iff)
  then have "f \<in> frees (org explicit_list s) bs" using heap_ok_D(2) [OF h] by simp
  then obtain xs z ys where b: "bs = xs @ (z, False) # ys" "f = org explicit_list s + tot xs"
    using frees_split by blast
  then have "(f, z, False) \<in> set (blks (org explicit_list s) bs)" by simp
  from hp0_tags(1) [OF heap_ok_D(1) [OF h] this] f(2) have "a \<le> z" by simp
  then show ?thesis using find_fit_first [OF h] Some b by auto
qed

interpretation explicit: boundary_tags explicit_list remove_block insert_block find_fit
proof
  show "find_fit s a = Some 0 \<or> (\<exists>bp z. find_fit s a = Some bp \<and> (bp, z, False) \<in> set (blks (org explicit_list s) bs) \<and> a \<le> z)"
    if "heap_ok explicit_list s bs fl" for s bs fl a
    using find_fit_cases [OF that, of a]
  proof (elim disjE exE conjE)
    fix xs z ys assume "find_fit s a = Some (org explicit_list s + tot xs)" "bs = xs @ (z, False) # ys" "a \<le> z"
    then show ?thesis by auto
  qed simp
qed

section \<open>The interface\<close>

lemmas explicit_code = coalesce_def extend_heap_def place_def mm_malloc_def mm_free_def mm_realloc_def

lemma mm_malloc_ok:
  assumes h: "heap_ok explicit_list s bs fl" and n: "0 < n" "n < 2 ^ 32 - 15"
  shows "mm_malloc s n = Some (s, 0) \<and>
           (\<forall>x z. (x, z, False) \<in> set (blks (org explicit_list s) bs) \<longrightarrow> z < get_asize n) \<and>
           mem_max_addr (lib s) < mem_brk (lib s) + max (get_asize n) CHUNKSIZE \<or>
         (\<exists>s' p bs' fl' z. mm_malloc s n = Some (s', p) \<and> p \<noteq> 0 \<and> 8 dvd p \<and> heap_ok explicit_list s' bs' fl' \<and>
           n + 8 \<le> z \<and> z < n + 40 \<and> evolves explicit_list s bs (insert (p, z) (allocs (org explicit_list s) bs)) s' bs' \<and>
           p \<notin> fst ` allocs (org explicit_list s) bs)"
proof -
  have "\<forall>x z. (x, z, False) \<in> set (blks (org explicit_list s) bs) \<longrightarrow> z < get_asize n"
    if f: "find_fit s (get_asize n) = Some 0"
    using find_fit_cases [OF h, of "get_asize n"]
  proof (elim disjE exE conjE)
    fix xs z ys assume "find_fit s (get_asize n) = Some (org explicit_list s + tot xs)"
    then show ?thesis using f by simp
  qed
  then show ?thesis using explicit.malloc_ok [OF h n] unfolding explicit_code by blast
qed

section \<open>Init\<close>

text \<open>The eight words that \<^verbatim>\<open>mm_init\<close> writes: the empty heap.\<close>

definition init_heap :: "mmst \<Rightarrow> nat \<Rightarrow> mmst" where
  "init_heap s b = (let s = s\<lparr>lib := (lib s)\<lparr>mem_brk := b + 32\<rparr>, heap_listp := b\<rparr>;
     s = put (put (put (put s b 0) (b + 4) 25) (b + 8) 0) (b + 12) 0;
     s = put (put (put (put s (b + 16) 25) (b + 20) 0) (b + 24) 0) (b + 28) 1
   in s\<lparr>heap_listp := b + 8, free_listp := b + 8\<rparr>)"

lemma init_heap_ok:
  assumes m: "mem_wf (lib s)" "mem_brk (lib s) = base explicit_list s" and b: "8 dvd base explicit_list s"
    and room: "base explicit_list s + 32 \<le> mem_max_addr (lib s)"
  shows "heap_ok explicit_list (init_heap s (base explicit_list s)) [] []"
proof -
  let ?t = "init_heap s (base explicit_list s)" and ?b = "base explicit_list s"
  have d: "4 dvd ?b" using b by presburger
  have "aw ?t = (aw s)(?b := 0, ?b + 4 := 25, ?b + 8 := 0, ?b + 12 := 0, ?b + 16 := 25,
      ?b + 20 := 0, ?b + 24 := 0, ?b + 28 := 1)"
  proof -
    have eq: "aw (s\<lparr>lib := l, heap_listp := h\<rparr>) = aw s" "aw (t\<lparr>heap_listp := h, free_listp := f\<rparr>) = aw t" for l h f t
      by (simp_all add: aw_def fun_eq_iff)
    show ?thesis using d by (simp add: init_heap_def Let_def eq)
  qed
  then have "layout explicit_list (aw ?t) ?b (?b + 32) [] []" by (simp add: layout_def tg_def)
  moreover have "lib ?t = (lib s)\<lparr>mem_brk := ?b + 32\<rparr>" "base explicit_list ?t = ?b" "free_listp ?t = ?b + 8"
    by (simp_all add: init_heap_def Let_def base_def)
  ultimately show ?thesis
    using m b room by (simp add: heap_ok_def hp0_def mem_wf_def base_def)
qed

lemma mm_init_exec:
  assumes m: "mem_wf (lib s)" "mem_brk (lib s) = base explicit_list s" and room: "base explicit_list s + 32 \<le> mem_max_addr (lib s)"
  shows "mm_init s = do { (s', bp) \<leftarrow> extend_heap (init_heap s (base explicit_list s)) 1024;
           Some (s', if bp = 0 then -1 else 0) }"
proof -
  have sb: "mem_sbrk (lib s) (int (8 * WSIZE)) = ((lib s)\<lparr>mem_brk := base explicit_list s + 32\<rparr>, Some (base explicit_list s))"
    using mem_sbrk_wf_eq [OF m(1), of 32] m room by (simp add: mm_consts)
  have w: "x < 32 \<Longrightarrow> x mod 4 = 0 \<Longrightarrow> mem_start_brk (lib s) \<le> base explicit_list s + x \<and> base explicit_list s + x + 4 \<le> mem_max_addr (lib s)" for x
    using room by (simp add: base_def) presburger
  let ?s = "s\<lparr>lib := (lib s)\<lparr>mem_brk := base explicit_list s + 32\<rparr>, heap_listp := base explicit_list s\<rparr>"
  have v: "valid ?s (base explicit_list s)" "valid ?s (base explicit_list s + 4)" "valid ?s (base explicit_list s + 8)" "valid ?s (base explicit_list s + 12)"
    "valid ?s (base explicit_list s + 16)" "valid ?s (base explicit_list s + 20)" "valid ?s (base explicit_list s + 24)" "valid ?s (base explicit_list s + 28)"
    using w [of 0] w [of 4] w [of 8] w [of 12] w [of 16] w [of 20] w [of 24] w [of 28]
    by (simp_all add: valid_def)
  have pk: "PACK 24 1 = 25" "PACK 0 1 = 1" by (simp_all add: PACK_def)
  show ?thesis
    unfolding mm_init_def sb
    by (simp add: SET_PTR_def mm_consts PUT_put v pk init_heap_def Let_def del: One_nat_def)
qed

lemma mm_init_ok:
  assumes m: "mem_wf (lib s)" "mem_brk (lib s) = base explicit_list s" and b: "8 dvd base explicit_list s"
    and room: "base explicit_list s + 32 + CHUNKSIZE \<le> mem_max_addr (lib s)"
  shows "\<exists>s' bs fl x z. mm_init s = Some (s', 0) \<and> heap_ok explicit_list s' bs fl \<and> allocs (org explicit_list s') bs = {} \<and>
           (x, z, False) \<in> set (blks (org explicit_list s') bs) \<and> CHUNKSIZE \<le> z \<and> base explicit_list s' = base explicit_list s \<and>
           mem_max_addr (lib s') = mem_max_addr (lib s)"
proof -
  let ?t = "init_heap s (base explicit_list s)"
  have r: "base explicit_list s + 32 \<le> mem_max_addr (lib s)" using room by simp
  have t: "lib ?t = (lib s)\<lparr>mem_brk := base explicit_list s + 32\<rparr>" "base explicit_list ?t = base explicit_list s"
    by (simp_all add: init_heap_def Let_def base_def)
  have ch: "(4096 :: nat) = chunk 1024" by (simp add: chunk_def WSIZE_def)
  have "mem_brk (lib ?t) + 4096 \<le> mem_max_addr (lib ?t)" using room t by (simp add: CHUNKSIZE_def)
  from explicit.extend_heap_ok [OF init_heap_ok [OF m b r] ch _ this]
  obtain s' bp bs fl z where x: "extend_with remove_block insert_block ?t 1024 = Some (s', bp)" "heap_ok explicit_list s' bs fl"
      "evolves explicit_list ?t [] (allocs (org explicit_list ?t) []) s' bs" "(bp, z, False) \<in> set (blks (org explicit_list s') bs)" "4096 \<le> z" "bp \<noteq> 0"
    by auto
  then have "mm_init s = Some (s', 0)" using mm_init_exec [OF m r] by (simp add: explicit_code)
  moreover have "allocs (org explicit_list s') bs = {}" "base explicit_list s' = base explicit_list s" "mem_max_addr (lib s') = mem_max_addr (lib s)"
    using x(3) t by (simp_all add: evolves_def)
  ultimately show ?thesis using x(2,4,5) by (auto simp: CHUNKSIZE_def)
qed

end
