(* ===== verification/Mdriver.thy ===== *)
theory Mdriver
  imports MmMem
begin

text \<open>
  The driver of the malloc lab (\<^verbatim>\<open>sp_03_malloclab/src/mdriver.c\<close>): the range list with which it
  detects overlapping payloads, and the evaluation of an allocator on a trace of requests.

  The allocator under test is a parameter, a record of the four functions of \<^verbatim>\<open>mm.h\<close>.  An
  evaluation returns \<open>None\<close> when the allocator or the driver leaves the storage or an array,
  \<open>Inl\<close> of the error and the heap when the driver reports an error (\<^verbatim>\<open>malloc_error\<close>, \<^verbatim>\<open>app_error\<close> or a
  failed \<^verbatim>\<open>assert\<close>), and \<open>Inr\<close> of the final state otherwise.
\<close>

datatype drv_error = Init_failed | Malloc_failed | Realloc_failed | Not_aligned | Outside_heap
  | Overlaps | Data_lost | Assert_failed | Bogus_type

datatype optype = ALLOC | FREE | REALLOC

record traceop =
  op_type :: optype
  op_index :: nat
  op_size :: nat

record trace =
  sugg_heapsize :: int
  num_ids :: nat
  num_ops :: nat
  weight :: int
  trace_ops :: "traceop list"
  blocks :: "nat list"
  block_sizes :: "nat list"

record mm_pkg =
  pk_init :: "mmst \<Rightarrow> (mmst \<times> int) option"
  pk_malloc :: "mmst \<Rightarrow> nat \<Rightarrow> (mmst \<times> nat) option"
  pk_free :: "mmst \<Rightarrow> nat \<Rightarrow> mmst option"
  pk_realloc :: "mmst \<Rightarrow> nat \<Rightarrow> nat \<Rightarrow> (mmst \<times> nat) option"

section \<open>The range list\<close>

type_synonym range = "nat \<times> nat"

definition IS_ALIGNED :: "nat \<Rightarrow> bool" where
  "IS_ALIGNED p \<longleftrightarrow> p mod 2 ^ 32 mod ALIGNMENT = 0"

fun range_overlap :: "range list \<Rightarrow> nat \<Rightarrow> nat \<Rightarrow> bool" where
  "range_overlap [] lo hi \<longleftrightarrow> False"
| "range_overlap ((plo, phi) # ps) lo hi \<longleftrightarrow>
     (lo \<ge> plo \<and> lo \<le> phi) \<or> (hi \<ge> plo \<and> hi \<le> phi) \<or> range_overlap ps lo hi"

definition add_range :: "range list \<Rightarrow> memlib \<Rightarrow> nat \<Rightarrow> nat \<Rightarrow> drv_error + range list" where
  "add_range ranges l lo n =
     (let hi = lo + n - 1 in
      if \<not> n > 0 then Inl Assert_failed
      else if \<not> IS_ALIGNED lo then Inl Not_aligned
      else if lo < mem_heap_lo l \<or> int lo > mem_heap_hi l \<or> hi < mem_heap_lo l \<or> int hi > mem_heap_hi l
      then Inl Outside_heap
      else if range_overlap ranges lo hi then Inl Overlaps
      else Inr ((lo, hi) # ranges))"

fun remove_range :: "range list \<Rightarrow> nat \<Rightarrow> range list" where
  "remove_range [] lo = []"
| "remove_range ((plo, phi) # ps) lo = (if plo = lo then ps else (plo, phi) # remove_range ps lo)"

definition clear_ranges :: "range list \<Rightarrow> range list" where
  "clear_ranges ranges = []"

text \<open>
  The test of \<^verbatim>\<open>add_range\<close> looks at the two ends of the new payload only: one that contains an
  older payload without an end inside of it is not reported.
\<close>

lemma add_range_misses_containment:
  "add_range [(4112, 4119)] \<lparr>mem_start_brk = 4096, mem_brk = 8192, mem_max_addr = 8192\<rparr> 4104 64
     = Inr [(4104, 4167), (4112, 4119)]"
  by (simp add: add_range_def IS_ALIGNED_def mm_consts mem_heap_lo_def mem_heap_hi_def)

section \<open>Reading a trace\<close>

text \<open>
  A trace file is the list of its white-space separated words.  The fields and the arrays of the
  trace are filled as \<^verbatim>\<open>read_trace\<close> fills them; a request beyond \<^verbatim>\<open>num_ops\<close> is written past the
  end of the array (\<open>None\<close>) before the assertion that would report it.  A word where a number is expected
  that is not the digits of one below \<open>2 ^ 31\<close> leaves the variable as it was, or the rest of the word to the next
  conversion, which is not modelled (\<open>None\<close>), as is the end of the file in the middle of a request.
\<close>

definition scan_u :: "string \<Rightarrow> nat" where
  "scan_u w = scan_digits w 0 mod 2 ^ 32"

definition is_number :: "string \<Rightarrow> bool" where
  "is_number w \<longleftrightarrow> w \<noteq> [] \<and> list_all is_digit w \<and> scan_digits w 0 < 2 ^ 31"

fun read_ops :: "nat \<Rightarrow> string list \<Rightarrow> traceop list \<Rightarrow> nat \<Rightarrow> (drv_error + traceop list \<times> nat) option" where
  "read_ops n [] ops max_index = Some (Inr (ops, max_index))"
| "read_ops n (t # ws) ops max_index =
     (case (t, ws) of
        (c # _, i # z # ws') \<Rightarrow>
          if c = CHR ''a'' \<or> c = CHR ''r'' then
            (if is_number i \<and> is_number z \<and> length ops < n then
               read_ops n ws' (ops @ [\<lparr>op_type = (if c = CHR ''a'' then ALLOC else REALLOC),
                 op_index = scan_u i, op_size = scan_u z\<rparr>]) (max max_index (scan_u i))
             else None)
          else if c = CHR ''f'' then
            (if is_number i \<and> length ops < n then
               read_ops n (z # ws') (ops @ [\<lparr>op_type = FREE, op_index = scan_u i, op_size = 0\<rparr>]) max_index
             else None)
          else Some (Inl Bogus_type)
      | (c # _, [i]) \<Rightarrow>
          if c = CHR ''f'' then
            (if is_number i \<and> length ops < n then
               read_ops n [] (ops @ [\<lparr>op_type = FREE, op_index = scan_u i, op_size = 0\<rparr>]) max_index
             else None)
          else if c = CHR ''a'' \<or> c = CHR ''r'' then None
          else Some (Inl Bogus_type)
      | (c # _, []) \<Rightarrow>
          if c = CHR ''a'' \<or> c = CHR ''r'' \<or> c = CHR ''f'' then None else Some (Inl Bogus_type)
      | ([], _) \<Rightarrow> Some (Inl Bogus_type))"

definition read_trace :: "string list \<Rightarrow> (drv_error + trace) option" where
  "read_trace ws =
     (case ws of
        h # ids # n # w # ws' \<Rightarrow>
          if \<not> list_all is_number [h, ids, n, w] then None
          else (case read_ops (scan_u n) ws' [] 0 of
             None \<Rightarrow> None
           | Some (Inl e) \<Rightarrow> Some (Inl e)
           | Some (Inr (ops, max_index)) \<Rightarrow>
               if int max_index = int (scan_u ids) - 1 \<and> scan_u n = length ops
               then Some (Inr \<lparr>sugg_heapsize = int (scan_u h), num_ids = scan_u ids, num_ops = scan_u n,
                 weight = int (scan_u w), trace_ops = ops, blocks = replicate (scan_u ids) 0,
                 block_sizes = replicate (scan_u ids) 0\<rparr>)
               else Some (Inl Assert_failed))
      | _ \<Rightarrow> None)"

section \<open>Evaluating an allocator\<close>

text \<open>\<^verbatim>\<open>memset\<close>, inside of the storage.\<close>

definition memset :: "mmst \<Rightarrow> nat \<Rightarrow> 8 word \<Rightarrow> nat \<Rightarrow> mmst option" where
  "memset s p b n =
     (if n = 0 \<or> mem_start_brk (lib s) \<le> p \<and> p + n \<le> mem_max_addr (lib s)
      then Some (s\<lparr>mem := (\<lambda>a. if p \<le> a \<and> a < p + n then b else mem s a)\<rparr>) else None)"

text \<open>
  The comparison \<^verbatim>\<open>newp[j] != (index & 0xFF)\<close>: the left side is a \<^verbatim>\<open>char\<close>, which is signed on
  the machine of the lab.
\<close>

definition data_kept :: "mmst \<Rightarrow> nat \<Rightarrow> nat \<Rightarrow> nat \<Rightarrow> bool" where
  "data_kept s newp index oldsize \<longleftrightarrow>
     (\<forall>j\<in>set [0..<oldsize]. sint (mem s (newp + j)) = int (index mod 256))"

text \<open>The state of an evaluation: the heap, the range list, and the two arrays of the trace.\<close>

type_synonym drv = "mmst \<times> range list \<times> nat list \<times> nat list"

definition valid_op :: "mm_pkg \<Rightarrow> traceop \<Rightarrow> drv \<Rightarrow> (drv_error \<times> mmst + drv) option" where
  "valid_op pk r = (\<lambda>(s, ranges, bl, zs). let index = op_index r; n = op_size r in
     case op_type r of
       ALLOC \<Rightarrow> do {
         (s, p) \<leftarrow> pk_malloc pk s n;
         if p = 0 then Some (Inl (Malloc_failed, s))
         else case add_range ranges (lib s) p n of
           Inl e \<Rightarrow> Some (Inl (e, s))
         | Inr ranges \<Rightarrow> do {
             s \<leftarrow> memset s p (of_nat (index mod 256)) n;
             bl \<leftarrow> aset bl index p;
             zs \<leftarrow> aset zs index n;
             Some (Inr (s, ranges, bl, zs)) } }
     | REALLOC \<Rightarrow> do {
         oldp \<leftarrow> aget bl index;
         (s, newp) \<leftarrow> pk_realloc pk s oldp n;
         if newp = 0 then Some (Inl (Realloc_failed, s))
         else case add_range (remove_range ranges oldp) (lib s) newp n of
           Inl e \<Rightarrow> Some (Inl (e, s))
         | Inr ranges \<Rightarrow> do {
             oldsize \<leftarrow> aget zs index;
             let oldsize = (if n < oldsize then n else oldsize);
             if \<not> data_kept s newp index oldsize then Some (Inl (Data_lost, s))
             else do {
               s \<leftarrow> memset s newp (of_nat (index mod 256)) n;
               bl \<leftarrow> aset bl index newp;
               zs \<leftarrow> aset zs index n;
               Some (Inr (s, ranges, bl, zs)) } } }
     | FREE \<Rightarrow> do {
         p \<leftarrow> aget bl index;
         let ranges = remove_range ranges p;
         s \<leftarrow> pk_free pk s p;
         Some (Inr (s, ranges, bl, zs)) })"

text \<open>An error is reported with the number of the request.\<close>

fun valid_ops :: "mm_pkg \<Rightarrow> nat \<Rightarrow> traceop list \<Rightarrow> drv \<Rightarrow> (nat \<times> drv_error \<times> mmst + drv) option" where
  "valid_ops pk i [] d = Some (Inr d)"
| "valid_ops pk i (r # rs) d =
     (case valid_op pk r d of
        None \<Rightarrow> None
      | Some (Inl e) \<Rightarrow> Some (Inl (i, e))
      | Some (Inr d) \<Rightarrow> valid_ops pk (Suc i) rs d)"

definition eval_mm_valid :: "mm_pkg \<Rightarrow> mmst \<Rightarrow> trace \<Rightarrow> range list \<Rightarrow> (nat \<times> drv_error \<times> mmst + drv) option" where
  "eval_mm_valid pk s t ranges = do {
     let s = s\<lparr>lib := mem_reset_brk (lib s)\<rparr>;
     let ranges = clear_ranges ranges;
     (s, r) \<leftarrow> pk_init pk s;
     if r < 0 then Some (Inl (0, Init_failed, s))
     else valid_ops pk 0 (trace_ops t) (s, ranges, blocks t, block_sizes t) }"

text \<open>
  \<^verbatim>\<open>eval_mm_util\<close>: the high water mark of the requested bytes, over the size of the heap.
\<close>

type_synonym util_st = "mmst \<times> nat list \<times> nat list \<times> int \<times> int"

definition util_op :: "mm_pkg \<Rightarrow> traceop \<Rightarrow> util_st \<Rightarrow> (drv_error + util_st) option" where
  "util_op pk r = (\<lambda>(s, bl, zs, ttl, hwm). let index = op_index r; n = op_size r in
     case op_type r of
       ALLOC \<Rightarrow> do {
         (s, p) \<leftarrow> pk_malloc pk s n;
         if p = 0 then Some (Inl Malloc_failed)
         else do {
           bl \<leftarrow> aset bl index p;
           zs \<leftarrow> aset zs index n;
           let ttl = ttl + int n;
           Some (Inr (s, bl, zs, ttl, if ttl > hwm then ttl else hwm)) } }
     | REALLOC \<Rightarrow> do {
         oldsize \<leftarrow> aget zs index;
         oldp \<leftarrow> aget bl index;
         (s, newp) \<leftarrow> pk_realloc pk s oldp n;
         if newp = 0 then Some (Inl Realloc_failed)
         else do {
           bl \<leftarrow> aset bl index newp;
           zs \<leftarrow> aset zs index n;
           let ttl = ttl + (int n - int oldsize);
           Some (Inr (s, bl, zs, ttl, if ttl > hwm then ttl else hwm)) } }
     | FREE \<Rightarrow> do {
         n \<leftarrow> aget zs index;
         p \<leftarrow> aget bl index;
         s \<leftarrow> pk_free pk s p;
         Some (Inr (s, bl, zs, ttl - int n, hwm)) })"

fun util_ops :: "mm_pkg \<Rightarrow> traceop list \<Rightarrow> util_st \<Rightarrow> (drv_error + util_st) option" where
  "util_ops pk [] d = Some (Inr d)"
| "util_ops pk (r # rs) d =
     (case util_op pk r d of
        None \<Rightarrow> None
      | Some (Inl e) \<Rightarrow> Some (Inl e)
      | Some (Inr d) \<Rightarrow> util_ops pk rs d)"

text \<open>The result is the pair of the quotient, and the state after the evaluation.\<close>

definition eval_mm_util :: "mm_pkg \<Rightarrow> mmst \<Rightarrow> trace \<Rightarrow> (drv_error + int \<times> int \<times> mmst \<times> nat list \<times> nat list) option" where
  "eval_mm_util pk s t = do {
     let s = s\<lparr>lib := mem_reset_brk (lib s)\<rparr>;
     (s, r) \<leftarrow> pk_init pk s;
     if r < 0 then Some (Inl Init_failed)
     else case util_ops pk (trace_ops t) (s, blocks t, block_sizes t, 0, 0) of
       None \<Rightarrow> None
     | Some (Inl e) \<Rightarrow> Some (Inl e)
     | Some (Inr (s, bl, zs, ttl, hwm)) \<Rightarrow> Some (Inr (hwm, mem_heapsize (lib s), s, bl, zs)) }"

definition speed_op :: "mm_pkg \<Rightarrow> traceop \<Rightarrow> mmst \<times> nat list \<Rightarrow> (drv_error + mmst \<times> nat list) option" where
  "speed_op pk r = (\<lambda>(s, bl). let index = op_index r; n = op_size r in
     case op_type r of
       ALLOC \<Rightarrow> do {
         (s, p) \<leftarrow> pk_malloc pk s n;
         if p = 0 then Some (Inl Malloc_failed)
         else do { bl \<leftarrow> aset bl index p; Some (Inr (s, bl)) } }
     | REALLOC \<Rightarrow> do {
         oldp \<leftarrow> aget bl index;
         (s, newp) \<leftarrow> pk_realloc pk s oldp n;
         if newp = 0 then Some (Inl Realloc_failed)
         else do { bl \<leftarrow> aset bl index newp; Some (Inr (s, bl)) } }
     | FREE \<Rightarrow> do {
         block \<leftarrow> aget bl index;
         s \<leftarrow> pk_free pk s block;
         Some (Inr (s, bl)) })"

fun speed_ops :: "mm_pkg \<Rightarrow> traceop list \<Rightarrow> mmst \<times> nat list \<Rightarrow> (drv_error + mmst \<times> nat list) option" where
  "speed_ops pk [] d = Some (Inr d)"
| "speed_ops pk (r # rs) d =
     (case speed_op pk r d of
        None \<Rightarrow> None
      | Some (Inl e) \<Rightarrow> Some (Inl e)
      | Some (Inr d) \<Rightarrow> speed_ops pk rs d)"

definition eval_mm_speed :: "mm_pkg \<Rightarrow> mmst \<Rightarrow> trace \<Rightarrow> (drv_error + mmst \<times> nat list) option" where
  "eval_mm_speed pk s t = do {
     let s = s\<lparr>lib := mem_reset_brk (lib s)\<rparr>;
     (s, r) \<leftarrow> pk_init pk s;
     if r < 0 then Some (Inl Init_failed) else speed_ops pk (trace_ops t) (s, blocks t) }"

text \<open>The same loop over the C library's allocator, which is a parameter, without an \<^verbatim>\<open>init\<close>.\<close>

fun libc_ops :: "mm_pkg \<Rightarrow> nat \<Rightarrow> traceop list \<Rightarrow> mmst \<times> nat list \<Rightarrow> (nat \<times> drv_error + mmst \<times> nat list) option" where
  "libc_ops libc i [] d = Some (Inr d)"
| "libc_ops libc i (r # rs) d =
     (case speed_op libc r d of
        None \<Rightarrow> None
      | Some (Inl e) \<Rightarrow> Some (Inl (i, e))
      | Some (Inr d) \<Rightarrow> libc_ops libc (Suc i) rs d)"

definition eval_libc_valid :: "mm_pkg \<Rightarrow> mmst \<Rightarrow> trace \<Rightarrow> (nat \<times> drv_error + mmst \<times> nat list) option" where
  "eval_libc_valid libc s t = libc_ops libc 0 (trace_ops t) (s, blocks t)"

definition eval_libc_speed :: "mm_pkg \<Rightarrow> mmst \<Rightarrow> trace \<Rightarrow> (drv_error + mmst \<times> nat list) option" where
  "eval_libc_speed libc s t = speed_ops libc (trace_ops t) (s, blocks t)"

section \<open>The contract of an allocator\<close>

text \<open>
  A well-formed trace over \<open>n\<close> indices, from the set \<open>I\<close> of the indices that are allocated:
  requests have a positive \<^verbatim>\<open>int\<close> size, a block is allocated once before it is freed, and a
  block that is reallocated has an index whose low byte is not negative as a \<^verbatim>\<open>char\<close>.
\<close>

fun good_ops :: "nat \<Rightarrow> nat set \<Rightarrow> traceop list \<Rightarrow> bool" where
  "good_ops n I [] \<longleftrightarrow> True"
| "good_ops n I (r # rs) \<longleftrightarrow>
     (case op_type r of
        ALLOC \<Rightarrow> op_index r < n \<and> op_index r \<notin> I \<and> 0 < op_size r \<and> op_size r < 2 ^ 31 \<and>
          good_ops n (insert (op_index r) I) rs
      | REALLOC \<Rightarrow> op_index r \<in> I \<and> 0 < op_size r \<and> op_size r < 2 ^ 31 \<and> op_index r mod 256 < 128 \<and>
          good_ops n I rs
      | FREE \<Rightarrow> op_index r \<in> I \<and> good_ops n (I - {op_index r}) rs)"

text \<open>
  What \<^verbatim>\<open>mdriver\<close> relies on: \<open>R s L\<close> says that in the state \<open>s\<close> the blocks of \<open>L\<close>, addresses with
  their usable sizes, belong to the client.  \<open>S\<close> is what the allocator needs of the storage when it starts.
\<close>

definition preserved :: "mmst \<Rightarrow> mmst \<Rightarrow> (nat \<times> nat) set \<Rightarrow> bool" where
  "preserved s s' L \<longleftrightarrow> mem_start_brk (lib s') = mem_start_brk (lib s) \<and> mem_brk (lib s) \<le> mem_brk (lib s') \<and>
     (\<forall>(p, c)\<in>L. \<forall>q. p \<le> q \<and> q < p + c \<longrightarrow> mem s' q = mem s q)"

lemma preservedI:
  assumes "mem_start_brk (lib s') = mem_start_brk (lib s)" "mem_brk (lib s) \<le> mem_brk (lib s')"
    and "\<And>p c q. (p, c) \<in> L \<Longrightarrow> p \<le> q \<Longrightarrow> q < p + c \<Longrightarrow> mem s' q = mem s q"
  shows "preserved s s' L"
  using assms unfolding preserved_def by blast

definition sound :: "mmst \<Rightarrow> bool" where
  "sound s \<longleftrightarrow> mem_wf (lib s) \<and> 8 dvd mem_start_brk (lib s)"

lemma sound_reset: "sound s \<Longrightarrow> sound (s\<lparr>lib := mem_reset_brk (lib s)\<rparr>)"
  using mem_wf_reset [of "lib s"] by (simp add: sound_def mem_reset_brk_def)

locale allocator =
  fixes S :: "mmst \<Rightarrow> bool" and R :: "mmst \<Rightarrow> (nat \<times> nat) set \<Rightarrow> bool" and pk :: mm_pkg
  assumes idle_law: "S s \<Longrightarrow> sound s \<and> S (s\<lparr>lib := mem_reset_brk (lib s)\<rparr>)"
    and heap_idle: "R s L \<Longrightarrow> S s"
    and block_bounds: "R s L \<Longrightarrow> (p, c) \<in> L \<Longrightarrow> p \<noteq> 0 \<and> 8 dvd p \<and> mem_start_brk (lib s) \<le> p \<and>
      p + c \<le> mem_brk (lib s) \<and> mem_brk (lib s) \<le> mem_max_addr (lib s)"
    and block_disjoint: "R s L \<Longrightarrow> (p, c) \<in> L \<Longrightarrow> (q, d) \<in> L \<Longrightarrow> p \<noteq> q \<Longrightarrow> p + c \<le> q \<or> q + d \<le> p"
    and block_write: "R s L \<Longrightarrow> (p, c) \<in> L \<Longrightarrow> k \<le> c \<Longrightarrow> (\<And>q. q < p \<or> p + k \<le> q \<Longrightarrow> m q = mem s q) \<Longrightarrow>
      R (s\<lparr>mem := m\<rparr>) L"
    and init_law: "S s \<Longrightarrow> mem_brk (lib s) = mem_start_brk (lib s) \<Longrightarrow>
      \<exists>s' r. pk_init pk s = Some (s', r) \<and> (r < 0 \<and> S s' \<or> R s' {})"
    and malloc_law: "R s L \<Longrightarrow> 0 < k \<Longrightarrow> k < 2 ^ 31 \<Longrightarrow> \<exists>s' p. pk_malloc pk s k = Some (s', p) \<and>
      (p = 0 \<and> S s' \<or> (\<exists>c. k \<le> c \<and> R s' (insert (p, c) L) \<and> p \<notin> fst ` L \<and> preserved s s' L))"
    and free_law: "R s L \<Longrightarrow> (p, c) \<in> L \<Longrightarrow> \<exists>s'. pk_free pk s p = Some s' \<and>
      R s' (L - {(p, c)}) \<and> preserved s s' (L - {(p, c)})"
    and realloc_law: "R s L \<Longrightarrow> (p, c) \<in> L \<Longrightarrow> 0 < k \<Longrightarrow> k < 2 ^ 31 \<Longrightarrow>
      \<exists>s' q. pk_realloc pk s p k = Some (s', q) \<and>
      (q = 0 \<and> S s' \<or> (\<exists>d. k \<le> d \<and> R s' (insert (q, d) (L - {(p, c)})) \<and> q \<notin> fst ` (L - {(p, c)}) \<and>
        preserved s s' (L - {(p, c)}) \<and> (\<forall>i. i < c \<and> i < k \<longrightarrow> mem s' (q + i) = mem s (p + i))))"

section \<open>The driver on an allocator with the contract\<close>

text \<open>What the driver knows of the indices in \<open>I\<close>, whose blocks are in \<open>L\<close>.\<close>

definition tracked :: "nat \<Rightarrow> nat set \<Rightarrow> (nat \<times> nat) set \<Rightarrow> drv \<Rightarrow> bool" where
  "tracked n I L = (\<lambda>(s, ranges, bl, zs). length bl = n \<and> length zs = n \<and> I \<subseteq> {..<n} \<and>
     (\<forall>i\<in>I. 0 < zs ! i \<and> (\<exists>c. (bl ! i, c) \<in> L \<and> zs ! i \<le> c) \<and>
        (\<forall>j<zs ! i. mem s (bl ! i + j) = of_nat (i mod 256))) \<and>
     inj_on ((!) bl) I \<and> set ranges = (\<lambda>i. (bl ! i, bl ! i + zs ! i - 1)) ` I \<and>
     distinct (map fst ranges))"

lemma no_overlap:
  "lo \<le> hi \<Longrightarrow> (\<forall>(plo, phi)\<in>set rs. hi < plo \<or> phi < lo) \<Longrightarrow> \<not> range_overlap rs lo hi"
  by (induction rs) auto

lemma remove_range_set:
  "distinct (map fst rs) \<Longrightarrow> set (remove_range rs p) = {x \<in> set rs. fst x \<noteq> p}"
  "distinct (map fst rs) \<Longrightarrow> distinct (map fst (remove_range rs p))"
proof (induction rs)
  case (Cons r rs)
  obtain lo hi where r: "r = (lo, hi)" by (cases r)
  { case 1 then show ?case using Cons r by force }
  { case 2
    have "set (map fst (remove_range rs p)) \<subseteq> set (map fst rs)" using Cons.IH(1) 2 by auto
    then show ?case using Cons 2 r by auto }
qed simp_all

lemma tracked_remove:
  assumes "tracked n I L (s, rs, bl, zs)" and "i \<in> I"
  shows "tracked n (I - {i}) (L - {(bl ! i, c)}) (s, remove_range rs (bl ! i), bl, zs)"
proof -
  have inj: "inj_on ((!) bl) I" and ds: "distinct (map fst rs)" and
    rs: "set rs = (\<lambda>i. (bl ! i, bl ! i + zs ! i - 1)) ` I" using assms(1) by (auto simp: tracked_def)
  have ne: "bl ! j \<noteq> bl ! i" if "j \<in> I - {i}" for j using inj that assms(2) by (auto dest: inj_onD)
  have "set (remove_range rs (bl ! i)) = (\<lambda>i. (bl ! i, bl ! i + zs ! i - 1)) ` (I - {i})"
    unfolding remove_range_set(1) [OF ds] rs using ne by auto
  then show ?thesis
    using assms(1) ne remove_range_set(2) [OF ds] inj unfolding tracked_def
    by (auto intro: inj_on_subset)
qed

lemma tracked_frame:
  assumes "tracked n I L (s, rs, bl, zs)" and "preserved s s' L"
  shows "tracked n I L (s', rs, bl, zs)"
proof -
  have "mem s' (bl ! i + j) = mem s (bl ! i + j)" if i: "i \<in> I" "j < zs ! i" for i j
  proof -
    obtain c where "(bl ! i, c) \<in> L" "zs ! i \<le> c" using assms(1) i by (auto simp: tracked_def)
    then show ?thesis using assms(2) i(2) unfolding preserved_def by fastforce
  qed
  then show ?thesis using assms(1) by (simp add: tracked_def)
qed

lemma data_kept_ok:
  assumes "\<forall>j<k. mem s (p + j) = of_nat (i mod 256)" and "i mod 256 < 128"
  shows "data_kept s p i k"
proof -
  have "sint (of_nat (i mod 256) :: 8 word) = int (i mod 256)"
    using assms(2) by (simp add: signed_of_nat signed_take_bit_eq_if_positive take_bit_nat_eq_self
      bit_nat_iff signed_take_bit_int_eq_self)
  then show ?thesis using assms(1) by (simp add: data_kept_def)
qed

text \<open>One request of a well-formed trace: the driver goes on, or the allocator had no memory.\<close>

definition next_index :: "traceop \<Rightarrow> nat set \<Rightarrow> nat set" where
  "next_index r I = (case op_type r of ALLOC \<Rightarrow> insert (op_index r) I | REALLOC \<Rightarrow> I
     | FREE \<Rightarrow> I - {op_index r})"

context allocator
begin

lemma adopt:
  assumes t: "tracked n I L (s, rs, bl, zs)" and r: "R s (insert (p, c) L)" and p: "p \<notin> fst ` L"
    and k: "0 < k" "k \<le> c" and i: "i \<notin> I" "i < n"
  shows "add_range rs (lib s) p k = Inr ((p, p + k - 1) # rs)"
    and "\<exists>s'. memset s p (of_nat (i mod 256)) k = Some s' \<and> R s' (insert (p, c) L) \<and>
           tracked n (insert i I) (insert (p, c) L) (s', (p, p + k - 1) # rs, bl[i := p], zs[i := k])"
proof -
  have b: "p \<noteq> 0" "8 dvd p" "mem_start_brk (lib s) \<le> p" "p + c \<le> mem_brk (lib s)"
    "mem_brk (lib s) \<le> mem_max_addr (lib s)" using block_bounds [OF r, of p c] by auto
  have rs: "set rs = (\<lambda>i. (bl ! i, bl ! i + zs ! i - 1)) ` I" and ds: "distinct (map fst rs)"
    and len: "length bl = n" "length zs = n" and inj: "inj_on ((!) bl) I" and sub: "I \<subseteq> {..<n}"
    using t by (auto simp: tracked_def)
  have apart: "bl ! j \<noteq> p \<and> (p + k \<le> bl ! j \<or> bl ! j + zs ! j \<le> p) \<and> 0 < zs ! j" if "j \<in> I" for j
  proof -
    obtain d where d: "(bl ! j, d) \<in> L" "zs ! j \<le> d" "0 < zs ! j" using t \<open>j \<in> I\<close> by (auto simp: tracked_def)
    then have "bl ! j \<noteq> p" using p by force
    then show ?thesis using block_disjoint [OF r, of p c "bl ! j" d] d k by auto
  qed
  then have "\<forall>(plo, phi)\<in>set rs. p + k - 1 < plo \<or> phi < p" using rs k by fastforce
  then have "\<not> range_overlap rs p (p + k - 1)" using k by (intro no_overlap) auto
  moreover have "IS_ALIGNED p"
    using b(2) mod_mod_cancel [of 8 "2 ^ 32" p] by (auto simp: IS_ALIGNED_def ALIGNMENT_def)
  ultimately show "add_range rs (lib s) p k = Inr ((p, p + k - 1) # rs)"
    using b k by (auto simp: add_range_def mem_heap_lo_def mem_heap_hi_def Let_def)
  let ?s = "s\<lparr>mem := (\<lambda>a. if p \<le> a \<and> a < p + k then of_nat (i mod 256) else mem s a)\<rparr>"
  have "memset s p (of_nat (i mod 256)) k = Some ?s" using b k by (simp add: memset_def)
  moreover have "R ?s (insert (p, c) L)" by (rule block_write [OF r _ k(2)]) auto
  moreover have "tracked n (insert i I) (insert (p, c) L) (?s, (p, p + k - 1) # rs, bl[i := p], zs[i := k])"
  proof -
    have nth: "bl[i := p] ! j = bl ! j" "zs[i := k] ! j = zs ! j" if "j \<in> I" for j
    proof -
      have "j \<noteq> i" using that i by auto
      then show "bl[i := p] ! j = bl ! j" "zs[i := k] ! j = zs ! j" by simp_all
    qed
    have "inj_on ((!) (bl[i := p])) (insert i I)"
      using inj apart nth i len unfolding inj_on_def by (metis insert_iff nth_list_update_eq)
    moreover have "(\<lambda>j. (bl[i := p] ! j, bl[i := p] ! j + zs[i := k] ! j - 1)) ` insert i I = set ((p, p + k - 1) # rs)"
      using i len rs nth by (auto simp: image_iff)
    moreover have "p \<notin> fst ` set rs" using rs apart by fastforce
    moreover have "0 < zs[i := k] ! j \<and> (\<exists>c'. (bl[i := p] ! j, c') \<in> insert (p, c) L \<and> zs[i := k] ! j \<le> c') \<and>
        (\<forall>x<zs[i := k] ! j. mem ?s (bl[i := p] ! j + x) = of_nat (j mod 256))" if "j \<in> insert i I" for j
    proof (cases "j = i")
      case True
      then show ?thesis using i k len by auto
    next
      case False
      then have j: "j \<in> I" using that by simp
      then have "\<forall>x<zs ! j. mem s (bl ! j + x) = of_nat (j mod 256)" "\<exists>c'. (bl ! j, c') \<in> L \<and> zs ! j \<le> c'" "0 < zs ! j"
        using t by (auto simp: tracked_def)
      moreover have "mem ?s (bl ! j + x) = mem s (bl ! j + x)" if "x < zs ! j" for x
        using apart [OF j] that by auto
      ultimately show ?thesis using nth [OF j] by auto
    qed
    ultimately show ?thesis
      using i k len sub ds unfolding tracked_def by simp blast
  qed
  ultimately show "\<exists>s'. memset s p (of_nat (i mod 256)) k = Some s' \<and> R s' (insert (p, c) L) \<and>
      tracked n (insert i I) (insert (p, c) L) (s', (p, p + k - 1) # rs, bl[i := p], zs[i := k])" by blast
qed

lemma valid_op_ok:
  assumes t: "tracked n I L (s, rs, bl, zs)" and R: "R s L" and g: "good_ops n I (r # rest)"
  shows "(\<exists>e s'. valid_op pk r (s, rs, bl, zs) = Some (Inl (e, s')) \<and> e \<in> {Malloc_failed, Realloc_failed} \<and> S s') \<or>
    (\<exists>L' s' rs' bl' zs'. valid_op pk r (s, rs, bl, zs) = Some (Inr (s', rs', bl', zs')) \<and> R s' L' \<and>
       tracked n (next_index r I) L' (s', rs', bl', zs'))"
proof (cases "op_type r")
  case ALLOC
  then have i: "op_index r < n" "op_index r \<notin> I" "0 < op_size r" "op_size r < 2 ^ 31" using g by auto
  have len: "length bl = n" "length zs = n" using t by (auto simp: tracked_def)
  obtain s1 p where m: "pk_malloc pk s (op_size r) = Some (s1, p)"
      "p = 0 \<and> S s1 \<or> (\<exists>c. op_size r \<le> c \<and> R s1 (insert (p, c) L) \<and> p \<notin> fst ` L \<and> preserved s s1 L)"
    using malloc_law [OF R i(3,4)] by blast
  show ?thesis
  proof (cases "p = 0")
    case False
    then obtain c where c: "op_size r \<le> c" "R s1 (insert (p, c) L)" "p \<notin> fst ` L" "preserved s s1 L"
      using m(2) by blast
    note a = adopt [OF tracked_frame [OF t c(4)] c(2,3) i(3) c(1) i(2,1)]
    from a(2) obtain s2 where s2: "memset s1 p (of_nat (op_index r mod 256)) (op_size r) = Some s2"
        "R s2 (insert (p, c) L)" "tracked n (insert (op_index r) I) (insert (p, c) L)
           (s2, (p, p + op_size r - 1) # rs, bl[op_index r := p], zs[op_index r := op_size r])" by blast
    then show ?thesis
      using ALLOC False m(1) a(1) i(1) len by (simp add: valid_op_def Let_def next_index_def aset_def) blast
  qed (use ALLOC m heap_idle in \<open>auto simp: valid_op_def Let_def\<close>)
next
  case FREE
  then have i: "op_index r \<in> I" using g by auto
  let ?p = "bl ! op_index r"
  obtain c where c: "(?p, c) \<in> L" using t i by (auto simp: tracked_def)
  have "op_index r < length bl" using t i by (auto simp: tracked_def)
  moreover obtain s1 where "pk_free pk s ?p = Some s1" "R s1 (L - {(?p, c)})" "preserved s s1 (L - {(?p, c)})"
    using free_law [OF R c] by blast
  ultimately show ?thesis
    using FREE tracked_frame [OF tracked_remove [OF t i]]
    by (simp add: valid_op_def Let_def next_index_def aget_def) blast
next
  case REALLOC
  then have i: "op_index r \<in> I" "0 < op_size r" "op_size r < 2 ^ 31" "op_index r mod 256 < 128" using g by auto
  let ?i = "op_index r" and ?k = "op_size r"
  let ?p = "bl ! ?i"
  obtain c where c: "(?p, c) \<in> L" "zs ! ?i \<le> c" and data: "\<forall>j<zs ! ?i. mem s (?p + j) = of_nat (?i mod 256)"
    using t i by (auto simp: tracked_def)
  have len: "length bl = n" "length zs = n" "?i < n" using t i by (auto simp: tracked_def)
  obtain s1 q where m: "pk_realloc pk s ?p ?k = Some (s1, q)"
      "q = 0 \<and> S s1 \<or> (\<exists>d. ?k \<le> d \<and> R s1 (insert (q, d) (L - {(?p, c)})) \<and> q \<notin> fst ` (L - {(?p, c)}) \<and>
        preserved s s1 (L - {(?p, c)}) \<and> (\<forall>i. i < c \<and> i < ?k \<longrightarrow> mem s1 (q + i) = mem s (?p + i)))"
    using realloc_law [OF R c(1) i(2,3)] by blast
  show ?thesis
  proof (cases "q = 0")
    case False
    then obtain d where d: "?k \<le> d" "R s1 (insert (q, d) (L - {(?p, c)}))" "q \<notin> fst ` (L - {(?p, c)})"
        "preserved s s1 (L - {(?p, c)})" "\<forall>i. i < c \<and> i < ?k \<longrightarrow> mem s1 (q + i) = mem s (?p + i)"
      using m(2) by blast
    note a = adopt [OF tracked_frame [OF tracked_remove [OF t i(1)] d(4)] d(2,3) i(2) d(1) _ len(3)]
    have again: "insert ?i (I - {?i}) = I" using i(1) by auto
    from a(2) obtain s2 where s2: "memset s1 q (of_nat (?i mod 256)) ?k = Some s2"
        "R s2 (insert (q, d) (L - {(?p, c)}))" "tracked n I (insert (q, d) (L - {(?p, c)}))
           (s2, (q, q + ?k - 1) # remove_range rs ?p, bl[?i := q], zs[?i := ?k])"
      using again by auto
    have "data_kept s1 q ?i (if ?k < zs ! ?i then ?k else zs ! ?i)"
      using data c(2) d(5) by (intro data_kept_ok i(4)) auto
    then show ?thesis
      using REALLOC False m(1) a(1) len s2
      by (simp add: valid_op_def Let_def next_index_def aset_def aget_def) blast
  qed (use REALLOC m len heap_idle in \<open>auto simp: valid_op_def Let_def aget_def\<close>)
qed

lemma valid_ops_ok:
  assumes "tracked n I L (s, rs, bl, zs)" and "R s L" and "good_ops n I ops"
  shows "(\<exists>j e s'. valid_ops pk i ops (s, rs, bl, zs) = Some (Inl (j, e, s')) \<and> e \<in> {Malloc_failed, Realloc_failed} \<and> S s') \<or>
    (\<exists>s' rs' bl' zs'. valid_ops pk i ops (s, rs, bl, zs) = Some (Inr (s', rs', bl', zs')) \<and> S s' \<and>
       length bl' = n \<and> length zs' = n)"
  using assms
proof (induction ops arbitrary: i I L s rs bl zs)
  case Nil
  then show ?case using heap_idle by (simp add: tracked_def)
next
  case (Cons r ops)
  have g: "good_ops n (next_index r I) ops"
    using Cons.prems(3) by (cases "op_type r") (auto simp: next_index_def insert_absorb)
  from valid_op_ok [OF Cons.prems] show ?case
  proof (elim disjE exE conjE)
    fix L' s' rs' bl' zs' assume "valid_op pk r (s, rs, bl, zs) = Some (Inr (s', rs', bl', zs'))"
      "R s' L'" "tracked n (next_index r I) L' (s', rs', bl', zs')"
    then show ?thesis using Cons.IH [of "next_index r I" L' s' rs' bl' zs' "Suc i"] g by simp
  qed auto
qed

lemma eval_mm_valid_ok:
  assumes "S s" and "length (blocks t) = n" and "length (block_sizes t) = n" and "good_ops n {} (trace_ops t)"
  shows "(\<exists>j e s'. eval_mm_valid pk s t ranges = Some (Inl (j, e, s')) \<and> e \<in> {Init_failed, Malloc_failed, Realloc_failed} \<and> S s') \<or>
    (\<exists>s' rs bl zs. eval_mm_valid pk s t ranges = Some (Inr (s', rs, bl, zs)) \<and> S s' \<and> length bl = n \<and> length zs = n)"
proof -
  let ?s = "s\<lparr>lib := mem_reset_brk (lib s)\<rparr>"
  have "S ?s" using idle_law [OF assms(1)] by blast
  then obtain s1 r where r: "pk_init pk ?s = Some (s1, r)" "r < 0 \<and> S s1 \<or> R s1 {}"
    using init_law [of ?s] by (auto simp: mem_reset_brk_def)
  have t: "tracked n {} {} (s1, [], blocks t, block_sizes t)" using assms(2,3) by (simp add: tracked_def)
  show ?thesis
  proof (cases "r < 0")
    case True
    then show ?thesis using r heap_idle by (auto simp: eval_mm_valid_def Let_def)
  next
    case False
    then have "eval_mm_valid pk s t ranges = valid_ops pk 0 (trace_ops t) (s1, [], blocks t, block_sizes t)"
      using r(1) by (simp add: eval_mm_valid_def Let_def clear_ranges_def)
    then show ?thesis using valid_ops_ok [OF t _ assms(4), of 0] r(2) False by auto
  qed
qed

end

end
