(* ===== verification/MmContract.thy ===== *)
theory MmContract
  imports MmExplicitList Mdriver
begin

text \<open>
  Allocators with boundary tags have the contract that the driver of the lab relies on: one locale
  gives the other.  The explicit-free-list allocator is an instance.
\<close>

section \<open>From boundary tags to the contract of the driver\<close>

text \<open>A block of size \<open>z\<close> has \<open>z - 8\<close> usable bytes.\<close>

definition usable :: "(nat \<times> nat) set \<Rightarrow> (nat \<times> nat) set" where
  "usable A = (\<lambda>(x, z). (x, z - 8)) ` A"

definition tags_R :: "flist \<Rightarrow> mmst \<Rightarrow> (nat \<times> nat) set \<Rightarrow> bool" where
  "tags_R P s L \<longleftrightarrow> (\<exists>bs fl. heap_ok P s bs fl \<and> L = usable (allocs (org P s) bs))"

definition tags_pkg :: "list_op \<Rightarrow> list_op \<Rightarrow> fit_op \<Rightarrow> (mmst \<Rightarrow> (mmst \<times> int) option) \<Rightarrow> mm_pkg" where
  "tags_pkg rm ins fit init = \<lparr>pk_init = init, pk_malloc = malloc_with rm ins fit, pk_free = free_with rm ins,
     pk_realloc = realloc_with rm ins fit\<rparr>"

lemma usable_fst: "fst ` usable A = fst ` A"
  by (force simp: usable_def)

lemma allocs_bounds:
  assumes "heap_ok P s bs fl" and "(x, z) \<in> allocs (org P s) bs"
  shows "16 \<le> z" "8 dvd x" "org P s \<le> x" "x + z \<le> mem_brk (lib s)"
  using blks_bounds [of x z True "org P s" bs] hp0_D [OF heap_ok_D(1) [OF assms(1)]] assms(2)
  by (auto simp: allocs_def)

lemma usable_minus:
  assumes "heap_ok P s bs fl" and "(x, z) \<in> allocs (org P s) bs"
  shows "usable (allocs (org P s) bs - {(x, z)}) = usable (allocs (org P s) bs) - {(x, z - 8)}"
proof -
  have "(y, w) = (x, z)" if "(y, w) \<in> allocs (org P s) bs" "(y, w - 8) = (x, z - 8)" for y w
    using that allocs_bounds(1) [OF assms(1) that(1)] allocs_bounds(1) [OF assms] by auto
  then show ?thesis by (fastforce simp: usable_def)
qed

lemma evolves_preserved:
  assumes "evolves P s bs A s' bs'" and "C \<subseteq> A \<inter> allocs (org P s) bs"
  shows "preserved s s' (usable C)"
proof (rule preservedI)
  show "mem_start_brk (lib s') = mem_start_brk (lib s)" "mem_brk (lib s) \<le> mem_brk (lib s')"
    using assms(1) by (simp_all add: evolves_def base_def)
  fix x c q assume "(x, c) \<in> usable C" "x \<le> q" "q < x + c"
  then obtain z where "(x, z) \<in> C" "q < x + (z - 8)" by (auto simp: usable_def)
  moreover from this have "q + 8 < x + z" using \<open>x \<le> q\<close> by linarith
  ultimately show "mem s' q = mem s q" using evolves_byte [OF assms(1), of x z q] assms(2) \<open>x \<le> q\<close> by blast
qed

lemma evolves_R:
  assumes "heap_ok P s' bs' fl'" and "evolves P s bs A s' bs'"
  shows "tags_R P s' (usable A)"
  using assms unfolding tags_R_def evolves_def by metis

lemma usable_insert: "usable (insert (p, z) A) = insert (p, z - 8) (usable A)"
  by (simp add: usable_def)

text \<open>What is left to show for one of these allocators: its \<^verbatim>\<open>mm_init\<close>, and what that needs.\<close>

locale boundary_pkg = boundary_tags +
  fixes init :: "mmst \<Rightarrow> (mmst \<times> int) option" and S :: "mmst \<Rightarrow> bool"
  assumes start_law: "S s \<Longrightarrow> sound s \<and> S (s\<lparr>lib := mem_reset_brk (lib s)\<rparr>)"
    and heap_start: "heap_ok P s bs fl \<Longrightarrow> S s"
    and start_init: "S s \<Longrightarrow> mem_brk (lib s) = mem_start_brk (lib s) \<Longrightarrow>
      \<exists>s' r. init s = Some (s', r) \<and> (r < 0 \<and> S s' \<or> (\<exists>bs fl. heap_ok P s' bs fl \<and> allocs (org P s') bs = {}))"

sublocale boundary_pkg \<subseteq> allocator S "tags_R P" "tags_pkg rm ins fit init"
proof
  show "S s \<Longrightarrow> sound s \<and> S (s\<lparr>lib := mem_reset_brk (lib s)\<rparr>)" for s by (rule start_law)
  show "tags_R P s L \<Longrightarrow> S s" for s L unfolding tags_R_def using heap_start by blast
next
  fix s L p c assume R: "tags_R P s L" and p: "(p, c) \<in> L"
  have idle: "S s" using R heap_start unfolding tags_R_def by blast
  obtain bs fl z where h: "heap_ok P s bs fl" "L = usable (allocs (org P s) bs)" "(p, z) \<in> allocs (org P s) bs" "c = z - 8"
    using R p by (auto simp: tags_R_def usable_def)
  note B = allocs_bounds [OF h(1,3)] and D = hp0_D [OF heap_ok_D(1) [OF h(1)]]
  show "p \<noteq> 0 \<and> 8 dvd p \<and> mem_start_brk (lib s) \<le> p \<and> p + c \<le> mem_brk (lib s) \<and>
      mem_brk (lib s) \<le> mem_max_addr (lib s)"
    using B h(4) D(10,13) by auto
  show "p + c \<le> q \<or> q + d \<le> p" if "(q, d) \<in> L" "p \<noteq> q" for q d
  proof -
    obtain w where "(q, w) \<in> allocs (org P s) bs" "d = w - 8" using \<open>(q, d) \<in> L\<close> h(2) by (auto simp: usable_def)
    then show ?thesis using allocs_disjoint [OF h(1,3), of q w] that(2) h(4) by auto
  qed
  show "tags_R P (s\<lparr>mem := m\<rparr>) L" if "k \<le> c" "\<And>q. q < p \<or> p + k \<le> q \<Longrightarrow> m q = mem s q" for k m
  proof -
    have "m q = mem s q" if q: "q \<notin> payload (org P s) bs" for q
    proof (rule \<open>\<And>q. q < p \<or> p + k \<le> q \<Longrightarrow> m q = mem s q\<close>)
      show "q < p \<or> p + k \<le> q" using q h(3,4) \<open>k \<le> c\<close> B(1) by (force simp: payload_allocs)
    qed
    then show ?thesis using payload_write [OF h(1)] h(2) by (auto simp: tags_R_def base_def)
  qed
  show "\<exists>s'. pk_free (tags_pkg rm ins fit init) s p = Some s' \<and> tags_R P s' (L - {(p, c)}) \<and> preserved s s' (L - {(p, c)})"
  proof -
    obtain s' bs' fl' where f: "free_with rm ins s p = Some s'" "heap_ok P s' bs' fl'"
        "evolves P s bs (allocs (org P s) bs - {(p, z)}) s' bs'"
      using free_ok [OF h(1,3)] by blast
    have eq: "L - {(p, c)} = usable (allocs (org P s) bs - {(p, z)})"
      unfolding h(2,4) usable_minus [OF h(1,3)] by (rule refl)
    have "preserved s s' (L - {(p, c)})"
      unfolding eq by (rule evolves_preserved [OF f(3)]) auto
    moreover have "tags_R P s' (L - {(p, c)})"
      unfolding eq by (rule evolves_R [OF f(2,3)])
    moreover have "pk_free (tags_pkg rm ins fit init) s p = Some s'" using f(1) by (simp add: tags_pkg_def)
    ultimately show ?thesis by blast
  qed
  show "\<exists>s' q. pk_realloc (tags_pkg rm ins fit init) s p k = Some (s', q) \<and>
      (q = 0 \<and> S s' \<or> (\<exists>d. k \<le> d \<and> tags_R P s' (insert (q, d) (L - {(p, c)})) \<and> q \<notin> fst ` (L - {(p, c)}) \<and>
        preserved s s' (L - {(p, c)}) \<and> (\<forall>i. i < c \<and> i < k \<longrightarrow> mem s' (q + i) = mem s (p + i))))"
    if k: "0 < k" "k < 2 ^ 31" for k
  proof -
    let ?C = "allocs (org P s) bs - {(p, z)}"
    have "k < 2 ^ 32 - 15" using k by simp
    from realloc_ok [OF h(1,3) k(1) this] show ?thesis
    proof (elim disjE exE conjE)
      fix s' q bs' fl' w
      assume a: "realloc_with rm ins fit s p k = Some (s', q)" "heap_ok P s' bs' fl'" "k + 8 \<le> w"
        "evolves P s bs (insert (q, w) ?C) s' bs'" "q \<notin> fst ` allocs (org P s) bs"
        "\<forall>i. i + 8 < z \<and> i < k \<longrightarrow> mem s' (q + i) = mem s (p + i)"
      have "tags_R P s' (insert (q, w - 8) (L - {(p, c)}))"
        using evolves_R [OF a(2,4)] unfolding usable_insert usable_minus [OF h(1,3)] h(2,4) .
      moreover have "q \<notin> fst ` L" unfolding h(2) usable_fst by (rule a(5))
      then have "q \<notin> fst ` (L - {(p, c)})" by blast
      moreover have "preserved s s' (L - {(p, c)})"
        using evolves_preserved [OF a(4), of ?C] unfolding usable_minus [OF h(1,3)] h(2,4) by auto
      moreover have "\<forall>i. i < c \<and> i < k \<longrightarrow> mem s' (q + i) = mem s (p + i)" using a(6) h(4) by auto
      moreover have "k \<le> w - 8" using a(3) by simp
      ultimately show ?thesis using a(1) unfolding tags_pkg_def by auto
    qed (use idle in \<open>simp add: tags_pkg_def\<close>)
  qed
next
  fix s :: mmst assume "S s" "mem_brk (lib s) = mem_start_brk (lib s)"
  from start_init [OF this]
  show "\<exists>s' r. pk_init (tags_pkg rm ins fit init) s = Some (s', r) \<and> (r < 0 \<and> S s' \<or> tags_R P s' {})"
    unfolding tags_R_def tags_pkg_def by (fastforce simp: usable_def)
next
  fix s L and k :: nat assume R: "tags_R P s L" and k: "0 < k" "k < 2 ^ 31"
  then obtain bs fl where h: "heap_ok P s bs fl" "L = usable (allocs (org P s) bs)" by (auto simp: tags_R_def)
  have idle: "S s" by (rule heap_start [OF h(1)])
  have "k < 2 ^ 32 - 15" using k by simp
  from malloc_ok [OF h(1) k(1) this]
  show "\<exists>s' p. pk_malloc (tags_pkg rm ins fit init) s k = Some (s', p) \<and>
      (p = 0 \<and> S s' \<or> (\<exists>c. k \<le> c \<and> tags_R P s' (insert (p, c) L) \<and> p \<notin> fst ` L \<and> preserved s s' L))"
  proof (elim disjE exE conjE)
    fix s' p bs' fl' z
    assume a: "malloc_with rm ins fit s k = Some (s', p)" "heap_ok P s' bs' fl'" "k + 8 \<le> z"
      "evolves P s bs (insert (p, z) (allocs (org P s) bs)) s' bs'" "p \<notin> fst ` allocs (org P s) bs"
    have "tags_R P s' (insert (p, z - 8) L)" using evolves_R [OF a(2,4)] h(2) by (simp add: usable_insert)
    moreover have "p \<notin> fst ` L" using a(5) h(2) usable_fst by simp
    moreover have "preserved s s' L"
      using evolves_preserved [OF a(4), of "allocs (org P s) bs"] h(2) by auto
    moreover have "k \<le> z - 8" using a(3) by simp
    ultimately show ?thesis using a(1) by (auto simp: tags_pkg_def)
  qed (use idle in \<open>simp add: tags_pkg_def\<close>)
qed

section \<open>The explicit-free-list allocator\<close>

definition explicit_pkg :: mm_pkg where
  "explicit_pkg = \<lparr>pk_init = mm_init, pk_malloc = mm_malloc, pk_free = mm_free, pk_realloc = mm_realloc\<rparr>"

lemma explicit_pkg_tags: "explicit_pkg = tags_pkg remove_block insert_block find_fit mm_init"
  by (simp add: explicit_pkg_def tags_pkg_def explicit_code)

lemma explicit_init:
  assumes "sound s" "mem_brk (lib s) = mem_start_brk (lib s)"
  shows "\<exists>s' r. mm_init s = Some (s', r) \<and> (r < 0 \<and> sound s' \<or>
    (\<exists>bs fl. heap_ok explicit_list s' bs fl \<and> allocs (org explicit_list s') bs = {}))"
proof -
  have m: "mem_wf (lib s)" using assms(1) by (simp add: sound_def)
  have bs: "base explicit_list s = mem_start_brk (lib s)" by (simp add: base_def)
  have b: "mem_brk (lib s) = base explicit_list s" "8 dvd base explicit_list s" using assms by (simp_all add: base_def sound_def)
  show ?thesis
  proof (cases "base explicit_list s + 32 \<le> mem_max_addr (lib s)")
    case r: True
    let ?t = "init_heap s (base explicit_list s)"
    have t: "lib ?t = (lib s)\<lparr>mem_brk := base explicit_list s + 32\<rparr>" by (simp add: init_heap_def Let_def)
    have ch: "chunk 1024 = 4096" by (simp add: chunk_def WSIZE_def)
    show ?thesis
    proof (cases "base explicit_list s + 32 + CHUNKSIZE \<le> mem_max_addr (lib s)")
      case True
      then show ?thesis using mm_init_ok [OF m b True] by blast
    next
      case False
      then have "extend_heap ?t 1024 = Some (?t, 0)"
        using extend_heap_fails [OF init_heap_ok [OF m b r], of 1024] t ch
        by (simp add: CHUNKSIZE_def explicit_code)
      moreover have "sound ?t"
        unfolding sound_def t using m b(2) r by (simp add: mem_wf_def base_def)
      ultimately show ?thesis using mm_init_exec [OF m b(1) r] by simp
    qed
  next
    case False
    then have "mem_sbrk (lib s) (int (8 * WSIZE)) = (lib s, None)"
      using mem_sbrk_wf_eq [OF m, of 32] b(1) by (simp add: WSIZE_def)
    then show ?thesis using assms(1) by (simp add: mm_init_def sound_def)
  qed
qed

interpretation explicit: boundary_pkg explicit_list remove_block insert_block find_fit mm_init sound
proof
  show "sound s \<Longrightarrow> sound s \<and> sound (s\<lparr>lib := mem_reset_brk (lib s)\<rparr>)" for s using sound_reset by blast
  show "sound s" if h: "heap_ok explicit_list s bs fl" for s bs fl
    using hp0_D(1,2) [OF heap_ok_D(1) [OF h]] by (simp add: sound_def base_def)
qed (rule explicit_init)

end
