(* ===== verification/MmNaive.thy ===== *)
theory MmNaive
  imports Mdriver MmShared
begin

text \<open>
  The allocator that only moves the break (\<^verbatim>\<open>sp_03_malloclab/src/mm_naive.c\<close>), and the proof that
  it has the contract the driver relies on.
\<close>

section \<open>The program\<close>

definition ALIGN :: "nat \<Rightarrow> nat" where
  "ALIGN n = (n + (ALIGNMENT - 1)) mod 2 ^ 32 AND 0xFFFFFFF8"

definition SIZE_T_SIZE :: nat where
  "SIZE_T_SIZE = ALIGN 4"

definition naive_init :: "mmst \<Rightarrow> (mmst \<times> int) option" where
  "naive_init s = Some (s, 0)"

definition naive_malloc :: "mmst \<Rightarrow> nat \<Rightarrow> (mmst \<times> nat) option" where
  "naive_malloc s n =
     (let newsize = ALIGN (n + SIZE_T_SIZE) in
      case mem_sbrk (lib s) (to_int32 newsize) of
        (l, None) \<Rightarrow> Some (s\<lparr>lib := l\<rparr>, 0)
      | (l, Some p) \<Rightarrow> do { s \<leftarrow> PUT (s\<lparr>lib := l\<rparr>) p n; Some (s, p + SIZE_T_SIZE) })"

definition naive_free :: "mmst \<Rightarrow> nat \<Rightarrow> mmst option" where
  "naive_free s ptr = Some s"

definition naive_realloc :: "mmst \<Rightarrow> nat \<Rightarrow> nat \<Rightarrow> (mmst \<times> nat) option" where
  "naive_realloc s ptr n = do {
     (s, newptr) \<leftarrow> naive_malloc s n;
     if newptr = 0 then Some (s, 0)
     else do {
       copySize \<leftarrow> GET s (ptr - SIZE_T_SIZE);
       let copySize = (if n < copySize then n else copySize);
       s \<leftarrow> memcpy s newptr ptr copySize;
       s \<leftarrow> naive_free s ptr;
       Some (s, newptr) } }"

definition naive_pkg :: mm_pkg where
  "naive_pkg = \<lparr>pk_init = naive_init, pk_malloc = naive_malloc, pk_free = naive_free,
     pk_realloc = naive_realloc\<rparr>"

section \<open>The contract\<close>

lemma ALIGN_8: "n + 7 < 2 ^ 32 \<Longrightarrow> ALIGN n = align8 n"
  using and_not7 [of "n + 7"] by (simp add: ALIGN_def ALIGNMENT_def align8_def)

lemma SIZE_T_SIZE_8: "SIZE_T_SIZE = 8"
  by (simp add: SIZE_T_SIZE_def ALIGN_8 align8_def)

text \<open>Every block has a header of eight bytes that holds its size.\<close>

definition naive_R :: "mmst \<Rightarrow> (nat \<times> nat) set \<Rightarrow> bool" where
  "naive_R s L \<longleftrightarrow> sound s \<and> 8 dvd mem_brk (lib s) \<and>
     (\<forall>(p, c)\<in>L. 8 dvd p \<and> mem_start_brk (lib s) + 8 \<le> p \<and> p + c \<le> mem_brk (lib s) \<and>
        rd4 (mem s) (p - 8) = c \<and>
        (\<forall>(q, d)\<in>L. p \<noteq> q \<longrightarrow> p + c + 8 \<le> q \<or> q + d + 8 \<le> p))"

lemma naive_R_D:
  assumes "naive_R s L" and "(p, c) \<in> L"
  shows "8 dvd p" "mem_start_brk (lib s) + 8 \<le> p" "p + c \<le> mem_brk (lib s)" "rd4 (mem s) (p - 8) = c"
    "mem_brk (lib s) \<le> mem_max_addr (lib s)" "mem_max_addr (lib s) \<le> 2 ^ 31"
    "(q, d) \<in> L \<Longrightarrow> p \<noteq> q \<Longrightarrow> p + c + 8 \<le> q \<or> q + d + 8 \<le> p"
  using assms by (auto simp: naive_R_def sound_def mem_wf_def)

lemma naive_R_frame:
  assumes "naive_R s L" and "\<And>p c i. (p, c) \<in> L \<Longrightarrow> i < 4 \<Longrightarrow> m (p - 8 + i) = mem s (p - 8 + i)"
  shows "naive_R (s\<lparr>mem := m\<rparr>) L"
proof -
  have "rd4 m (p - 8) = rd4 (mem s) (p - 8)" if "(p, c) \<in> L" for p c
    using assms(2) [OF that, of 0] assms(2) [OF that, of 1] assms(2) [OF that, of 2]
      assms(2) [OF that, of 3] by (simp add: rd4_def)
  moreover have "sound (s\<lparr>mem := m\<rparr>)" using assms(1) by (simp add: naive_R_def sound_def)
  ultimately show ?thesis using assms(1) unfolding naive_R_def by fastforce
qed

lemma naive_write:
  assumes R: "naive_R s L" and b: "(p, c) \<in> L" "k \<le> c" and m: "\<And>q. q < p \<or> p + k \<le> q \<Longrightarrow> m q = mem s q"
  shows "naive_R (s\<lparr>mem := m\<rparr>) L"
proof (rule naive_R_frame [OF R])
  fix q d i assume q: "(q, d) \<in> L" "i < (4 :: nat)"
  have "q = p \<or> p + c + 8 \<le> q \<or> q + d + 8 \<le> p" using naive_R_D(7) [OF R b(1) q(1)] by auto
  then have "q - 8 + i < p \<or> p + k \<le> q - 8 + i"
    using naive_R_D(2) [OF R q(1)] q(2) b(2) by linarith
  then show "m (q - 8 + i) = mem s (q - 8 + i)" by (rule m)
qed

lemma naive_R_insert:
  assumes R: "naive_R s L" and l: "lib s' = (lib s)\<lparr>mem_brk := mem_brk (lib s) + z\<rparr>"
    and z: "k + 8 \<le> z" "8 dvd z" "mem_brk (lib s) + z \<le> mem_max_addr (lib s)"
    and old: "\<And>p c. (p, c) \<in> L \<Longrightarrow> rd4 (mem s') (p - 8) = rd4 (mem s) (p - 8)"
    and new: "rd4 (mem s') (mem_brk (lib s)) = k"
  shows "naive_R s' (insert (mem_brk (lib s) + 8, k) L)"
proof -
  let ?p = "mem_brk (lib s) + 8"
  have wf: "sound s" "8 dvd mem_brk (lib s)" using R by (auto simp: naive_R_def)
  have "sound s'" "8 dvd mem_brk (lib s')" using wf l z by (auto simp: sound_def mem_wf_def)
  moreover have "8 dvd p \<and> mem_start_brk (lib s') + 8 \<le> p \<and> p + c \<le> mem_brk (lib s') \<and> rd4 (mem s') (p - 8) = c"
    if "(p, c) \<in> insert (?p, k) L" for p c
  proof (cases "(p, c) \<in> L")
    case True
    then show ?thesis using naive_R_D [OF R True] l old by auto
  next
    case False
    then show ?thesis using that l z(1) new wf by (auto simp: sound_def mem_wf_def)
  qed
  moreover have "p + c + 8 \<le> q \<or> q + d + 8 \<le> p"
    if "(p, c) \<in> insert (?p, k) L" "(q, d) \<in> insert (?p, k) L" "p \<noteq> q" for p c q d
    using that naive_R_D(3) [OF R] naive_R_D(7) [OF R] by fastforce
  ultimately show ?thesis unfolding naive_R_def by blast
qed

lemma naive_malloc_ok:
  assumes R: "naive_R s L" and k: "0 < k" "k < 2 ^ 31"
  shows "naive_malloc s k = Some (s, 0) \<or> (\<exists>s' p. naive_malloc s k = Some (s', p) \<and> p \<noteq> 0 \<and>
           naive_R s' (insert (p, k) L) \<and> p \<notin> fst ` L \<and> preserved s s' L \<and>
           mem_brk (lib s) + 8 = p)"
proof -
  let ?b = "mem_brk (lib s)" and ?z = "align8 (k + 8)"
  have z: "ALIGN (k + SIZE_T_SIZE) = ?z" using k ALIGN_8 [of "k + 8"] by (simp add: SIZE_T_SIZE_8)
  then have z8: "ALIGN (k + 8) = ?z" by (simp add: SIZE_T_SIZE_8)
  have zb: "k + 8 \<le> ?z" "8 dvd ?z" "?z < k + 16" using align8_ge align8_less [of "k + 8"] by auto
  have wf: "mem_wf (lib s)" "8 dvd ?b" using R by (auto simp: naive_R_def sound_def)
  show ?thesis
  proof (cases "?z < 2 ^ 31 \<and> ?b + ?z \<le> mem_max_addr (lib s)")
    case False
    then have "mem_sbrk (lib s) (to_int32 ?z) = (lib s, None)"
    proof (cases "?z < 2 ^ 31")
      case True
      then have "to_int32 ?z = int ?z" by (simp add: to_int32_def)
      then show ?thesis using mem_sbrk_wf_eq [OF wf(1), of "int ?z"] True False by auto
    next
      case big: False
      then have "?z < 2 ^ 32" using zb(3) k(2) by simp
      then have "to_int32 ?z < 0" using big by (simp add: to_int32_def)
      then show ?thesis by (simp add: mem_sbrk_def)
    qed
    then show ?thesis by (simp add: naive_malloc_def z Let_def)
  next
    case True
    then have "to_int32 ?z = int ?z" by (simp add: to_int32_def)
    then have sb: "mem_sbrk (lib s) (to_int32 ?z) = ((lib s)\<lparr>mem_brk := ?b + ?z\<rparr>, Some ?b)"
      using mem_sbrk_wf_eq [OF wf(1), of "int ?z"] True by auto
    let ?s = "s\<lparr>lib := (lib s)\<lparr>mem_brk := ?b + ?z\<rparr>, mem := wr4 (mem s) ?b k\<rparr>"
    have e: "naive_malloc s k = Some (?s, ?b + 8)"
      using wf True zb by (simp add: naive_malloc_def z8 Let_def sb PUT_def valid_def SIZE_T_SIZE_8 mem_wf_def)
    have low: "q < ?b \<Longrightarrow> mem ?s q = mem s q" for q by (simp add: wr4_def)
    have pres: "preserved s ?s L"
      unfolding preserved_def using naive_R_D(3) [OF R] low by fastforce
    have old: "rd4 (mem ?s) (p - 8) = rd4 (mem s) (p - 8)" if "(p, c) \<in> L" for p c
    proof -
      have "p - 8 + 4 \<le> ?b" using naive_R_D(2,3) [OF R that] by linarith
      then show ?thesis by (simp add: rd4_wr4_other)
    qed
    have new: "rd4 (mem ?s) ?b = k" using k by (simp add: rd4_wr4_same)
    have "naive_R ?s (insert (?b + 8, k) L)"
      by (rule naive_R_insert [OF R _ zb(1,2) _ old new]) (use True in simp_all)
    moreover have "?b + 8 \<notin> fst ` L" using naive_R_D(3) [OF R] by fastforce
    ultimately show ?thesis using e pres by simp
  qed
qed

lemma naive_R_sub: "naive_R s L \<Longrightarrow> L' \<subseteq> L \<Longrightarrow> naive_R s L'"
  unfolding naive_R_def case_prod_beta by (meson subsetD)

lemma naive_realloc_ok:
  assumes R: "naive_R s L" and p: "(p, c) \<in> L" and k: "0 < k" "k < 2 ^ 31"
  shows "\<exists>s' q. naive_realloc s p k = Some (s', q) \<and> (q = 0 \<and> s' = s \<or> naive_R s' (insert (q, k) (L - {(p, c)})) \<and>
           q \<notin> fst ` (L - {(p, c)}) \<and> preserved s s' (L - {(p, c)}) \<and>
           (\<forall>i. i < c \<and> i < k \<longrightarrow> mem s' (q + i) = mem s (p + i)))"
  using naive_malloc_ok [OF R k]
proof (elim disjE exE conjE)
  assume "naive_malloc s k = Some (s, 0)"
  then show ?thesis by (simp add: naive_realloc_def)
next
  fix s1 q assume m: "naive_malloc s k = Some (s1, q)" "q \<noteq> 0" "naive_R s1 (insert (q, k) L)"
    "q \<notin> fst ` L" "preserved s s1 L" "mem_brk (lib s) + 8 = q"
  let ?n = "if k < c then k else c"
  have pin: "(p, c) \<in> insert (q, k) L" using p by simp
  note P = naive_R_D [OF m(3) pin] and Q = naive_R_D [OF m(3), of q k]
  have "mem_start_brk (lib s1) \<le> p - 8" "p - 8 + 4 \<le> mem_max_addr (lib s1)"
    using P(2,3,5) by linarith+
  then have "GET s1 (p - 8) = Some c" using P(4) by (simp add: GET_def valid_def)
  moreover
  let ?s = "s1\<lparr>mem := (\<lambda>a. if q \<le> a \<and> a < q + ?n then mem s1 (p + (a - q)) else mem s1 a)\<rparr>"
  have "memcpy s1 q p ?n = Some ?s" using P Q by (auto simp: memcpy_def)
  ultimately have "naive_realloc s p k = Some (?s, q)"
    using m(1,2) by (simp add: naive_realloc_def SIZE_T_SIZE_8 naive_free_def Let_def)
  moreover have "naive_R ?s (insert (q, k) L)"
    by (rule naive_write [OF m(3), of q k ?n]) auto
  then have "naive_R ?s (insert (q, k) (L - {(p, c)}))" by (rule naive_R_sub) auto
  moreover have keep: "mem ?s a = mem s a" if b: "(x, d) \<in> L" "x \<le> a" "a < x + d" for x d a
  proof -
    have "x + d \<le> mem_brk (lib s)" using naive_R_D(3) [OF R b(1)] .
    then have "mem ?s a = mem s1 a" using b m(6) by simp
    also have "\<dots> = mem s a" using m(5) b unfolding preserved_def by blast
    finally show ?thesis .
  qed
  moreover have "preserved s ?s (L - {(p, c)})"
  proof (rule preservedI)
    show "mem_start_brk (lib ?s) = mem_start_brk (lib s)" "mem_brk (lib s) \<le> mem_brk (lib ?s)"
      using m(5) by (simp_all add: preserved_def)
    show "mem ?s a = mem s a" if "(x, d) \<in> L - {(p, c)}" "x \<le> a" "a < x + d" for x d a
      by (rule keep) (use that in auto)
  qed
  moreover have "mem ?s (q + i) = mem s (p + i)" if "i < c" "i < k" for i
  proof -
    have "mem s1 (p + i) = mem s (p + i)" using m(5) p that unfolding preserved_def by fastforce
    then show ?thesis using that by simp
  qed
  ultimately show ?thesis using m(4) by blast
qed

lemma naive_sound: "naive_R s L \<Longrightarrow> sound s"
  by (simp add: naive_R_def)

interpretation naive: allocator sound naive_R naive_pkg
proof
  show "sound s \<Longrightarrow> sound s \<and> sound (s\<lparr>lib := mem_reset_brk (lib s)\<rparr>)" for s using sound_reset by blast
  show "naive_R s L \<Longrightarrow> sound s" for s L by (rule naive_sound)
  show "naive_R s L \<Longrightarrow> (p, c) \<in> L \<Longrightarrow> p \<noteq> 0 \<and> 8 dvd p \<and> mem_start_brk (lib s) \<le> p \<and>
      p + c \<le> mem_brk (lib s) \<and> mem_brk (lib s) \<le> mem_max_addr (lib s)" for s L p c
    using naive_R_D [of s L p c] by auto
  show "naive_R s L \<Longrightarrow> (p, c) \<in> L \<Longrightarrow> (q, d) \<in> L \<Longrightarrow> p \<noteq> q \<Longrightarrow> p + c \<le> q \<or> q + d \<le> p" for s L p c q d
    using naive_R_D(7) [of s L p c q d] by auto
  show "naive_R s L \<Longrightarrow> (p, c) \<in> L \<Longrightarrow> k \<le> c \<Longrightarrow> (\<And>q. q < p \<or> p + k \<le> q \<Longrightarrow> m q = mem s q) \<Longrightarrow>
      naive_R (s\<lparr>mem := m\<rparr>) L" for s L p c k m
    by (rule naive_write)
  show "\<exists>s' r. pk_init naive_pkg s = Some (s', r) \<and> (r < 0 \<and> sound s' \<or> naive_R s' {})"
    if "sound s" "mem_brk (lib s) = mem_start_brk (lib s)" for s
    using that by (simp add: naive_pkg_def naive_init_def naive_R_def sound_def)
  show "\<exists>s' p. pk_malloc naive_pkg s k = Some (s', p) \<and>
      (p = 0 \<and> sound s' \<or> (\<exists>c. k \<le> c \<and> naive_R s' (insert (p, c) L) \<and> p \<notin> fst ` L \<and> preserved s s' L))"
    if "naive_R s L" "0 < k" "k < 2 ^ 31" for s L k
    using naive_malloc_ok [OF that] naive_sound [OF that(1)] by (auto simp: naive_pkg_def)
  show "\<exists>s'. pk_free naive_pkg s p = Some s' \<and> naive_R s' (L - {(p, c)}) \<and> preserved s s' (L - {(p, c)})"
    if "naive_R s L" "(p, c) \<in> L" for s L p c
    using that naive_R_sub [of s L "L - {(p, c)}"] by (auto simp: naive_pkg_def naive_free_def preserved_def)
  show "\<exists>s' q. pk_realloc naive_pkg s p k = Some (s', q) \<and>
      (q = 0 \<and> sound s' \<or> (\<exists>d. k \<le> d \<and> naive_R s' (insert (q, d) (L - {(p, c)})) \<and> q \<notin> fst ` (L - {(p, c)}) \<and>
        preserved s s' (L - {(p, c)}) \<and> (\<forall>i. i < c \<and> i < k \<longrightarrow> mem s' (q + i) = mem s (p + i))))"
    if "naive_R s L" "(p, c) \<in> L" "0 < k" "k < 2 ^ 31" for s L p c k
    using naive_realloc_ok [OF that] naive_sound [OF that(1)] by (auto simp: naive_pkg_def)
qed

end
