(* ===== verification/MmTheorems.thy ===== *)
theory MmTheorems
  imports MmContract MmNaive
begin

text \<open>
  The properties of the allocators of the malloc lab and of its driver, stated over the
  definitions of the programs.
\<close>

text \<open>A machine to run the witnesses on: a fresh simulated heap of 20 MB at the address 4096.\<close>

definition fresh :: mmst where
  "fresh = \<lparr>lib = \<lparr>mem_start_brk = 4096, mem_brk = 4096, mem_max_addr = 4096 + MAX_HEAP\<rparr>,
     mem = (\<lambda>_. 0), heap_listp = 0, free_listp = 0\<rparr>"

lemma fresh_facts:
  "mem_wf (lib fresh)" "mem_brk (lib fresh) = base explicit_list fresh" "8 dvd base explicit_list fresh"
  "base explicit_list fresh + 32 + CHUNKSIZE \<le> mem_max_addr (lib fresh)" "mem_start_brk (lib fresh) = 4096"
  by (simp_all add: fresh_def mem_wf_def base_def MAX_HEAP_def CHUNKSIZE_def)

lemma fresh_init:
  "\<exists>s bs fl x z. mm_init fresh = Some (s, 0) \<and> heap_ok explicit_list s bs fl \<and> allocs (org explicit_list s) bs = {} \<and>
     (x, z, False) \<in> set (blks (org explicit_list s) bs) \<and> 4096 \<le> z"
  using mm_init_ok [OF fresh_facts(1-4)] by (auto simp: CHUNKSIZE_def)

lemma fresh_malloc:
  "\<exists>s1 s2 p bs fl z. mm_init fresh = Some (s1, 0) \<and> mm_malloc s1 100 = Some (s2, p) \<and> heap_ok explicit_list s2 bs fl \<and>
     (p, z) \<in> allocs (org explicit_list s2) bs \<and> 108 \<le> z"
proof -
  obtain s bs fl x z where s: "mm_init fresh = Some (s, 0)" "heap_ok explicit_list s bs fl"
      "(x, z, False) \<in> set (blks (org explicit_list s) bs)" "4096 \<le> z" using fresh_init by blast
  have "get_asize 100 = 112" by (simp add: get_asize_def mm_consts)
  then show ?thesis using mm_malloc_ok [OF s(2), of 100] s unfolding evolves_def by fastforce
qed

section \<open>The explicit-free-list allocator\<close>

text \<open>
  From a fresh simulated heap with room for the prologue and one chunk, \<^verbatim>\<open>mm_init\<close> of
  \<^verbatim>\<open>mm-2014-17831.c\<close> returns 0 and builds a well-formed heap: boundary tags on every block, the
  prologue and the epilogue in place, every free block on the doubly linked free list exactly
  once, no two free neighbours, nothing allocated, and a free block of at least a chunk.
\<close>

theorem mm_init_correct:
  assumes "mem_wf (lib s)" and "mem_brk (lib s) = base explicit_list s" and "8 dvd base explicit_list s"
    and "base explicit_list s + 32 + CHUNKSIZE \<le> mem_max_addr (lib s)"
  shows "\<exists>s' bs fl x z. mm_init s = Some (s', 0) \<and> heap_ok explicit_list s' bs fl \<and> allocs (org explicit_list s') bs = {} \<and>
           (x, z, False) \<in> set (blks (org explicit_list s') bs) \<and> CHUNKSIZE \<le> z \<and> base explicit_list s' = base explicit_list s"
  using mm_init_ok [OF assms] by blast

theorem mm_init_correct_witness:
  "\<exists>s bs fl. mm_init fresh = Some (s, 0) \<and> heap_ok explicit_list s bs fl \<and> allocs (org explicit_list s) bs = {}"
  using mm_init_correct [of fresh] fresh_facts by blast

text \<open>
  C1. \<^verbatim>\<open>mm_malloc\<close> on a well-formed heap always returns (no loop runs on, no access leaves the
  storage).  Either it returns NULL, the state is unchanged, no free block is large enough and
  the storage cannot be extended; or it returns a fresh 8-aligned block with room for the
  request and at most 40 bytes more, the heap is well formed again, and every block that was
  allocated before is still allocated, with its size and contents.
\<close>

theorem mm_malloc_correct:
  assumes "heap_ok explicit_list s bs fl" and "0 < n" and "n < 2 ^ 32 - 15"
  shows "mm_malloc s n = Some (s, 0) \<and>
           (\<forall>x z. (x, z, False) \<in> set (blks (org explicit_list s) bs) \<longrightarrow> z < get_asize n) \<and>
           mem_max_addr (lib s) < mem_brk (lib s) + max (get_asize n) CHUNKSIZE \<or>
         (\<exists>s' p bs' fl' z. mm_malloc s n = Some (s', p) \<and> p \<noteq> 0 \<and> 8 dvd p \<and> heap_ok explicit_list s' bs' fl' \<and>
           n + 8 \<le> z \<and> z < n + 40 \<and> evolves explicit_list s bs (insert (p, z) (allocs (org explicit_list s) bs)) s' bs' \<and>
           p \<notin> fst ` allocs (org explicit_list s) bs)"
  using mm_malloc_ok [OF assms] .

theorem mm_malloc_correct_witness:
  "\<exists>s1 s2 p. mm_init fresh = Some (s1, 0) \<and> mm_malloc s1 100 = Some (s2, p) \<and> p \<noteq> 0 \<and> 8 dvd p"
proof -
  obtain s bs fl x z where s: "mm_init fresh = Some (s, 0)" "heap_ok explicit_list s bs fl"
      "(x, z, False) \<in> set (blks (org explicit_list s) bs)" "4096 \<le> z" using fresh_init by blast
  have "get_asize 100 = 112" by (simp add: get_asize_def mm_consts)
  then show ?thesis using mm_malloc_correct [OF s(2), of 100] s by fastforce
qed

text \<open>
  C2. \<^verbatim>\<open>mm_free\<close> of an allocated block always returns, merges the block with its free neighbours
  and leaves a well-formed heap, in which exactly that block is no longer allocated and all
  others keep their sizes and contents.
\<close>

theorem mm_free_correct:
  assumes "heap_ok explicit_list s bs fl" and "(bp, z) \<in> allocs (org explicit_list s) bs"
  shows "\<exists>s' bs' fl'. mm_free s bp = Some s' \<and> heap_ok explicit_list s' bs' fl' \<and>
           evolves explicit_list s bs (allocs (org explicit_list s) bs - {(bp, z)}) s' bs'"
  using explicit.free_ok [OF assms] unfolding explicit_code by blast

theorem mm_free_correct_witness:
  "\<exists>s1 s2 s3 p bs fl. mm_init fresh = Some (s1, 0) \<and> mm_malloc s1 100 = Some (s2, p) \<and>
     mm_free s2 p = Some s3 \<and> heap_ok explicit_list s3 bs fl"
proof -
  obtain s1 s2 p bs fl z where s: "mm_init fresh = Some (s1, 0)" "mm_malloc s1 100 = Some (s2, p)"
      "heap_ok explicit_list s2 bs fl" "(p, z) \<in> allocs (org explicit_list s2) bs" using fresh_malloc by blast
  from mm_free_correct [OF s(3,4)] s show ?thesis by blast
qed

text \<open>
  C3. \<^verbatim>\<open>mm_realloc\<close> of an allocated block to a positive size either returns NULL and changes
  nothing, or returns a fresh 8-aligned block with room for the new size that holds the old
  contents up to the smaller of the two sizes; the old block is free, the heap well formed, and
  all other blocks keep their contents.
\<close>

theorem mm_realloc_correct:
  assumes "heap_ok explicit_list s bs fl" and "(ptr, z) \<in> allocs (org explicit_list s) bs" and "0 < n" and "n < 2 ^ 32 - 15"
  shows "mm_realloc s ptr n = Some (s, 0) \<or>
         (\<exists>s' q bs' fl' w. mm_realloc s ptr n = Some (s', q) \<and> q \<noteq> 0 \<and> 8 dvd q \<and> heap_ok explicit_list s' bs' fl' \<and>
           n + 8 \<le> w \<and> evolves explicit_list s bs (insert (q, w) (allocs (org explicit_list s) bs - {(ptr, z)})) s' bs' \<and>
           (\<forall>i. i + 8 < z \<and> i < n \<longrightarrow> mem s' (q + i) = mem s (ptr + i)))"
  using explicit.realloc_ok [OF assms] unfolding explicit_code by blast

theorem mm_realloc_correct_witness:
  "\<exists>s1 s2 p s3 q. mm_init fresh = Some (s1, 0) \<and> mm_malloc s1 100 = Some (s2, p) \<and>
     mm_realloc s2 p 200 = Some (s3, q) \<and> (q = 0 \<or> (\<forall>i<100. mem s3 (q + i) = mem s2 (p + i)))"
proof -
  obtain s1 s2 p bs fl z where s: "mm_init fresh = Some (s1, 0)" "mm_malloc s1 100 = Some (s2, p)"
      "heap_ok explicit_list s2 bs fl" "(p, z) \<in> allocs (org explicit_list s2) bs" "108 \<le> z" using fresh_malloc by blast
  from mm_realloc_correct [OF s(3,4), of 200] s show ?thesis by fastforce
qed

text \<open>
  C5. \<^verbatim>\<open>coalesce\<close> on a block that is tagged free and not yet on the free list always returns, in
  all of its four cases: afterwards no two neighbours are free, the free list holds exactly
  the free blocks, the result is a free block that is at least as large, and the allocated
  blocks and their contents are the same.
\<close>

theorem coalesce_correct:
  assumes "freed explicit_list s xs z ys fl"
  shows "\<exists>s' p bs' fl' z'. coalesce s (org explicit_list s + tot xs) = Some (s', p) \<and> heap_ok explicit_list s' bs' fl' \<and>
           same_allocs explicit_list s (xs @ (z, False) # ys) s' bs' \<and> (p, z', False) \<in> set (blks (org explicit_list s') bs') \<and> z \<le> z'"
  using explicit.coalesce_ok [OF assms refl] unfolding explicit_code .

theorem coalesce_correct_witness:
  "\<exists>s' p bs fl z. coalesce (extended (init_heap fresh 4096) 4096) 4128 = Some (s', p) \<and>
     heap_ok explicit_list s' bs fl \<and> (p, z, False) \<in> set (blks (org explicit_list s') bs) \<and> 4096 \<le> z"
proof -
  have b: "base explicit_list fresh = 4096" "base explicit_list (init_heap fresh 4096) = 4096" "mem_brk (lib (init_heap fresh 4096)) = 4128"
      "base explicit_list (extended (init_heap fresh 4096) 4096) = 4096" "mem_max_addr (lib (init_heap fresh 4096)) = 4096 + MAX_HEAP"
    by (simp_all add: fresh_def base_def init_heap_def extended_def retag_def Let_def)
  have "heap_ok explicit_list (init_heap fresh 4096) [] []"
    using init_heap_ok [OF fresh_facts(1-3)] b fresh_facts(4) by simp
  from explicit.extended_freed(1) [OF this, of 4096] b have "freed explicit_list (extended (init_heap fresh 4096) 4096) [] 4096 [] []"
    by (simp add: MAX_HEAP_def)
  from coalesce_correct [OF this] show ?thesis using b by auto
qed

text \<open>
  C6. On a well-formed heap the loop of \<^verbatim>\<open>find_fit\<close> ends, and its result is the first block of
  the free list, in the order of the list, that is large enough; NULL when there is none.
\<close>

theorem find_fit_is_first_fit:
  assumes "heap_ok explicit_list s bs fl"
  shows "find_fit s a =
           Some (case find (\<lambda>f. a \<le> the (GET_SIZE s (HDRP f))) fl of None \<Rightarrow> 0 | Some f \<Rightarrow> f)"
  using find_fit_first [OF assms] by (simp add: HDRP_4)

theorem find_fit_is_first_fit_witness:
  "\<exists>s p. mm_init fresh = Some (s, 0) \<and> find_fit s 112 = Some p"
proof -
  obtain s bs fl where s: "mm_init fresh = Some (s, 0)" "heap_ok explicit_list s bs fl" using fresh_init by blast
  from find_fit_is_first_fit [OF s(2)] s(1) show ?thesis by blast
qed

section \<open>The driver\<close>

text \<open>
  C4. On every trace in which a block is allocated before it is freed or reallocated, with
  positive sizes that fit an \<^verbatim>\<open>int\<close>, and in which only indices with a low byte below 128 are reallocated (the
  driver compares the contents as a signed \<^verbatim>\<open>char\<close>), \<^verbatim>\<open>eval_mm_valid\<close> of \<^verbatim>\<open>mdriver.c\<close> with the allocator of
  \<^verbatim>\<open>mm-2014-17831.c\<close> returns without leaving the storage, and the only errors it can report are
  that the memory ran out: never a misaligned payload, one outside of the heap, an overlap,
  or lost data.
\<close>

theorem driver_accepts_explicit:
  assumes "mem_wf (lib s)" and "8 dvd mem_start_brk (lib s)"
    and "length (blocks t) = n" and "length (block_sizes t) = n" and "good_ops n {} (trace_ops t)"
  shows "\<exists>res. eval_mm_valid explicit_pkg s t ranges = Some res \<and>
    (\<forall>i e s'. res = Inl (i, e, s') \<longrightarrow> e \<in> {Init_failed, Malloc_failed, Realloc_failed})"
  using explicit.eval_mm_valid_ok [of s t n ranges] assms unfolding sound_def explicit_pkg_tags by blast

theorem driver_accepts_explicit_witness:
  "\<exists>res. eval_mm_valid explicit_pkg fresh
     \<lparr>sugg_heapsize = 0, num_ids = 2, num_ops = 4, weight = 1,
      trace_ops = [\<lparr>op_type = ALLOC, op_index = 0, op_size = 512\<rparr>, \<lparr>op_type = ALLOC, op_index = 1, op_size = 16\<rparr>,
        \<lparr>op_type = REALLOC, op_index = 0, op_size = 640\<rparr>, \<lparr>op_type = FREE, op_index = 1, op_size = 0\<rparr>],
      blocks = [0, 0], block_sizes = [0, 0]\<rparr> [] = Some res \<and> (\<forall>i s. res \<noteq> Inl (i, Overlaps, s) \<and> res \<noteq> Inl (i, Data_lost, s))"
  (is "\<exists>res. eval_mm_valid _ _ ?t _ = _ \<and> _")
  using driver_accepts_explicit [of fresh ?t 2 "[]"] fresh_facts by auto

text \<open>
  The same holds of the driver with the allocator of \<^verbatim>\<open>mm_naive.c\<close>, which never reuses memory.
\<close>

theorem driver_accepts_naive:
  assumes "mem_wf (lib s)" and "8 dvd mem_start_brk (lib s)"
    and "length (blocks t) = n" and "length (block_sizes t) = n" and "good_ops n {} (trace_ops t)"
  shows "\<exists>res. eval_mm_valid naive_pkg s t ranges = Some res \<and>
    (\<forall>i e s'. res = Inl (i, e, s') \<longrightarrow> e \<in> {Init_failed, Malloc_failed, Realloc_failed})"
  using naive.eval_mm_valid_ok [of s t n ranges] assms unfolding sound_def by blast

theorem driver_accepts_naive_witness:
  "\<exists>res. eval_mm_valid naive_pkg fresh
     \<lparr>sugg_heapsize = 0, num_ids = 1, num_ops = 2, weight = 1,
      trace_ops = [\<lparr>op_type = ALLOC, op_index = 0, op_size = 512\<rparr>, \<lparr>op_type = REALLOC, op_index = 0, op_size = 640\<rparr>],
      blocks = [0], block_sizes = [0]\<rparr> [] = Some res \<and> (\<forall>i s. res \<noteq> Inl (i, Overlaps, s) \<and> res \<noteq> Inl (i, Data_lost, s))"
  (is "\<exists>res. eval_mm_valid _ _ ?t _ = _ \<and> _")
  using driver_accepts_naive [of fresh ?t 1 "[]"] fresh_facts by auto

text \<open>
  The driver's check of reallocated data compares a signed \<^verbatim>\<open>char\<close> with the low byte of the
  index: for every index whose low byte is 128 or more it reports lost data although all of the
  old bytes are there.
\<close>

theorem data_check_false_alarm:
  assumes "128 \<le> i mod 256" and "0 < k" and "\<forall>j<k. mem s (p + j) = of_nat (i mod 256)"
  shows "\<not> data_kept s p i k"
proof -
  have "sint (mem s p) \<noteq> int (i mod 256)"
    using assms(1) sint_lt [of "mem s p"] by auto
  then show ?thesis using assms(2) by (auto simp: data_kept_def intro!: bexI [of _ 0])
qed

theorem data_check_false_alarm_witness:
  "\<not> data_kept (fresh\<lparr>mem := (\<lambda>_. 200)\<rparr>) 4104 200 16"
  using data_check_false_alarm [of 200 16 "fresh\<lparr>mem := (\<lambda>_. 200)\<rparr>" 4104] by simp

end
