(* ===== verification/MdriverEval.thy ===== *)
theory MdriverEval
  imports Mdriver
begin

text \<open>
  The evaluations of utilization and speed over an allocator with the contract: they stay inside of the
  storage, can only fail for lack of memory, and the utilization is at most one.
\<close>

section \<open>The blocks of the client\<close>

text \<open>The indices in \<open>I\<close> have the pairwise different blocks of \<open>L\<close> that the two arrays name.\<close>

definition owned :: "nat \<Rightarrow> nat set \<Rightarrow> (nat \<times> nat) set \<Rightarrow> nat list \<Rightarrow> nat list \<Rightarrow> bool" where
  "owned n I L bl zs \<longleftrightarrow> length bl = n \<and> length zs = n \<and> I \<subseteq> {..<n} \<and> inj_on ((!) bl) I \<and>
     (\<forall>i\<in>I. \<exists>c. (bl ! i, c) \<in> L \<and> zs ! i \<le> c)"

lemma owned_insert:
  assumes o: "owned n I L bl zs" and p: "p \<notin> fst ` L" "k \<le> c" and i: "i \<notin> I" "i < n"
  shows "owned n (insert i I) (insert (p, c) L) (bl[i := p]) (zs[i := k])"
proof -
  have nth: "bl[i := p] ! j = bl ! j" "zs[i := k] ! j = zs ! j" if "j \<in> I" for j
    using that i by (metis nth_list_update_neq)+
  have "bl ! j \<noteq> p" if "j \<in> I" for j using o that p(1) unfolding owned_def by force
  then have "inj_on ((!) (bl[i := p])) (insert i I)"
    using o nth i unfolding owned_def inj_on_def by (metis insert_iff nth_list_update_eq)
  moreover have "\<exists>d. (bl[i := p] ! j, d) \<in> insert (p, c) L \<and> zs[i := k] ! j \<le> d" if "j \<in> insert i I" for j
  proof (cases "j = i")
    case True
    then show ?thesis using o p(2) i(2) by (auto simp: owned_def)
  next
    case False
    then show ?thesis using o that nth unfolding owned_def by auto
  qed
  ultimately show ?thesis using o i unfolding owned_def by simp
qed

lemma owned_remove:
  assumes o: "owned n I L bl zs" and i: "i \<in> I"
  shows "owned n (I - {i}) (L - {(bl ! i, c)}) bl zs"
proof -
  have "bl ! j \<noteq> bl ! i" if "j \<in> I - {i}" for j using o i that unfolding owned_def by (auto dest: inj_onD)
  then show ?thesis using o unfolding owned_def by (auto intro: inj_on_subset)
qed

lemma sum_update:
  fixes zs :: "nat list"
  assumes "finite I" and "i \<notin> I" and "i < length zs"
  shows "(\<Sum>j\<in>insert i I. int (zs[i := k] ! j)) = int k + (\<Sum>j\<in>I. int (zs ! j))"
proof -
  have "(\<Sum>j\<in>I. int (zs[i := k] ! j)) = (\<Sum>j\<in>I. int (zs ! j))"
    using assms(2) by (intro sum.cong refl) (metis nth_list_update_neq)
  then show ?thesis using assms by simp
qed

lemma sum_disjoint_intervals:
  fixes b z :: "nat \<Rightarrow> nat"
  assumes "finite I" and "\<And>i. i \<in> I \<Longrightarrow> lo \<le> b i \<and> b i + z i \<le> hi"
    and "\<And>i j. i \<in> I \<Longrightarrow> j \<in> I \<Longrightarrow> i \<noteq> j \<Longrightarrow> b i + z i \<le> b j \<or> b j + z j \<le> b i"
  shows "sum z I \<le> hi - lo"
proof -
  have "card (\<Union>i\<in>I. {b i..<b i + z i}) = (\<Sum>i\<in>I. card {b i..<b i + z i})"
  proof (rule card_UN_disjoint)
    show "\<forall>i\<in>I. \<forall>j\<in>I. i \<noteq> j \<longrightarrow> {b i..<b i + z i} \<inter> {b j..<b j + z j} = {}"
      using assms(3) by fastforce
  qed (use assms(1) in auto)
  moreover have "(\<Union>i\<in>I. {b i..<b i + z i}) \<subseteq> {lo..<hi}" using assms(2) by fastforce
  then have "card (\<Union>i\<in>I. {b i..<b i + z i}) \<le> card {lo..<hi}" by (intro card_mono) auto
  ultimately show ?thesis by simp
qed

context allocator
begin

text \<open>The payloads that the client holds fit between the start of the heap and the break.\<close>

lemma owned_fits:
  assumes R: "R s L" and o: "owned n I L bl zs"
  shows "(\<Sum>i\<in>I. int (zs ! i)) \<le> mem_heapsize (lib s) \<or> I = {}"
proof (cases "I = {}")
  case False
  have fin: "finite I" using o finite_subset unfolding owned_def by blast
  have bd: "mem_start_brk (lib s) \<le> bl ! i \<and> bl ! i + zs ! i \<le> mem_brk (lib s)" if i: "i \<in> I" for i
  proof -
    obtain c where "(bl ! i, c) \<in> L" "zs ! i \<le> c" using o i by (auto simp: owned_def)
    then show ?thesis using block_bounds [OF R, of "bl ! i" c] by linarith
  qed
  have dj: "bl ! i + zs ! i \<le> bl ! j \<or> bl ! j + zs ! j \<le> bl ! i" if ij: "i \<in> I" "j \<in> I" "i \<noteq> j" for i j
  proof -
    obtain c d where c: "(bl ! i, c) \<in> L" "zs ! i \<le> c" "(bl ! j, d) \<in> L" "zs ! j \<le> d" using o ij unfolding owned_def by blast
    have "bl ! i \<noteq> bl ! j" using o ij unfolding owned_def by (auto dest: inj_onD)
    then show ?thesis using block_disjoint [OF R c(1) c(3)] c by linarith
  qed
  have "sum ((!) zs) I \<le> mem_brk (lib s) - mem_start_brk (lib s)"
    by (rule sum_disjoint_intervals [OF fin bd dj])
  moreover obtain i where "i \<in> I" using False by blast
  then have "mem_start_brk (lib s) \<le> mem_brk (lib s)" using bd [of i] by linarith
  ultimately have "int (sum ((!) zs) I) \<le> mem_heapsize (lib s)" unfolding mem_heapsize_def by linarith
  then show ?thesis by simp
qed simp

text \<open>What a request does to the blocks of the client, whatever else the driver does with it.\<close>

lemma alloc_owned:
  assumes o: "owned n I L bl zs" and R: "R s L" and k: "0 < k" "k < 2 ^ 31" and i: "i \<notin> I" "i < n"
  shows "\<exists>s' p. pk_malloc pk s k = Some (s', p) \<and> S s' \<and> (p = 0 \<or> (\<exists>L'. R s' L' \<and> owned n (insert i I) L' (bl[i := p]) (zs[i := k]) \<and>
           mem_start_brk (lib s') = mem_start_brk (lib s) \<and> mem_brk (lib s) \<le> mem_brk (lib s')))"
  using malloc_law [OF R k]
proof (elim disjE exE conjE)
  fix s' p c assume m: "pk_malloc pk s k = Some (s', p)" "k \<le> c" "R s' (insert (p, c) L)" "p \<notin> fst ` L" "preserved s s' L"
  show ?thesis
    using m(1,3) heap_idle [OF m(3)] owned_insert [OF o m(4,2) i] m(5) unfolding preserved_def by blast
qed blast

lemma realloc_owned:
  assumes o: "owned n I L bl zs" and R: "R s L" and k: "0 < k" "k < 2 ^ 31" and i: "i \<in> I"
  shows "\<exists>s' q. pk_realloc pk s (bl ! i) k = Some (s', q) \<and> S s' \<and> (q = 0 \<or> (\<exists>L'. R s' L' \<and> owned n I L' (bl[i := q]) (zs[i := k]) \<and>
           mem_start_brk (lib s') = mem_start_brk (lib s) \<and> mem_brk (lib s) \<le> mem_brk (lib s')))"
proof -
  obtain c where c: "(bl ! i, c) \<in> L" using o i unfolding owned_def by blast
  have n: "i \<notin> I - {i}" "i < n" "insert i (I - {i}) = I" using o i by (auto simp: owned_def)
  from realloc_law [OF R c k] show ?thesis
  proof (elim disjE exE conjE)
    let ?L = "L - {(bl ! i, c)}"
    fix s' q d assume m: "pk_realloc pk s (bl ! i) k = Some (s', q)" "k \<le> d" "R s' (insert (q, d) ?L)" "q \<notin> fst ` ?L"
      "preserved s s' ?L"
    show ?thesis
      using m(1,3) heap_idle [OF m(3)] owned_insert [OF owned_remove [OF o i] m(4,2) n(1,2)] m(5)
      unfolding preserved_def n(3) by blast
  qed blast
qed

lemma free_owned:
  assumes o: "owned n I L bl zs" and R: "R s L" and i: "i \<in> I"
  shows "\<exists>s' L'. pk_free pk s (bl ! i) = Some s' \<and> R s' L' \<and> owned n (I - {i}) L' bl zs \<and>
           mem_start_brk (lib s') = mem_start_brk (lib s) \<and> mem_brk (lib s) \<le> mem_brk (lib s')"
proof -
  obtain c where c: "(bl ! i, c) \<in> L" using o i unfolding owned_def by blast
  show ?thesis using free_law [OF R c] owned_remove [OF o i, of c] unfolding preserved_def by blast
qed

section \<open>Utilization\<close>

text \<open>The high water mark only rises, and the first request of a well-formed trace raises it.\<close>

lemma util_op_mono:
  assumes "util_op pk r (s, bl, zs, ttl, hwm) = Some (Inr (s', bl', zs', ttl', hwm'))"
  shows "hwm \<le> hwm'" "op_type r = ALLOC \<Longrightarrow> ttl + int (op_size r) \<le> hwm'"
proof -
  have "hwm \<le> hwm' \<and> (op_type r = ALLOC \<longrightarrow> ttl + int (op_size r) \<le> hwm')"
    using assms unfolding util_op_def
    by (auto simp: Let_def bind_eq_Some_conv split: optype.splits if_splits)
  then show "hwm \<le> hwm'" "op_type r = ALLOC \<Longrightarrow> ttl + int (op_size r) \<le> hwm'" by simp_all
qed

lemma util_ops_mono:
  "util_ops pk rs (s, bl, zs, ttl, hwm) = Some (Inr (s', bl', zs', ttl', hwm')) \<Longrightarrow> hwm \<le> hwm'"
proof (induction rs arbitrary: s bl zs ttl hwm)
  case (Cons r rs)
  then obtain s1 bl1 zs1 ttl1 hwm1 where
    "util_op pk r (s, bl, zs, ttl, hwm) = Some (Inr (s1, bl1, zs1, ttl1, hwm1))"
    "util_ops pk rs (s1, bl1, zs1, ttl1, hwm1) = Some (Inr (s', bl', zs', ttl', hwm'))"
    by (fastforce split: option.splits sum.splits)
  then show ?case using util_op_mono(1) Cons.IH by fastforce
qed simp

lemma util_ops_positive:
  assumes "util_ops pk rs (s, bl, zs, 0, 0) = Some (Inr (s', bl', zs', ttl', hwm'))"
    and "good_ops n {} rs" and "rs \<noteq> []"
  shows "0 < hwm'"
proof -
  obtain r rs' where rs: "rs = r # rs'" using assms(3) by (cases rs) auto
  then have al: "op_type r = ALLOC" "0 < op_size r" using assms(2) by (auto split: optype.splits)
  obtain s1 bl1 zs1 ttl1 hwm1 where
    o: "util_op pk r (s, bl, zs, 0, 0) = Some (Inr (s1, bl1, zs1, ttl1, hwm1))"
    "util_ops pk rs' (s1, bl1, zs1, ttl1, hwm1) = Some (Inr (s', bl', zs', ttl', hwm'))"
    using assms(1) unfolding rs by (fastforce split: option.splits sum.splits)
  show ?thesis using util_op_mono(2) [OF o(1) al(1)] util_ops_mono [OF o(2)] al(2) by simp
qed

text \<open>The total is the size of the blocks of the client, and the high water mark has fitted into the heap.\<close>

definition util_inv :: "nat \<Rightarrow> nat set \<Rightarrow> util_st \<Rightarrow> bool" where
  "util_inv n I = (\<lambda>(s, bl, zs, ttl, hwm). \<exists>L. R s L \<and> owned n I L bl zs \<and> ttl = (\<Sum>i\<in>I. int (zs ! i)) \<and>
     0 \<le> hwm \<and> hwm \<le> max 0 (mem_heapsize (lib s)))"

lemma grown_heapsize:
  "mem_start_brk (lib s') = mem_start_brk (lib s) \<Longrightarrow> mem_brk (lib s) \<le> mem_brk (lib s') \<Longrightarrow>
     mem_heapsize (lib s) \<le> mem_heapsize (lib s')"
  by (simp add: mem_heapsize_def)

lemma util_op_ok:
  assumes u: "util_inv n I (s, bl, zs, ttl, hwm)" and g: "good_ops n I (r # rest)"
  shows "(\<exists>e. util_op pk r (s, bl, zs, ttl, hwm) = Some (Inl e) \<and> e \<in> {Malloc_failed, Realloc_failed}) \<or>
    (\<exists>d. util_op pk r (s, bl, zs, ttl, hwm) = Some (Inr d) \<and> util_inv n (next_index r I) d)"
proof -
  obtain L where L: "R s L" "owned n I L bl zs" "ttl = (\<Sum>i\<in>I. int (zs ! i))" "0 \<le> hwm" "hwm \<le> max 0 (mem_heapsize (lib s))"
    using u by (auto simp: util_inv_def)
  let ?i = "op_index r" and ?k = "op_size r"
  have fin: "finite I" and len: "length bl = n" "length zs = n" and sub: "I \<subseteq> {..<n}"
    using L(2) finite_subset unfolding owned_def by blast+
  have hw: "max hwm t \<le> max 0 (mem_heapsize (lib s'))"
    if "R s' L'" "owned n J L' bl' zs'" "t = (\<Sum>i\<in>J. int (zs' ! i))" "mem_start_brk (lib s') = mem_start_brk (lib s)"
      "mem_brk (lib s) \<le> mem_brk (lib s')" for s' L' J bl' zs' t
    using owned_fits [OF that(1,2)] grown_heapsize [OF that(4,5)] that(3) L(5) by auto
  show ?thesis
  proof (cases "op_type r")
    case ALLOC
    then have i: "?i \<notin> I" "?i < n" "0 < ?k" "?k < 2 ^ 31" using g by auto
    obtain s' p where m: "pk_malloc pk s ?k = Some (s', p)"
      "p = 0 \<or> (\<exists>L'. R s' L' \<and> owned n (insert ?i I) L' (bl[?i := p]) (zs[?i := ?k]) \<and>
         mem_start_brk (lib s') = mem_start_brk (lib s) \<and> mem_brk (lib s) \<le> mem_brk (lib s'))"
      using alloc_owned [OF L(2,1) i(3,4,1,2)] by blast
    show ?thesis
    proof (cases "p = 0")
      case False
      then obtain L' where L': "R s' L'" "owned n (insert ?i I) L' (bl[?i := p]) (zs[?i := ?k])"
         "mem_start_brk (lib s') = mem_start_brk (lib s)" "mem_brk (lib s) \<le> mem_brk (lib s')" using m(2) by blast
      have t: "ttl + int ?k = (\<Sum>j\<in>insert ?i I. int (zs[?i := ?k] ! j))"
        using sum_update [OF fin i(1)] i(2) len L(3) by simp
      have "util_inv n (insert ?i I) (s', bl[?i := p], zs[?i := ?k], ttl + int ?k, if ttl + int ?k > hwm then ttl + int ?k else hwm)"
        using L' t hw [OF L'(1,2) t L'(3,4)] L(4) unfolding util_inv_def by auto
      then show ?thesis using ALLOC m(1) False i len by (simp add: util_op_def Let_def aset_def next_index_def)
    qed (use ALLOC m in \<open>simp add: util_op_def Let_def\<close>)
  next
    case REALLOC
    then have i: "?i \<in> I" "?i < n" "0 < ?k" "?k < 2 ^ 31" using g sub by auto
    obtain s' q where m: "pk_realloc pk s (bl ! ?i) ?k = Some (s', q)"
      "q = 0 \<or> (\<exists>L'. R s' L' \<and> owned n I L' (bl[?i := q]) (zs[?i := ?k]) \<and>
         mem_start_brk (lib s') = mem_start_brk (lib s) \<and> mem_brk (lib s) \<le> mem_brk (lib s'))"
      using realloc_owned [OF L(2,1) i(3,4,1)] by blast
    show ?thesis
    proof (cases "q = 0")
      case False
      then obtain L' where L': "R s' L'" "owned n I L' (bl[?i := q]) (zs[?i := ?k])"
         "mem_start_brk (lib s') = mem_start_brk (lib s)" "mem_brk (lib s) \<le> mem_brk (lib s')" using m(2) by blast
      let ?t = "ttl + (int ?k - int (zs ! ?i))"
      have "(\<Sum>j\<in>I. int (zs ! j)) = int (zs ! ?i) + (\<Sum>j\<in>I - {?i}. int (zs ! j))"
        using sum.remove [OF fin i(1), of "\<lambda>j. int (zs ! j)"] by simp
      then have t: "?t = (\<Sum>j\<in>I. int (zs[?i := ?k] ! j))"
        using sum_update [of "I - {?i}" ?i zs ?k] fin i len L(3) by (simp add: insert_absorb)
      have "util_inv n I (s', bl[?i := q], zs[?i := ?k], ?t, if ?t > hwm then ?t else hwm)"
        using L' t hw [OF L'(1,2) t L'(3,4)] L(4) unfolding util_inv_def by auto
      then show ?thesis using REALLOC m(1) False i len by (simp add: util_op_def Let_def aset_def aget_def next_index_def)
    qed (use REALLOC m i len in \<open>simp add: util_op_def Let_def aget_def\<close>)
  next
    case FREE
    then have i: "?i \<in> I" "?i < n" using g sub by auto
    obtain s' L' where m: "pk_free pk s (bl ! ?i) = Some s'" "R s' L'" "owned n (I - {?i}) L' bl zs"
       "mem_start_brk (lib s') = mem_start_brk (lib s)" "mem_brk (lib s) \<le> mem_brk (lib s')"
      using free_owned [OF L(2,1) i(1)] by blast
    have "ttl - int (zs ! ?i) = (\<Sum>j\<in>I - {?i}. int (zs ! j))" using sum.remove [OF fin i(1), of "\<lambda>j. int (zs ! j)"] L(3) by simp
    then have "util_inv n (I - {?i}) (s', bl, zs, ttl - int (zs ! ?i), hwm)"
      using m(2,3) L(4,5) grown_heapsize [OF m(4,5)] unfolding util_inv_def by auto
    then show ?thesis using FREE m(1) i len by (simp add: util_op_def Let_def aget_def next_index_def)
  qed
qed

lemma good_next: "good_ops n I (r # rs) \<Longrightarrow> good_ops n (next_index r I) rs"
  by (cases "op_type r") (auto simp: next_index_def insert_absorb)

lemma util_ops_ok:
  "util_inv n I d \<Longrightarrow> good_ops n I rs \<Longrightarrow>
     (\<exists>e. util_ops pk rs d = Some (Inl e) \<and> e \<in> {Malloc_failed, Realloc_failed}) \<or>
     (\<exists>d' J. util_ops pk rs d = Some (Inr d') \<and> util_inv n J d')"
proof (induction rs arbitrary: I d)
  case (Cons r rs)
  obtain s bl zs ttl hwm where d: "d = (s, bl, zs, ttl, hwm)" by (cases d)
  from util_op_ok [OF Cons.prems(1) [unfolded d] Cons.prems(2)] show ?case
  proof (elim disjE exE conjE)
    fix d' assume "util_op pk r (s, bl, zs, ttl, hwm) = Some (Inr d')" "util_inv n (next_index r I) d'"
    then show ?thesis using Cons.IH [of "next_index r I" d'] good_next [OF Cons.prems(2)] by (simp add: d)
  qed (auto simp: d)
qed auto

text \<open>
  The utilization of an allocator with the contract is a quotient of at most one: the driver's high
  water mark never exceeds the size of the heap at the end.
\<close>

lemma eval_mm_util_ok:
  assumes m: "S s" and t: "length (blocks t) = n" "length (block_sizes t) = n" "good_ops n {} (trace_ops t)"
  shows "(\<exists>e. eval_mm_util pk s t = Some (Inl e) \<and> e \<in> {Init_failed, Malloc_failed, Realloc_failed}) \<or>
    (\<exists>hwm h s' bl zs. eval_mm_util pk s t = Some (Inr (hwm, h, s', bl, zs)) \<and> 0 \<le> hwm \<and> hwm \<le> h \<and> S s' \<and>
       length bl = n \<and> length zs = n \<and> (trace_ops t \<noteq> [] \<longrightarrow> 0 < hwm))"
proof -
  let ?s = "s\<lparr>lib := mem_reset_brk (lib s)\<rparr>"
  have "S ?s" using idle_law [OF m] by blast
  then obtain s1 r where r: "pk_init pk ?s = Some (s1, r)" "r < 0 \<or> R s1 {}"
    using init_law [of ?s] by (auto simp: mem_reset_brk_def)
  show ?thesis
  proof (cases "r < 0")
    case False
    then have "util_inv n {} (s1, blocks t, block_sizes t, 0, 0)"
      using r t by (auto simp: util_inv_def owned_def)
    from util_ops_ok [OF this t(3)] show ?thesis
    proof (elim disjE exE conjE)
      fix d' J assume d: "util_ops pk (trace_ops t) (s1, blocks t, block_sizes t, 0, 0) = Some (Inr d')" "util_inv n J d'"
      obtain s2 bl zs ttl hwm where eq: "d' = (s2, bl, zs, ttl, hwm)" by (cases d')
      then obtain L where L: "R s2 L" "owned n J L bl zs" "0 \<le> hwm" "hwm \<le> max 0 (mem_heapsize (lib s2))"
        using d(2) by (auto simp: util_inv_def)
      have "S s2" by (rule heap_idle [OF L(1)])
      moreover from this have "0 \<le> mem_heapsize (lib s2)" using idle_law [of s2] by (simp add: sound_def mem_wf_def mem_heapsize_def)
      ultimately show ?thesis
        using False r(1) d(1) L(2-4) util_ops_positive [OF d(1) [unfolded eq] t(3)]
        by (auto simp: eval_mm_util_def Let_def owned_def eq)
    qed (use False r(1) in \<open>auto simp: eval_mm_util_def Let_def\<close>)
  qed (use r in \<open>auto simp: eval_mm_util_def Let_def\<close>)
qed

section \<open>Speed\<close>

text \<open>The sizes are not stored by the evaluation of speed; they are a ghost of the proof.\<close>

lemma speed_op_ok:
  assumes L: "R s L" "owned n I L bl zs" and g: "good_ops n I (r # rest)"
  shows "(\<exists>e. speed_op pk r (s, bl) = Some (Inl e) \<and> e \<in> {Malloc_failed, Realloc_failed}) \<or>
    (\<exists>s' bl' L' zs'. speed_op pk r (s, bl) = Some (Inr (s', bl')) \<and> R s' L' \<and> owned n (next_index r I) L' bl' zs')"
proof -
  let ?i = "op_index r" and ?k = "op_size r"
  have len: "length bl = n" and sub: "I \<subseteq> {..<n}" using L(2) unfolding owned_def by blast+
  show ?thesis
  proof (cases "op_type r")
    case ALLOC
    then have i: "?i \<notin> I" "?i < n" "0 < ?k" "?k < 2 ^ 31" using g by auto
    from alloc_owned [OF L(2,1) i(3,4,1,2)] obtain s' p where m: "pk_malloc pk s ?k = Some (s', p)"
        "p = 0 \<or> (\<exists>L'. R s' L' \<and> owned n (insert ?i I) L' (bl[?i := p]) (zs[?i := ?k]))" by blast
    show ?thesis
      using m ALLOC i len by (cases "p = 0") (auto simp: speed_op_def Let_def aset_def next_index_def)
  next
    case REALLOC
    then have i: "?i \<in> I" "?i < n" "0 < ?k" "?k < 2 ^ 31" using g sub by auto
    from realloc_owned [OF L(2,1) i(3,4,1)] obtain s' q where m: "pk_realloc pk s (bl ! ?i) ?k = Some (s', q)"
        "q = 0 \<or> (\<exists>L'. R s' L' \<and> owned n I L' (bl[?i := q]) (zs[?i := ?k]))" by blast
    show ?thesis
      using m REALLOC i len by (cases "q = 0") (auto simp: speed_op_def Let_def aset_def aget_def next_index_def)
  next
    case FREE
    then have i: "?i \<in> I" "?i < n" using g sub by auto
    from free_owned [OF L(2,1) i(1)] obtain s' L' where "pk_free pk s (bl ! ?i) = Some s'" "R s' L'"
        "owned n (I - {?i}) L' bl zs" by blast
    then show ?thesis
      using FREE i len by (auto simp: speed_op_def Let_def aget_def next_index_def)
  qed
qed

lemma speed_ops_ok:
  "R s L \<Longrightarrow> owned n I L bl zs \<Longrightarrow> good_ops n I rs \<Longrightarrow>
     (\<exists>e. speed_ops pk rs (s, bl) = Some (Inl e) \<and> e \<in> {Malloc_failed, Realloc_failed}) \<or>
     (\<exists>s' bl' L'. speed_ops pk rs (s, bl) = Some (Inr (s', bl')) \<and> R s' L' \<and> length bl' = n)"
proof (induction rs arbitrary: I L s bl zs)
  case Nil
  then show ?case by (auto simp: owned_def)
next
  case (Cons r rs)
  from speed_op_ok [OF Cons.prems] show ?case
  proof (elim disjE exE conjE)
    fix s' bl' L' zs' assume "speed_op pk r (s, bl) = Some (Inr (s', bl'))" "R s' L'" "owned n (next_index r I) L' bl' zs'"
    then show ?thesis using Cons.IH [of s' L' "next_index r I" bl' zs'] good_next [OF Cons.prems(3)] by simp
  qed auto
qed

lemma eval_mm_speed_ok:
  assumes m: "S s" and t: "length (blocks t) = n" "good_ops n {} (trace_ops t)"
  shows "(\<exists>e. eval_mm_speed pk s t = Some (Inl e) \<and> e \<in> {Init_failed, Malloc_failed, Realloc_failed}) \<or>
    (\<exists>s' bl. eval_mm_speed pk s t = Some (Inr (s', bl)) \<and> S s' \<and> length bl = n)"
proof -
  let ?s = "s\<lparr>lib := mem_reset_brk (lib s)\<rparr>"
  have "S ?s" using idle_law [OF m] by blast
  then obtain s1 r where r: "pk_init pk ?s = Some (s1, r)" "r < 0 \<or> R s1 {}"
    using init_law [of ?s] by (auto simp: mem_reset_brk_def)
  show ?thesis
  proof (cases "r < 0")
    case False
    then have "R s1 {}" using r(2) by simp
    moreover have "owned n {} {} (blocks t) (blocks t)" using t by (simp add: owned_def)
    ultimately show ?thesis
      using speed_ops_ok [of s1 "{}" n "{}" "blocks t" "blocks t" "trace_ops t"] t(2) False r(1) heap_idle
      by (auto simp: eval_mm_speed_def Let_def)
  qed (use r in \<open>auto simp: eval_mm_speed_def Let_def\<close>)
qed

end

end
