(* ===== verification/Timing.thy ===== *)
theory Timing
  imports Prelude Complex_Main
begin

text \<open>
  The timing package of the malloc driver (\<^verbatim>\<open>sp_03_malloclab/src/clock.c\<close>, \<^verbatim>\<open>fcyc.c\<close>, \<^verbatim>\<open>ftimer.c\<close>, \<^verbatim>\<open>fsecs.c\<close>).

  The readings of the clocks are parameters.  A \<^verbatim>\<open>double\<close> is a rational number: the rounding of the machine
  is not modelled; the cycle counts of \<^verbatim>\<open>clock.c\<close> are kept at their width.
\<close>

section \<open>Cycle counters\<close>

record cyc =
  cyc_hi :: u32
  cyc_lo :: u32

text \<open>The instruction \<^verbatim>\<open>rdtsc\<close> gives the two halves of the time stamp counter.\<close>

definition access_counter :: "u64 \<Rightarrow> cyc" where
  "access_counter tsc = \<lparr>cyc_hi = ucast (drop_bit 32 tsc), cyc_lo = ucast tsc\<rparr>"

definition start_counter :: "u64 \<Rightarrow> cyc" where
  "start_counter tsc = access_counter tsc"

definition get_counter :: "cyc \<Rightarrow> u64 \<Rightarrow> nat" where
  "get_counter c tsc =
     (let n = access_counter tsc;
          lo = cyc_lo n - cyc_lo c;
          borrow = (if lo > cyc_lo n then 1 else 0);
          hi = cyc_hi n - cyc_hi c - borrow
      in unat hi * 2 ^ 30 * 4 + unat lo)"

text \<open>The variant for the Alpha processor, whose counter has 32 bits; on all other processors the two functions end the program.\<close>

definition alpha_start_counter :: "u32 \<Rightarrow> cyc" where
  "alpha_start_counter counter = \<lparr>cyc_hi = 0, cyc_lo = counter\<rparr>"

definition alpha_get_counter :: "cyc \<Rightarrow> u32 \<Rightarrow> nat" where
  "alpha_get_counter c counter =
     (let ncyc_lo = counter;
          ncyc_hi = 0;
          lo = ncyc_lo - cyc_lo c;
          borrow = (if lo > ncyc_lo then 1 else 0);
          hi = ncyc_hi - cyc_hi c - borrow
      in unat hi * 2 ^ 30 * 4 + unat lo)"

text \<open>The overhead of a measurement, from two pairs of readings.\<close>

definition ovhd :: "u64 \<times> u64 \<Rightarrow> u64 \<times> u64 \<Rightarrow> nat" where
  "ovhd r1 r2 = get_counter (start_counter (fst r2)) (snd r2)"

definition mhz_full :: "u64 \<Rightarrow> u64 \<Rightarrow> nat \<Rightarrow> rat" where
  "mhz_full t0 t1 sleeptime = of_nat (get_counter (start_counter t0) t1) / (10 ^ 6 * of_nat sleeptime)"

definition mhz :: "u64 \<Rightarrow> u64 \<Rightarrow> rat" where
  "mhz t0 t1 = mhz_full t0 t1 2"

section \<open>Compensation for timer interrupts\<close>

definition NEVENT :: nat where "NEVENT = 100"
definition THRESHOLD :: int where "THRESHOLD = 1000"
definition RECORDTHRESH :: rat where "RECORDTHRESH = 3000"

text \<open>
  The loop of \<^verbatim>\<open>callibrate\<close> over the readings of the counter and of the user time, with \<open>e\<close> events seen.
  \<open>None\<close>: there are no more readings.
\<close>

fun callibrate_loop :: "(nat \<times> int) list \<Rightarrow> nat \<Rightarrow> rat \<Rightarrow> nat \<Rightarrow> int \<Rightarrow> rat option" where
  "callibrate_loop rs e cpt oldt oldc =
     (if NEVENT \<le> e then Some cpt
      else case rs of
        [] \<Rightarrow> None
      | (newt, newc) # rs \<Rightarrow>
          if int newt - int oldt \<ge> THRESHOLD then
            if newc > oldc then
              let c = (of_nat newt - of_nat oldt) / of_int (newc - oldc);
                  cpt = (if (cpt = 0 \<or> cpt > c) \<and> c > RECORDTHRESH then c else cpt)
              in callibrate_loop rs (Suc e) cpt newt newc
            else callibrate_loop rs e cpt newt oldc
          else callibrate_loop rs e cpt oldt oldc)"

declare callibrate_loop.simps [simp del]

record comp =
  comp_counter :: cyc
  start_tick :: int
  cyc_per_tick :: rat

text \<open>\<open>rs\<close> are the readings of the calibration, \<open>oldc\<close> and \<open>oldt\<close> the first of them.\<close>

definition start_comp_counter :: "rat \<Rightarrow> (nat \<times> int) list \<Rightarrow> nat \<Rightarrow> int \<Rightarrow> int \<Rightarrow> u64 \<Rightarrow> comp option" where
  "start_comp_counter cpt rs oldt oldc utime tsc = do {
     cpt \<leftarrow> (if cpt = 0 then callibrate_loop rs 0 cpt oldt oldc else Some cpt);
     Some \<lparr>comp_counter = start_counter tsc, start_tick = utime, cyc_per_tick = cpt\<rparr> }"

definition get_comp_counter :: "comp \<Rightarrow> u64 \<Rightarrow> int \<Rightarrow> rat" where
  "get_comp_counter c tsc utime =
     of_nat (get_counter (comp_counter c) tsc) - of_int (utime - start_tick c) * cyc_per_tick c"

section \<open>The K-best scheme\<close>

record fcyc_params =
  kbest :: nat
  maxsamples :: nat
  epsilon :: rat
  compensate :: bool
  clear_cache :: bool
  cache_bytes :: nat
  cache_block :: nat

definition fcyc_defaults :: fcyc_params where
  "fcyc_defaults = \<lparr>kbest = 3, maxsamples = 20, epsilon = 1 / 100, compensate = False, clear_cache = False,
     cache_bytes = 2 ^ 19, cache_block = 32\<rparr>"

definition set_fcyc_clear_cache :: "bool \<Rightarrow> fcyc_params \<Rightarrow> fcyc_params" where
  "set_fcyc_clear_cache b p = p\<lparr>clear_cache := b\<rparr>"

definition set_fcyc_cache_size :: "nat \<Rightarrow> fcyc_params \<Rightarrow> fcyc_params" where
  "set_fcyc_cache_size n p = (if n \<noteq> cache_bytes p then p\<lparr>cache_bytes := n\<rparr> else p)"

definition set_fcyc_cache_block :: "nat \<Rightarrow> fcyc_params \<Rightarrow> fcyc_params" where
  "set_fcyc_cache_block n p = p\<lparr>cache_block := n\<rparr>"

definition set_fcyc_compensate :: "bool \<Rightarrow> fcyc_params \<Rightarrow> fcyc_params" where
  "set_fcyc_compensate b p = p\<lparr>compensate := b\<rparr>"

definition set_fcyc_k :: "nat \<Rightarrow> fcyc_params \<Rightarrow> fcyc_params" where
  "set_fcyc_k k p = p\<lparr>kbest := k\<rparr>"

definition set_fcyc_maxsamples :: "nat \<Rightarrow> fcyc_params \<Rightarrow> fcyc_params" where
  "set_fcyc_maxsamples n p = p\<lparr>maxsamples := n\<rparr>"

definition set_fcyc_epsilon :: "rat \<Rightarrow> fcyc_params \<Rightarrow> fcyc_params" where
  "set_fcyc_epsilon e p = p\<lparr>epsilon := e\<rparr>"

text \<open>The elements of the cache buffer that \<^verbatim>\<open>clear\<close> reads, by their index in the array of \<^verbatim>\<open>int\<close>.\<close>

function clear_reads :: "nat \<Rightarrow> nat \<Rightarrow> nat \<Rightarrow> nat list" where
  "clear_reads i n incr = (if i < n \<and> 0 < incr then i # clear_reads (i + incr) n incr else [])"
  by pat_completeness auto
termination by (relation "measure (\<lambda>(i, n, _). n - i)") auto

declare clear_reads.simps [simp del]

text \<open>A cache block of fewer than four bytes gives an increment of zero: the loop does not end.\<close>

definition clear :: "fcyc_params \<Rightarrow> nat list option" where
  "clear p = (if cache_block p div 4 = 0 \<and> 0 < cache_bytes p div 4 then None
     else Some (clear_reads 0 (cache_bytes p div 4) (cache_block p div 4)))"

text \<open>The array of the best values and the number of the samples.\<close>

record sampler =
  sampled :: "rat list"
  samplecount :: nat

definition init_sampler :: "fcyc_params \<Rightarrow> sampler" where
  "init_sampler p = \<lparr>sampled = replicate (kbest p) 0, samplecount = 0\<rparr>"

text \<open>The insertion loop of \<^verbatim>\<open>add_sample\<close>.\<close>

fun sink_sample :: "rat list \<Rightarrow> nat \<Rightarrow> rat list option" where
  "sink_sample vs 0 = Some vs"
| "sink_sample vs (Suc pos) = do {
     a \<leftarrow> aget vs pos;
     b \<leftarrow> aget vs (Suc pos);
     if a > b then do {
       vs \<leftarrow> aset vs pos b;
       vs \<leftarrow> aset vs (Suc pos) a;
       sink_sample vs pos }
     else Some vs }"

definition add_sample :: "fcyc_params \<Rightarrow> rat \<Rightarrow> sampler \<Rightarrow> sampler option" where
  "add_sample p val s = do {
     (pos, vs) \<leftarrow>
       (if samplecount s < kbest p then do {
          vs \<leftarrow> aset (sampled s) (samplecount s) val;
          Some (samplecount s, vs) }
        else do {
          worst \<leftarrow> aget (sampled s) (kbest p - 1);
          if val < worst then do {
            vs \<leftarrow> aset (sampled s) (kbest p - 1) val;
            Some (kbest p - 1, vs) }
          else Some (0, sampled s) });
     vs \<leftarrow> sink_sample vs pos;
     Some \<lparr>sampled = vs, samplecount = Suc (samplecount s)\<rparr> }"

definition has_converged :: "fcyc_params \<Rightarrow> sampler \<Rightarrow> bool option" where
  "has_converged p s =
     (if kbest p \<le> samplecount s then do {
        lo \<leftarrow> aget (sampled s) 0;
        hi \<leftarrow> aget (sampled s) (kbest p - 1);
        Some ((1 + epsilon p) * lo \<ge> hi) }
      else Some False)"

text \<open>
  The loop of \<^verbatim>\<open>fcyc\<close>: before every run the cache is cleared, if \<^verbatim>\<open>clear_cache\<close> is on (\<open>None\<close> if this never
  ends); \<open>cycles i\<close> is what the counters measure for the run \<open>i\<close>.  The result is the
  best sample and the number of the runs.
\<close>

function fcyc_loop :: "fcyc_params \<Rightarrow> (nat \<Rightarrow> rat) \<Rightarrow> sampler \<Rightarrow> sampler option" where
  "fcyc_loop p cycles s =
     (case (if clear_cache p then clear p else Some []) of
        None \<Rightarrow> None
      | Some _ \<Rightarrow>
          case add_sample p (cycles (samplecount s)) s of
            None \<Rightarrow> None
          | Some s' \<Rightarrow>
              case has_converged p s' of
                None \<Rightarrow> None
              | Some c \<Rightarrow> if \<not> c \<and> samplecount s' < maxsamples p then fcyc_loop p cycles s' else Some s')"
  by pat_completeness auto
termination
  by (relation "measure (\<lambda>(p, _, s). maxsamples p - samplecount s)")
    (auto simp: add_sample_def split: bind_splits if_splits)

declare fcyc_loop.simps [simp del]

definition fcyc :: "fcyc_params \<Rightarrow> (nat \<Rightarrow> rat) \<Rightarrow> (rat \<times> nat) option" where
  "fcyc p cycles = do {
     s \<leftarrow> fcyc_loop p cycles (init_sampler p);
     r \<leftarrow> aget (sampled s) 0;
     Some (r, samplecount s) }"

section \<open>Timers\<close>

record timeval =
  tv_sec :: int
  tv_usec :: int

definition ftimer_gettod :: "timeval \<Rightarrow> timeval \<Rightarrow> nat \<Rightarrow> rat" where
  "ftimer_gettod stv etv n =
     (let diff = 1000 * of_int (tv_sec etv - tv_sec stv) + of_int (tv_usec etv - tv_usec stv) / 1000;
          diff = diff / of_nat n
      in diff / 1000)"

definition MAX_ETIME :: int where "MAX_ETIME = 86400"

text \<open>The real time timer counts down from its initial value; its reading is a parameter.\<close>

definition init_etime :: timeval where
  "init_etime = \<lparr>tv_sec = MAX_ETIME, tv_usec = 0\<rparr>"

definition get_etime :: "timeval \<Rightarrow> rat" where
  "get_etime r_curr =
     of_int (tv_sec init_etime - tv_sec r_curr) + of_int (tv_usec init_etime - tv_usec r_curr) / 10 ^ 6"

definition ftimer_itimer :: "timeval \<Rightarrow> timeval \<Rightarrow> nat \<Rightarrow> rat" where
  "ftimer_itimer r_start r_end n = (get_etime r_end - get_etime r_start) / of_nat n"

text \<open>With the configuration of the lab (\<^verbatim>\<open>USE_GETTOD\<close>) the driver takes the average of ten runs.\<close>

definition fsecs :: "timeval \<Rightarrow> timeval \<Rightarrow> rat" where
  "fsecs stv etv = ftimer_gettod stv etv 10"

section \<open>The counter\<close>

lemma unat64_less: "unat (t :: u64) < 2 ^ 64"
proof -
  have "unat t < 2 ^ LENGTH(64)" by (rule unsigned_less)
  then show ?thesis by simp
qed

lemma counter_halves:
  "unat (cyc_hi (access_counter t)) = unat t div 2 ^ 32" "unat (cyc_lo (access_counter t)) = unat t mod 2 ^ 32"
proof -
  have "unat t div 2 ^ 32 < 2 ^ 32" using unat64_less [of t] by (simp add: less_mult_imp_div_less)
  moreover have "unat (drop_bit 32 t) = unat t div 2 ^ 32" by (metis unat_drop_bit_eq drop_bit_eq_div)
  moreover have "unat (cyc_hi (access_counter t)) = unat (drop_bit 32 t) mod 2 ^ 32"
    unfolding access_counter_def cyc.simps unsigned_ucast_eq take_bit_eq_mod by simp
  ultimately show "unat (cyc_hi (access_counter t)) = unat t div 2 ^ 32" by (simp only: mod_less)
  show "unat (cyc_lo (access_counter t)) = unat t mod 2 ^ 32"
    by (simp add: access_counter_def unsigned_ucast_eq take_bit_eq_mod)
qed

lemma unat_minus32: "unat (x - y :: u32) = (if unat y \<le> unat x then unat x - unat y else unat x + 2 ^ 32 - unat y)"
  using unat_sub_if' [of x y] by simp

lemma get_counter_difference: "get_counter (start_counter t0) t1 = unat (t1 - t0)"
proof -
  define h0 l0 h1 l1 where d: "h0 = unat t0 div 2 ^ 32" "l0 = unat t0 mod 2 ^ 32" "h1 = unat t1 div 2 ^ 32" "l1 = unat t1 mod 2 ^ 32"
  have e: "unat t0 = h0 * 2 ^ 32 + l0" "unat t1 = h1 * 2 ^ 32 + l1" by (simp_all add: d)
  have b: "l0 < 2 ^ 32" "l1 < 2 ^ 32" by (simp_all add: d)
  have h: "h0 < 2 ^ 32" "h1 < 2 ^ 32"
    using unat64_less [of t0] unat64_less [of t1] by (simp_all add: d less_mult_imp_div_less)
  let ?a = "access_counter t0" and ?b = "access_counter t1"
  note halves = counter_halves [of t0, folded d] counter_halves [of t1, folded d]
  have lo: "unat (cyc_lo ?b - cyc_lo ?a) = (if l0 \<le> l1 then l1 - l0 else l1 + 2 ^ 32 - l0)"
    by (simp only: unat_minus32 halves)
  have borrow: "cyc_lo ?b - cyc_lo ?a > cyc_lo ?b \<longleftrightarrow> l1 < l0"
    unfolding word_less_nat_alt lo halves using b by (auto split: if_splits)
  have wide: "unat (t1 - t0) = (if unat t0 \<le> unat t1 then unat t1 - unat t0 else unat t1 + 2 ^ 64 - unat t0)"
    using unat_sub_if' [of t1 t0] by simp
  show ?thesis
  proof (cases "l1 < l0")
    case True
    have "unat (1 :: u32) = 1" by simp
    then have hi: "unat (cyc_hi ?b - cyc_hi ?a - 1) = (if Suc h0 \<le> h1 then h1 - h0 - 1 else h1 + 2 ^ 32 - h0 - 1)"
      unfolding unat_minus32 halves using h by (cases "h0 \<le> h1") auto
    have "get_counter (start_counter t0) t1 = unat (cyc_hi ?b - cyc_hi ?a - 1) * 2 ^ 30 * 4 + unat (cyc_lo ?b - cyc_lo ?a)"
      unfolding get_counter_def start_counter_def Let_def using borrow True by simp
    also have "\<dots> = unat (t1 - t0)"
      unfolding hi lo wide e using True b h by (cases "Suc h0 \<le> h1"; simp; linarith)
    finally show ?thesis .
  next
    case False
    have hi: "unat (cyc_hi ?b - cyc_hi ?a) = (if h0 \<le> h1 then h1 - h0 else h1 + 2 ^ 32 - h0)"
      by (simp only: unat_minus32 halves)
    have "get_counter (start_counter t0) t1 = unat (cyc_hi ?b - cyc_hi ?a) * 2 ^ 30 * 4 + unat (cyc_lo ?b - cyc_lo ?a)"
      unfolding get_counter_def start_counter_def Let_def using borrow False by simp
    also have "\<dots> = unat (t1 - t0)"
      unfolding hi lo wide e using False b h by (cases "h0 \<le> h1"; simp; linarith)
    finally show ?thesis .
  qed
qed

section \<open>The best samples\<close>

lemma insort_front: "\<forall>y\<in>set xs. v \<le> y \<Longrightarrow> insort v xs = v # xs"
  by (cases xs) auto

lemma insort_back: "sorted xs \<Longrightarrow> \<forall>y\<in>set xs. y \<le> v \<Longrightarrow> insort v xs = xs @ [v]"
proof (induction xs)
  case (Cons a xs)
  have i: "insort v xs = xs @ [v]" using Cons by simp
  show ?case
  proof (cases "v \<le> a")
    case True
    then have "v = a" using Cons.prems by simp
    then have "insort v xs = v # xs" using Cons.prems by (intro insort_front) simp
    then have "(a # xs) @ [v] = a # v # xs" using i by simp
    then show ?thesis using True \<open>v = a\<close> by simp
  qed (use i in simp)
qed simp

lemma sort_snoc: "sort (xs @ [v]) = insort v (sort xs)"
  by (induction xs) (simp_all add: insort_left_comm)

lemma sink_sample_insort:
  "sorted xs \<Longrightarrow> sink_sample (xs @ v # ys) (length xs) = Some (insort v xs @ ys)"
proof (induction xs arbitrary: ys rule: rev_induct)
  case (snoc x xs)
  have s: "sorted xs" "\<forall>y\<in>set xs. y \<le> x" using snoc.prems by (simp_all add: sorted_append)
  show ?case
  proof (cases "x > v")
    case True
    then have "insort v (xs @ [x]) = insort v xs @ [x]" by (induction xs) auto
    moreover have "sink_sample (xs @ v # x # ys) (length xs) = Some (insort v xs @ x # ys)" by (rule snoc.IH [OF s(1)])
    ultimately show ?thesis using True by (simp add: aget_def aset_def nth_append list_update_append)
  next
    case False
    then have "insort v (xs @ [x]) = xs @ [x, v]" using s insort_back [OF snoc.prems, of v] by fastforce
    then show ?thesis using False by (simp add: aget_def nth_append)
  qed
qed simp

lemma take_insort_big: "sorted xs \<Longrightarrow> k \<le> length xs \<Longrightarrow> 0 < k \<Longrightarrow> xs ! (k - 1) \<le> v \<Longrightarrow> take k (insort v xs) = take k xs"
proof (induction xs arbitrary: k)
  case (Cons x xs)
  then obtain j where k: "k = Suc j" by (cases k) auto
  show ?case
  proof (cases j)
    case 0
    then show ?thesis using Cons.prems k by (cases xs) auto
  next
    case (Suc i)
    have n: "xs ! (j - 1) \<le> v" "j \<le> length xs" "0 < j" using Cons.prems k Suc by simp_all
    then have "x \<le> v" using Cons.prems(1) by (metis Suc diff_Suc_1 dual_order.trans less_eq_Suc_le nth_mem sorted_simps(2))
    then have ih: "take j (insort v xs) = take j xs" using Cons.IH [OF _ n(2,3,1)] Cons.prems(1) by simp
    show ?thesis
    proof (cases "v = x")
      case True
      then have "insort v xs = v # xs" using Cons.prems(1) by (intro insort_front) simp
      then show ?thesis using ih k True by simp
    next
      case False
      then show ?thesis using ih k \<open>x \<le> v\<close> by simp
    qed
  qed
qed simp

lemma take_insort_small:
  "sorted xs \<Longrightarrow> k < length xs \<Longrightarrow> v \<le> xs ! k \<Longrightarrow> take (Suc k) (insort v xs) = insort v (take k xs)"
proof (induction xs arbitrary: k)
  case (Cons x xs)
  show ?case
  proof (cases k)
    case 0
    then show ?thesis using Cons.prems by auto
  next
    case (Suc j)
    then show ?thesis using Cons.IH [of j] Cons.prems by (cases "v \<le> x") (auto simp: take_Suc_conv_app_nth)
  qed
qed simp

text \<open>The array of a sampler holds the smallest samples in ascending order.\<close>

definition best_of :: "nat \<Rightarrow> rat list \<Rightarrow> sampler \<Rightarrow> bool" where
  "best_of k xs s \<longleftrightarrow> length (sampled s) = k \<and> samplecount s = length xs \<and>
     take (min (length xs) k) (sampled s) = take k (sort xs)"

lemma add_sample_best:
  assumes "best_of (kbest p) xs s" and k: "0 < kbest p"
  shows "\<exists>s'. add_sample p v s = Some s' \<and> best_of (kbest p) (xs @ [v]) s'"
proof -
  let ?k = "kbest p" and ?vs = "sampled s"
  have b: "length ?vs = ?k" "samplecount s = length xs" "take (min (length xs) ?k) ?vs = take ?k (sort xs)"
    using assms(1) by (simp_all add: best_of_def)
  have so: "sort (xs @ [v]) = insort v (sort xs)" by (rule sort_snoc)
  show ?thesis
  proof (cases "length xs < ?k")
    case True
    then have t: "take (length xs) ?vs = sort xs" using b by simp
    then have u: "?vs[length xs := v] = sort xs @ v # drop (Suc (length xs)) ?vs"
      using True b by (simp add: upd_conv_take_nth_drop)
    have "sink_sample (?vs[length xs := v]) (length xs) = Some (insort v (sort xs) @ drop (Suc (length xs)) ?vs)"
      unfolding u using sink_sample_insort [of "sort xs" v "drop (Suc (length xs)) ?vs"] by simp
    then have "add_sample p v s = Some \<lparr>sampled = insort v (sort xs) @ drop (Suc (length xs)) ?vs, samplecount = Suc (length xs)\<rparr>"
      using True b by (simp add: add_sample_def aset_def)
    then show ?thesis using True b by (simp add: best_of_def so)
  next
    case False
    then have t: "?vs = take ?k (sort xs)" using b by simp
    then have w: "?vs ! (?k - 1) = sort xs ! (?k - 1)" using k by simp
    show ?thesis
    proof (cases "v < ?vs ! (?k - 1)")
      case True
      have u: "?vs[?k - 1 := v] = take (?k - 1) (sort xs) @ v # []"
        using t b k by (simp add: upd_conv_take_nth_drop min_def)
      have l: "length (take (?k - 1) (sort xs)) = ?k - 1" using False by simp
      have "sink_sample (?vs[?k - 1 := v]) (?k - 1) = Some (insort v (take (?k - 1) (sort xs)) @ [])"
        unfolding u using sink_sample_insort [of "take (?k - 1) (sort xs)" v "[]"] l by (simp add: sorted_wrt_take)
      also have "insort v (take (?k - 1) (sort xs)) = take ?k (insort v (sort xs))"
        using take_insort_small [of "sort xs" "?k - 1" v] True w k False by simp
      finally have "add_sample p v s = Some \<lparr>sampled = take ?k (insort v (sort xs)), samplecount = Suc (length xs)\<rparr>"
        using True False b k by (simp add: add_sample_def aget_def aset_def)
      then show ?thesis using False b by (simp add: best_of_def so)
    next
      case big: False
      have "take ?k (insort v (sort xs)) = take ?k (sort xs)"
        using take_insort_big [of "sort xs" ?k v] big w k False by simp
      moreover have "add_sample p v s = Some \<lparr>sampled = ?vs, samplecount = Suc (length xs)\<rparr>"
        using big False b k by (simp add: add_sample_def aget_def)
      ultimately show ?thesis using False b t by (simp add: best_of_def so)
    qed
  qed
qed

section \<open>The whole measurement\<close>

text \<open>The \<^verbatim>\<open>kbest\<close> smallest of the first \<open>n\<close> samples are within the tolerance of the smallest.\<close>

definition close_enough :: "fcyc_params \<Rightarrow> (nat \<Rightarrow> rat) \<Rightarrow> nat \<Rightarrow> bool" where
  "close_enough p cycles n \<longleftrightarrow> kbest p \<le> n \<and>
     sort (map cycles [0..<n]) ! (kbest p - 1) \<le> (1 + epsilon p) * sort (map cycles [0..<n]) ! 0"

lemma best_of_nth:
  assumes "best_of k xs s" and "i < k" and "i < length xs"
  shows "aget (sampled s) i = Some (sort xs ! i)"
proof -
  have "take (min (length xs) k) (sampled s) ! i = take k (sort xs) ! i" using assms(1) by (simp add: best_of_def)
  then show ?thesis using assms by (simp add: best_of_def)
qed

lemma has_converged_close:
  assumes "best_of (kbest p) (map cycles [0..<n]) s" and "0 < kbest p"
  shows "has_converged p s = Some (close_enough p cycles n)"
proof (cases "kbest p \<le> n")
  case True
  have "aget (sampled s) 0 = Some (sort (map cycles [0..<n]) ! 0)"
    "aget (sampled s) (kbest p - 1) = Some (sort (map cycles [0..<n]) ! (kbest p - 1))"
    by (rule best_of_nth [OF assms(1)]; use True assms(2) in simp)+
  moreover have "samplecount s = n" using assms(1) by (simp add: best_of_def)
  ultimately show ?thesis using True by (simp add: has_converged_def close_enough_def del: aget_Some_iff)
next
  case False
  then show ?thesis using assms(1) by (simp add: has_converged_def close_enough_def best_of_def)
qed

text \<open>The loop of \<^verbatim>\<open>clear\<close> ends unless it stays on an element, or \<^verbatim>\<open>clear\<close> is not called.\<close>

definition clear_ends :: "fcyc_params \<Rightarrow> bool" where
  "clear_ends p \<longleftrightarrow> (clear_cache p \<longrightarrow> 4 \<le> cache_block p \<or> cache_bytes p < 4)"

lemma clear_ends_iff: "clear_ends p \<longleftrightarrow> (if clear_cache p then clear p else Some []) \<noteq> None"
  by (auto simp: clear_ends_def clear_def)

lemma fcyc_loop_stops:
  assumes "best_of (kbest p) (map cycles [0..<i]) s" and k: "0 < kbest p" and cl: "clear_ends p"
  shows "\<exists>s' n. fcyc_loop p cycles s = Some s' \<and> i < n \<and> best_of (kbest p) (map cycles [0..<n]) s' \<and>
    (close_enough p cycles n \<or> maxsamples p \<le> n) \<and>
    (\<forall>m. i < m \<and> m < n \<longrightarrow> \<not> close_enough p cycles m \<and> m < maxsamples p)"
  using assms
proof (induction p cycles s arbitrary: i rule: fcyc_loop.induct)
  case (1 p cycles s)
  have i: "samplecount s = i" using "1.prems"(1) by (simp add: best_of_def)
  obtain s1 where a: "add_sample p (cycles i) s = Some s1" and b: "best_of (kbest p) (map cycles [0..<Suc i]) s1"
    using add_sample_best [OF "1.prems"(1,2), of "cycles i"] by auto
  obtain rs where r: "(if clear_cache p then clear p else Some []) = Some rs" using "1.prems"(3) by (auto simp: clear_ends_iff)
  have c: "has_converged p s1 = Some (close_enough p cycles (Suc i))" by (rule has_converged_close [OF b "1.prems"(2)])
  have n: "samplecount s1 = Suc i" using b by (simp add: best_of_def)
  show ?case
  proof (cases "\<not> close_enough p cycles (Suc i) \<and> Suc i < maxsamples p")
    case True
    have e: "fcyc_loop p cycles s = fcyc_loop p cycles s1" using r a c n i True by (subst fcyc_loop.simps) simp
    from "1.IH" [OF r _ c _ b "1.prems"(2,3)] a i n True obtain s' m where l:
      "fcyc_loop p cycles s1 = Some s'" "Suc i < m" "best_of (kbest p) (map cycles [0..<m]) s'"
      "close_enough p cycles m \<or> maxsamples p \<le> m"
      "\<forall>j. Suc i < j \<and> j < m \<longrightarrow> \<not> close_enough p cycles j \<and> j < maxsamples p" by auto
    have "\<not> close_enough p cycles j \<and> j < maxsamples p" if "i < j" "j < m" for j
      using that True l(5) by (cases "j = Suc i") simp_all
    then show ?thesis using e l(1-4) by (intro exI [of _ s'] exI [of _ m]) simp
  next
    case False
    then have "fcyc_loop p cycles s = Some s1" using r a c n i by (subst fcyc_loop.simps) auto
    then show ?thesis using b False by (intro exI [of _ s1] exI [of _ "Suc i"]) auto
  qed
qed

lemma hd_sort_Min: "xs \<noteq> [] \<Longrightarrow> sort xs ! 0 = Min (set xs)" for xs :: "rat list"
proof -
  assume "xs \<noteq> []"
  then obtain y ys where s: "sort xs = y # ys" by (metis length_sort length_0_conv list.exhaust)
  then have "set xs = set (y # ys)" by (metis set_sort)
  moreover have "\<forall>z\<in>set ys. y \<le> z" using sorted_sort [of xs] s by (simp del: sorted_sort)
  ultimately show ?thesis using s by (auto intro!: Min_eqI [symmetric])
qed

text \<open>
  C30. With a positive \<^verbatim>\<open>kbest\<close>, the measurement of the driver ends unless the cache is to be cleared in blocks of less
  than the four bytes of an \<^verbatim>\<open>int\<close>; then, and only then, it never does, because \<^verbatim>\<open>clear\<close> does not.  It ends
  after the first sample at which the \<^verbatim>\<open>kbest\<close> smallest are within the tolerance of the smallest, or after
  \<^verbatim>\<open>maxsamples\<close> samples (at least one).  It stays inside of its array, and its result is the smallest of all
  samples that it has taken.  (The allocation of the buffer in \<^verbatim>\<open>clear\<close>, of a size that is not negative, is taken to succeed.)
\<close>

theorem fcyc_k_best:
  assumes "0 < kbest p"
  shows "if clear_cache p \<and> cache_block p < 4 \<and> 4 \<le> cache_bytes p then fcyc p cycles = None
    else \<exists>n. fcyc p cycles = Some (Min (cycles ` {..<n}), n) \<and> 0 < n \<and> n \<le> max 1 (maxsamples p) \<and>
      (close_enough p cycles n \<or> maxsamples p \<le> n) \<and> (\<forall>m. 0 < m \<and> m < n \<longrightarrow> \<not> close_enough p cycles m)"
proof (cases "clear_ends p")
  case False
  then have "fcyc_loop p cycles (init_sampler p) = None" by (subst fcyc_loop.simps) (simp add: clear_ends_iff)
  then show ?thesis using False by (auto simp: fcyc_def clear_ends_def)
next
  case True
  note ends = this
  have "best_of (kbest p) (map cycles [0..<0]) (init_sampler p)" by (simp add: best_of_def init_sampler_def)
  from fcyc_loop_stops [OF this assms ends] obtain s n where
    s: "fcyc_loop p cycles (init_sampler p) = Some s" "0 < n" "best_of (kbest p) (map cycles [0..<n]) s"
      "close_enough p cycles n \<or> maxsamples p \<le> n"
      "\<forall>m. 0 < m \<and> m < n \<longrightarrow> \<not> close_enough p cycles m \<and> m < maxsamples p" by blast
  have "aget (sampled s) 0 = Some (sort (map cycles [0..<n]) ! 0)" using best_of_nth [OF s(3) assms] s(2) by simp
  moreover have "sort (map cycles [0..<n]) ! 0 = Min (cycles ` {..<n})"
    using hd_sort_Min [of "map cycles [0..<n]"] s(2) by (simp add: atLeast0LessThan)
  moreover have "samplecount s = n" using s(3) by (simp add: best_of_def)
  ultimately have "fcyc p cycles = Some (Min (cycles ` {..<n}), n)" using s(1) by (simp add: fcyc_def del: aget_Some_iff)
  moreover have "n \<le> max 1 (maxsamples p)"
  proof (rule ccontr)
    assume "\<not> n \<le> max 1 (maxsamples p)"
    then have "0 < n - 1 \<and> n - 1 < n" and m: "\<not> n - 1 < maxsamples p" by auto
    then show False using s(5) by blast
  qed
  ultimately show ?thesis using s(2,4,5) ends by (subst if_not_P) (auto simp: clear_ends_def)
qed

lemma fcyc_k_best_witness:
  "(\<exists>n. fcyc (set_fcyc_clear_cache True fcyc_defaults) (\<lambda>i. 1000 - of_nat i) =
      Some (Min ((\<lambda>i. 1000 - of_nat i) ` {..<n}), n) \<and> 0 < n \<and> n \<le> 20)"
proof -
  let ?p = "set_fcyc_clear_cache True fcyc_defaults"
  have k: "0 < kbest ?p" and m: "max 1 (maxsamples ?p) = 20" and c: "\<not> (clear_cache ?p \<and> cache_block ?p < 4 \<and> 4 \<le> cache_bytes ?p)"
    by (simp_all add: fcyc_defaults_def set_fcyc_clear_cache_def)
  show ?thesis using fcyc_k_best [OF k, of "\<lambda>i. 1000 - of_nat i"] unfolding m if_not_P [OF c] by blast
qed

text \<open>
  The cycle counter: the borrow of \<^verbatim>\<open>get_counter\<close> between the two 32-bit halves gives the exact difference of the 64-bit time
  stamps, also when the lower half, or the whole counter, has wrapped around in between; and the
  compensated counter takes off the time of the timer interrupts.
\<close>

theorem get_counter_exact:
  "get_counter (start_counter t0) t1 = unat (t1 - t0) \<and>
   (c \<noteq> 0 \<longrightarrow> (\<exists>s. start_comp_counter c rs oldt oldc u0 t0 = Some s \<and>
      get_comp_counter s t1 u1 = of_nat (unat (t1 - t0)) - of_int (u1 - u0) * c))"
  by (simp add: get_counter_difference start_comp_counter_def get_comp_counter_def)

lemma get_counter_exact_witness:
  "get_counter (start_counter 0xFFFFFFFF) 0x100000001 = 2"
  using get_counter_exact [of "0xFFFFFFFF" "0x100000001" 1 "[]" 0 0 0 0] by simp

text \<open>
  On the Alpha the counter is exact as long as it does not wrap around; when it does, which takes about nine seconds, the borrow is
  taken from an upper half that is always zero, and the reading is too large by almost \<open>2 ^ 64\<close>.
\<close>

lemma alpha_counter_wraps:
  "alpha_get_counter (alpha_start_counter a) b = (if a \<le> b then unat b - unat a else 2 ^ 64 + unat b - unat a)"
proof (cases "a \<le> b")
  case True
  then have "\<not> b < b - a" by (simp add: word_sub_le not_less)
  then show ?thesis using True by (simp add: alpha_get_counter_def alpha_start_counter_def unat_sub)
next
  case False
  have l: "unat (b - a) = 2 ^ 32 + unat b - unat a"
    using False unat_sub_if' [of b a] by (simp add: word_le_nat_alt)
  have "unat a < 2 ^ 32" "unat b < unat a" using unsigned_less [of a] False by (auto simp: word_le_nat_alt)
  then have "b - a > b" using l by (simp add: word_less_nat_alt)
  moreover have "unat (- 1 :: u32) = 2 ^ 32 - 1" by (simp add: unsigned_minus_1_eq_mask mask_eq_exp_minus_1)
  ultimately show ?thesis using False l \<open>unat a < 2 ^ 32\<close>
    by (simp add: alpha_get_counter_def alpha_start_counter_def)
qed

text \<open>The timers give the average of the elapsed time; a cache block of less than four bytes makes \<^verbatim>\<open>clear\<close> loop for ever.\<close>

lemma fsecs_average:
  "fsecs stv etv = (of_int (tv_sec etv) + of_int (tv_usec etv) / 10 ^ 6 - (of_int (tv_sec stv) + of_int (tv_usec stv) / 10 ^ 6)) / 10"
  by (simp add: fsecs_def ftimer_gettod_def Let_def field_simps)

lemma clear_tiny_block: "clear (set_fcyc_cache_block 3 fcyc_defaults) = None"
  by (simp add: clear_def set_fcyc_cache_block_def fcyc_defaults_def)

end
