(* ===== verification/MdriverMain.thy ===== *)
theory MdriverMain
  imports MdriverEval Timing MmContract MmNaive
begin

text \<open>
  The main routine of the malloc driver (\<^verbatim>\<open>sp_03_malloclab/src/mdriver.c\<close>): the options, the loop over
  the traces, the tables and the performance index, over an allocator that is a parameter.

  The surroundings are parameters as well: the options as \<^verbatim>\<open>getopt\<close> returns them, the trace files, the
  readings of the clock, the allocator of the C library.  The text of a message is a constructor of
  \<open>drv_out\<close> with the values that it prints.  \<open>None\<close> is an access outside of an array or the storage.
\<close>

section \<open>Numbers\<close>

text \<open>
  A \<^verbatim>\<open>double\<close> without rounding.  Only numerators that are not negative are divided, so that a quotient by
  zero is the positive infinity or not a number.
\<close>

datatype dbl = Fin rat | Inf | NaN

definition ddiv :: "rat \<Rightarrow> rat \<Rightarrow> dbl" where
  "ddiv x y = (if y \<noteq> 0 then Fin (x / y) else if x = 0 then NaN else Inf)"

fun dadd :: "dbl \<Rightarrow> dbl \<Rightarrow> dbl" where
  "dadd (Fin x) (Fin y) = Fin (x + y)"
| "dadd NaN _ = NaN"
| "dadd _ NaN = NaN"
| "dadd _ _ = Inf"

text \<open>The product with a positive constant, and the comparison with a number.\<close>

fun dscale :: "rat \<Rightarrow> dbl \<Rightarrow> dbl" where
  "dscale c (Fin x) = Fin (c * x)"
| "dscale c Inf = Inf"
| "dscale c NaN = NaN"

fun dgreater :: "dbl \<Rightarrow> rat \<Rightarrow> bool" where
  "dgreater (Fin x) y \<longleftrightarrow> x > y"
| "dgreater Inf y \<longleftrightarrow> True"
| "dgreater NaN y \<longleftrightarrow> False"

section \<open>Messages and results\<close>

record stats =
  st_ops :: nat
  st_valid :: bool
  st_secs :: rat
  st_util :: dbl

datatype drv_out = Usage | Using_default string | Using_gettod | Using_itimer | Testing string | Reading string
  | Cannot_open string | Bogus string | Checking string | Efficiency | And_performance
  | Malloc_error nat nat drv_error | App_error drv_error string | Unix_error string
  | Results string | Row nat "(dbl \<times> nat \<times> rat \<times> dbl) option" | Total "(dbl \<times> nat \<times> rat \<times> dbl) option"
  | Perf dbl dbl dbl | Terminated nat | Correct nat | Perfidx dbl

text \<open>How the program ends: with a status, or by a failed assertion.\<close>

datatype drv_status = Exited int | Aborted

definition LINENUM :: "nat \<Rightarrow> nat" where
  "LINENUM i = i + 5"

definition announce :: "bool \<Rightarrow> drv_out \<Rightarrow> drv_out list \<Rightarrow> drv_out list" where
  "announce b msg out = (if b then out @ [msg] else out)"

section \<open>Options\<close>

definition DRV_MAXLINE :: nat where
  "DRV_MAXLINE = 1024"

record opts =
  autograder :: bool
  run_libc :: bool
  verbose :: nat
  tracedir :: string
  tracefiles :: "string list option"

definition TRACEDIR :: string where
  "TRACEDIR = ''./traces/''"

definition DEFAULT_TRACEFILES :: "string list" where
  "DEFAULT_TRACEFILES = [''amptjp-bal.rep'', ''cccp-bal.rep'', ''cp-decl-bal.rep'', ''expr-bal.rep'',
     ''coalescing-bal.rep'', ''random-bal.rep'', ''random2-bal.rep'', ''binary-bal.rep'', ''binary2-bal.rep'',
     ''realloc-bal.rep'', ''realloc2-bal.rep'']"

definition opts0 :: opts where
  "opts0 = \<lparr>autograder = False, run_libc = False, verbose = 0, tracedir = TRACEDIR, tracefiles = None\<rparr>"

text \<open>
  The directory is copied to an array of \<^verbatim>\<open>MAXLINE\<close> bytes; for the empty directory the byte in front of
  the array is read.
\<close>

definition set_tracedir :: "string \<Rightarrow> string option" where
  "set_tracedir arg =
     (if arg = [] \<or> DRV_MAXLINE \<le> length arg then None
      else if last arg \<noteq> CHR ''/'' then
        (if DRV_MAXLINE \<le> length arg + 1 then None else Some (arg @ ''/''))
      else Some arg)"

text \<open>The loop over the options, each with its argument; \<open>Inl\<close> is the status of an early exit.\<close>

fun parse_opts :: "(char \<times> string) list \<Rightarrow> opts \<Rightarrow> (int + opts) option" where
  "parse_opts [] opt = Some (Inr opt)"
| "parse_opts ((c, arg) # cs) opt =
     (if c = CHR ''g'' then parse_opts cs (opt\<lparr>autograder := True\<rparr>)
      else if c = CHR ''f'' then parse_opts cs (opt\<lparr>tracedir := ''./'', tracefiles := Some [arg]\<rparr>)
      else if c = CHR ''t'' then
        (if tracefiles opt \<noteq> None then parse_opts cs opt
         else do { dir \<leftarrow> set_tracedir arg; parse_opts cs (opt\<lparr>tracedir := dir\<rparr>) })
      else if c = CHR ''l'' then parse_opts cs (opt\<lparr>run_libc := True\<rparr>)
      else if c = CHR ''v'' then parse_opts cs (opt\<lparr>verbose := 1\<rparr>)
      else if c = CHR ''V'' then parse_opts cs (opt\<lparr>verbose := 2\<rparr>)
      else if c = CHR ''h'' then Some (Inl 0)
      else Some (Inl 1))"

section \<open>The traces\<close>

record world =
  w_files :: "string \<Rightarrow> string list option"
  w_libc_clock :: "nat \<Rightarrow> timeval \<times> timeval"
  w_mm_clock :: "nat \<Rightarrow> timeval \<times> timeval"

text \<open>
  The file of a trace.  The path and the message that it cannot be opened are composed in arrays of
  \<^verbatim>\<open>MAXLINE\<close> bytes.
\<close>

definition load_trace ::
    "world \<Rightarrow> opts \<Rightarrow> string \<Rightarrow> drv_out list \<Rightarrow> (drv_status \<times> drv_out list + trace \<times> drv_out list) option" where
  "load_trace w opt file out =
     (let out = announce (1 < verbose opt) (Reading file) out;
          path = tracedir opt @ file
      in if DRV_MAXLINE \<le> length path then None
         else case w_files w path of
           None \<Rightarrow> if DRV_MAXLINE \<le> length path + 29 then None else Some (Inl (Exited 1, out @ [Cannot_open path]))
         | Some ws \<Rightarrow>
             (case read_trace ws of
                None \<Rightarrow> None
              | Some (Inl e) \<Rightarrow> if e = Bogus_type then Some (Inl (Exited 1, out @ [Bogus path])) else Some (Inl (Aborted, out))
              | Some (Inr t) \<Rightarrow> Some (Inr (t, out))))"

text \<open>The repeated calls of a function by the timer; \<open>f\<close> is given the heap and the trace.\<close>

fun timed_runs :: "('h \<Rightarrow> trace \<Rightarrow> ('e + 'h \<times> nat list) option) \<Rightarrow> nat \<Rightarrow> 'h \<Rightarrow> trace \<Rightarrow>
    ('e + 'h \<times> nat list) option" where
  "timed_runs f 0 s t = Some (Inr (s, blocks t))"
| "timed_runs f (Suc n) s t =
     (case f s t of
        None \<Rightarrow> None
      | Some (Inl e) \<Rightarrow> Some (Inl e)
      | Some (Inr (s, bl)) \<Rightarrow> timed_runs f n s (t\<lparr>blocks := bl\<rparr>))"

definition fresh_stats :: "nat \<Rightarrow> stats" where
  "fresh_stats n = \<lparr>st_ops = n, st_valid = False, st_secs = 0, st_util = Fin 0\<rparr>"

definition libc_trace :: "world \<Rightarrow> mm_pkg \<Rightarrow> opts \<Rightarrow> nat \<Rightarrow> string \<Rightarrow> mmst \<Rightarrow> drv_out list \<Rightarrow>
    (drv_status \<times> drv_out list + stats \<times> mmst \<times> drv_out list) option" where
  "libc_trace w libc opt i file c out =
     (case load_trace w opt file out of
        None \<Rightarrow> None
      | Some (Inl x) \<Rightarrow> Some (Inl x)
      | Some (Inr (t, out)) \<Rightarrow>
          (let out = announce (1 < verbose opt) (Checking ''libc malloc'') out in
           case eval_libc_valid libc c t of
             None \<Rightarrow> None
           | Some (Inl (j, e)) \<Rightarrow>
               Some (Inl (Exited 1, out @ [Malloc_error i (LINENUM j) e, Unix_error ''System message'']))
           | Some (Inr (c, bl)) \<Rightarrow>
               (let out = announce (1 < verbose opt) And_performance out in
                case timed_runs (eval_libc_speed libc) 10 c (t\<lparr>blocks := bl\<rparr>) of
                  None \<Rightarrow> None
                | Some (Inl e) \<Rightarrow> Some (Inl (Exited 1, out @ [Unix_error
                    (if e = Malloc_failed then ''malloc failed in eval_libc_speed'' else ''realloc failed in eval_libc_speed'')]))
                | Some (Inr (c, bl)) \<Rightarrow>
                    Some (Inr ((fresh_stats (num_ops t))\<lparr>st_valid := True,
                      st_secs := fsecs (fst (w_libc_clock w i)) (snd (w_libc_clock w i))\<rparr>, c, out)))))"

text \<open>
  One trace of the package under test.  The list of the ranges that an evaluation leaves behind is
  cleared by the next one before it is read.
\<close>

definition mm_trace :: "world \<Rightarrow> mm_pkg \<Rightarrow> opts \<Rightarrow> nat \<Rightarrow> string \<Rightarrow> mmst \<Rightarrow> drv_out list \<Rightarrow>
    (drv_status \<times> drv_out list + stats \<times> mmst \<times> drv_out list) option" where
  "mm_trace w pk opt i file s out =
     (case load_trace w opt file out of
        None \<Rightarrow> None
      | Some (Inl x) \<Rightarrow> Some (Inl x)
      | Some (Inr (t, out)) \<Rightarrow>
          (let out = announce (1 < verbose opt) (Checking ''mm_malloc'') out in
           case eval_mm_valid pk s t [] of
             None \<Rightarrow> None
           | Some (Inl (j, e, s)) \<Rightarrow>
               if e = Assert_failed then Some (Inl (Aborted, out))
               else Some (Inr (fresh_stats (num_ops t), s, out @ [Malloc_error i (LINENUM j) e]))
           | Some (Inr (s, ranges, bl, zs)) \<Rightarrow>
               (let out = announce (1 < verbose opt) Efficiency out in
                case eval_mm_util pk s (t\<lparr>blocks := bl, block_sizes := zs\<rparr>) of
                  None \<Rightarrow> None
                | Some (Inl e) \<Rightarrow> Some (Inl (Exited 1, out @ [App_error e ''eval_mm_util'']))
                | Some (Inr (hwm, h, s, bl, zs)) \<Rightarrow>
                    (let out = announce (1 < verbose opt) And_performance out in
                     case timed_runs (eval_mm_speed pk) 10 s (t\<lparr>blocks := bl, block_sizes := zs\<rparr>) of
                       None \<Rightarrow> None
                     | Some (Inl e) \<Rightarrow> Some (Inl (Exited 1, out @ [App_error e ''eval_mm_speed'']))
                     | Some (Inr (s, bl)) \<Rightarrow>
                         Some (Inr (\<lparr>st_ops = num_ops t, st_valid = True,
                           st_secs = fsecs (fst (w_mm_clock w i)) (snd (w_mm_clock w i)),
                           st_util = ddiv (of_int hwm) (of_int h)\<rparr>, s, out))))))"

text \<open>The loop over the files, for either package.\<close>

fun all_traces :: "(nat \<Rightarrow> string \<Rightarrow> 'h \<Rightarrow> drv_out list \<Rightarrow> (drv_status \<times> drv_out list + stats \<times> 'h \<times> drv_out list) option) \<Rightarrow>
    nat \<Rightarrow> string list \<Rightarrow> 'h \<Rightarrow> drv_out list \<Rightarrow> (drv_status \<times> drv_out list + stats list \<times> drv_out list) option" where
  "all_traces f i [] s out = Some (Inr ([], out))"
| "all_traces f i (file # files) s out =
     (case f i file s out of
        None \<Rightarrow> None
      | Some (Inl x) \<Rightarrow> Some (Inl x)
      | Some (Inr (st, s, out)) \<Rightarrow>
          (case all_traces f (Suc i) files s out of
             Some (Inr (sts, out)) \<Rightarrow> Some (Inr (st # sts, out))
           | r \<Rightarrow> r))"

section \<open>The tables and the performance index\<close>

definition stats_row :: "nat \<Rightarrow> stats \<Rightarrow> drv_out" where
  "stats_row i st = Row i
     (if st_valid st then Some (dscale 100 (st_util st), st_ops st, st_secs st, ddiv (of_nat (st_ops st) / 1000) (st_secs st))
      else None)"

fun sum_util :: "stats list \<Rightarrow> dbl" where
  "sum_util [] = Fin 0"
| "sum_util (st # sts) = dadd (st_util st) (sum_util sts)"

definition dbl_over :: "dbl \<Rightarrow> nat \<Rightarrow> dbl" where
  "dbl_over x n = dscale (1 / of_nat n) x"

definition printresults :: "nat \<Rightarrow> stats list \<Rightarrow> drv_out list" where
  "printresults errors sts =
     (let ok = filter st_valid sts;
          secs = sum_list (map st_secs ok);
          ops = sum_list (map st_ops ok)
      in map (\<lambda>(i, st). stats_row i st) (enumerate 0 sts) @
         [Total (if errors = 0
            then Some (dscale 100 (dbl_over (sum_util ok) (length sts)), ops, secs, ddiv (of_nat ops / 1000) secs)
            else None)])"

definition UTIL_WEIGHT :: rat where
  "UTIL_WEIGHT = 60 / 100"

definition AVG_LIBC_THRUPUT :: rat where
  "AVG_LIBC_THRUPUT = 600000"

definition perf_p1 :: "stats list \<Rightarrow> dbl" where
  "perf_p1 sts = dscale UTIL_WEIGHT (dbl_over (sum_util sts) (length sts))"

definition perf_p2 :: "stats list \<Rightarrow> dbl" where
  "perf_p2 sts =
     (let avg_mm_throughput = ddiv (of_nat (sum_list (map st_ops sts))) (sum_list (map st_secs sts))
      in if dgreater avg_mm_throughput AVG_LIBC_THRUPUT then Fin (1 - UTIL_WEIGHT)
         else dscale ((1 - UTIL_WEIGHT) / AVG_LIBC_THRUPUT) avg_mm_throughput)"

definition perf_report :: "bool \<Rightarrow> nat \<Rightarrow> stats list \<Rightarrow> drv_out list" where
  "perf_report grade errors sts =
     (let numcorrect = length (filter st_valid sts);
          p1 = perf_p1 sts; p2 = perf_p2 sts;
          perfindex = (if errors = 0 then dscale 100 (dadd p1 p2) else Fin 0)
      in [if errors = 0 then Perf (dscale 100 p1) (dscale 100 p2) perfindex else Terminated errors] @
         (if grade then [Correct numcorrect, Perfidx perfindex] else []))"

text \<open>The counter \<^verbatim>\<open>errors\<close> is the number of the reports of \<^verbatim>\<open>malloc_error\<close>.\<close>

fun is_malloc_error :: "drv_out \<Rightarrow> bool" where
  "is_malloc_error (Malloc_error i l e) \<longleftrightarrow> True"
| "is_malloc_error _ \<longleftrightarrow> False"

definition errors :: "drv_out list \<Rightarrow> nat" where
  "errors out = length (filter is_malloc_error out)"

section \<open>The main routine\<close>

definition main_libc :: "world \<Rightarrow> mm_pkg \<Rightarrow> opts \<Rightarrow> string list \<Rightarrow> mmst \<Rightarrow> drv_out list \<Rightarrow>
    (drv_status \<times> drv_out list + drv_out list) option" where
  "main_libc w libc opt files c out =
     (let out = announce (1 < verbose opt) (Testing ''libc'') out in
      case all_traces (libc_trace w libc opt) 0 files c out of
        None \<Rightarrow> None
      | Some (Inl x) \<Rightarrow> Some (Inl x)
      | Some (Inr (sts, out)) \<Rightarrow>
          Some (Inr (if 0 < verbose opt then out @ [Results ''libc malloc''] @ printresults (errors out) sts else out)))"

definition main_mm :: "world \<Rightarrow> mm_pkg \<Rightarrow> opts \<Rightarrow> string list \<Rightarrow> mmst \<Rightarrow> nat \<Rightarrow> drv_out list \<Rightarrow>
    (drv_status \<times> drv_out list) option" where
  "main_mm w pk opt files s b0 out =
     (let out = announce (1 < verbose opt) (Testing ''mm'') out in
      case mem_init b0 of
        None \<Rightarrow> Some (Exited 1, out)
      | Some l \<Rightarrow>
          (case all_traces (mm_trace w pk opt) 0 files (s\<lparr>lib := l\<rparr>) out of
             None \<Rightarrow> None
           | Some (Inl x) \<Rightarrow> Some x
           | Some (Inr (sts, out)) \<Rightarrow>
               (let n = errors out;
                    out = (if 0 < verbose opt then out @ [Results ''mm malloc''] @ printresults n sts else out)
                in Some (Exited 0, out @ perf_report (autograder opt) n sts))))"

definition mdriver_main :: "world \<Rightarrow> mm_pkg \<Rightarrow> mm_pkg \<Rightarrow> mmst \<Rightarrow> mmst \<Rightarrow> nat \<Rightarrow> (char \<times> string) list \<Rightarrow>
    (drv_status \<times> drv_out list) option" where
  "mdriver_main w pk libc c s b0 args =
     (case parse_opts args opts0 of
        None \<Rightarrow> None
      | Some (Inl st) \<Rightarrow> Some (Exited st, [Usage])
      | Some (Inr opt) \<Rightarrow>
          (let files = (case tracefiles opt of None \<Rightarrow> DEFAULT_TRACEFILES | Some fs \<Rightarrow> fs);
               out = announce (tracefiles opt = None) (Using_default (tracedir opt)) [];
               out = announce (0 < verbose opt) Using_gettod out
           in if run_libc opt then
                (case main_libc w libc opt files c out of
                   None \<Rightarrow> None
                 | Some (Inl x) \<Rightarrow> Some x
                 | Some (Inr out) \<Rightarrow> main_mm w pk opt files s b0 out)
              else main_mm w pk opt files s b0 out))"

end
