(* ===== verification/MmSeg.thy ===== *)
theory MmSeg
  imports MmShared
begin

text \<open>
  The allocator with segregated free lists (\<^verbatim>\<open>sp_03_malloclab/src/mm.c\<close>): twelve doubly linked lists by size
  classes, whose heads are words in front of the prologue block, each in descending order of the sizes.

  The calls of \<^verbatim>\<open>printImg\<close>, which the repository declares and defines nowhere, are taken to print only.
\<close>

definition NUM_CLASSES :: nat where
  "NUM_CLASSES = 12"

text \<open>The loop \<^verbatim>\<open>while ((class_num > 0) && (asize <= (FSIZE << --class_num)))\<close>.\<close>

fun size_class :: "nat \<Rightarrow> nat \<Rightarrow> nat" where
  "size_class asize 0 = 0"
| "size_class asize (Suc c) = (if asize \<le> FSIZE * 2 ^ c then size_class asize c else c)"

section \<open>The free lists\<close>

text \<open>The loop of \<^verbatim>\<open>insert_block\<close>: past the blocks that are at least as large.\<close>

partial_function (option) seg_walk :: "mmst \<Rightarrow> nat \<Rightarrow> nat \<Rightarrow> nat \<Rightarrow> (nat \<times> nat) option" where
  "seg_walk s sz prev_ptr ptr =
     (if ptr = 0 then Some (prev_ptr, ptr)
      else do {
        w \<leftarrow> GET_SIZE s (HDRP ptr);
        if sz \<le> w then do { nx \<leftarrow> NEXT_FREE s ptr; seg_walk s sz ptr nx }
        else Some (prev_ptr, ptr) })"

definition seg_insert_block :: "mmst \<Rightarrow> nat \<Rightarrow> mmst option" where
  "seg_insert_block s bp = do {
     sz \<leftarrow> GET_SIZE s (HDRP bp);
     let asize = get_asize sz;
     let class_num = size_class asize NUM_CLASSES;
     let prev_ptr = free_listp s + class_num * WSIZE;
     ptr \<leftarrow> NEXT_FREE s prev_ptr;
     (prev_ptr, ptr) \<leftarrow> seg_walk s sz prev_ptr ptr;
     if prev_ptr \<noteq> 0 then
       (if ptr \<noteq> 0 then do {
          s \<leftarrow> SET_PTR s (PREV_FREEP bp) prev_ptr;
          s \<leftarrow> SET_PTR s (NEXT_FREEP bp) ptr;
          nb \<leftarrow> NEXT_FREE s bp;
          s \<leftarrow> SET_PTR s (PREV_FREEP nb) bp;
          SET_PTR s (NEXT_FREEP prev_ptr) bp }
        else do {
          s \<leftarrow> SET_PTR s (PREV_FREEP bp) prev_ptr;
          s \<leftarrow> SET_PTR s (NEXT_FREEP bp) 0;
          SET_PTR s (NEXT_FREEP prev_ptr) bp })
     else
       (if ptr \<noteq> 0 then do {
          s \<leftarrow> SET_PTR s (PREV_FREEP bp) prev_ptr;
          s \<leftarrow> SET_PTR s (NEXT_FREEP bp) ptr;
          nb \<leftarrow> NEXT_FREE s bp;
          s \<leftarrow> SET_PTR s (PREV_FREEP nb) bp;
          pb \<leftarrow> PREV_FREE s bp;
          SET_PTR s (NEXT_FREEP pb) bp }
        else do {
          s \<leftarrow> SET_PTR s (PREV_FREEP bp) prev_ptr;
          s \<leftarrow> SET_PTR s (NEXT_FREEP bp) 0;
          SET_PTR s (NEXT_FREEP prev_ptr) bp }) }"

text \<open>The class of the block is computed and not used.\<close>

definition seg_remove_block :: "mmst \<Rightarrow> nat \<Rightarrow> mmst option" where
  "seg_remove_block s bp = do {
     sz \<leftarrow> GET_SIZE s (HDRP bp);
     let asize = get_asize sz;
     let class_num = size_class asize NUM_CLASSES;
     nx \<leftarrow> NEXT_FREE s bp;
     if nx \<noteq> 0 then do {
       pv \<leftarrow> PREV_FREE s bp;
       nx \<leftarrow> NEXT_FREE s bp;
       s \<leftarrow> SET_PTR s (NEXT_FREEP pv) nx;
       nx \<leftarrow> NEXT_FREE s bp;
       pv \<leftarrow> PREV_FREE s bp;
       SET_PTR s (PREV_FREEP nx) pv }
     else do {
       pv \<leftarrow> PREV_FREE s bp;
       SET_PTR s (NEXT_FREEP pv) 0 } }"

section \<open>Searching\<close>

text \<open>
  The loop over the classes.  The test \<^verbatim>\<open>!(free_listp + class_num*WSIZE)\<close> is on the address of a head, not on its
  contents.
\<close>

fun seg_fit_from :: "mmst \<Rightarrow> nat \<Rightarrow> nat \<Rightarrow> nat option" where
  "seg_fit_from s asize 0 = Some 0"
| "seg_fit_from s asize (Suc class_num) =
     (if asize \<le> FSIZE * 2 ^ class_num then
        (if (free_listp s + class_num * WSIZE) mod 2 ^ 32 = 0 then do {
           bp \<leftarrow> find_fit_from s asize (free_listp s);
           if bp \<noteq> 0 then Some bp else seg_fit_from s asize class_num }
         else seg_fit_from s asize class_num)
      else Some 0)"

definition seg_find_fit :: "mmst \<Rightarrow> nat \<Rightarrow> nat option" where
  "seg_find_fit s asize = seg_fit_from s asize NUM_CLASSES"

section \<open>The shared code with these operations\<close>

definition seg_coalesce :: "mmst \<Rightarrow> nat \<Rightarrow> (mmst \<times> nat) option" where
  "seg_coalesce = coalesce_with seg_remove_block seg_insert_block"

definition seg_extend_heap :: "mmst \<Rightarrow> nat \<Rightarrow> (mmst \<times> nat) option" where
  "seg_extend_heap = extend_with seg_remove_block seg_insert_block"

definition seg_place :: "mmst \<Rightarrow> nat \<Rightarrow> nat \<Rightarrow> mmst option" where
  "seg_place = place_with seg_remove_block seg_insert_block"

definition seg_malloc :: "mmst \<Rightarrow> nat \<Rightarrow> (mmst \<times> nat) option" where
  "seg_malloc = malloc_with seg_remove_block seg_insert_block seg_find_fit"

definition seg_free :: "mmst \<Rightarrow> nat \<Rightarrow> mmst option" where
  "seg_free = free_with seg_remove_block seg_insert_block"

definition seg_realloc :: "mmst \<Rightarrow> nat \<Rightarrow> nat \<Rightarrow> (mmst \<times> nat) option" where
  "seg_realloc = realloc_with seg_remove_block seg_insert_block seg_find_fit"

section \<open>Initialisation\<close>

fun seg_clear :: "nat list \<Rightarrow> mmst \<Rightarrow> mmst option" where
  "seg_clear [] s = Some s"
| "seg_clear (i # is) s = do { s \<leftarrow> SET_PTR s (free_listp s + i * WSIZE) 0; seg_clear is s }"

definition seg_init :: "mmst \<Rightarrow> (mmst \<times> int) option" where
  "seg_init s =
     (case mem_sbrk (lib s) (int ((NUM_CLASSES + 4 + 8) * WSIZE)) of
        (l, None) \<Rightarrow> Some (s\<lparr>lib := l, free_listp := 2 ^ 32 - 1\<rparr>, -1)
      | (l, Some p) \<Rightarrow> do {
          let s = s\<lparr>lib := l, free_listp := p + WSIZE\<rparr>;
          s \<leftarrow> seg_clear [0..<NUM_CLASSES] s;
          let hp = free_listp s + NUM_CLASSES * WSIZE;
          let s = s\<lparr>heap_listp := hp\<rparr>;
          s \<leftarrow> PUT s hp 0;
          s \<leftarrow> PUT s (hp + 1 * WSIZE) (PACK FSIZE 1);
          s \<leftarrow> SET_PTR s (hp + 2 * WSIZE) 0;
          s \<leftarrow> SET_PTR s (hp + 3 * WSIZE) 0;
          s \<leftarrow> PUT s (hp + 4 * WSIZE) (PACK FSIZE 1);
          s \<leftarrow> PUT s (hp + 5 * WSIZE) 0;
          s \<leftarrow> PUT s (hp + 6 * WSIZE) 0;
          s \<leftarrow> PUT s (hp + 7 * WSIZE) (PACK 0 1);
          let s = s\<lparr>heap_listp := hp + DSIZE\<rparr>;
          (s, bp) \<leftarrow> seg_extend_heap s (CHUNKSIZE div WSIZE);
          Some (s, if bp = 0 then -1 else 0) })"

lemmas seg_code = seg_coalesce_def seg_extend_heap_def seg_place_def seg_malloc_def seg_free_def seg_realloc_def

end
