(* ===== verification/MmSegList.thy ===== *)
theory MmSegList
  imports MmContract MmSeg
begin

text \<open>
  The allocator with segregated free lists (\<^verbatim>\<open>mm.c\<close>) has the contract of an allocator with boundary tags: the
  free blocks are spread over twelve doubly linked lists.  Its search never finds a block.
\<close>

definition seg_heads :: "nat \<Rightarrow> nat \<Rightarrow> nat" where
  "seg_heads B c = B - 60 + 4 * c"

definition seg_links :: "(nat \<Rightarrow> nat) \<Rightarrow> nat \<Rightarrow> nat list \<Rightarrow> bool" where
  "seg_links W B fl \<longleftrightarrow> (\<exists>F. set fl = (\<Union>c<NUM_CLASSES. set (F c)) \<and> (\<forall>c<NUM_CLASSES. distinct (F c) \<and>
     dll W (seg_heads B c) (F c) \<and> (\<forall>d<NUM_CLASSES. d \<noteq> c \<longrightarrow> set (F c) \<inter> set (F d) = {})))"

definition seg_list :: flist where
  "seg_list = \<lparr>fl_off = 64, fl_heads = (\<lambda>B. seg_heads B ` {..<NUM_CLASSES}), fl_start = (\<lambda>B. B - 60),
     fl_links = seg_links\<rparr>"

lemma seg_list_simps [simp]:
  "fl_off seg_list = 64" "fl_heads seg_list B = seg_heads B ` {..<NUM_CLASSES}" "fl_start seg_list B = B - 60"
  "fl_links seg_list = seg_links"
  by (simp_all add: seg_list_def)

section \<open>One list\<close>

text \<open>Only the word \<open>p\<close> and the links of the nodes in \<open>A\<close> differ.\<close>

definition only_links :: "(nat \<Rightarrow> nat) \<Rightarrow> (nat \<Rightarrow> nat) \<Rightarrow> nat \<Rightarrow> nat set \<Rightarrow> bool" where
  "only_links W W' p A \<longleftrightarrow> (\<forall>q. W' q \<noteq> W q \<longrightarrow> q = p \<or> (\<exists>f\<in>A. q = f \<or> q = f + 4))"

text \<open>A list stays the same when only the links of others change.\<close>

lemma dll_other:
  assumes d: "dll W h ys" and o: "only_links W W' p A" and hp: "h \<noteq> p" "h + 8 \<le> b" "p + 8 \<le> b"
    and al: "\<forall>f\<in>A \<union> set ys. 8 dvd f \<and> b \<le> f" and dis: "A \<inter> set ys = {}"
  shows "dll W' h ys"
proof -
  have ne: "q \<noteq> f + 4" if "q \<in> A \<union> set ys" "f \<in> A \<union> set ys" for q f
    using aligned_ne al that by blast
  have yb: "\<forall>f\<in>set ys. b \<le> f" using al by blast
  have "dll W' h ys = dll W h ys"
  proof (rule dll_cong)
    fix q assume q: "q \<in> insert h (set ys)"
    show "W' q = W q"
    proof (rule ccontr)
      assume "W' q \<noteq> W q"
      then have c: "q = p \<or> (\<exists>f\<in>A. q = f \<or> q = f + 4)" using o by (simp add: only_links_def)
      show False
      proof (cases "q = h")
        case True
        then obtain f where f: "f \<in> A" "q = f \<or> q = f + 4" using c hp(1) by blast
        then have "b \<le> f" using al by blast
        then show ?thesis using f(2) hp(2) True by auto
      next
        case False
        then have y: "q \<in> set ys" using q by simp
        then have "q \<noteq> p" using yb hp(3) by auto
        then show ?thesis using c y dis ne by blast
      qed
    qed
  next
    fix q assume q: "q \<in> set ys"
    show "W' (q + 4) = W (q + 4)"
    proof (rule ccontr)
      assume "W' (q + 4) \<noteq> W (q + 4)"
      then have "q + 4 = p \<or> (\<exists>f\<in>A. q + 4 = f \<or> q + 4 = f + 4)" using o unfolding only_links_def by blast
      moreover have "q + 4 \<noteq> p" using yb q hp(3) by auto
      moreover have "f \<noteq> q + 4" if "f \<in> A" for f using ne [of f q] that q by blast
      ultimately show False using q dis by fastforce
    qed
  qed
  then show ?thesis using d by simp
qed

lemma seg_remove_exec:
  assumes dll: "dll (aw s) p (us @ x # vs)" and dist: "distinct (p # us @ x # vs)"
    and cl: "cell s p" and nodes: "\<forall>f\<in>set (us @ x # vs). node s f" and ap: "apart (set (p # us @ x # vs))"
    and hd: "valid s (x - 4)"
  shows "\<exists>s'. seg_remove_block s x = Some s' \<and> dll (aw s') p (us @ vs) \<and>
           link_change (set (p # us @ vs)) s s' \<and> only_links (aw s) (aw s') p (set (us @ vs))"
proof -
  define l where "l = last (p # us)"
  have l: "l \<in> set (p # us)" unfolding l_def by (rule last_in_set) simp
  have nx: "node s x" and cx: "cell s x" and cll: "cell s l" using nodes cl l by (auto intro: node_cell)
  have xl: "x \<noteq> l" using dist l by auto
  have "l \<noteq> x + 4" by (rule apart_D [OF ap]) (use l in auto)
  then have xl4: "x + 4 \<noteq> l" "l \<noteq> x + 4" by simp_all
  have W: "aw s x = (case vs of [] \<Rightarrow> 0 | v # _ \<Rightarrow> v)" "aw s (x + 4) = l"
    using dll_next [OF dll] by (simp_all add: l_def)
  obtain z where z: "GET_SIZE s (HDRP x) = Some z" using hd by (auto simp: GET_SIZE_def GET_def HDRP_4)
  show ?thesis
  proof (cases vs)
    case Nil
    let ?s = "put s l 0"
    have "seg_remove_block s x = Some ?s"
      using W Nil nx cx cll z
      by (simp add: seg_remove_block_def NEXT_FREEP_def node_get(2) cell_get cell_set)
    moreover have aw: "aw ?s = (aw s)(l := 0)" using cll by (simp add: aw_put_cell del: aw_put)
    then have "dll (aw ?s) p us"
      using dll_remove_last [of "aw s" p us x] dll dist ap Nil by (simp add: l_def del: dll.simps)
    moreover have "link_change (set (p # us)) s ?s"
      using l cll by (intro link_change_cell) simp_all
    moreover have "only_links (aw s) (aw ?s) p (set us)" using l by (auto simp: only_links_def aw)
    ultimately show ?thesis using Nil by auto
  next
    case (Cons v vs')
    have nv: "node s v" and lv: "l < 2 ^ 32" and vv: "v < 2 ^ 32" "v \<noteq> 0"
      using nodes Cons cll by (auto simp: node_def cell_def)
    let ?s = "put (put s l v) (v + 4) l"
    have "seg_remove_block s x = Some ?s"
      using W Cons nx cx cll nv xl xl4 vv z
      by (simp add: seg_remove_block_def NEXT_FREEP_def node_get(2) node_set(2) cell_get cell_set aw_put_cell del: aw_put)
    moreover have aw: "aw ?s = (aw s)(l := v, v + 4 := l)"
      using cll nv lv vv by (simp add: aw_put_cell aw_put_node(2) del: aw_put)
    then have "dll (aw ?s) p (us @ vs)"
      using dll_remove_mid [of "aw s" p us x v vs'] dll dist ap Cons
      by (simp add: l_def del: dll.simps)
    moreover have "link_change (set (p # us @ vs)) s ?s"
      using l cll nv vv lv Cons by (intro link_change_put(2) link_change_cell) auto
    moreover have "only_links (aw s) (aw ?s) p (set (us @ vs))" using l Cons by (auto simp: only_links_def aw)
    ultimately show ?thesis by blast
  qed
qed

text \<open>The walk ends inside of the list, behind its head or one of its nodes.\<close>

lemma seg_walk_dll:
  assumes "dll (aw s) p xs" and "\<forall>f\<in>set xs. node s f \<and> valid s (f - 4)"
  shows "\<exists>us vs. xs = us @ vs \<and> seg_walk s z p (aw s p) = Some (last (p # us), case vs of [] \<Rightarrow> 0 | v # _ \<Rightarrow> v)"
  using assms
proof (induction xs arbitrary: p)
  case Nil
  then show ?case by (subst seg_walk.simps) simp
next
  case (Cons x xs)
  then have x: "aw s p = x" "x \<noteq> 0" "node s x" "dll (aw s) x xs" by simp_all
  obtain w where w: "GET_SIZE s (HDRP x) = Some w" using Cons.prems(2) by (auto simp: GET_SIZE_def GET_def HDRP_4)
  show ?case
  proof (cases "z \<le> w")
    case True
    then have e: "seg_walk s z p (aw s p) = seg_walk s z x (aw s x)"
      using x w by (subst seg_walk.simps) (simp add: node_get)
    obtain us vs where "xs = us @ vs" "seg_walk s z x (aw s x) = Some (last (x # us), case vs of [] \<Rightarrow> 0 | v # _ \<Rightarrow> v)"
      using Cons.IH [OF x(4)] Cons.prems(2) by auto
    then have "x # xs = (x # us) @ vs \<and> seg_walk s z p (aw s p) = Some (last (p # x # us), case vs of [] \<Rightarrow> 0 | v # _ \<Rightarrow> v)"
      using e by simp
    then show ?thesis by blast
  next
    case False
    then have "seg_walk s z p (aw s p) = Some (p, x)" using x w by (subst seg_walk.simps) simp
    then show ?thesis by (intro exI [of _ "[]"] exI [of _ "x # xs"]) simp
  qed
qed

lemma dll_insert_mid:
  assumes "dll W p (us @ vs)" and "distinct (p # us @ x # vs)" and "apart (set (p # us @ x # vs))" and "x \<noteq> 0"
    and "l = last (p # us)"
    and "W' = (case vs of [] \<Rightarrow> W(x + 4 := l, x := 0, l := x) | v # _ \<Rightarrow> W(x + 4 := l, x := v, v + 4 := x, l := x))"
  shows "dll W' p (us @ x # vs)"
  using assms
proof (induction us arbitrary: p)
  case Nil
  then have l: "l = p" by simp
  show ?case
  proof (cases vs)
    case Nil
    have "W' = W(x + 4 := p, x := 0, p := x)" unfolding Nil.prems(6) Nil l by simp
    moreover have "dll (W(x + 4 := p, x := 0, p := x)) p [x]"
      by (rule dll_insert_empty) (use Nil.prems(1,2,4) Nil apart_D [OF Nil.prems(3), of p x] in \<open>simp_all\<close>)
    ultimately show ?thesis unfolding Nil by (simp only: append.simps)
  next
    case (Cons v ws)
    have "W' = W(x + 4 := p, x := v, v + 4 := x, p := x)" unfolding Nil.prems(6) Cons l by simp
    moreover have "dll (W(x + 4 := p, x := v, v + 4 := x, p := x)) p (x # v # ws)"
      by (rule dll_insert_cons) (use Nil.prems(1-4) Cons in \<open>simp_all del: dll.simps\<close>)
    ultimately show ?thesis unfolding Cons by (simp only: append.simps)
  qed
next
  case (Cons u us)
  note A = apart_D [OF Cons.prems(3)]
  have ap: "apart (set (u # us @ x # vs))" using Cons.prems(3) by (rule apart_mono) auto
  have lu: "l = last (u # us)" using Cons.prems(5) by simp
  have l: "l \<in> set (u # us)" unfolding lu by (rule last_in_set) simp
  have ih: "dll W' u (us @ x # vs)"
    by (rule Cons.IH [OF _ _ ap Cons.prems(4) lu Cons.prems(6)]) (use Cons.prems(1,2) in simp_all)
  have ne: "p \<noteq> l" "p \<noteq> x" "u \<noteq> x" using Cons.prems(2) l by auto
  have ne4: "p \<noteq> x + 4" "l \<noteq> u + 4" "x \<noteq> u + 4" by (rule A; use l in auto)+
  have v: "p \<noteq> v + 4" "u \<noteq> v" if "v \<in> set vs" for v
  proof -
    show "p \<noteq> v + 4" by (rule A) (use that in auto)
    show "u \<noteq> v" using Cons.prems(2) that by auto
  qed
  have "W' p = W p \<and> W' (u + 4) = W (u + 4)"
    unfolding Cons.prems(6) using ne ne4 v by (cases vs) auto
  then show ?case using Cons.prems(1) ih by simp
qed

lemma seg_insert_exec:
  assumes dll: "dll (aw s) p ys" and p: "p = free_listp s + size_class (get_asize z) NUM_CLASSES * WSIZE"
    and z: "GET_SIZE s (HDRP x) = Some z" and dist: "distinct (p # x # ys)" and cl: "cell s p"
    and nodes: "\<forall>f\<in>set (x # ys). node s f \<and> valid s (f - 4)" and ap: "apart (set (p # x # ys))"
  shows "\<exists>s' us vs. ys = us @ vs \<and> seg_insert_block s x = Some s' \<and> dll (aw s') p (us @ x # vs) \<and>
           link_change (set (p # x # ys)) s s' \<and> only_links (aw s) (aw s') p (set (x # ys))"
proof -
  obtain us vs where ys: "ys = us @ vs" and
      walk: "seg_walk s z p (aw s p) = Some (last (p # us), case vs of [] \<Rightarrow> 0 | v # _ \<Rightarrow> v)"
    using seg_walk_dll [OF dll, of z] nodes by auto
  define l where "l = last (p # us)"
  have l: "l \<in> set (p # us)" unfolding l_def by (rule last_in_set) simp
  note walk = walk [folded l_def]
  have n: "node s x" "cell s x" and cll: "cell s l" using nodes cl l ys by (auto intro: node_cell)
  have lt: "l < 2 ^ 32" "x < 2 ^ 32" "x \<noteq> 0" "l \<noteq> 0" using n cll by (auto simp: node_def cell_def)
  have ne: "l \<noteq> x" using dist l ys by auto
  have ne4: "l \<noteq> x + 4" "x \<noteq> l + 4" using apart_D [OF ap, of l x] apart_D [OF ap, of x l] l ys by auto
  have dist': "distinct (p # us @ x # vs)" and ap': "apart (set (p # us @ x # vs))"
    using dist ys by auto (rule apart_mono [OF ap], auto)
  have nf: "NEXT_FREE s p = Some (aw s p)" using cl by (rule cell_get)
  show ?thesis
  proof (cases vs)
    case Nil
    let ?s = "put (put (put s (x + 4) l) x 0) l x"
    have "seg_insert_block s x = Some ?s"
      using n cll lt walk nf z Nil
      by (simp add: seg_insert_block_def p [symmetric] NEXT_FREEP_def cell_set node_set(2))
    moreover have aw: "aw ?s = (aw s)(x + 4 := l, x := 0, l := x)"
      using n cll lt by (simp add: aw_put_node(2) aw_put_cell del: aw_put)
    moreover have "dll (aw ?s) p (us @ x # vs)"
      by (rule dll_insert_mid [OF _ dist' ap' lt(3) l_def]) (use dll ys Nil aw in simp_all)
    moreover have "link_change (set (p # x # ys)) s ?s"
      using n cll lt l ys by (intro link_change_put(2) link_change_cell) auto
    moreover have "only_links (aw s) (aw ?s) p (set (x # ys))" using l ys by (auto simp: only_links_def aw)
    ultimately show ?thesis using ys by blast
  next
    case (Cons v ws)
    let ?s = "put (put (put (put s (x + 4) l) x v) (v + 4) x) l x"
    have nv: "node s v" and v: "v < 2 ^ 32" "v \<noteq> 0" using nodes Cons ys by (auto simp: node_def)
    have "seg_insert_block s x = Some ?s"
      using n cll lt walk nf z Cons nv v ne ne4
      by (simp add: seg_insert_block_def p [symmetric] NEXT_FREEP_def cell_get cell_set node_set(2)
        aw_put_node(2) aw_put_cell del: aw_put)
    moreover have aw: "aw ?s = (aw s)(x + 4 := l, x := v, v + 4 := x, l := x)"
      using n cll lt nv v by (simp add: aw_put_node(2) aw_put_cell del: aw_put)
    moreover have "dll (aw ?s) p (us @ x # vs)"
      by (rule dll_insert_mid [OF _ dist' ap' lt(3) l_def]) (use dll ys Cons aw in simp_all)
    moreover have "link_change (set (p # x # ys)) s ?s"
      using n cll lt l ys nv v Cons by (intro link_change_put(2) link_change_cell) auto
    moreover have "only_links (aw s) (aw ?s) p (set (x # ys))" using l ys Cons by (auto simp: only_links_def aw)
    ultimately show ?thesis using ys by blast
  qed
qed

section \<open>All lists\<close>

lemma only_links_mono: "only_links W W' p A \<Longrightarrow> A \<subseteq> C \<Longrightarrow> only_links W W' p C"
  by (auto simp: only_links_def)

lemma seg_heads_bounds:
  assumes "8 dvd B" "64 \<le> B" "c < NUM_CLASSES"
  shows "4 dvd seg_heads B c" "B \<le> seg_heads B c + 64" "seg_heads B c + 16 \<le> B"
  using assms by (auto simp: seg_heads_def NUM_CLASSES_def)

lemma seg_heads_inj: "64 \<le> B \<Longrightarrow> seg_heads B c = seg_heads B d \<longleftrightarrow> c = d"
  by (auto simp: seg_heads_def)

lemma size_class_less: "0 < n \<Longrightarrow> size_class a n < n"
  by (induction n) (auto simp: less_Suc_eq)

text \<open>One list is replaced by another one.\<close>

lemma seg_replace:
  assumes F: "\<forall>c<NUM_CLASSES. distinct (F c) \<and> dll W (seg_heads B c) (F c) \<and>
      (\<forall>d<NUM_CLASSES. d \<noteq> c \<longrightarrow> set (F c) \<inter> set (F d) = {})"
    and c: "c < NUM_CLASSES" and B: "8 dvd B" "64 \<le> B"
    and o: "only_links W W' (seg_heads B c) (set G \<union> set (F c))"
    and al: "\<forall>f\<in>set G. 8 dvd f \<and> B + 32 \<le> f" "\<forall>d<NUM_CLASSES. \<forall>f\<in>set (F d). 8 dvd f \<and> B + 32 \<le> f"
    and G: "distinct G" "dll W' (seg_heads B c) G" "\<forall>d<NUM_CLASSES. d \<noteq> c \<longrightarrow> set G \<inter> set (F d) = {}"
    and fl: "set fl' = set G \<union> (\<Union>d\<in>{..<NUM_CLASSES} - {c}. set (F d))"
  shows "seg_links W' B fl'"
proof -
  let ?F = "F(c := G)"
  have "distinct (?F d) \<and> dll W' (seg_heads B d) (?F d) \<and>
      (\<forall>e<NUM_CLASSES. e \<noteq> d \<longrightarrow> set (?F d) \<inter> set (?F e) = {})" if d: "d < NUM_CLASSES" for d
  proof (cases "d = c")
    case True
    then show ?thesis using G by auto
  next
    case False
    have "dll W' (seg_heads B d) (F d)"
    proof (rule dll_other [where b = "B + 32"])
      show "dll W (seg_heads B d) (F d)" using F d by blast
      show "only_links W W' (seg_heads B c) (set G \<union> set (F c))" by (rule o)
      show "seg_heads B d \<noteq> seg_heads B c" using False seg_heads_inj [OF B(2)] by simp
      show "seg_heads B d + 8 \<le> B + 32" "seg_heads B c + 8 \<le> B + 32"
        using seg_heads_bounds(3) [OF B d] seg_heads_bounds(3) [OF B c] by simp_all
      show "\<forall>f\<in>set G \<union> set (F c) \<union> set (F d). 8 dvd f \<and> B + 32 \<le> f" using al c d by blast
      show "(set G \<union> set (F c)) \<inter> set (F d) = {}" using G(3) F c d False by blast
    qed
    then show ?thesis using F G(3) d False by auto
  qed
  moreover have "set fl' = (\<Union>d<NUM_CLASSES. set (?F d))" using fl c by (auto split: if_splits)
  ultimately show ?thesis unfolding seg_links_def by blast
qed

lemma seg_listed:
  assumes "listed seg_list s B A"
  shows "8 dvd B" "64 \<le> B" "\<And>c. c < NUM_CLASSES \<Longrightarrow> cell s (seg_heads B c)"
    "\<forall>f\<in>A. node s f \<and> valid s (f - 4)" "\<forall>f\<in>A. 8 dvd f \<and> B + 32 \<le> f"
  using assms by (auto simp: listed_def node_def)

lemma seg_apart:
  assumes "8 dvd B" "64 \<le> B" "c < NUM_CLASSES" "\<forall>f\<in>A. 8 dvd f \<and> B + 32 \<le> f"
  shows "apart (insert (seg_heads B c) A)" "seg_heads B c \<notin> A"
proof -
  note H = seg_heads_bounds [OF assms(1-3)]
  have "p \<noteq> q + 4" if "p \<in> A" "q \<in> A" for p q using aligned_ne assms(4) that by blast
  moreover have "seg_heads B c \<noteq> q + 4" "q \<noteq> seg_heads B c + 4" if "q \<in> A" for q
    using H(3) assms(4) that by fastforce+
  ultimately show "apart (insert (seg_heads B c) A)" unfolding apart_def by simp
  show "seg_heads B c \<notin> A" using H(3) assms(4) by fastforce
qed

lemma seg_links_mono:
  assumes "seg_links W B fl" and "\<And>c. c < NUM_CLASSES \<Longrightarrow> W' (seg_heads B c) = W (seg_heads B c)"
    and "\<And>f. f \<in> set fl \<Longrightarrow> W' f = W f \<and> W' (f + 4) = W (f + 4)"
  shows "seg_links W' B fl"
proof -
  obtain F where fl: "set fl = (\<Union>c<NUM_CLASSES. set (F c))" and
    F: "\<forall>c<NUM_CLASSES. distinct (F c) \<and> dll W (seg_heads B c) (F c) \<and>
      (\<forall>d<NUM_CLASSES. d \<noteq> c \<longrightarrow> set (F c) \<inter> set (F d) = {})"
    using assms(1) unfolding seg_links_def by blast
  have "dll W' (seg_heads B c) (F c)" if c: "c < NUM_CLASSES" for c
  proof -
    have "set (F c) \<subseteq> set fl" using fl c by blast
    then have "dll W' (seg_heads B c) (F c) = dll W (seg_heads B c) (F c)"
      using assms(2,3) c by (intro dll_cong) auto
    then show ?thesis using F c by blast
  qed
  then show ?thesis using fl F unfolding seg_links_def by blast
qed

interpretation seg: free_list seg_list seg_remove_block seg_insert_block
proof
  show "4 dvd h \<and> B \<le> h + fl_off seg_list \<and> h + 8 \<le> B + 24 \<and> h \<noteq> B + 4 \<and> h \<noteq> B"
    if "8 dvd B" "fl_off seg_list \<le> B" "h \<in> fl_heads seg_list B" for B h
    using that seg_heads_bounds [of B] by fastforce
  show "fl_links seg_list W' B fl = fl_links seg_list W B fl"
    if W: "\<And>h. h \<in> fl_heads seg_list B \<Longrightarrow> W' h = W h"
      "\<And>f. f \<in> set fl \<Longrightarrow> W' f = W f \<and> W' (f + 4) = W (f + 4)" for W W' B fl
    unfolding seg_list_simps by (rule iffI; erule seg_links_mono) (use W in auto)
next
  fix s B x and fl :: "nat list"
  assume L: "listed seg_list s B (set fl)" and d: "fl_links seg_list (aw s) B fl" "distinct fl" "x \<in> set fl"
  note S = seg_listed [OF L]
  obtain F where fl: "set fl = (\<Union>c<NUM_CLASSES. set (F c))" and
    F: "\<forall>c<NUM_CLASSES. distinct (F c) \<and> dll (aw s) (seg_heads B c) (F c) \<and>
      (\<forall>d<NUM_CLASSES. d \<noteq> c \<longrightarrow> set (F c) \<inter> set (F d) = {})"
    using d(1) unfolding seg_list_simps seg_links_def by blast
  obtain c where c: "c < NUM_CLASSES" "x \<in> set (F c)" using d(3) fl by auto
  obtain us vs where u: "F c = us @ x # vs" using c(2) by (auto simp: in_set_conv_decomp)
  let ?h = "seg_heads B c"
  have "distinct (F c) \<and> dll (aw s) ?h (F c) \<and> set (F c) \<subseteq> set fl" using F c(1) fl by blast
  then have Fc: "distinct (us @ x # vs)" "dll (aw s) ?h (us @ x # vs)" "set (us @ x # vs) \<subseteq> set fl"
    unfolding u by blast+
  have Fd: "set (us @ x # vs) \<inter> set (F e) = {}" if "e < NUM_CLASSES" "e \<noteq> c" for e
    using F c(1) that unfolding u [symmetric] by blast
  have al: "\<forall>f\<in>set (us @ x # vs). 8 dvd f \<and> B + 32 \<le> f" using S(5) Fc(3) by blast
  note A = seg_apart [OF S(1,2) c(1) al]
  have "distinct (?h # us @ x # vs)" "apart (set (?h # us @ x # vs))"
    "\<forall>f\<in>set (us @ x # vs). node s f" "valid s (x - 4)"
    using A Fc(1,3) S(4) d(3) by auto
  from seg_remove_exec [OF Fc(2) this(1) S(3) [OF c(1)] this(3,2,4)]
  obtain s' where s': "seg_remove_block s x = Some s'" "dll (aw s') ?h (us @ vs)"
      "link_change (set (?h # us @ vs)) s s'" "only_links (aw s) (aw s') ?h (set (us @ vs))" by blast
  have "set fl = set (F c) \<union> (\<Union>e\<in>{..<NUM_CLASSES} - {c}. set (F e))" using fl c(1) by auto
  moreover have "x \<notin> (\<Union>e\<in>{..<NUM_CLASSES} - {c}. set (F e))" using Fd by fastforce
  moreover have "set (F c) - {x} = set (us @ vs)" using u Fc(1) by auto
  ultimately have r: "set (remove1 x fl) = set (us @ vs) \<union> (\<Union>e\<in>{..<NUM_CLASSES} - {c}. set (F e))"
    unfolding set_remove1_eq [OF d(2)] by blast
  have "seg_links (aw s') B (remove1 x fl)"
  proof (rule seg_replace [OF F c(1) S(1,2) _ _ _ _ s'(2)])
    show "only_links (aw s) (aw s') ?h (set (us @ vs) \<union> set (F c))" by (rule only_links_mono [OF s'(4)]) simp
    show "\<forall>f\<in>set (us @ vs). 8 dvd f \<and> B + 32 \<le> f" using al by simp
    show "\<forall>d<NUM_CLASSES. \<forall>f\<in>set (F d). 8 dvd f \<and> B + 32 \<le> f" using S(5) fl by blast
    show "distinct (us @ vs)" using Fc(1) by simp
    show "\<forall>d<NUM_CLASSES. d \<noteq> c \<longrightarrow> set (us @ vs) \<inter> set (F d) = {}" using Fd by fastforce
  qed (rule r)
  moreover have "link_change (fl_heads seg_list B \<union> (set fl - {x})) s s'"
    by (rule link_change_mono [OF s'(3)]) (use c(1) Fc(1,3) in auto)
  ultimately show "\<exists>s'. seg_remove_block s x = Some s' \<and> fl_links seg_list (aw s') B (remove1 x fl) \<and>
      link_change (fl_heads seg_list B \<union> (set fl - {x})) s s'"
    using s'(1) seg_list_simps(4) by metis
next
  fix s B x and fl :: "nat list"
  assume L: "listed seg_list s B (insert x (set fl))" and d: "fl_links seg_list (aw s) B fl" "distinct fl" "x \<notin> set fl"
    "free_listp s = fl_start seg_list B"
  note S = seg_listed [OF L]
  obtain F where fl: "set fl = (\<Union>c<NUM_CLASSES. set (F c))" and
    F: "\<forall>c<NUM_CLASSES. distinct (F c) \<and> dll (aw s) (seg_heads B c) (F c) \<and>
      (\<forall>d<NUM_CLASSES. d \<noteq> c \<longrightarrow> set (F c) \<inter> set (F d) = {})"
    using d(1) unfolding seg_list_simps seg_links_def by blast
  obtain z where z: "GET_SIZE s (HDRP x) = Some z" using S(4) by (auto simp: GET_SIZE_def GET_def HDRP_4)
  define c where "c = size_class (get_asize z) NUM_CLASSES"
  have c: "c < NUM_CLASSES" unfolding c_def by (rule size_class_less) (simp add: NUM_CLASSES_def)
  let ?h = "seg_heads B c"
  have h: "?h = free_listp s + size_class (get_asize z) NUM_CLASSES * WSIZE"
    using d(4) S(2) by (simp add: seg_heads_def c_def WSIZE_def)
  have Fc: "distinct (F c)" "dll (aw s) ?h (F c)" "set (F c) \<subseteq> set fl" using F c fl by blast+
  then have xc: "x \<notin> set (F c)" using d(3) by blast
  have al: "\<forall>f\<in>set (x # F c). 8 dvd f \<and> B + 32 \<le> f" using S(5) Fc(3) by auto
  note A = seg_apart [OF S(1,2) c al]
  have "distinct (?h # x # F c)" "apart (set (?h # x # F c))" "\<forall>f\<in>set (x # F c). node s f \<and> valid s (f - 4)"
    using A Fc(1,3) xc S(4) by auto
  from seg_insert_exec [OF Fc(2) h z this(1) S(3) [OF c] this(3,2)]
  obtain s' us vs where s': "F c = us @ vs" "seg_insert_block s x = Some s'" "dll (aw s') ?h (us @ x # vs)"
      "link_change (set (?h # x # F c)) s s'" "only_links (aw s) (aw s') ?h (set (x # F c))" by blast
  have "seg_links (aw s') B (x # fl)"
  proof (rule seg_replace [OF F c S(1,2) _ _ _ _ s'(3)])
    show "only_links (aw s) (aw s') ?h (set (us @ x # vs) \<union> set (F c))"
      by (rule only_links_mono [OF s'(5)]) (simp add: s'(1))
    show "\<forall>f\<in>set (us @ x # vs). 8 dvd f \<and> B + 32 \<le> f" using al s'(1) by auto
    show "\<forall>d<NUM_CLASSES. \<forall>f\<in>set (F d). 8 dvd f \<and> B + 32 \<le> f" using S(5) fl by blast
    show "distinct (us @ x # vs)" using Fc(1) xc s'(1) by auto
    have "set (us @ x # vs) = insert x (set (F c))" using s'(1) by auto
    then show "\<forall>d<NUM_CLASSES. d \<noteq> c \<longrightarrow> set (us @ x # vs) \<inter> set (F d) = {}"
      using F c d(3) fl by auto
    show "set (x # fl) = set (us @ x # vs) \<union> (\<Union>e\<in>{..<NUM_CLASSES} - {c}. set (F e))"
      using fl c s'(1) by auto
  qed
  moreover have "link_change (fl_heads seg_list B \<union> insert x (set fl)) s s'"
    by (rule link_change_mono [OF s'(4)]) (use c Fc(3) in auto)
  ultimately show "\<exists>s' fl'. seg_insert_block s x = Some s' \<and> fl_links seg_list (aw s') B fl' \<and> distinct fl' \<and>
      set fl' = insert x (set fl) \<and> link_change (fl_heads seg_list B \<union> insert x (set fl)) s s'"
    using s'(2) d(2,3) by (intro exI [of _ s'] exI [of _ "x # fl"]) simp
qed

section \<open>Searching\<close>

text \<open>No head has the address 0, so no list is ever searched.\<close>

lemma seg_fit_from_0:
  assumes "0 < free_listp s" and "free_listp s + 4 * c < 2 ^ 32 + 4"
  shows "seg_fit_from s a c = Some 0"
  using assms(2)
proof (induction c)
  case (Suc c)
  then have "0 < free_listp s + c * WSIZE" "free_listp s + c * WSIZE < 2 ^ 32"
    using assms(1) by (simp_all add: WSIZE_def)
  then have "(free_listp s + c * WSIZE) mod 2 ^ 32 \<noteq> 0" by simp
  then show ?case using Suc by simp
qed simp

lemma seg_find_fit_0:
  assumes "0 < free_listp s" and "free_listp s < 2 ^ 31"
  shows "seg_find_fit s a = Some 0"
  unfolding seg_find_fit_def by (rule seg_fit_from_0) (use assms in \<open>simp_all add: NUM_CLASSES_def\<close>)

lemma seg_start:
  assumes "hp0 seg_list s bs fl"
  shows "0 < free_listp s" "free_listp s < 2 ^ 31"
  using assms hp0_fl(5) [OF assms] by (auto simp: hp0_def layout_def mem_wf_def base_def)

interpretation seg: boundary_tags seg_list seg_remove_block seg_insert_block seg_find_fit
proof
  show "seg_find_fit s a = Some 0 \<or> (\<exists>bp z. seg_find_fit s a = Some bp \<and> (bp, z, False) \<in> set (blks (org seg_list s) bs) \<and> a \<le> z)"
    if "heap_ok seg_list s bs fl" for s bs fl a
    using seg_find_fit_0 seg_start [OF heap_ok_D(1) [OF that]] by blast
qed

end
