(* ===== verification/MmSegInit.thy ===== *)
theory MmSegInit
  imports MmSegList
begin

text \<open>
  \<^verbatim>\<open>mm_init\<close> of the allocator with segregated lists (\<^verbatim>\<open>mm.c\<close>).  It reserves twelve words for the heads and
  twelve more, of which it writes eight: the word that \<^verbatim>\<open>PREV_BLKP\<close> of the first block reads, 88 bytes
  above the start of the storage, is not one of them.  The storage of the driver comes from \<^verbatim>\<open>malloc\<close>, so that
  this word is a hypothesis on the storage, which no later operation invalidates.
\<close>

definition seg_sound :: "mmst \<Rightarrow> bool" where
  "seg_sound s \<longleftrightarrow> sound s \<and> aw s (mem_start_brk (lib s) + 88) = 0"

lemma seg_sound_sound: "seg_sound s \<Longrightarrow> sound s"
  by (simp add: seg_sound_def)

lemma aw_cong: "mem s' = mem s \<Longrightarrow> aw s' = aw s"
  by (rule ext) (simp add: aw_def)

section \<open>Clearing the heads\<close>

definition clear_put :: "nat list \<Rightarrow> mmst \<Rightarrow> mmst" where
  "clear_put = fold (\<lambda>i s. put s (free_listp s + i * 4) 0)"

lemma clear_put_simps:
  "clear_put [] s = s" "clear_put (i # is) s = clear_put is (put s (free_listp s + i * 4) 0)"
  by (simp_all add: clear_put_def)

lemma clear_put_ctl: "ctl s (clear_put is s)"
  by (induction "is" arbitrary: s) (auto simp: clear_put_simps intro: ctl_trans [OF ctl_put])

lemma seg_clear_put:
  "\<forall>i\<in>set is. valid s (free_listp s + i * 4) \<Longrightarrow> seg_clear is s = Some (clear_put is s)"
  by (induction "is" arbitrary: s) (simp_all add: clear_put_simps SET_PTR_def PUT_put WSIZE_def)

lemma aw_clear_put:
  assumes "4 dvd free_listp s"
  shows "aw (clear_put is s) q = (if q \<in> (\<lambda>i. free_listp s + i * 4) ` set is then 0 else aw s q)"
  using assms
proof (induction "is" arbitrary: s)
  case (Cons i "is")
  then have "4 dvd free_listp s + i * 4" by simp
  then show ?case using Cons by (auto simp: clear_put_simps)
qed (simp add: clear_put_simps)

section \<open>The initial heap\<close>

definition seg_init_heap :: "mmst \<Rightarrow> nat \<Rightarrow> mmst" where
  "seg_init_heap s b = (let
     s = clear_put [0..<12] (s\<lparr>lib := (lib s)\<lparr>mem_brk := b + 96\<rparr>, free_listp := b + 4\<rparr>);
     s = s\<lparr>heap_listp := b + 52\<rparr>;
     s = put (put (put (put s (b + 52) 0) (b + 56) 25) (b + 60) 0) (b + 64) 0;
     s = put (put (put (put s (b + 68) 25) (b + 72) 0) (b + 76) 0) (b + 80) 1
   in s\<lparr>heap_listp := b + 60\<rparr>)"

lemma seg_init_heap_simps:
  "lib (seg_init_heap s b) = (lib s)\<lparr>mem_brk := b + 96\<rparr>" "free_listp (seg_init_heap s b) = b + 4"
  using clear_put_ctl [of "s\<lparr>lib := (lib s)\<lparr>mem_brk := b + 96\<rparr>, free_listp := b + 4\<rparr>" "[0..<12]"]
  by (simp_all add: seg_init_heap_def Let_def ctl_def)

lemma seg_init_heap_aw:
  assumes "8 dvd b"
  shows "aw (seg_init_heap s b) (b + 68) = 25" "aw (seg_init_heap s b) (b + 88) = aw s (b + 88)"
    "c < 12 \<Longrightarrow> aw (seg_init_heap s b) (b + 4 + c * 4) = 0"
proof -
  define t where "t = s\<lparr>lib := (lib s)\<lparr>mem_brk := b + 96\<rparr>, free_listp := b + 4\<rparr>"
  have d: "4 dvd b" using assms by presburger
  have t: "4 dvd free_listp t" "free_listp t = b + 4" using d by (simp_all add: t_def)
  have ts: "aw t = aw s" by (rule aw_cong) (simp add: t_def)
  have eq: "aw (u\<lparr>heap_listp := h\<rparr>) = aw u" for u h by (rule aw_cong) simp
  have W: "aw (seg_init_heap s b) = (aw (clear_put [0..<12] t))(b + 52 := 0, b + 56 := 25, b + 60 := 0, b + 64 := 0,
      b + 68 := 25, b + 72 := 0, b + 76 := 0, b + 80 := 1)"
    using d by (simp add: seg_init_heap_def Let_def t_def [symmetric] eq)
  show "aw (seg_init_heap s b) (b + 68) = 25" unfolding W by simp
  have "b + 88 \<notin> (\<lambda>i. b + 4 + i * 4) ` set [0..<12]" by auto
  then show "aw (seg_init_heap s b) (b + 88) = aw s (b + 88)"
    unfolding W using t ts by (simp add: aw_clear_put del: set_upt)
  assume c: "c < 12"
  then have "b + 4 + c * 4 \<in> (\<lambda>i. b + 4 + i * 4) ` set [0..<12]" by auto
  then have "aw (clear_put [0..<12] t) (b + 4 + c * 4) = 0"
    using aw_clear_put [OF t(1), of "[0..<12]"] t(2) by simp
  then show "aw (seg_init_heap s b) (b + 4 + c * 4) = 0" using c unfolding W by simp
qed

lemma seg_init_exec:
  assumes m: "mem_wf (lib s)" "mem_brk (lib s) = b" "mem_start_brk (lib s) = b" and room: "b + 96 \<le> mem_max_addr (lib s)"
  shows "seg_init s = do { (s', bp) \<leftarrow> seg_extend_heap (seg_init_heap s b) 1024; Some (s', if bp = 0 then -1 else 0) }"
proof -
  have sb: "mem_sbrk (lib s) (int ((NUM_CLASSES + 4 + 8) * WSIZE)) = ((lib s)\<lparr>mem_brk := b + 96\<rparr>, Some b)"
    using mem_sbrk_wf_eq [OF m(1), of 96] m(2) room by (simp add: mm_consts NUM_CLASSES_def)
  let ?t = "s\<lparr>lib := (lib s)\<lparr>mem_brk := b + 96\<rparr>, free_listp := b + 4\<rparr>"
  define u where "u = clear_put [0..<12] ?t"
  have c: "seg_clear [0..<NUM_CLASSES] ?t = Some u"
    unfolding u_def NUM_CLASSES_def by (rule seg_clear_put) (use m room in \<open>auto simp: valid_def\<close>)
  have l: "lib u = (lib s)\<lparr>mem_brk := b + 96\<rparr>" "free_listp u = b + 4"
    using clear_put_ctl [of ?t "[0..<12]"] by (simp_all add: u_def ctl_def)
  have v: "valid (u\<lparr>heap_listp := h\<rparr>) (x + b)" if "x + 4 \<le> 96" "x mod 4 = 0" for h x
    using m(3) room that by (simp add: valid_def l)
  have pk: "PACK 24 1 = 25" "PACK 0 1 = 1" by (simp_all add: PACK_def)
  have "free_listp u + NUM_CLASSES * WSIZE = b + 52" by (simp add: l NUM_CLASSES_def WSIZE_def)
  moreover have "b + numeral n = numeral n + b" for n by simp
  ultimately show ?thesis
    unfolding seg_init_def sb Let_def
    by (simp add: SET_PTR_def mm_consts PUT_put v pk c seg_init_heap_def u_def [symmetric] del: One_nat_def)
      (simp only: add.commute [of b])
qed

section \<open>The first block\<close>

text \<open>
  The epilogue header that \<^verbatim>\<open>mm_init\<close> writes is twelve bytes below the word that would be one.  The header of
  the block that \<^verbatim>\<open>extend_heap\<close> makes overwrites that word, so that this makes no difference.
\<close>

lemma put_put_same: "put (put s p v) p w = put s p w"
proof -
  have "wr4 (wr4 m p v) p w = wr4 m p w" for m by (simp add: wr4_def fun_upd_twist)
  then show ?thesis by (simp add: put_def)
qed

lemma extend_epilogue:
  assumes m: "mem_wf (lib s)" "chunk n < 2 ^ 31" "mem_brk (lib s) + chunk n \<le> mem_max_addr (lib s)"
    and p: "p + 4 = mem_brk (lib s)"
  shows "extend_with rm ins (put s p v) n = extend_with rm ins s n"
proof -
  let ?l = "(lib s)\<lparr>mem_brk := mem_brk (lib s) + chunk n\<rparr>"
  have sz: "(if n mod 2 \<noteq> 0 then (n + 1) * WSIZE else n * WSIZE) = chunk n" by (simp add: chunk_def)
  have i: "to_int32 (chunk n) = int (chunk n)" using m(2) by (simp add: to_int32_def)
  have sb: "mem_sbrk (lib s) (int (chunk n)) = (?l, Some (mem_brk (lib s)))"
    using mem_sbrk_wf_eq [OF m(1), of "int (chunk n)"] m(2,3) by simp
  have h: "HDRP (mem_brk (lib s)) = p" using p by (simp add: HDRP_def WSIZE_def)
  have "put (put s p v\<lparr>lib := ?l\<rparr>) p w = put (s\<lparr>lib := ?l\<rparr>) p w" for w
    using put_put_same [of "s\<lparr>lib := ?l\<rparr>" p v w] by (simp add: put_def)
  then have "PUT (put s p v\<lparr>lib := ?l\<rparr>) p w = PUT (s\<lparr>lib := ?l\<rparr>) p w" for w
    by (simp add: PUT_def put_def valid_def)
  then show ?thesis unfolding extend_with_def Let_def sz put_simps i sb prod.case option.case h by (simp only:)
qed

lemma seg_init_heap_ok:
  assumes s: "seg_sound s" "mem_brk (lib s) = mem_start_brk (lib s)"
    and room: "mem_start_brk (lib s) + 96 \<le> mem_max_addr (lib s)"
  shows "heap_ok seg_list (put (seg_init_heap s (mem_start_brk (lib s))) (mem_start_brk (lib s) + 92) 1) [] []"
proof -
  let ?b = "mem_start_brk (lib s)"
  let ?t = "seg_init_heap s ?b"
  have b: "8 dvd ?b" "mem_wf (lib s)" "aw s (?b + 88) = 0" using s by (simp_all add: seg_sound_def sound_def)
  note S = seg_init_heap_simps [of s ?b] and W = seg_init_heap_aw [where s = s, OF b(1)]
  have d: "4 dvd ?b + 92" using b(1) by presburger
  let ?u = "put ?t (?b + 92) 1"
  have aw: "aw ?u = (aw ?t)(?b + 92 := 1)" using d by simp
  have bs: "base seg_list ?u = ?b + 64" by (simp add: base_def S)
  have "aw ?u (seg_heads (?b + 64) c) = 0" if "c < NUM_CLASSES" for c
  proof -
    have "seg_heads (?b + 64) c = ?b + 4 + c * 4" by (simp add: seg_heads_def)
    then show ?thesis unfolding aw using W(3) [of c] that by (simp add: NUM_CLASSES_def)
  qed
  then have l: "seg_links (aw ?u) (?b + 64) []" unfolding seg_links_def by (intro exI [of _ "\<lambda>_. []"]) simp
  have "layout seg_list (aw ?u) (?b + 64) (?b + 96) [] []"
    unfolding layout_def aw using W(1,2) b(3) l [unfolded aw] by (simp add: tg_def tagged_def add.commute)
  then show ?thesis
    using b room unfolding heap_ok_def hp0_def bs by (simp add: S mem_wf_def seg_heads_def)
qed

lemma seg_init_ok:
  assumes s: "seg_sound s" "mem_brk (lib s) = mem_start_brk (lib s)"
  shows "\<exists>s' r. seg_init s = Some (s', r) \<and> (r < 0 \<and> seg_sound s' \<or>
    (\<exists>bs fl. heap_ok seg_list s' bs fl \<and> allocs (org seg_list s') bs = {}))"
proof -
  let ?b = "mem_start_brk (lib s)"
  let ?t = "seg_init_heap s ?b"
  have m: "mem_wf (lib s)" "8 dvd ?b" "aw s (?b + 88) = 0" using s(1) by (simp_all add: seg_sound_def sound_def)
  note S = seg_init_heap_simps [of s ?b] and W = seg_init_heap_aw [where s = s, OF m(2)]
  have ch: "chunk 1024 = 4096" by (simp add: chunk_def WSIZE_def)
  show ?thesis
  proof (cases "?b + 96 \<le> mem_max_addr (lib s)")
    case r: True
    note e = seg_init_exec [OF m(1) s(2) refl r]
    have wf: "mem_wf (lib ?t)" using m(1) r by (simp add: S mem_wf_def)
    show ?thesis
    proof (cases "?b + 96 + 4096 \<le> mem_max_addr (lib s)")
      case True
      let ?u = "put ?t (?b + 92) 1"
      have "mem_brk (lib ?u) + 4096 \<le> mem_max_addr (lib ?u)" using True by (simp add: S)
      from seg.extend_heap_ok [OF seg_init_heap_ok [OF s r] ch [symmetric] _ this]
      obtain s' bp bs fl where x: "extend_with seg_remove_block seg_insert_block ?u 1024 = Some (s', bp)" "heap_ok seg_list s' bs fl"
          "evolves seg_list ?u [] (allocs (org seg_list ?u) []) s' bs" "bp \<noteq> 0"
        by auto
      have "extend_with seg_remove_block seg_insert_block ?u 1024 = seg_extend_heap ?t 1024"
        unfolding seg_code by (rule extend_epilogue [OF wf]) (use True ch in \<open>simp_all add: S\<close>)
      then have "seg_init s = Some (s', 0)" using e x(1,4) by simp
      moreover have "allocs (org seg_list s') bs = {}" using x(3) by (simp add: evolves_def)
      ultimately show ?thesis using x(2) by blast
    next
      case False
      have "mem_sbrk (lib ?t) (to_int32 4096) = (lib ?t, None)"
        using mem_sbrk_wf_eq [OF wf, of 4096] False by (simp add: to_int32_def S)
      then have "seg_extend_heap ?t 1024 = Some (?t, 0)" by (simp add: seg_code extend_with_def WSIZE_def)
      moreover have "seg_sound ?t" using wf m W(2) by (simp add: seg_sound_def sound_def S)
      ultimately show ?thesis using e by simp
    qed
  next
    case False
    then have "mem_sbrk (lib s) (int ((NUM_CLASSES + 4 + 8) * WSIZE)) = (lib s, None)"
      using mem_sbrk_wf_eq [OF m(1), of 96] s(2) by (simp add: WSIZE_def NUM_CLASSES_def)
    moreover have "aw (s\<lparr>lib := lib s, free_listp := 2 ^ 32 - 1\<rparr>) = aw s" by (rule aw_cong) simp
    ultimately show ?thesis using s(1) by (simp add: seg_init_def seg_sound_def sound_def)
  qed
qed

interpretation seg: boundary_pkg seg_list seg_remove_block seg_insert_block seg_find_fit seg_init seg_sound
proof
  show "sound s \<and> seg_sound (s\<lparr>lib := mem_reset_brk (lib s)\<rparr>)" if "seg_sound s" for s
  proof -
    have "aw (s\<lparr>lib := mem_reset_brk (lib s)\<rparr>) = aw s" by (rule aw_cong) simp
    then show ?thesis using that sound_reset [of s] by (simp add: seg_sound_def mem_reset_brk_def)
  qed
  show "seg_sound s" if h: "heap_ok seg_list s bs fl" for s bs fl
  proof -
    have H: "hp0 seg_list s bs fl" by (rule heap_ok_D(1) [OF h])
    then have "aw s (base seg_list s + 24) = 0" by (simp add: hp0_def layout_def)
    moreover have "8 dvd mem_start_brk (lib s)"
      using hp0_D(2) [OF H] dvd_add_left_iff [of 8 64 "mem_start_brk (lib s)"] by (simp add: base_def)
    ultimately show ?thesis
      using hp0_D(1) [OF H] by (simp add: seg_sound_def sound_def base_def add.assoc)
  qed
qed (rule seg_init_ok)

section \<open>As an allocator for the driver\<close>

definition seg_pkg :: mm_pkg where
  "seg_pkg = \<lparr>pk_init = seg_init, pk_malloc = seg_malloc, pk_free = seg_free, pk_realloc = seg_realloc\<rparr>"

lemma seg_pkg_tags: "seg_pkg = tags_pkg seg_remove_block seg_insert_block seg_find_fit seg_init"
  by (simp add: seg_pkg_def tags_pkg_def seg_code)

end
