(* ===== verification/MmSegTheorems.thy ===== *)
theory MmSegTheorems
  imports MmSegInit MmTheorems
begin

text \<open>
  The properties of the allocator with segregated free lists (\<^verbatim>\<open>mm.c\<close>).
\<close>

lemma fresh_seg: "seg_sound fresh"
  by (simp add: seg_sound_def sound_def fresh_def mem_wf_def MAX_HEAP_def aw_def rd4_def)

text \<open>
  C7. \<^verbatim>\<open>mm_malloc\<close> of \<^verbatim>\<open>mm.c\<close> on a well-formed heap always returns.  Either it returns NULL, the state is
  unchanged and the storage cannot be extended; or it returns a fresh 8-aligned block with room for the
  request and at most 40 bytes more, the heap is well formed again and keeps what was allocated.  In
  that case it always moved the break, by the adjusted size or a chunk, whatever free blocks
  there were: \<^verbatim>\<open>find_fit\<close> tests the address of a list head instead of its contents, so that
  memory that was freed is only used again where the end of the heap is free.
\<close>

theorem seg_malloc_grows:
  assumes "heap_ok seg_list s bs fl" and "0 < n" and "n < 2 ^ 32 - 15"
  shows "seg_find_fit s (get_asize n) = Some 0 \<and>
    (seg_malloc s n = Some (s, 0) \<and> mem_max_addr (lib s) < mem_brk (lib s) + max (get_asize n) CHUNKSIZE \<or>
     (\<exists>s' p bs' fl' z. seg_malloc s n = Some (s', p) \<and> p \<noteq> 0 \<and> 8 dvd p \<and> heap_ok seg_list s' bs' fl' \<and>
       n + 8 \<le> z \<and> z < n + 40 \<and> evolves seg_list s bs (insert (p, z) (allocs (org seg_list s) bs)) s' bs' \<and>
       p \<notin> fst ` allocs (org seg_list s) bs \<and>
       mem_brk (lib s') = mem_brk (lib s) + max (get_asize n) CHUNKSIZE))"
proof -
  have f: "seg_find_fit s (get_asize n) = Some 0"
    by (rule seg_find_fit_0) (use seg_start [OF heap_ok_D(1) [OF assms(1)]] in blast)+
  show ?thesis using seg.malloc_ok [OF assms] f unfolding seg_code by blast
qed

theorem seg_malloc_grows_witness:
  "\<exists>s s' p. heap_ok seg_list s [] [] \<and> seg_malloc s 100 = Some (s', p) \<and> p \<noteq> 0 \<and> mem_brk (lib s') = mem_brk (lib s) + 4096"
proof -
  define s where "s = put (seg_init_heap fresh 4096) 4188 1"
  have h: "heap_ok seg_list s [] []"
    using seg_init_heap_ok [OF fresh_seg] fresh_facts by (simp add: s_def fresh_def MAX_HEAP_def)
  have "mem_brk (lib s) = 4192" "mem_max_addr (lib s) = 4096 + MAX_HEAP"
    by (simp_all add: s_def seg_init_heap_simps fresh_def)
  moreover have "max (get_asize 100) CHUNKSIZE = 4096" by (simp add: get_asize_def mm_consts)
  ultimately show ?thesis using seg_malloc_grows [OF h, of 100] h by (auto simp: MAX_HEAP_def)
qed

text \<open>
  The driver finds no fault with \<^verbatim>\<open>mm.c\<close> either: on a good trace, \<^verbatim>\<open>eval_mm_valid\<close> with this allocator reports
  at most that the memory ran out.
\<close>

theorem driver_accepts_seg:
  assumes "seg_sound s" and "length (blocks t) = n" and "length (block_sizes t) = n" and "good_ops n {} (trace_ops t)"
  shows "\<exists>res. eval_mm_valid seg_pkg s t ranges = Some res \<and>
    (\<forall>i e s'. res = Inl (i, e, s') \<longrightarrow> e \<in> {Init_failed, Malloc_failed, Realloc_failed})"
  using seg.eval_mm_valid_ok [OF assms(1), of t n ranges] assms(2-4) unfolding seg_pkg_tags by blast

end
