(* ===== verification/MdriverCorrect.thy ===== *)
theory MdriverCorrect
  imports MdriverMain MmSegTheorems
begin

text \<open>
  The driver of the malloc lab as a whole, on an allocator with the contract: it ends, it can only
  complain about missing memory, and the performance index has the parts that it promises.
\<close>

section \<open>Good traces and harmless messages\<close>

definition good_file :: "world \<Rightarrow> opts \<Rightarrow> string \<Rightarrow> bool" where
  "good_file w opt f \<longleftrightarrow> length (tracedir opt @ f) < DRV_MAXLINE \<and>
     (\<exists>ws t. w_files w (tracedir opt @ f) = Some ws \<and> read_trace ws = Some (Inr t) \<and> trace_ops t \<noteq> [] \<and>
        good_ops (num_ids t) {} (trace_ops t))"

text \<open>
  The messages of a run without a fault of the allocator: the errors are that the memory ran out,
  and of the 100 points of the index at most 60 are for the utilization and at most 40 for the
  throughput.
\<close>

abbreviation out_of_memory :: "drv_error \<Rightarrow> bool" where
  "out_of_memory e \<equiv> e \<in> {Init_failed, Malloc_failed, Realloc_failed}"

fun harmless :: "drv_out \<Rightarrow> bool" where
  "harmless (Malloc_error i l e) \<longleftrightarrow> out_of_memory e"
| "harmless (App_error e f) \<longleftrightarrow> out_of_memory e"
| "harmless (Cannot_open p) \<longleftrightarrow> False"
| "harmless (Bogus p) \<longleftrightarrow> False"
| "harmless (Unix_error m) \<longleftrightarrow> False"
| "harmless (Perf a b p) \<longleftrightarrow> (\<exists>x y. a = Fin x \<and> b = Fin y \<and> p = Fin (x + y) \<and> 0 \<le> x \<and> x \<le> 60 \<and> y \<le> 40)"
| "harmless _ \<longleftrightarrow> True"

abbreviation harmless_all :: "drv_out list \<Rightarrow> bool" where
  "harmless_all out \<equiv> (\<forall>m\<in>set out. harmless m)"

definition gave_up :: "drv_status \<times> drv_out list \<Rightarrow> bool" where
  "gave_up x \<longleftrightarrow> fst x = Exited 1 \<and> harmless_all (snd x) \<and> (\<exists>e f. App_error e f \<in> set (snd x))"

definition fair_stats :: "stats \<Rightarrow> bool" where
  "fair_stats st \<longleftrightarrow> 0 < st_ops st \<and> (\<exists>u. st_util st = Fin u \<and> 0 \<le> u \<and> u \<le> 1)"

lemma harmless_announce: "harmless_all out \<Longrightarrow> harmless m \<Longrightarrow> harmless_all (announce b m out)"
  by (auto simp: announce_def)

lemma read_trace_shape:
  "read_trace ws = Some (Inr t) \<Longrightarrow>
     length (blocks t) = num_ids t \<and> length (block_sizes t) = num_ids t \<and> num_ops t = length (trace_ops t)"
  unfolding read_trace_def by (auto split: list.splits option.splits sum.splits if_splits)

lemma load_trace_ok:
  assumes "good_file w opt f" and "harmless_all out"
  shows "\<exists>t out'. load_trace w opt f out = Some (Inr (t, out')) \<and> harmless_all out' \<and> trace_ops t \<noteq> [] \<and>
    good_ops (num_ids t) {} (trace_ops t) \<and> length (blocks t) = num_ids t \<and> length (block_sizes t) = num_ids t \<and>
    0 < num_ops t"
proof -
  obtain ws t where t: "w_files w (tracedir opt @ f) = Some ws" "read_trace ws = Some (Inr t)" "trace_ops t \<noteq> []"
      "good_ops (num_ids t) {} (trace_ops t)" "length (tracedir opt @ f) < DRV_MAXLINE"
    using assms(1) unfolding good_file_def by blast
  have "load_trace w opt f out = Some (Inr (t, announce (1 < verbose opt) (Reading f) out))"
    using t(1,2,5) by (simp add: load_trace_def Let_def)
  moreover have "harmless_all (announce (1 < verbose opt) (Reading f) out)" by (rule harmless_announce [OF assms(2)]) simp
  ultimately show ?thesis using t(3,4) read_trace_shape [OF t(2)] by (metis length_greater_0_conv)
qed

section \<open>The performance index\<close>

lemma sum_util_fair:
  "\<forall>st\<in>set sts. fair_stats st \<Longrightarrow> \<exists>u. sum_util sts = Fin u \<and> 0 \<le> u \<and> u \<le> of_nat (length sts)"
proof (induction sts)
  case (Cons st sts)
  then obtain u v where "sum_util sts = Fin u" "0 \<le> u" "u \<le> of_nat (length sts)" "st_util st = Fin v" "0 \<le> v" "v \<le> 1"
    by (auto simp: fair_stats_def)
  then show ?case by simp
qed simp

lemma perf_p1_ok:
  assumes "\<forall>st\<in>set sts. fair_stats st" and "sts \<noteq> []"
  shows "\<exists>x. perf_p1 sts = Fin x \<and> 0 \<le> x \<and> x \<le> 60 / 100"
proof -
  obtain u where u: "sum_util sts = Fin u" "0 \<le> u" "u \<le> of_nat (length sts)" using sum_util_fair [OF assms(1)] by blast
  have "0 < (of_nat (length sts) :: rat)" using assms(2) by simp
  then have "u / of_nat (length sts) \<le> 1" "0 \<le> u / of_nat (length sts)" using u by simp_all
  then show ?thesis using u(1) by (simp add: perf_p1_def dbl_over_def UTIL_WEIGHT_def)
qed

lemma perf_p2_ok:
  assumes "\<forall>st\<in>set sts. fair_stats st" and "sts \<noteq> []"
  shows "\<exists>y. perf_p2 sts = Fin y \<and> y \<le> 40 / 100"
proof -
  obtain st sts' where "sts = st # sts'" using assms(2) by (cases sts) auto
  then have "0 < sum_list (map st_ops sts)" using assms(1) by (simp add: fair_stats_def)
  then have pos: "(of_nat (sum_list (map st_ops sts)) :: rat) \<noteq> 0" by (simp only: of_nat_eq_0_iff)
  let ?t = "ddiv (of_nat (sum_list (map st_ops sts))) (sum_list (map st_secs sts))"
  have cases: "dgreater ?t AVG_LIBC_THRUPUT \<or> (\<exists>z. ?t = Fin z \<and> z \<le> 600000)"
    using pos unfolding ddiv_def AVG_LIBC_THRUPUT_def by auto
  show ?thesis
  proof (cases "dgreater ?t AVG_LIBC_THRUPUT")
    case True
    then have "perf_p2 sts = Fin (1 - UTIL_WEIGHT)" by (simp only: perf_p2_def Let_def if_True)
    moreover have "1 - UTIL_WEIGHT = 40 / 100" by (simp add: UTIL_WEIGHT_def)
    ultimately have "perf_p2 sts = Fin (40 / 100)" by (simp only:)
    then show ?thesis by (intro exI [of _ "40 / 100"]) simp
  next
    case False
    then obtain z where z: "?t = Fin z" "z \<le> 600000" using cases by blast
    have "perf_p2 sts = dscale ((1 - UTIL_WEIGHT) / AVG_LIBC_THRUPUT) ?t"
      using False by (simp only: perf_p2_def Let_def if_False)
    also have "\<dots> = Fin (z * (40 / 100) / 600000)" unfolding z(1) by (simp add: UTIL_WEIGHT_def AVG_LIBC_THRUPUT_def)
    finally show ?thesis using z(2) by (intro exI [of _ "z * (40 / 100) / 600000"]) simp
  qed
qed

lemma perf_report_ok:
  assumes "\<forall>st\<in>set sts. fair_stats st" and "sts \<noteq> []"
  shows "harmless_all (perf_report g n sts)" "n = 0 \<Longrightarrow> \<exists>a b p. Perf a b p \<in> set (perf_report g n sts)"
proof -
  obtain x y where x: "perf_p1 sts = Fin x" "0 \<le> x" "x \<le> 60 / 100" and y: "perf_p2 sts = Fin y" "y \<le> 40 / 100"
    using perf_p1_ok [OF assms] perf_p2_ok [OF assms] by blast
  show "harmless_all (perf_report g n sts)" using x y by (auto simp: perf_report_def Let_def ring_distribs)
  show "n = 0 \<Longrightarrow> \<exists>a b p. Perf a b p \<in> set (perf_report g n sts)" by (auto simp: perf_report_def Let_def)
qed

lemma printresults_harmless: "harmless_all (printresults n sts)"
  by (auto simp: printresults_def Let_def stats_row_def)

lemma util_quotient:
  fixes hwm h :: int
  assumes "0 < hwm" "hwm \<le> h"
  shows "\<exists>u. ddiv (of_int hwm) (of_int h) = Fin u \<and> 0 \<le> u \<and> u \<le> 1"
  using assms by (simp add: ddiv_def)

section \<open>The traces\<close>

context allocator
begin

lemma timed_runs_ok:
  "S s \<Longrightarrow> length (blocks t) = n \<Longrightarrow> good_ops n {} (trace_ops t) \<Longrightarrow>
     (\<exists>e. timed_runs (eval_mm_speed pk) k s t = Some (Inl e) \<and> out_of_memory e) \<or>
     (\<exists>s' bl. timed_runs (eval_mm_speed pk) k s t = Some (Inr (s', bl)) \<and> S s')"
proof (induction k arbitrary: s t)
  case (Suc k)
  from eval_mm_speed_ok [OF Suc.prems] show ?case
  proof (elim disjE exE conjE)
    fix s' bl assume "eval_mm_speed pk s t = Some (Inr (s', bl))" "S s'" "length bl = n"
    then show ?thesis using Suc.IH [of s' "t\<lparr>blocks := bl\<rparr>"] Suc.prems(3) by simp
  qed auto
qed simp

text \<open>After the evaluation of validity: the high water mark and the ten timed runs.\<close>

lemma mm_trace_ok:
  assumes s: "S s" and f: "good_file w opt f" and out: "harmless_all out"
  shows "(\<exists>x. mm_trace w pk opt i f s out = Some (Inl x) \<and> gave_up x) \<or>
    (\<exists>st s' out'. mm_trace w pk opt i f s out = Some (Inr (st, s', out')) \<and> S s' \<and> harmless_all out' \<and> fair_stats st)"
proof -
  obtain t out1 where t: "load_trace w opt f out = Some (Inr (t, out1))" "harmless_all out1" "trace_ops t \<noteq> []"
      "good_ops (num_ids t) {} (trace_ops t)" "length (blocks t) = num_ids t" "length (block_sizes t) = num_ids t"
      "0 < num_ops t"
    using load_trace_ok [OF f out] by blast
  let ?out = "announce (1 < verbose opt) (Checking ''mm_malloc'') out1"
  have o: "harmless_all ?out" by (rule harmless_announce [OF t(2)]) simp
  from eval_mm_valid_ok [OF s t(5,6,4), of "[]"] show ?thesis
  proof (elim disjE exE conjE)
    fix j e s' assume v: "eval_mm_valid pk s t [] = Some (Inl (j, e, s'))" "out_of_memory e" "S s'"
    then have "mm_trace w pk opt i f s out =
        Some (Inr (fresh_stats (num_ops t), s', ?out @ [Malloc_error i (LINENUM j) e]))"
      unfolding mm_trace_def using t(1) by (auto simp: Let_def)
    moreover have "fair_stats (fresh_stats (num_ops t))" using t(7) by (simp add: fair_stats_def fresh_stats_def)
    ultimately show ?thesis using o v(2,3) by simp
  next
    fix s1 rs bl zs
    assume v: "eval_mm_valid pk s t [] = Some (Inr (s1, rs, bl, zs))" "S s1" "length bl = num_ids t" "length zs = num_ids t"
    let ?t = "t\<lparr>blocks := bl, block_sizes := zs\<rparr>" and ?out1 = "announce (1 < verbose opt) Efficiency ?out"
    have o1: "harmless_all ?out1" by (rule harmless_announce [OF o]) simp
    have g: "length (blocks ?t) = num_ids t" "length (block_sizes ?t) = num_ids t" "good_ops (num_ids t) {} (trace_ops ?t)"
      using v(3,4) t(4) by simp_all
    from eval_mm_util_ok [OF v(2) g] show ?thesis
    proof (elim disjE exE conjE)
      fix e assume u: "eval_mm_util pk s1 ?t = Some (Inl e)" "out_of_memory e"
      then have "mm_trace w pk opt i f s out = Some (Inl (Exited 1, ?out1 @ [App_error e ''eval_mm_util'']))"
        unfolding mm_trace_def using t(1) v(1) by (simp add: Let_def)
      then show ?thesis using o1 u(2) by (auto simp: gave_up_def)
    next
      fix hwm h s2 bl2 zs2
      assume u: "eval_mm_util pk s1 ?t = Some (Inr (hwm, h, s2, bl2, zs2))" "hwm \<le> h" "S s2"
        "length bl2 = num_ids t" "length zs2 = num_ids t" "trace_ops ?t \<noteq> [] \<longrightarrow> 0 < hwm"
      let ?t2 = "?t\<lparr>blocks := bl2, block_sizes := zs2\<rparr>" and ?out2 = "announce (1 < verbose opt) And_performance ?out1"
      have o2: "harmless_all ?out2" by (rule harmless_announce [OF o1]) simp
      have g2: "length (blocks ?t2) = num_ids t" "good_ops (num_ids t) {} (trace_ops ?t2)" using u(4) t(4) by simp_all
      have pos: "0 < hwm" using u(6) t(3) by simp
      from timed_runs_ok [OF u(3) g2, of 10] show ?thesis
      proof (elim disjE exE conjE)
        fix e assume p: "timed_runs (eval_mm_speed pk) 10 s2 ?t2 = Some (Inl e)" "out_of_memory e"
        then have "mm_trace w pk opt i f s out = Some (Inl (Exited 1, ?out2 @ [App_error e ''eval_mm_speed'']))"
          unfolding mm_trace_def using t(1) v(1) u(1) by (simp add: Let_def)
        then show ?thesis using o2 p(2) by (auto simp: gave_up_def)
      next
        fix s3 bl3 assume p: "timed_runs (eval_mm_speed pk) 10 s2 ?t2 = Some (Inr (s3, bl3))" "S s3"
        let ?st = "\<lparr>st_ops = num_ops t, st_valid = True, st_secs = fsecs (fst (w_mm_clock w i)) (snd (w_mm_clock w i)),
          st_util = ddiv (of_int hwm) (of_int h)\<rparr>"
        have "mm_trace w pk opt i f s out = Some (Inr (?st, s3, ?out2))"
          unfolding mm_trace_def using t(1) v(1) u(1) p(1) by (simp add: Let_def)
        moreover have "fair_stats ?st" using util_quotient [OF pos u(2)] t(7) by (simp add: fair_stats_def)
        ultimately show ?thesis using o2 p(2) by blast
      qed
    qed
  qed
qed

lemma mm_traces_ok:
  "S s \<Longrightarrow> \<forall>f\<in>set files. good_file w opt f \<Longrightarrow> harmless_all out \<Longrightarrow>
     (\<exists>x. all_traces (mm_trace w pk opt) i files s out = Some (Inl x) \<and> gave_up x) \<or>
     (\<exists>sts out'. all_traces (mm_trace w pk opt) i files s out = Some (Inr (sts, out')) \<and> harmless_all out' \<and>
        (\<forall>st\<in>set sts. fair_stats st) \<and> length sts = length files)"
proof (induction files arbitrary: i s out)
  case (Cons f files)
  have gf: "good_file w opt f" and gfs: "\<forall>f\<in>set files. good_file w opt f" using Cons.prems(2) by simp_all
  from mm_trace_ok [OF Cons.prems(1) gf Cons.prems(3), of i] show ?case
  proof (elim disjE exE conjE)
    fix st s' out'
    assume m: "mm_trace w pk opt i f s out = Some (Inr (st, s', out'))" "S s'" "harmless_all out'" "fair_stats st"
    show ?thesis using Cons.IH [OF m(2) gfs m(3), of "Suc i"] m(1,4) by auto
  qed auto
qed simp

lemma main_mm_ok:
  assumes b0: "0 < b0" "S (s\<lparr>lib := \<lparr>mem_start_brk = b0, mem_brk = b0, mem_max_addr = b0 + MAX_HEAP\<rparr>\<rparr>)"
    and files: "\<forall>f\<in>set files. good_file w opt f" "files \<noteq> []" and out: "harmless_all out"
  shows "\<exists>x. main_mm w pk opt files s b0 out = Some x \<and>
    (gave_up x \<or> fst x = Exited 0 \<and> harmless_all (snd x) \<and> (errors (snd x) = 0 \<longrightarrow> (\<exists>a b p. Perf a b p \<in> set (snd x))))"
proof -
  let ?out = "announce (1 < verbose opt) (Testing ''mm'') out"
  have o: "harmless_all ?out" by (rule harmless_announce [OF out]) simp
  have l: "mem_init b0 = Some \<lparr>mem_start_brk = b0, mem_brk = b0, mem_max_addr = b0 + MAX_HEAP\<rparr>" (is "_ = Some ?l")
    using b0(1) by (simp add: mem_init_def)
  from mm_traces_ok [OF b0(2) files(1) o, of 0] show ?thesis
  proof (elim disjE exE conjE)
    fix sts out1
    assume a: "all_traces (mm_trace w pk opt) 0 files (s\<lparr>lib := ?l\<rparr>) ?out = Some (Inr (sts, out1))" "harmless_all out1"
      "\<forall>st\<in>set sts. fair_stats st" "length sts = length files"
    let ?n = "errors out1"
    let ?out2 = "if 0 < verbose opt then out1 @ [Results ''mm malloc''] @ printresults ?n sts else out1"
    have "sts \<noteq> []" using a(4) files(2) by auto
    note P = perf_report_ok [OF a(3) this, where g = "autograder opt" and n = ?n]
    have "main_mm w pk opt files s b0 out = Some (Exited 0, ?out2 @ perf_report (autograder opt) ?n sts)"
      unfolding main_mm_def using l a(1) by (simp add: Let_def)
    moreover have "harmless_all (?out2 @ perf_report (autograder opt) ?n sts)"
      using a(2) P(1) printresults_harmless [of ?n sts] by auto
    moreover have "errors (?out2 @ perf_report (autograder opt) ?n sts) = 0 \<longrightarrow> ?n = 0" by (simp add: errors_def)
    ultimately show ?thesis using P(2) by auto
  qed (use l in \<open>auto simp: main_mm_def Let_def\<close>)
qed

end

section \<open>The driver on the allocators of the lab\<close>

lemma parse_opts_files:
  "parse_opts args opt = Some (Inr opt') \<Longrightarrow> tracefiles opt \<noteq> Some [] \<Longrightarrow> tracefiles opt' \<noteq> Some []"
proof (induction args opt rule: parse_opts.induct)
  case (2 c arg cs opt)
  show ?case
  proof (cases "set_tracedir arg")
    case None
    then show ?thesis using 2 by (auto split: if_splits)
  next
    case (Some dir)
    then show ?thesis using 2 by (auto split: if_splits)
  qed
qed simp

text \<open>
  C8. \<^verbatim>\<open>main\<close> of \<^verbatim>\<open>mdriver.c\<close> with the allocator of \<^verbatim>\<open>mm-2014-17831.c\<close>, that of \<^verbatim>\<open>mm_naive.c\<close> or that of \<^verbatim>\<open>mm.c\<close> (for the last one,
  if the word of the storage that its \<^verbatim>\<open>mm_init\<close> reads and never writes is zero), for any options that it accepts
  but \<^verbatim>\<open>-l\<close>: if the selected trace files can be read and hold well-formed traces, the program
  always ends.  It either gives up with status 1 because the memory ran out while the utilization
  or the speed was evaluated; or it ends with status 0, every error that it reports is that the memory
  ran out, and without such an error it prints a performance index whose share for the
  utilization is between 0 and 60, and that for the throughput at most 40.
\<close>

theorem mdriver_runs:
  assumes "pk \<in> {explicit_pkg, naive_pkg} \<or> pk = seg_pkg \<and> aw s (b0 + 88) = 0"
    and "0 < b0" and "8 dvd b0" and "b0 + MAX_HEAP \<le> 2 ^ 31"
    and "parse_opts args opts0 = Some (Inr opt)" and "\<not> run_libc opt"
    and "\<forall>f\<in>set (case tracefiles opt of None \<Rightarrow> DEFAULT_TRACEFILES | Some fs \<Rightarrow> fs). good_file w opt f"
  shows "\<exists>st out. mdriver_main w pk libc c s b0 args = Some (st, out) \<and> (\<forall>m\<in>set out. harmless m) \<and>
    (st = Exited 1 \<and> (\<exists>e f. App_error e f \<in> set out) \<or>
     st = Exited 0 \<and> (errors out = 0 \<longrightarrow> (\<exists>a b p. Perf a b p \<in> set out)))"
proof -
  let ?files = "case tracefiles opt of None \<Rightarrow> DEFAULT_TRACEFILES | Some fs \<Rightarrow> fs"
  let ?out = "announce (0 < verbose opt) Using_gettod (announce (tracefiles opt = None) (Using_default (tracedir opt)) [])"
  have ne: "?files \<noteq> []"
    using parse_opts_files [OF assms(5)] by (auto simp: opts0_def DEFAULT_TRACEFILES_def split: option.splits)
  have out: "harmless_all ?out" by (auto simp: announce_def)
  have m: "mdriver_main w pk libc c s b0 args = main_mm w pk opt ?files s b0 ?out"
    using assms(5,6) by (simp add: mdriver_main_def Let_def)
  have start: "sound (s\<lparr>lib := \<lparr>mem_start_brk = b0, mem_brk = b0, mem_max_addr = b0 + MAX_HEAP\<rparr>\<rparr>)"
    using assms(2-4) by (simp add: sound_def mem_wf_def)
  have "\<exists>x. main_mm w pk opt ?files s b0 ?out = Some x \<and> (gave_up x \<or> fst x = Exited 0 \<and>
      harmless_all (snd x) \<and> (errors (snd x) = 0 \<longrightarrow> (\<exists>a b p. Perf a b p \<in> set (snd x))))"
    using assms(1)
  proof (elim disjE conjE)
    assume pk: "pk = seg_pkg" and "aw s (b0 + 88) = 0"
    moreover have "aw (s\<lparr>lib := l\<rparr>) = aw s" for l by (rule aw_cong) simp
    ultimately have "seg_sound (s\<lparr>lib := \<lparr>mem_start_brk = b0, mem_brk = b0, mem_max_addr = b0 + MAX_HEAP\<rparr>\<rparr>)"
      using start by (simp add: seg_sound_def)
    then show ?thesis unfolding pk by (rule seg.main_mm_ok [OF assms(2) _ assms(7) ne out, folded seg_pkg_tags])
  qed (use explicit.main_mm_ok [OF assms(2) start assms(7) ne out, folded explicit_pkg_tags]
      naive.main_mm_ok [OF assms(2) start assms(7) ne out] in blast)
  then show ?thesis unfolding m gave_up_def by (metis prod.collapse)
qed

text \<open>The options \<^verbatim>\<open>-g -f x\<close>, with the file \<^verbatim>\<open>x\<close> that allocates one block and frees it.\<close>

definition one_trace :: world where
  "one_trace = \<lparr>w_files = (\<lambda>_. Some [''0'', ''1'', ''2'', ''1'', ''a'', ''0'', ''16'', ''f'', ''0'']),
     w_libc_clock = (\<lambda>_. (\<lparr>tv_sec = 0, tv_usec = 0\<rparr>, \<lparr>tv_sec = 0, tv_usec = 0\<rparr>)),
     w_mm_clock = (\<lambda>_. (\<lparr>tv_sec = 0, tv_usec = 0\<rparr>, \<lparr>tv_sec = 0, tv_usec = 50\<rparr>))\<rparr>"

lemma one_trace_good: "good_file one_trace (opts0\<lparr>tracedir := ''./''\<rparr>) ''x''"
  by (simp add: good_file_def one_trace_def opts0_def DRV_MAXLINE_def read_trace_def scan_u_def is_number_def is_digit_def)

theorem mdriver_runs_witness:
  "\<exists>st out. mdriver_main one_trace explicit_pkg explicit_pkg fresh fresh 4096 [(CHR ''g'', []), (CHR ''f'', ''x'')] = Some (st, out) \<and>
     (\<forall>m\<in>set out. harmless m)"
proof -
  let ?opt = "opts0\<lparr>autograder := True, tracedir := ''./'', tracefiles := Some [''x'']\<rparr>"
  have "parse_opts [(CHR ''g'', []), (CHR ''f'', ''x'')] opts0 = Some (Inr ?opt)" by simp
  moreover have "good_file one_trace ?opt ''x''" using one_trace_good by (simp add: good_file_def)
  moreover have "4096 + MAX_HEAP \<le> 2 ^ 31" by (simp add: MAX_HEAP_def)
  ultimately have "\<exists>st out. mdriver_main one_trace explicit_pkg explicit_pkg fresh fresh 4096 [(CHR ''g'', []), (CHR ''f'', ''x'')] =
      Some (st, out) \<and> (\<forall>m\<in>set out. harmless m) \<and> (st = Exited 1 \<and> (\<exists>e f. App_error e f \<in> set out) \<or>
      st = Exited 0 \<and> (errors out = 0 \<longrightarrow> (\<exists>a b p. Perf a b p \<in> set out)))"
    by (intro mdriver_runs [of explicit_pkg fresh 4096 _ ?opt]) (simp_all add: opts0_def)
  then show ?thesis by blast
qed

end
