(* ===== verification/MdriverSound.thy ===== *)
theory MdriverSound
  imports MmNaive
begin

text \<open>
  What it means that the driver of the malloc lab accepts an allocator: at every moment of the trace the payloads of the live blocks are
  aligned, inside of the heap, and pairwise disjoint, but for a newer one that contains an older one.  The allocator is
  any package that gets its memory from \<^verbatim>\<open>mem_sbrk\<close> only; nothing else is asked of it.
\<close>

section \<open>Packages that only grow the heap\<close>

definition lib_step :: "mmst \<Rightarrow> mmst \<Rightarrow> bool" where
  "lib_step s s' \<longleftrightarrow> mem_wf (lib s') \<and> mem_start_brk (lib s') = mem_start_brk (lib s) \<and> mem_brk (lib s) \<le> mem_brk (lib s')"

definition grows :: "mm_pkg \<Rightarrow> bool" where
  "grows pk \<longleftrightarrow> (\<forall>s. mem_wf (lib s) \<longrightarrow>
     (\<forall>s' r. pk_init pk s = Some (s', r) \<longrightarrow> lib_step s s') \<and>
     (\<forall>n s' p. pk_malloc pk s n = Some (s', p) \<longrightarrow> lib_step s s') \<and>
     (\<forall>q s'. pk_free pk s q = Some s' \<longrightarrow> lib_step s s') \<and>
     (\<forall>q n s' p. pk_realloc pk s q n = Some (s', p) \<longrightarrow> lib_step s s'))"

lemma grows_D:
  assumes "grows pk" and "mem_wf (lib s)"
  shows "pk_init pk s = Some (s', r) \<Longrightarrow> lib_step s s'" "pk_malloc pk s n = Some (s', p) \<Longrightarrow> lib_step s s'"
    "pk_free pk s q = Some s' \<Longrightarrow> lib_step s s'" "pk_realloc pk s q n = Some (s', p) \<Longrightarrow> lib_step s s'"
  using assms unfolding grows_def by blast+

lemma lib_step_lib: "lib s' = lib s \<Longrightarrow> mem_wf (lib s) \<Longrightarrow> lib_step s s'"
  by (simp add: lib_step_def)

lemma lib_step_trans: "lib_step s s' \<Longrightarrow> lib_step s' s'' \<Longrightarrow> lib_step s s''"
  by (auto simp: lib_step_def)

section \<open>What the range list knows\<close>

text \<open>The ends of a newer range are not in an older one.\<close>

definition apart :: "range \<Rightarrow> range \<Rightarrow> bool" where
  "apart a b \<longleftrightarrow> \<not> (fst b \<le> fst a \<and> fst a \<le> snd b) \<and> \<not> (fst b \<le> snd a \<and> snd a \<le> snd b)"

definition payload :: "nat list \<Rightarrow> nat list \<Rightarrow> nat \<Rightarrow> range" where
  "payload bl zs i = (bl ! i, bl ! i + zs ! i - 1)"

definition checked :: "nat \<Rightarrow> nat set \<Rightarrow> drv \<Rightarrow> bool" where
  "checked n I = (\<lambda>(s, rs, bl, zs). mem_wf (lib s) \<and> length bl = n \<and> length zs = n \<and> I \<subseteq> {..<n} \<and>
     (\<forall>i\<in>I. 0 < zs ! i \<and> IS_ALIGNED (bl ! i) \<and> mem_start_brk (lib s) \<le> bl ! i \<and> bl ! i + zs ! i \<le> mem_brk (lib s)) \<and>
     inj_on ((!) bl) I \<and> set rs = payload bl zs ` I \<and> distinct (map fst rs) \<and> sorted_wrt apart rs)"

lemma checked_step: "checked n I (s, rs, bl, zs) \<Longrightarrow> lib_step s s' \<Longrightarrow> checked n I (s', rs, bl, zs)"
  by (fastforce simp: checked_def lib_step_def)

lemma overlap_apart: "\<not> range_overlap rs lo hi \<longleftrightarrow> (\<forall>r\<in>set rs. apart (lo, hi) r)"
  by (induction rs) (auto simp: apart_def)

lemma remove_range_wrt: "sorted_wrt P rs \<Longrightarrow> sorted_wrt P (remove_range rs lo)"
proof (induction rs)
  case (Cons r rs)
  obtain a b where r: "r = (a, b)" by (cases r)
  have "set (remove_range rs lo) \<subseteq> set rs" by (induction rs) (auto split: if_splits)
  then show ?case using Cons r by auto
qed simp

lemma checked_remove:
  assumes "checked n I (s, rs, bl, zs)" and "i \<in> I"
  shows "checked n (I - {i}) (s, remove_range rs (bl ! i), bl, zs)"
proof -
  have c: "inj_on ((!) bl) I" "set rs = payload bl zs ` I" "distinct (map fst rs)" "sorted_wrt apart rs"
    using assms(1) by (auto simp: checked_def)
  have ne: "bl ! j \<noteq> bl ! i" if "j \<in> I - {i}" for j using c(1) that assms(2) by (auto dest: inj_onD)
  have "set (remove_range rs (bl ! i)) = payload bl zs ` (I - {i})"
    unfolding remove_range_set(1) [OF c(3)] c(2) using ne by (auto simp: payload_def)
  then show ?thesis using assms(1) remove_range_set(2) [OF c(3)] remove_range_wrt [OF c(4)]
    by (auto simp: checked_def intro: inj_on_subset)
qed

lemma add_range_Inr:
  assumes "add_range rs l lo k = Inr rs'"
  shows "0 < k" "IS_ALIGNED lo" "mem_start_brk l \<le> lo" "lo + k \<le> mem_brk l" "rs' = (lo, lo + k - 1) # rs"
    "\<forall>r\<in>set rs. apart (lo, lo + k - 1) r"
proof -
  have a: "0 < k \<and> IS_ALIGNED lo \<and> mem_start_brk l \<le> lo \<and> int (lo + k - 1) \<le> int (mem_brk l) - 1 \<and>
      \<not> range_overlap rs lo (lo + k - 1) \<and> rs' = (lo, lo + k - 1) # rs"
    using assms by (auto simp: add_range_def Let_def mem_heap_lo_def mem_heap_hi_def split: if_splits)
  then show "0 < k" "IS_ALIGNED lo" "mem_start_brk l \<le> lo" "rs' = (lo, lo + k - 1) # rs" by blast+
  show "lo + k \<le> mem_brk l" using a by linarith
  show "\<forall>r\<in>set rs. apart (lo, lo + k - 1) r" using a overlap_apart by blast
qed

lemma checked_add:
  assumes c: "checked n I (s, rs, bl, zs)" and a: "add_range rs (lib s) p k = Inr rs'" and i: "i \<notin> I" "i < n"
  shows "checked n (insert i I) (s, rs', bl[i := p], zs[i := k])"
proof -
  note A = add_range_Inr [OF a]
  have C: "length bl = n" "length zs = n" "I \<subseteq> {..<n}" "inj_on ((!) bl) I" "set rs = payload bl zs ` I"
    "distinct (map fst rs)" "sorted_wrt apart rs" "\<forall>j\<in>I. 0 < zs ! j" using c by (auto simp: checked_def)
  have same: "bl[i := p] ! j = bl ! j" "zs[i := k] ! j = zs ! j" if "j \<in> I" for j
  proof -
    have "j \<noteq> i" using that i(1) by blast
    then show "bl[i := p] ! j = bl ! j" "zs[i := k] ! j = zs ! j" by simp_all
  qed
  have new: "bl[i := p] ! i = p" "zs[i := k] ! i = k" using i(2) C by auto
  have p: "p \<noteq> bl ! j" if "j \<in> I" for j
  proof -
    have "apart (p, p + k - 1) (payload bl zs j)" using A(6) C(5) that by blast
    then show ?thesis using C(8) that by (force simp: apart_def payload_def)
  qed
  have "payload (bl[i := p]) (zs[i := k]) ` insert i I = insert (p, p + k - 1) (payload bl zs ` I)"
    using same new by (auto simp: payload_def)
  moreover have "inj_on ((!) (bl[i := p])) (insert i I)"
    using C(4) p i(1) new same by (force simp: inj_on_def)
  moreover have "p \<notin> fst ` set rs"
  proof -
    have "fst ` set rs = (!) bl ` I" by (simp add: C(5) image_image payload_def)
    then show ?thesis using p by blast
  qed
  moreover have "\<forall>j\<in>insert i I. 0 < zs[i := k] ! j \<and> IS_ALIGNED (bl[i := p] ! j) \<and> mem_start_brk (lib s) \<le> bl[i := p] ! j \<and>
      bl[i := p] ! j + zs[i := k] ! j \<le> mem_brk (lib s)"
    using c A same new by (auto simp: checked_def)
  ultimately show ?thesis using c A(5,6) C(7) i(2) by (simp add: checked_def)
qed

section \<open>A request that the driver accepts\<close>

lemma memset_lib: "memset s p b k = Some s' \<Longrightarrow> lib s' = lib s"
  by (auto simp: memset_def split: if_splits)

lemma aset_update: "aset xs i v = Some ys \<Longrightarrow> ys = xs[i := v]"
  by simp

lemma valid_op_checked:
  assumes g: "grows pk" and c: "checked n I (s, rs, bl, zs)" and v: "valid_op pk r (s, rs, bl, zs) = Some (Inr (s', rs', bl', zs'))"
    and r: "good_ops n I (r # ops)"
  shows "checked n (next_index r I) (s', rs', bl', zs')"
proof -
  let ?i = "op_index r" and ?k = "op_size r"
  have wf: "mem_wf (lib s)" using c by (simp add: checked_def)
  note G = grows_D [OF g wf]
  show ?thesis
  proof (cases "op_type r")
    case ALLOC
    obtain s1 p where m: "pk_malloc pk s ?k = Some (s1, p)" "p \<noteq> 0" "add_range rs (lib s1) p ?k = Inr rs'"
      "memset s1 p (of_nat (?i mod 256)) ?k = Some s'" "bl' = bl[?i := p]" "zs' = zs[?i := ?k]"
      using v ALLOC by (auto simp: valid_op_def Let_def split: Option.bind_splits if_splits sum.splits)
    have i: "?i \<notin> I" "?i < n" using r ALLOC by auto
    have c1: "checked n I (s1, rs, bl, zs)" by (rule checked_step [OF c G(2) [OF m(1)]])
    have "lib_step s1 s'" using memset_lib [OF m(4)] c1 by (intro lib_step_lib) (auto simp: checked_def)
    from checked_step [OF checked_add [OF c1 m(3) i] this] show ?thesis using m(5,6) ALLOC by (simp add: next_index_def)
  next
    case REALLOC
    obtain s1 p where m: "pk_realloc pk s (bl ! ?i) ?k = Some (s1, p)" "add_range (remove_range rs (bl ! ?i)) (lib s1) p ?k = Inr rs'"
      "memset s1 p (of_nat (?i mod 256)) ?k = Some s'" "bl' = bl[?i := p]" "zs' = zs[?i := ?k]"
      using v REALLOC by (auto simp: valid_op_def Let_def split: Option.bind_splits if_splits sum.splits)
    have i: "?i \<in> I" using r REALLOC by auto
    then have n: "?i < n" using c by (auto simp: checked_def)
    have c1: "checked n (I - {?i}) (s1, remove_range rs (bl ! ?i), bl, zs)"
      by (rule checked_step [OF checked_remove [OF c i] G(4) [OF m(1)]])
    have "lib_step s1 s'" using memset_lib [OF m(3)] c1 by (intro lib_step_lib) (auto simp: checked_def)
    from checked_step [OF checked_add [OF c1 m(2) _ n] this] show ?thesis using m(4,5) REALLOC i
      by (simp add: next_index_def insert_absorb)
  next
    case FREE
    have f: "pk_free pk s (bl ! ?i) = Some s'" "rs' = remove_range rs (bl ! ?i)" "bl' = bl" "zs' = zs"
      using v FREE by (auto simp: valid_op_def Let_def split: Option.bind_splits)
    have i: "?i \<in> I" using r FREE by auto
    from checked_step [OF checked_remove [OF c i] G(3) [OF f(1)]] show ?thesis using f FREE by (simp add: next_index_def)
  qed
qed

lemma valid_ops_append:
  "valid_ops pk i (a @ b) d = Some (Inr d') \<Longrightarrow> \<exists>d1. valid_ops pk i a d = Some (Inr d1) \<and> valid_ops pk (i + length a) b d1 = Some (Inr d')"
proof (induction a arbitrary: i d)
  case (Cons r rs)
  obtain d1 where "valid_op pk r d = Some (Inr d1)" "valid_ops pk (Suc i) (rs @ b) d1 = Some (Inr d')"
    using Cons.prems by (auto split: option.splits sum.splits)
  then show ?case using Cons.IH [of "Suc i" d1] by simp
qed simp

lemma good_ops_append: "good_ops n I (a @ b) \<Longrightarrow> good_ops n I a"
  by (induction n I a rule: good_ops.induct) (auto split: optype.splits)

lemma valid_ops_checked:
  assumes g: "grows pk"
  shows "checked n I d \<Longrightarrow> valid_ops pk i ops d = Some (Inr d') \<Longrightarrow> good_ops n I ops \<Longrightarrow> checked n (fold next_index ops I) d'"
proof (induction ops arbitrary: i I d)
  case (Cons r rs)
  obtain d1 where d1: "valid_op pk r d = Some (Inr d1)" "valid_ops pk (Suc i) rs d1 = Some (Inr d')"
    using Cons.prems(2) by (auto split: option.splits sum.splits)
  obtain s rg bl zs s1 rg1 bl1 zs1 where d: "d = (s, rg, bl, zs)" "d1 = (s1, rg1, bl1, zs1)" by (metis prod_cases4)
  have "checked n (next_index r I) d1" using valid_op_checked [OF g, of n I s rg bl zs r] Cons.prems d1(1) d by blast
  moreover have "good_ops n (next_index r I) rs" using Cons.prems(3) by (auto simp: next_index_def split: optype.splits)
  ultimately show ?case using Cons.IH d1(2) by simp
qed simp

section \<open>The property\<close>

text \<open>The indices that are allocated after some requests, and the two ways in which the driver accepts two payloads.\<close>

definition live :: "traceop list \<Rightarrow> nat set" where
  "live ops = fold next_index ops {}"

definition disjoint_payloads :: "nat list \<Rightarrow> nat list \<Rightarrow> nat \<Rightarrow> nat \<Rightarrow> bool" where
  "disjoint_payloads bl zs i j \<longleftrightarrow> bl ! i + zs ! i \<le> bl ! j \<or> bl ! j + zs ! j \<le> bl ! i"

definition encloses :: "nat list \<Rightarrow> nat list \<Rightarrow> nat \<Rightarrow> nat \<Rightarrow> bool" where
  "encloses bl zs i j \<longleftrightarrow> bl ! i < bl ! j \<and> bl ! j + zs ! j < bl ! i + zs ! i"

lemma apart_payloads:
  assumes "apart (payload bl zs i) (payload bl zs j)" and "0 < zs ! i" and "0 < zs ! j"
  shows "disjoint_payloads bl zs i j \<or> encloses bl zs i j"
  using assms by (auto simp: apart_def payload_def disjoint_payloads_def encloses_def)

lemma checked_pair:
  assumes c: "checked n I (s, rs, bl, zs)" and i: "i \<in> I" and j: "j \<in> I" and ij: "i \<noteq> j"
  shows "disjoint_payloads bl zs i j \<or> encloses bl zs i j \<or> encloses bl zs j i"
proof -
  have C: "set rs = payload bl zs ` I" "sorted_wrt apart rs" "inj_on ((!) bl) I" "0 < zs ! i" "0 < zs ! j"
    using c i j by (auto simp: checked_def)
  have "payload bl zs i \<noteq> payload bl zs j" using C(3) i j ij by (auto simp: payload_def dest: inj_onD)
  moreover obtain a b where "a < length rs" "rs ! a = payload bl zs i" "b < length rs" "rs ! b = payload bl zs j"
    using C(1) i j by (metis image_eqI in_set_conv_nth)
  ultimately have "apart (payload bl zs i) (payload bl zs j) \<or> apart (payload bl zs j) (payload bl zs i)"
    using C(2) by (metis linorder_neqE_nat sorted_wrt_iff_nth_less)
  then show ?thesis using apart_payloads [OF _ C(4,5)] apart_payloads [OF _ C(5,4)]
    by (auto simp: disjoint_payloads_def)
qed

lemma eval_mm_valid_prefix:
  assumes g: "grows pk" and wf: "mem_wf (lib s)" and n: "length (blocks t) = n" "length (block_sizes t) = n"
    and ok: "good_ops n {} (a @ b)" and e: "eval_mm_valid pk s (t\<lparr>trace_ops := a @ b\<rparr>) ranges = Some (Inr d)"
  shows "\<exists>d1. eval_mm_valid pk s (t\<lparr>trace_ops := a\<rparr>) ranges = Some (Inr d1) \<and> checked n (live a) d1"
proof -
  let ?s = "s\<lparr>lib := mem_reset_brk (lib s)\<rparr>"
  obtain s0 r where s0: "pk_init pk ?s = Some (s0, r)" "\<not> r < 0"
    "valid_ops pk 0 (a @ b) (s0, [], blocks t, block_sizes t) = Some (Inr d)"
    using e by (auto simp: eval_mm_valid_def Let_def clear_ranges_def split: Option.bind_splits if_splits)
  obtain d1 where d1: "valid_ops pk 0 a (s0, [], blocks t, block_sizes t) = Some (Inr d1)" using valid_ops_append [OF s0(3)] by blast
  have "mem_wf (lib ?s)" using mem_wf_reset [OF wf] by simp
  from grows_D(1) [OF g this s0(1)] have "mem_wf (lib s0)" by (simp add: lib_step_def)
  then have "checked n {} (s0, [], blocks t, block_sizes t)" using n by (simp add: checked_def)
  from valid_ops_checked [OF g this d1 good_ops_append [OF ok]] have "checked n (live a) d1" by (simp add: live_def)
  then show ?thesis using d1 s0(1,2) by (auto simp: eval_mm_valid_def Let_def clear_ranges_def)
qed

text \<open>
  C39. When \<^verbatim>\<open>eval_mm_valid\<close> accepts an allocator on a well-formed trace, whatever the allocator does with the memory that it gets from
  \<^verbatim>\<open>mem_sbrk\<close>, then after every request the payload of every live block is aligned and inside of the heap, and of two live
  payloads either they have no byte in common, or one contains the other with both of its ends outside: the one case
  that the test of the driver misses.
\<close>

theorem driver_sound:
  assumes "grows pk" and "mem_wf (lib s)" and "length (blocks t) = n" and "length (block_sizes t) = n"
    and "good_ops n {} (a @ b)" and "eval_mm_valid pk s (t\<lparr>trace_ops := a @ b\<rparr>) ranges = Some (Inr d)"
  shows "\<exists>s' rs bl zs. eval_mm_valid pk s (t\<lparr>trace_ops := a\<rparr>) ranges = Some (Inr (s', rs, bl, zs)) \<and>
    (\<forall>i\<in>live a. IS_ALIGNED (bl ! i) \<and> mem_heap_lo (lib s') \<le> bl ! i \<and> int (bl ! i + zs ! i) - 1 \<le> mem_heap_hi (lib s') \<and>
       (\<forall>j\<in>live a. j \<noteq> i \<longrightarrow> disjoint_payloads bl zs i j \<or> encloses bl zs i j \<or> encloses bl zs j i))"
proof -
  obtain s' rs bl zs where d: "eval_mm_valid pk s (t\<lparr>trace_ops := a\<rparr>) ranges = Some (Inr (s', rs, bl, zs))"
    "checked n (live a) (s', rs, bl, zs)"
    using eval_mm_valid_prefix [OF assms] by (metis prod_cases4)
  then have "\<forall>i\<in>live a. IS_ALIGNED (bl ! i) \<and> mem_heap_lo (lib s') \<le> bl ! i \<and> int (bl ! i + zs ! i) - 1 \<le> mem_heap_hi (lib s')"
    by (auto simp: checked_def mem_heap_lo_def mem_heap_hi_def)
  then show ?thesis using d(1) checked_pair [OF d(2)] by blast
qed

section \<open>The allocator that only moves the break\<close>

lemma PUT_lib: "PUT s p v = Some s' \<Longrightarrow> lib s' = lib s"
  by (auto simp: PUT_def split: if_splits)

lemma memcpy_lib: "memcpy s p q k = Some s' \<Longrightarrow> lib s' = lib s"
  by (auto simp: memcpy_def split: if_splits)

lemma naive_malloc_step:
  assumes "mem_wf (lib s)" and "naive_malloc s n = Some (s', p)"
  shows "lib_step s s'"
proof -
  let ?k = "to_int32 (ALIGN (n + SIZE_T_SIZE))"
  have "ALIGN (n + SIZE_T_SIZE) mod 2 ^ 32 < 2 ^ 32" by simp
  then have k: "?k < 2 ^ 31" unfolding to_int32_def by auto
  obtain l r where l: "mem_sbrk (lib s) ?k = (l, r)" by (metis surj_pair)
  have "lib s' = l" using assms(2) l by (auto simp: naive_malloc_def Let_def split: option.splits Option.bind_splits dest: PUT_lib)
  moreover have "mem_wf l" using mem_sbrk_wf [OF assms(1) k] l by simp
  moreover have "mem_start_brk l = mem_start_brk (lib s) \<and> mem_brk (lib s) \<le> mem_brk l"
    using l mem_sbrk_wf_eq [OF assms(1) k] by (auto split: if_splits)
  ultimately show ?thesis by (simp add: lib_step_def)
qed

lemma naive_realloc_step:
  assumes "mem_wf (lib s)" and "naive_realloc s q n = Some (s', p)"
  shows "lib_step s s'"
proof -
  obtain s1 p1 where m: "naive_malloc s n = Some (s1, p1)" using assms(2) by (auto simp: naive_realloc_def split: Option.bind_splits)
  have "lib s' = lib s1"
    using assms(2) m by (auto simp: naive_realloc_def naive_free_def Let_def split: Option.bind_splits if_splits dest: memcpy_lib)
  then show ?thesis using naive_malloc_step [OF assms(1) m] by (simp add: lib_step_def)
qed

lemma naive_grows: "grows naive_pkg"
  using naive_malloc_step naive_realloc_step by (auto simp: grows_def naive_pkg_def naive_init_def naive_free_def lib_step_lib)

definition sample_heap :: mmst where
  "sample_heap = \<lparr>lib = \<lparr>mem_start_brk = 4096, mem_brk = 4096, mem_max_addr = 8192\<rparr>, mem = (\<lambda>_. 0), heap_listp = 0, free_listp = 0\<rparr>"

definition sample_trace :: trace where
  "sample_trace = \<lparr>sugg_heapsize = 0, num_ids = 2, num_ops = 3, weight = 1, trace_ops = [], blocks = [0, 0], block_sizes = [0, 0]\<rparr>"

lemma sample_run:
  "\<exists>d. eval_mm_valid naive_pkg sample_heap (sample_trace\<lparr>trace_ops := [\<lparr>op_type = ALLOC, op_index = 0, op_size = 5\<rparr>,
      \<lparr>op_type = ALLOC, op_index = 1, op_size = 16\<rparr>] @ [\<lparr>op_type = FREE, op_index = 0, op_size = 0\<rparr>]\<rparr>) [] = Some (Inr d)"
  by (simp add: eval_mm_valid_def sample_heap_def sample_trace_def naive_pkg_def naive_init_def naive_malloc_def naive_free_def
      mem_reset_brk_def SIZE_T_SIZE_8 ALIGN_8 align8_def mem_sbrk_def to_int32_def PUT_def valid_def valid_op_def add_range_def IS_ALIGNED_def
      ALIGNMENT_def mem_heap_lo_def mem_heap_hi_def memset_def clear_ranges_def aset_def aget_def)

lemma driver_sound_witness:
  "\<exists>s' rs bl zs. eval_mm_valid naive_pkg sample_heap (sample_trace\<lparr>trace_ops := [\<lparr>op_type = ALLOC, op_index = 0, op_size = 5\<rparr>,
      \<lparr>op_type = ALLOC, op_index = 1, op_size = 16\<rparr>]\<rparr>) [] = Some (Inr (s', rs, bl, zs)) \<and>
    IS_ALIGNED (bl ! 0) \<and> (disjoint_payloads bl zs 0 1 \<or> encloses bl zs 0 1 \<or> encloses bl zs 1 0)"
proof -
  have w: "mem_wf (lib sample_heap)" "length (blocks sample_trace) = 2" "length (block_sizes sample_trace) = 2"
    by (simp_all add: sample_heap_def sample_trace_def mem_wf_def)
  let ?a = "[\<lparr>op_type = ALLOC, op_index = 0, op_size = 5\<rparr>, \<lparr>op_type = ALLOC, op_index = 1, op_size = 16\<rparr>]"
    and ?b = "[\<lparr>op_type = FREE, op_index = 0, op_size = 0\<rparr>]"
  have g: "good_ops 2 {} (?a @ ?b)" and l: "0 \<in> live ?a" "1 \<in> live ?a" by (simp_all add: live_def next_index_def)
  obtain d where "eval_mm_valid naive_pkg sample_heap (sample_trace\<lparr>trace_ops := ?a @ ?b\<rparr>) [] = Some (Inr d)" using sample_run by blast
  from driver_sound [OF naive_grows w g this] obtain s' rs bl zs where
    e: "eval_mm_valid naive_pkg sample_heap (sample_trace\<lparr>trace_ops := ?a\<rparr>) [] = Some (Inr (s', rs, bl, zs))"
    and q: "\<forall>i\<in>live ?a. IS_ALIGNED (bl ! i) \<and> mem_heap_lo (lib s') \<le> bl ! i \<and> int (bl ! i + zs ! i) - 1 \<le> mem_heap_hi (lib s') \<and>
       (\<forall>j\<in>live ?a. j \<noteq> i \<longrightarrow> disjoint_payloads bl zs i j \<or> encloses bl zs i j \<or> encloses bl zs j i)"
    by (elim exE conjE)
  have "IS_ALIGNED (bl ! 0)" "\<forall>j\<in>live ?a. j \<noteq> 0 \<longrightarrow> disjoint_payloads bl zs 0 j \<or> encloses bl zs 0 j \<or> encloses bl zs j 0"
    using bspec [OF q l(1)] by blast+
  then show ?thesis using e l(2) by (intro exI [of _ s'] exI [of _ rs] exI [of _ bl] exI [of _ zs]) simp
qed

end
