(* ===== verification/Trans.thy ===== *)
theory Trans
  imports Prelude
begin

text \<open>
  The matrix transposes of the cache lab (\<^verbatim>\<open>sp_04_cachelab/trans.c\<close>), the helper functions of
  \<^verbatim>\<open>cachelab.c\<close>, the trace generator that runs and validates the transposes (\<^verbatim>\<open>tracegen.c\<close>)
  and the selection of the trace lines that belong to one of them (\<^verbatim>\<open>test-trans.c\<close>).

  A matrix is a function of row and column.  Every access is checked against the declared
  dimensions (\<^verbatim>\<open>A[N][M]\<close>, \<^verbatim>\<open>B[M][N]\<close>): \<open>None\<close> is an access outside of the array.  The two arrays
  are distinct objects in every caller.
\<close>

type_synonym matrix = "nat \<Rightarrow> nat \<Rightarrow> int"

section \<open>Loops and checked accesses\<close>

text \<open>The values of the variable of a loop \<^verbatim>\<open>for (i = i; i < n; i += k)\<close>.\<close>

function steps :: "nat \<Rightarrow> nat \<Rightarrow> nat \<Rightarrow> nat list" where
  "steps i n k = (if k = 0 \<or> n \<le> i then [] else i # steps (i + k) n k)"
  by pat_completeness auto
termination by (relation "measure (\<lambda>(i, n, k). n - i)") auto

declare steps.simps [simp del]

fun for_each :: "'a list \<Rightarrow> ('a \<Rightarrow> 's \<Rightarrow> 's option) \<Rightarrow> 's \<Rightarrow> 's option" where
  "for_each [] body s = Some s"
| "for_each (x # xs) body s = do { s \<leftarrow> body x s; for_each xs body s }"

definition mget :: "nat \<Rightarrow> nat \<Rightarrow> matrix \<Rightarrow> nat \<Rightarrow> nat \<Rightarrow> int option" where
  "mget rows cols X i j = (if i < rows \<and> j < cols then Some (X i j) else None)"

definition mset :: "nat \<Rightarrow> nat \<Rightarrow> matrix \<Rightarrow> nat \<Rightarrow> nat \<Rightarrow> int \<Rightarrow> matrix option" where
  "mset rows cols X i j v = (if i < rows \<and> j < cols then Some (X(i := (X i)(j := v))) else None)"

section \<open>The transposes\<close>

text \<open>The body of the loops for 32 x 32: a row segment of eight to a column segment.\<close>

definition move8 :: "nat \<Rightarrow> nat \<Rightarrow> matrix \<Rightarrow> nat \<Rightarrow> nat \<Rightarrow> matrix \<Rightarrow> matrix option" where
  "move8 M N A i j B = do {
     b0 \<leftarrow> mget N M A i j;
     b1 \<leftarrow> mget N M A i (j + 1);
     b2 \<leftarrow> mget N M A i (j + 2);
     b3 \<leftarrow> mget N M A i (j + 3);
     b4 \<leftarrow> mget N M A i (j + 4);
     b5 \<leftarrow> mget N M A i (j + 5);
     b6 \<leftarrow> mget N M A i (j + 6);
     b7 \<leftarrow> mget N M A i (j + 7);
     B \<leftarrow> mset M N B j i b0;
     B \<leftarrow> mset M N B (j + 1) i b1;
     B \<leftarrow> mset M N B (j + 2) i b2;
     B \<leftarrow> mset M N B (j + 3) i b3;
     B \<leftarrow> mset M N B (j + 4) i b4;
     B \<leftarrow> mset M N B (j + 5) i b5;
     B \<leftarrow> mset M N B (j + 6) i b6;
     mset M N B (j + 7) i b7 }"

text \<open>The body of the two inner loops for 64 x 64: a column segment of four to a row segment.\<close>

definition move4 :: "nat \<Rightarrow> nat \<Rightarrow> matrix \<Rightarrow> nat \<Rightarrow> nat \<Rightarrow> matrix \<Rightarrow> matrix option" where
  "move4 M N A i j B = do {
     b0 \<leftarrow> mget N M A i j;
     b1 \<leftarrow> mget N M A (i + 1) j;
     b2 \<leftarrow> mget N M A (i + 2) j;
     b3 \<leftarrow> mget N M A (i + 3) j;
     B \<leftarrow> mset M N B j i b0;
     B \<leftarrow> mset M N B j (i + 1) b1;
     B \<leftarrow> mset M N B j (i + 2) b2;
     mset M N B j (i + 3) b3 }"

definition transpose_submit :: "nat \<Rightarrow> nat \<Rightarrow> matrix \<Rightarrow> matrix \<Rightarrow> matrix option" where
  "transpose_submit M N A B =
     (if M = 32 \<and> N = 32 then
        for_each (steps 0 N 8) (\<lambda>j. for_each (steps 0 M 1) (\<lambda>i. move8 M N A i j)) B
      else if M = 64 \<and> N = 64 then
        for_each (steps 0 N 4) (\<lambda>j. for_each (steps 0 M 8) (\<lambda>i B. do {
          B \<leftarrow> for_each (steps 0 4 1) (\<lambda>ii. move4 M N A i (j + ii)) B;
          for_each (steps 0 4 1) (\<lambda>ii. move4 M N A (i + 4) (j + ii)) B })) B
      else
        for_each (steps 0 N 18) (\<lambda>i. for_each (steps 0 M 18) (\<lambda>j.
          for_each (steps i (min (i + 18) N) 1) (\<lambda>ii. for_each (steps j (min (j + 18) M) 1) (\<lambda>jj B. do {
            a \<leftarrow> mget N M A ii jj;
            mset M N B jj ii a })))) B)"

definition trans :: "nat \<Rightarrow> nat \<Rightarrow> matrix \<Rightarrow> matrix \<Rightarrow> matrix option" where
  "trans M N A B = for_each (steps 0 N 1) (\<lambda>i. for_each (steps 0 M 1) (\<lambda>j B. do {
     tmp \<leftarrow> mget N M A i j;
     mset M N B j i tmp })) B"

definition correctTrans :: "nat \<Rightarrow> nat \<Rightarrow> matrix \<Rightarrow> matrix \<Rightarrow> matrix option" where
  "correctTrans M N A B = for_each (steps 0 N 1) (\<lambda>i. for_each (steps 0 M 1) (\<lambda>j B. do {
     tmp \<leftarrow> mget N M A i j;
     mset M N B j i tmp })) B"

definition is_transpose :: "nat \<Rightarrow> nat \<Rightarrow> matrix \<Rightarrow> matrix \<Rightarrow> bool" where
  "is_transpose M N A B \<longleftrightarrow> list_all (\<lambda>i. list_all (\<lambda>j. A i j = B j i) (steps 0 M 1)) (steps 0 N 1)"

text \<open>
  \<^verbatim>\<open>validate\<close> of the trace generator: \<open>Some True\<close> is the result 1.
\<close>

definition validate :: "nat \<Rightarrow> nat \<Rightarrow> matrix \<Rightarrow> matrix \<Rightarrow> bool option" where
  "validate M N A B = do {
     C \<leftarrow> correctTrans M N A (\<lambda>_ _. 0);
     Some (list_all (\<lambda>i. list_all (\<lambda>j. B i j = C i j) (steps 0 N 1)) (steps 0 M 1)) }"

section \<open>The registered functions\<close>

definition MAX_TRANS_FUNCS :: nat where
  "MAX_TRANS_FUNCS = 100"

record trans_func =
  func_ptr :: "nat \<Rightarrow> nat \<Rightarrow> matrix \<Rightarrow> matrix \<Rightarrow> matrix option"
  description :: string
  correct :: bool
  num_hits :: nat
  num_misses :: nat
  num_evictions :: nat

text \<open>
  The array \<^verbatim>\<open>func_list\<close> up to \<^verbatim>\<open>func_counter\<close>; a registration beyond its end is \<open>None\<close>.
\<close>

definition registerTransFunction :: "trans_func list \<Rightarrow> (nat \<Rightarrow> nat \<Rightarrow> matrix \<Rightarrow> matrix \<Rightarrow> matrix option)
    \<Rightarrow> string \<Rightarrow> trans_func list option" where
  "registerTransFunction fs f desc =
     (if length fs < MAX_TRANS_FUNCS
      then Some (fs @ [\<lparr>func_ptr = f, description = desc, correct = False, num_hits = 0, num_misses = 0,
        num_evictions = 0\<rparr>])
      else None)"

definition registerFunctions :: "trans_func list \<Rightarrow> trans_func list option" where
  "registerFunctions fs = do {
     fs \<leftarrow> registerTransFunction fs transpose_submit ''Transpose submission'';
     registerTransFunction fs trans ''Simple row-wise scan transpose'' }"

text \<open>
  \<^verbatim>\<open>main\<close> of the trace generator after the options: the exit status, \<open>0\<close> or one more than the
  number of the function that failed the validation.
\<close>

fun run_all :: "nat \<Rightarrow> nat \<Rightarrow> matrix \<Rightarrow> nat \<Rightarrow> trans_func list \<Rightarrow> matrix \<Rightarrow> nat option" where
  "run_all M N A i [] B = Some 0"
| "run_all M N A i (f # fs) B = do {
     B \<leftarrow> func_ptr f M N A B;
     ok \<leftarrow> validate M N A B;
     if \<not> ok then Some (i + 1) else run_all M N A (i + 1) fs B }"

definition tracegen_main :: "nat \<Rightarrow> nat \<Rightarrow> nat option \<Rightarrow> matrix \<Rightarrow> matrix \<Rightarrow> nat option" where
  "tracegen_main M N selectedFunc A B = do {
     fs \<leftarrow> registerFunctions [];
     case selectedFunc of
       None \<Rightarrow> run_all M N A 0 fs B
     | Some k \<Rightarrow> do {
         f \<leftarrow> aget fs k;
         B \<leftarrow> func_ptr f M N A B;
         ok \<leftarrow> validate M N A B;
         Some (if \<not> ok then k + 1 else 0) } }"

section \<open>Selecting the trace of a function\<close>

text \<open>
  The loop of \<^verbatim>\<open>eval_perf\<close> over the lines of the full trace: the operation and the address of the
  lines that are memory accesses, and \<open>None\<close> for all other lines.  The result is the filtered
  trace.
\<close>

fun part_trace :: "nat \<Rightarrow> nat \<Rightarrow> bool \<Rightarrow> (char \<times> nat) option list \<Rightarrow> (char \<times> nat) list" where
  "part_trace marker_start marker_end flag [] = []"
| "part_trace marker_start marker_end flag (None # ls) = part_trace marker_start marker_end flag ls"
| "part_trace marker_start marker_end flag (Some (c, addr) # ls) =
     (let flag = (if addr = marker_start then True else flag);
          out = (if flag \<and> addr < 0xffffffff then [(c, addr)] else [])
      in if addr = marker_end then out
         else out @ part_trace marker_start marker_end flag ls)"

section \<open>What the loops write\<close>

text \<open>The matrix after the elements \<open>L\<close> of \<open>A\<close> have been copied to their transposed places.\<close>

definition copied :: "matrix \<Rightarrow> matrix \<Rightarrow> (nat \<times> nat) set \<Rightarrow> matrix" where
  "copied A B L = (\<lambda>j i. if (i, j) \<in> L then A i j else B j i)"

lemma copied_simps [simp]: "copied A B {} = B" "copied A (copied A B K) L = copied A B (K \<union> L)"
  by (auto simp: copied_def fun_eq_iff)

lemma copy_one:
  "i < N \<Longrightarrow> j < M \<Longrightarrow> mget N M A i j = Some (A i j)"
  "i < N \<Longrightarrow> j < M \<Longrightarrow> mset M N (copied A B K) j i (A i j) = Some (copied A B (insert (i, j) K))"
  by (auto simp: mget_def mset_def copied_def fun_eq_iff)

lemma for_each_copied:
  assumes "\<And>x K. x \<in> set xs \<Longrightarrow> f x (copied A B K) = Some (copied A B (K \<union> L x))"
  shows "for_each xs f (copied A B K) = Some (copied A B (K \<union> (\<Union>x\<in>set xs. L x)))"
  using assms by (induction xs arbitrary: K) (auto simp: Un_assoc)

lemma steps_set: "0 < k \<Longrightarrow> set (steps i n k) = {x. i \<le> x \<and> x < n \<and> k dvd (x - i)}"
proof (induction i n k rule: steps.induct)
  case (1 i n k)
  show ?case
  proof (cases "n \<le> i")
    case True
    then show ?thesis by (subst steps.simps) auto
  next
    case False
    have "i \<le> x \<and> k dvd (x - i) \<longleftrightarrow> x = i \<or> i + k \<le> x \<and> k dvd (x - (i + k))" for x
    proof (cases "i + k \<le> x")
      case True
      then have "x - i = (x - (i + k)) + k" by simp
      then have "k dvd (x - i) \<longleftrightarrow> k dvd (x - (i + k))" by simp
      then show ?thesis using True by auto
    next
      case less: False
      have "x = i" if "i \<le> x" "k dvd (x - i)"
        using that less dvd_imp_le [of k "x - i"] by (cases "x = i") auto
      then show ?thesis using less 1(2) by auto
    qed
    then show ?thesis using False 1 by (subst steps.simps) auto
  qed
qed

lemma steps_1 [simp]: "set (steps i n 1) = {i..<n}" "set (steps i n (Suc 0)) = {i..<n}"
  by (auto simp: steps_set)

lemma move8_copied:
  assumes "i < N" and "j + 7 < M"
  shows "move8 M N A i j (copied A B K) = Some (copied A B (K \<union> {i} \<times> {j..<j + 8}))"
proof -
  have "{j..<j + 8} = {j, j + 1, j + 2, j + 3, j + 4, j + 5, j + 6, j + 7}" by (rule set_eqI, simp, arith)
  then have "K \<union> {i} \<times> {j..<j + 8} = insert (i, j + 7) (insert (i, j + 6) (insert (i, j + 5) (insert (i, j + 4)
      (insert (i, j + 3) (insert (i, j + 2) (insert (i, j + 1) (insert (i, j) K)))))))"
    by (simp only:) blast
  moreover have "move8 M N A i j (copied A B K) = Some (copied A B (insert (i, j + 7) (insert (i, j + 6)
      (insert (i, j + 5) (insert (i, j + 4) (insert (i, j + 3) (insert (i, j + 2) (insert (i, j + 1) (insert (i, j) K)))))))))"
    using assms by (simp add: move8_def copy_one del: insert_iff)
  ultimately show ?thesis by (simp only:)
qed

lemma move4_copied:
  assumes "i + 3 < N" and "j < M"
  shows "move4 M N A i j (copied A B K) = Some (copied A B (K \<union> {i..<i + 4} \<times> {j}))"
proof -
  have "{i..<i + 4} = {i, i + 1, i + 2, i + 3}" by (rule set_eqI, simp, arith)
  then have "K \<union> {i..<i + 4} \<times> {j} = insert (i + 3, j) (insert (i + 2, j) (insert (i + 1, j) (insert (i, j) K)))"
    by (simp only:) blast
  moreover have "move4 M N A i j (copied A B K) =
      Some (copied A B (insert (i + 3, j) (insert (i + 2, j) (insert (i + 1, j) (insert (i, j) K)))))"
    using assms by (simp add: move4_def copy_one)
  ultimately show ?thesis by (simp only:)
qed

lemma block_cover:
  assumes "0 < k" and "\<And>x. x \<in> set (steps 0 n k) \<Longrightarrow> C x = {x..<min (x + k) n}"
  shows "(\<Union>x\<in>set (steps 0 n k). C x) = {..<n}"
proof
  show "(\<Union>x\<in>set (steps 0 n k). C x) \<subseteq> {..<n}" using assms by auto
  show "{..<n} \<subseteq> (\<Union>x\<in>set (steps 0 n k). C x)"
  proof
    fix y assume "y \<in> {..<n}"
    define x where "x = y div k * k"
    have "y = x + y mod k" by (simp add: x_def)
    moreover have "y mod k < k" using assms(1) by simp
    ultimately have "x \<le> y" "y < x + k" by linarith+
    moreover have "x \<in> set (steps 0 n k)"
    proof -
      have "k dvd x" by (simp add: x_def)
      then show ?thesis using \<open>x \<le> y\<close> \<open>y \<in> {..<n}\<close> unfolding steps_set [OF assms(1)] by auto
    qed
    ultimately have "x \<in> set (steps 0 n k)" "y \<in> {x..<min (x + k) n}" using \<open>y \<in> {..<n}\<close> by auto
    then show "y \<in> (\<Union>x\<in>set (steps 0 n k). C x)" using assms(2) by blast
  qed
qed

lemma block_step:
  fixes x k n :: nat
  assumes "x \<in> set (steps 0 n k)" and "0 < k" and "k dvd n"
  shows "{x..<x + k} = {x..<min (x + k) n}"
proof -
  obtain a b where "x = k * a" "n = k * b" "x < n" using assms by (auto simp: steps_set elim!: dvdE)
  then have "a < b" using assms(2) by simp
  then have "k * (a + 1) \<le> k * b" by (intro mult_le_mono2) simp
  then have "x + k \<le> n" using \<open>x = k * a\<close> \<open>n = k * b\<close> by simp
  then show ?thesis by (simp add: min_absorb1)
qed

lemma UN_product:
  "(\<Union>j\<in>J. \<Union>i\<in>I. C i \<times> D j) = (\<Union>i\<in>I. C i) \<times> (\<Union>j\<in>J. D j)"
  "(\<Union>i\<in>I. \<Union>j\<in>J. C i \<times> D j) = (\<Union>i\<in>I. C i) \<times> (\<Union>j\<in>J. D j)"
  by blast+

lemma submit_32:
  "transpose_submit 32 32 A (copied A B K) = Some (copied A B (K \<union> {..<32} \<times> {..<32}))"
proof -
  have inner: "for_each (steps 0 32 1) (\<lambda>i. move8 32 32 A i j) (copied A B K) =
      Some (copied A B (K \<union> (\<Union>i\<in>set (steps 0 32 1). {i} \<times> {j..<j + 8})))" if "j \<in> set (steps 0 32 8)" for j K
  proof (rule for_each_copied)
    have "j + 7 < 32" using that by (auto simp: steps_set; presburger)
    then show "move8 32 32 A i j (copied A B K) = Some (copied A B (K \<union> {i} \<times> {j..<j + 8}))"
      if "i \<in> set (steps 0 32 1)" for i K
      using that by (intro move8_copied) auto
  qed
  have "transpose_submit 32 32 A (copied A B K) =
      Some (copied A B (K \<union> (\<Union>j\<in>set (steps 0 32 8). \<Union>i\<in>set (steps 0 32 1). {i} \<times> {j..<j + 8})))"
    unfolding transpose_submit_def by (simp only: simp_thms if_True) (rule for_each_copied, rule inner)
  moreover have "(\<Union>j\<in>set (steps 0 32 8). {j..<j + 8}) = {..<32 :: nat}"
    by (rule block_cover [OF _ block_step]) simp_all
  then have "(\<Union>j\<in>set (steps 0 32 8). \<Union>i\<in>set (steps 0 32 1). {i} \<times> {j..<j + 8}) = {..<32} \<times> {..<32 :: nat}"
    unfolding UN_product by auto
  ultimately show ?thesis by simp
qed

lemma submit_64:
  "transpose_submit 64 64 A (copied A B K) = Some (copied A B (K \<union> {..<64} \<times> {..<64}))"
proof -
  have half: "for_each (steps 0 4 1) (\<lambda>ii. move4 64 64 A i (j + ii)) (copied A B K) =
      Some (copied A B (K \<union> {i..<i + 4} \<times> {j..<j + 4}))" if "i + 3 < 64" "j + 3 < 64" for i j K
  proof -
    have "for_each (steps 0 4 1) (\<lambda>ii. move4 64 64 A i (j + ii)) (copied A B K) =
        Some (copied A B (K \<union> (\<Union>ii\<in>set (steps 0 4 1). {i..<i + 4} \<times> {j + ii})))"
      by (rule for_each_copied, rule move4_copied) (use that in auto)
    moreover have "(\<Union>ii\<in>{0..<4}. {j + ii}) = {j..<j + 4}"
      using image_add_atLeastLessThan [of j 0 4] by (simp add: UNION_singleton_eq_range add.commute)
    then have "(\<Union>ii\<in>set (steps 0 4 1). {i..<i + 4} \<times> {j + ii}) = {i..<i + 4} \<times> {j..<j + 4}"
      unfolding steps_1 by blast
    ultimately show ?thesis by simp
  qed
  let ?body = "\<lambda>j i B. do {
     B \<leftarrow> for_each (steps 0 4 1) (\<lambda>ii. move4 64 64 A i (j + ii)) B;
     for_each (steps 0 4 1) (\<lambda>ii. move4 64 64 A (i + 4) (j + ii)) B }"
  have body: "?body j i (copied A B K) = Some (copied A B (K \<union> {i..<i + 8} \<times> {j..<j + 4}))"
    if "i + 7 < 64" "j + 3 < 64" for i j K
  proof -
    have "{i..<i + 4} \<union> {i + 4..<i + 4 + 4} = {i..<i + 8}" by auto
    then have "{i..<i + 4} \<times> {j..<j + 4} \<union> {i + 4..<i + 4 + 4} \<times> {j..<j + 4} = {i..<i + 8} \<times> {j..<j + 4}"
      by (simp only: Sigma_Un_distrib1 [symmetric])
    moreover have "i + 3 < 64" "i + 4 + 3 < 64" using that by auto
    ultimately show ?thesis
      by (simp only: half [OF _ that(2)] bind.bind_lunit Un_assoc)
  qed
  have mult: "x + (k - 1) < 64" if "x \<in> set (steps 0 64 k)" "0 < k" "k dvd 64" for x k :: nat
  proof -
    have "{x..<x + k} = {x..<min (x + k) 64}" by (rule block_step [OF that])
    moreover have "x + (k - 1) \<in> {x..<x + k}" using that(2) by auto
    ultimately show ?thesis by auto
  qed
  have row: "for_each (steps 0 64 8) (?body j) (copied A B K) =
      Some (copied A B (K \<union> (\<Union>i\<in>set (steps 0 64 8). {i..<i + 8} \<times> {j..<j + 4})))" if "j \<in> set (steps 0 64 4)" for j K
    by (rule for_each_copied, rule body) (use mult [OF that] mult [of _ 8] in auto)
  have "transpose_submit 64 64 A (copied A B K) =
      Some (copied A B (K \<union> (\<Union>j\<in>set (steps 0 64 4). \<Union>i\<in>set (steps 0 64 8). {i..<i + 8} \<times> {j..<j + 4})))"
  proof -
    have "transpose_submit 64 64 A (copied A B K) = for_each (steps 0 64 4) (\<lambda>j. for_each (steps 0 64 8) (?body j)) (copied A B K)"
      by (simp add: transpose_submit_def)
    also have "\<dots> = Some (copied A B (K \<union> (\<Union>j\<in>set (steps 0 64 4). \<Union>i\<in>set (steps 0 64 8). {i..<i + 8} \<times> {j..<j + 4})))"
      by (rule for_each_copied, rule row)
    finally show ?thesis .
  qed
  moreover have "(\<Union>i\<in>set (steps 0 64 8). {i..<i + 8}) = {..<64 :: nat}" "(\<Union>j\<in>set (steps 0 64 4). {j..<j + 4}) = {..<64 :: nat}"
    by (rule block_cover [OF _ block_step]; simp)+
  then have "(\<Union>j\<in>set (steps 0 64 4). \<Union>i\<in>set (steps 0 64 8). {i..<i + 8} \<times> {j..<j + 4}) = {..<64} \<times> {..<64 :: nat}"
    unfolding UN_product by simp
  ultimately show ?thesis by simp
qed

lemma submit_blocked:
  assumes "\<not> (M = 32 \<and> N = 32)" and "\<not> (M = 64 \<and> N = 64)"
  shows "transpose_submit M N A (copied A B K) = Some (copied A B (K \<union> {..<N} \<times> {..<M}))"
proof -
  let ?cell = "\<lambda>ii jj B. do { a \<leftarrow> mget N M A ii jj; mset M N B jj ii a }"
  have block: "for_each (steps i (min (i + 18) N) 1) (\<lambda>ii. for_each (steps j (min (j + 18) M) 1) (?cell ii)) (copied A B K) =
      Some (copied A B (K \<union> (\<Union>ii\<in>set (steps i (min (i + 18) N) 1). \<Union>jj\<in>set (steps j (min (j + 18) M) 1). {(ii, jj)})))" for i j K
  proof (rule for_each_copied, rule for_each_copied)
    fix ii jj K assume "ii \<in> set (steps i (min (i + 18) N) 1)" "jj \<in> set (steps j (min (j + 18) M) 1)"
    then have "ii < N" "jj < M" by auto
    then show "?cell ii jj (copied A B K) = Some (copied A B (K \<union> {(ii, jj)}))" by (simp add: copy_one)
  qed
  have eq: "(\<Union>ii\<in>set (steps i (min (i + 18) N) 1). \<Union>jj\<in>set (steps j (min (j + 18) M) 1). {(ii, jj)}) =
      {i..<min (i + 18) N} \<times> {j..<min (j + 18) M}" for i j by auto
  have "transpose_submit M N A (copied A B K) =
      for_each (steps 0 N 18) (\<lambda>i. for_each (steps 0 M 18) (\<lambda>j. for_each (steps i (min (i + 18) N) 1)
        (\<lambda>ii. for_each (steps j (min (j + 18) M) 1) (?cell ii)))) (copied A B K)"
    by (simp only: transpose_submit_def assms if_False)
  also have "\<dots> = Some (copied A B (K \<union> (\<Union>i\<in>set (steps 0 N 18). \<Union>j\<in>set (steps 0 M 18). {i..<min (i + 18) N} \<times> {j..<min (j + 18) M})))"
    unfolding block eq [symmetric] by (rule for_each_copied, rule for_each_copied, rule block)
  moreover have "(\<Union>i\<in>set (steps 0 n 18). {i..<min (i + 18) n}) = {..<n}" for n :: nat
    by (rule block_cover) simp_all
  then have "(\<Union>i\<in>set (steps 0 N 18). \<Union>j\<in>set (steps 0 M 18). {i..<min (i + 18) N} \<times> {j..<min (j + 18) M}) = {..<N} \<times> {..<M}"
    unfolding UN_product by simp
  ultimately show ?thesis by simp
qed

lemma submit_copied: "transpose_submit M N A B = Some (copied A B ({..<N} \<times> {..<M}))"
  using submit_32 [of A B "{}"] submit_64 [of A B "{}"] submit_blocked [of M N A B "{}"] by (cases "M = 32 \<and> N = 32"; cases "M = 64 \<and> N = 64") simp_all

lemma rowwise_copied:
  "for_each (steps 0 N 1) (\<lambda>i. for_each (steps 0 M 1) (\<lambda>j B. do { t \<leftarrow> mget N M A i j; mset M N B j i t })) B =
     Some (copied A B ({..<N} \<times> {..<M}))"
proof -
  let ?cell = "\<lambda>i j B. do { t \<leftarrow> mget N M A i j; mset M N B j i t }"
  have "for_each (steps 0 N 1) (\<lambda>i. for_each (steps 0 M 1) (?cell i)) (copied A B {}) =
      Some (copied A B ({} \<union> (\<Union>i\<in>set (steps 0 N 1). \<Union>j\<in>set (steps 0 M 1). {(i, j)})))"
  proof (rule for_each_copied, rule for_each_copied)
    fix i j K assume "i \<in> set (steps 0 N 1)" "j \<in> set (steps 0 M 1)"
    then have "i < N" "j < M" by auto
    then show "?cell i j (copied A B K) = Some (copied A B (K \<union> {(i, j)}))" by (simp add: copy_one)
  qed
  moreover have "(\<Union>i\<in>set (steps 0 N 1). \<Union>j\<in>set (steps 0 M 1). {(i, j)}) = {..<N} \<times> {..<M}"
    unfolding steps_1 by (auto simp: atLeast0LessThan)
  ultimately show ?thesis by simp
qed

lemma trans_copied: "trans M N A B = Some (copied A B ({..<N} \<times> {..<M}))"
  unfolding trans_def by (rule rowwise_copied)

lemma correctTrans_copied: "correctTrans M N A B = Some (copied A B ({..<N} \<times> {..<M}))"
  unfolding correctTrans_def by (rule rowwise_copied)

lemma validate_iff: "validate M N A B = Some (\<forall>i<N. \<forall>j<M. B j i = A i j)"
  unfolding validate_def correctTrans_copied list_all_iff steps_1 by (auto simp: copied_def)

lemma validate_copied: "validate M N A (copied A B ({..<N} \<times> {..<M})) = Some True"
  by (simp add: validate_iff copied_def)

lemma tracegen_ok:
  assumes "\<forall>k. selectedFunc = Some k \<longrightarrow> k < 2"
  shows "tracegen_main M N selectedFunc A B = Some 0"
proof -
  consider "selectedFunc = None" | "selectedFunc = Some 0" | "selectedFunc = Some 1"
    using assms by (cases selectedFunc) (auto simp: less_2_cases_iff)
  then show ?thesis
    by cases (simp_all add: tracegen_main_def registerFunctions_def registerTransFunction_def
        MAX_TRANS_FUNCS_def submit_copied trans_copied validate_copied aget_def)
qed

lemma tracegen_status: "k < 2 \<Longrightarrow> tracegen_main M N (Some k) A B = Some 0"
  by (rule tracegen_ok) simp

section \<open>Properties\<close>

text \<open>
  C11. For all dimensions, the blocked transpose that is optimised for the cache (its three cases
  for 32 x 32, 64 x 64 and all others) stays inside of the arrays and computes the same matrix
  as the baseline \<^verbatim>\<open>correctTrans\<close>: the transpose of \<open>A\<close>, with nothing else changed.
\<close>

theorem transpose_submit_correct:
  "transpose_submit M N A B = correctTrans M N A B \<and>
   correctTrans M N A B = Some (\<lambda>j i. if i < N \<and> j < M then A i j else B j i)"
  by (auto simp: submit_copied correctTrans_copied copied_def fun_eq_iff)

text \<open>
  Every registered transpose passes the validation of the trace generator: for the
  dimensions up to 256 that its static arrays hold, \<^verbatim>\<open>tracegen\<close> runs all functions, or the
  selected one, without leaving an array and exits with status 0; and the validation accepts a result exactly when it is the transpose.
\<close>

theorem tracegen_validates:
  assumes "M \<le> 256" and "N \<le> 256" and "\<forall>k. selectedFunc = Some k \<longrightarrow> k < 2"
  shows "tracegen_main M N selectedFunc A B = Some 0 \<and>
         validate M N A B = Some (\<forall>i<N. \<forall>j<M. B j i = A i j)"
  using tracegen_ok [OF assms(3)] by (simp add: validate_iff)

theorem tracegen_validates_witness:
  "tracegen_main 61 67 (Some 1) (\<lambda>i j. int i * 7 + int j) (\<lambda>_ _. 0) = Some 0"
  using tracegen_validates [of 61 67 "Some 1"] by simp

text \<open>The accesses up to the end marker, the marker included.\<close>

fun upto_marker :: "nat \<Rightarrow> (char \<times> nat) list \<Rightarrow> (char \<times> nat) list" where
  "upto_marker e [] = []"
| "upto_marker e (x # xs) = (if snd x = e then [x] else x # upto_marker e xs)"

text \<open>
  The trace that \<^verbatim>\<open>eval_perf\<close> writes for a transpose holds exactly the memory accesses from
  the first access to the start marker to the first access to the end marker, in their order,
  without those above the low 32 bits of the address space.
\<close>

theorem part_trace_selects:
  "part_trace s e False ls =
     filter (\<lambda>x. snd x < 0xffffffff) (dropWhile (\<lambda>x. snd x \<noteq> s) (upto_marker e (List.map_filter (\<lambda>l. l) ls)))"
proof -
  have on: "part_trace s e True ls = filter (\<lambda>x. snd x < 0xffffffff) (upto_marker e (List.map_filter (\<lambda>l. l) ls))" for ls
    by (induction s e True ls rule: part_trace.induct) (auto simp: Let_def map_filter_simps)
  show ?thesis
  proof (induction ls)
    case (Cons l ls)
    then show ?case by (cases l) (auto simp: Let_def map_filter_simps on)
  qed (simp add: map_filter_simps)
qed

end
