(* ===== verification/Csim.thy ===== *)
theory Csim
  imports Prelude
begin

unbundle bit_operations_syntax

text \<open>
  The cache simulator of the cache lab (\<^verbatim>\<open>sp_04_cachelab/csim.c\<close>), and the LRU cache that it is
  meant to simulate.

  The globals of the program are a record.  Addresses are \<^verbatim>\<open>unsigned\<close>, words of 32 bits; the
  program shifts them by counts of 32 and more, which C leaves undefined, and the model
  takes the counts modulo 32 as the shift instructions of the machine do.  The counters and the dimensions of the cache are
  \<^verbatim>\<open>int\<close>: a number beyond \<^verbatim>\<open>INT_MAX\<close> is \<open>None\<close>, and so is an access outside of the array of
  cache lines.
\<close>

section \<open>The program\<close>

definition INT_MAX :: nat where
  "INT_MAX = 2 ^ 31 - 1"

text \<open>The increment of a counter.\<close>

definition incr :: "nat \<Rightarrow> nat option" where
  "incr n = (if n < INT_MAX then Some (n + 1) else None)"

record cache_line =
  is_valid :: bool
  line_tag :: u32
  lru_count :: nat

record csim =
  cache :: "cache_line list"
  cE :: nat
  cs :: nat
  cS :: nat
  cb :: nat
  cB :: nat
  ct :: int
  op_counter :: nat
  hit :: nat
  miss :: nat
  evict :: nat

definition shr :: "u32 \<Rightarrow> int \<Rightarrow> u32" where
  "shr x n = drop_bit (nat (n mod 32)) x"

definition shl :: "u32 \<Rightarrow> int \<Rightarrow> u32" where
  "shl x n = push_bit (nat (n mod 32)) x"

definition GET_SET_INDEX :: "csim \<Rightarrow> u32 \<Rightarrow> nat" where
  "GET_SET_INDEX c x = unat (shr (shl (shr x (int (cb c))) (int (cb c) + ct c)) (int (cb c) + ct c))"

definition GET_TAG :: "csim \<Rightarrow> u32 \<Rightarrow> u32" where
  "GET_TAG c x = shr (x AND 0xffffffff) (int (cb c) + int (cs c))"

text \<open>
  The search loop of \<^verbatim>\<open>get_cache\<close>: line \<open>i\<close>, with \<open>n\<close> lines to go.  \<open>Inl i\<close> is a hit in line
  \<open>i\<close>; otherwise the first empty line and the least recently used line, if any.
\<close>

fun search :: "cache_line list \<Rightarrow> nat \<Rightarrow> u32 \<Rightarrow> nat \<Rightarrow> nat \<Rightarrow> nat option \<Rightarrow> nat option \<Rightarrow> nat
    \<Rightarrow> (nat + nat option \<times> nat option) option" where
  "search ls base tg i 0 emp lr mn = Some (Inr (emp, lr))"
| "search ls base tg i (Suc n) emp lr mn = do {
     l \<leftarrow> aget ls (base + i);
     if line_tag l = tg \<and> is_valid l then Some (Inl i)
     else if \<not> is_valid l then
       search ls base tg (Suc i) n (if emp = None then Some i else emp) lr mn
     else if lru_count l < mn then search ls base tg (Suc i) n emp (Some i) (lru_count l)
     else search ls base tg (Suc i) n emp lr mn }"

definition get_cache :: "csim \<Rightarrow> u32 \<Rightarrow> csim option" where
  "get_cache c address =
     (let set_index = GET_SET_INDEX c address; base = set_index * cE c; tg = GET_TAG c address in do {
       r \<leftarrow> search (cache c) base tg 0 (cE c) None None INT_MAX;
       case r of
         Inl i \<Rightarrow> do {
           l \<leftarrow> aget (cache c) (base + i);
           ls \<leftarrow> aset (cache c) (base + i) (l\<lparr>lru_count := op_counter c\<rparr>);
           h \<leftarrow> incr (hit c);
           Some (c\<lparr>cache := ls, hit := h\<rparr>) }
       | Inr (None, None) \<Rightarrow> None
       | Inr (None, Some l) \<Rightarrow> do {
           ls \<leftarrow> aset (cache c) (base + l) \<lparr>is_valid = True, line_tag = tg, lru_count = op_counter c\<rparr>;
           ms \<leftarrow> incr (miss c);
           ev \<leftarrow> incr (evict c);
           Some (c\<lparr>cache := ls, miss := ms, evict := ev\<rparr>) }
       | Inr (Some e, _) \<Rightarrow> do {
           ls \<leftarrow> aset (cache c) (base + e) \<lparr>is_valid = True, line_tag = tg, lru_count = op_counter c\<rparr>;
           ms \<leftarrow> incr (miss c);
           Some (c\<lparr>cache := ls, miss := ms\<rparr>) } })"

text \<open>The initialisation of \<^verbatim>\<open>main\<close>, after the options are read, and its loop over the trace.\<close>

definition csim_init :: "nat \<Rightarrow> nat \<Rightarrow> nat \<Rightarrow> csim option" where
  "csim_init s E b =
     (if INT_MAX < 2 ^ s \<or> INT_MAX < 2 ^ b \<or> INT_MAX < 2 ^ s * E then None else Some
     \<lparr>cache = replicate (2 ^ s * E) \<lparr>is_valid = False, line_tag = 0, lru_count = 0\<rparr>,
      cE = E, cs = s, cS = 2 ^ s, cb = b, cB = 2 ^ b, ct = 64 - int s - int b,
      op_counter = 0, hit = 0, miss = 0, evict = 0\<rparr>)"

definition csim_op :: "csim \<Rightarrow> char \<times> u32 \<Rightarrow> csim option" where
  "csim_op c r = (case r of (operation, address) \<Rightarrow>
     if operation = CHR ''M'' then do {
       c \<leftarrow> get_cache c address;
       c \<leftarrow> get_cache c address;
       n \<leftarrow> incr (op_counter c);
       Some (c\<lparr>op_counter := n\<rparr>) }
     else if operation = CHR ''L'' \<or> operation = CHR ''S'' then do {
       c \<leftarrow> get_cache c address;
       n \<leftarrow> incr (op_counter c);
       Some (c\<lparr>op_counter := n\<rparr>) }
     else Some c)"

fun csim_loop :: "csim \<Rightarrow> (char \<times> u32) list \<Rightarrow> csim option" where
  "csim_loop c [] = Some c"
| "csim_loop c (r # rs) = do { c \<leftarrow> csim_op c r; csim_loop c rs }"

definition csim_main :: "nat \<Rightarrow> nat \<Rightarrow> nat \<Rightarrow> (char \<times> u32) list \<Rightarrow> (nat \<times> nat \<times> nat) option" where
  "csim_main s E b tr = do { c \<leftarrow> csim_init s E b; c \<leftarrow> csim_loop c tr; Some (hit c, miss c, evict c) }"

section \<open>The LRU cache\<close>

text \<open>A set is the list of its tags, the most recently used one first.\<close>

definition lru_access :: "nat \<Rightarrow> nat list \<Rightarrow> nat \<Rightarrow> nat list \<times> nat \<times> nat \<times> nat" where
  "lru_access E xs x =
     (if x \<in> set xs then (x # remove1 x xs, 1, 0, 0)
      else if length xs < E then (x # xs, 0, 1, 0)
      else (x # butlast xs, 0, 1, 1))"

record lru =
  sets :: "nat \<Rightarrow> nat list"
  hits :: nat
  misses :: nat
  evictions :: nat

definition lru_touch :: "nat \<Rightarrow> nat \<Rightarrow> nat \<Rightarrow> lru \<Rightarrow> nat \<Rightarrow> lru" where
  "lru_touch s E b m a =
     (let k = a div 2 ^ b mod 2 ^ s; x = a div 2 ^ (b + s) in
      case lru_access E (sets m k) x of (xs, h, ms, ev) \<Rightarrow>
        \<lparr>sets = (sets m)(k := xs), hits = hits m + h, misses = misses m + ms, evictions = evictions m + ev\<rparr>)"

definition lru_op :: "nat \<Rightarrow> nat \<Rightarrow> nat \<Rightarrow> lru \<Rightarrow> char \<times> u32 \<Rightarrow> lru" where
  "lru_op s E b m r = (case r of (operation, a) \<Rightarrow>
     if operation = CHR ''M'' then lru_touch s E b (lru_touch s E b m (unat a)) (unat a)
     else if operation = CHR ''L'' \<or> operation = CHR ''S'' then lru_touch s E b m (unat a)
     else m)"

definition lru_run :: "nat \<Rightarrow> nat \<Rightarrow> nat \<Rightarrow> (char \<times> u32) list \<Rightarrow> lru" where
  "lru_run s E b tr = foldl (lru_op s E b) \<lparr>sets = (\<lambda>_. []), hits = 0, misses = 0, evictions = 0\<rparr> tr"

section \<open>Addresses\<close>

lemma unat_drop: "unat (drop_bit n (x :: u32)) = unat x div 2 ^ n"
  by (metis unat_drop_bit_eq drop_bit_eq_div)

lemma GET_SET_INDEX_eq:
  assumes "0 < cs c" and "cb c + cs c < 32" and "ct c = 64 - int (cs c) - int (cb c)"
  shows "GET_SET_INDEX c x = unat x div 2 ^ cb c mod 2 ^ cs c"
proof -
  have k: "nat ((int (cb c) + ct c) mod 32) = 32 - cs c"
  proof -
    have "int (cb c) + ct c = (32 - int (cs c)) + 32" using assms(3) by simp
    then have "(int (cb c) + ct c) mod 32 = (32 - int (cs c)) mod 32" by (simp only: mod_add_self2)
    also have "\<dots> = 32 - int (cs c)" using assms(1,2) by (intro mod_pos_pos_trivial) auto
    finally show ?thesis by simp
  qed
  have b: "nat (int (cb c) mod 32) = cb c" using assms(2) by simp
  define y where "y = drop_bit (cb c) x"
  have y: "unat y = unat x div 2 ^ cb c" by (simp only: y_def unat_drop)
  have "unat (drop_bit (32 - cs c) (push_bit (32 - cs c) y)) = unat y mod 2 ^ cs c"
  proof -
    have "unat (push_bit (32 - cs c) y) = (unat y * 2 ^ (32 - cs c)) mod 2 ^ 32"
      unfolding unsigned_push_bit_eq take_bit_eq_mod push_bit_eq_mult [where ?'a = nat] by simp
    then have "unat (drop_bit (32 - cs c) (push_bit (32 - cs c) y)) = (unat y * 2 ^ (32 - cs c)) mod 2 ^ 32 div 2 ^ (32 - cs c)"
      by (simp only: unat_drop)
    also have "(2 :: nat) ^ 32 = 2 ^ cs c * 2 ^ (32 - cs c)"
      using assms(2) by (simp flip: power_add)
    also have "(unat y * 2 ^ (32 - cs c)) mod (2 ^ cs c * 2 ^ (32 - cs c)) div 2 ^ (32 - cs c) = unat y mod 2 ^ cs c"
      by (simp add: mult_mod_left [symmetric])
    finally show ?thesis .
  qed
  then show ?thesis by (simp add: GET_SET_INDEX_def shr_def shl_def k b y_def [symmetric] y)
qed

lemma GET_TAG_eq:
  assumes "cb c + cs c < 32"
  shows "unat (GET_TAG c x) = unat x div 2 ^ (cb c + cs c)"
proof -
  have "x AND 0xffffffff = x"
  proof -
    have "(0xffffffff :: u32) = - 1" by simp
    then show ?thesis by (metis and.right_neutral)
  qed
  moreover have "nat ((int (cb c) + int (cs c)) mod 32) = cb c + cs c"
    using assms by (simp add: nat_mod_distrib nat_add_distrib)
  ultimately have "GET_TAG c x = drop_bit (cb c + cs c) x"
    unfolding GET_TAG_def shr_def by presburger
  then show ?thesis by (simp only: unat_drop)
qed

section \<open>The search loop\<close>

lemma search_Suc:
  "base + i < length ls \<Longrightarrow> search ls base tg i (Suc n) emp lr mn =
    (if line_tag (ls ! (base + i)) = tg \<and> is_valid (ls ! (base + i)) then Some (Inl i)
     else if \<not> is_valid (ls ! (base + i)) then search ls base tg (Suc i) n (if emp = None then Some i else emp) lr mn
     else if lru_count (ls ! (base + i)) < mn then search ls base tg (Suc i) n emp (Some i) (lru_count (ls ! (base + i)))
     else search ls base tg (Suc i) n emp lr mn)"
  by (simp add: aget_def)

declare search.simps(2) [simp del]

lemma upto_Suc: "i \<le> j \<and> j < i + Suc n \<longleftrightarrow> j = i \<or> Suc i \<le> j \<and> j < Suc i + n"
  by auto

lemma search_hit:
  assumes "base + (i + n) \<le> length ls" and "search ls base tg i n emp lr mn = Some (Inl j)"
  shows "i \<le> j \<and> j < i + n \<and> line_tag (ls ! (base + j)) = tg \<and> is_valid (ls ! (base + j))"
  using assms
proof (induction n arbitrary: i emp lr mn)
  case (Suc n)
  have len: "base + i < length ls" "base + (Suc i + n) \<le> length ls" using Suc.prems by auto
  show ?case
    using Suc.prems(2) Suc.IH [OF len(2)] unfolding search_Suc [OF len(1)]
    by (fastforce split: if_splits)
qed simp

lemma search_total:
  assumes "base + (i + n) \<le> length ls"
  shows "\<exists>r. search ls base tg i n emp lr mn = Some r"
  using assms
proof (induction n arbitrary: i emp lr mn)
  case (Suc n)
  have len: "base + i < length ls" "base + (Suc i + n) \<le> length ls" using Suc.prems by auto
  show ?case using Suc.IH [OF len(2)] unfolding search_Suc [OF len(1)] by (simp split: if_splits)
qed simp

lemma search_miss:
  assumes "base + (i + n) \<le> length ls" and "search ls base tg i n emp lr mn = Some (Inr (e, l))"
  shows "(\<forall>j. i \<le> j \<and> j < i + n \<longrightarrow> \<not> (line_tag (ls ! (base + j)) = tg \<and> is_valid (ls ! (base + j)))) \<and>
    (e = None \<longrightarrow> emp = None \<and> (\<forall>j. i \<le> j \<and> j < i + n \<longrightarrow> is_valid (ls ! (base + j)))) \<and>
    (\<forall>j. e = Some j \<longrightarrow> emp = Some j \<or> i \<le> j \<and> j < i + n \<and> \<not> is_valid (ls ! (base + j)))"
  using assms
proof (induction n arbitrary: i emp lr mn)
  case 0
  then show ?case by auto
next
  case (Suc n)
  have len: "base + i < length ls" "base + (Suc i + n) \<le> length ls" using Suc.prems by auto
  let ?l = "ls ! (base + i)"
  have nh: "\<not> (line_tag ?l = tg \<and> is_valid ?l)"
    using Suc.prems(2) unfolding search_Suc [OF len(1)] by (auto split: if_splits)
  obtain emp' lr' mn' where r: "search ls base tg (Suc i) n emp' lr' mn' = Some (Inr (e, l))"
      "emp' = (if is_valid ?l \<or> emp \<noteq> None then emp else Some i)"
  proof (cases "is_valid ?l \<and> lru_count ?l < mn")
    case True
    then show ?thesis using Suc.prems(2) nh that unfolding search_Suc [OF len(1)] by (auto split: if_splits)
  next
    case False
    then show ?thesis using Suc.prems(2) nh that unfolding search_Suc [OF len(1)] by (auto split: if_splits)
  qed
  show ?case
    using Suc.IH [OF len(2) r(1)] nh r(2) unfolding upto_Suc by (auto split: if_splits)
qed

lemma search_lru:
  assumes "base + (i + n) \<le> length ls" and "search ls base tg i n emp lr mn = Some (Inr (e, l))"
    and "\<forall>j. i \<le> j \<and> j < i + n \<longrightarrow> is_valid (ls ! (base + j))"
  shows "(l = lr \<and> (\<forall>j. i \<le> j \<and> j < i + n \<longrightarrow> mn \<le> lru_count (ls ! (base + j)))) \<or>
    (\<exists>k. l = Some k \<and> i \<le> k \<and> k < i + n \<and> lru_count (ls ! (base + k)) < mn \<and>
      (\<forall>j. i \<le> j \<and> j < i + n \<longrightarrow> lru_count (ls ! (base + k)) \<le> lru_count (ls ! (base + j))))"
  using assms
proof (induction n arbitrary: i emp lr mn)
  case (Suc n)
  let ?l = "ls ! (base + i)" and ?c = "\<lambda>j. lru_count (ls ! (base + j))"
  have len: "base + i < length ls" "base + (Suc i + n) \<le> length ls" using Suc.prems by auto
  have v: "is_valid ?l" "\<forall>j. Suc i \<le> j \<and> j < Suc i + n \<longrightarrow> is_valid (ls ! (base + j))" using Suc.prems by auto
  have nh: "\<not> (line_tag ?l = tg \<and> is_valid ?l)"
    using Suc.prems(2) unfolding search_Suc [OF len(1)] by (auto split: if_splits)
  show ?case
  proof (cases "?c i < mn")
    case True
    then have "search ls base tg (Suc i) n emp (Some i) (?c i) = Some (Inr (e, l))"
      using Suc.prems(2) v nh unfolding search_Suc [OF len(1)] by simp
    from Suc.IH [OF len(2) this v(2)] show ?thesis
    proof (elim disjE exE conjE)
      assume "l = Some i" "\<forall>j. Suc i \<le> j \<and> j < Suc i + n \<longrightarrow> ?c i \<le> ?c j"
      then show ?thesis using True unfolding upto_Suc by (intro disjI2 exI [of _ i]) auto
    next
      fix k assume "l = Some k" "Suc i \<le> k" "k < Suc i + n" "?c k < ?c i"
        "\<forall>j. Suc i \<le> j \<and> j < Suc i + n \<longrightarrow> ?c k \<le> ?c j"
      then show ?thesis using True unfolding upto_Suc by (intro disjI2 exI [of _ k]) auto
    qed
  next
    case False
    then have "search ls base tg (Suc i) n emp lr mn = Some (Inr (e, l))"
      using Suc.prems(2) v nh unfolding search_Suc [OF len(1)] by simp
    from Suc.IH [OF len(2) this v(2)] show ?thesis
    proof (elim disjE exE conjE)
      assume "l = lr" "\<forall>j. Suc i \<le> j \<and> j < Suc i + n \<longrightarrow> mn \<le> ?c j"
      then show ?thesis using False unfolding upto_Suc by auto
    next
      fix k assume "l = Some k" "Suc i \<le> k" "k < Suc i + n" "?c k < mn"
        "\<forall>j. Suc i \<le> j \<and> j < Suc i + n \<longrightarrow> ?c k \<le> ?c j"
      then show ?thesis using False unfolding upto_Suc by (intro disjI2 exI [of _ k]) auto
    qed
  qed
qed simp

end
