(* ===== verification/CsimCorrect.thy ===== *)
theory CsimCorrect
  imports Csim
begin

text \<open>
  The simulator of \<^verbatim>\<open>csim.c\<close> refines the LRU cache: one set of lines and its list of tags are
  related, an access keeps the relation, and so does a whole trace.
\<close>

section \<open>One set\<close>

text \<open>
  The lines \<open>v\<close> of a set hold the tags \<open>xs\<close>; \<open>order\<close> lists the valid lines from the most to the
  least recently used one, and all counters are below \<open>n\<close>.
\<close>

definition set_rel :: "(nat \<Rightarrow> cache_line) \<Rightarrow> nat \<Rightarrow> nat list \<Rightarrow> nat list \<Rightarrow> nat \<Rightarrow> bool" where
  "set_rel v E xs order n \<longleftrightarrow> distinct order \<and> set order = {i. i < E \<and> is_valid (v i)} \<and>
     sorted_wrt (\<lambda>i j. lru_count (v j) < lru_count (v i)) order \<and>
     xs = map (\<lambda>i. unat (line_tag (v i))) order \<and> distinct xs \<and> (\<forall>i\<in>set order. lru_count (v i) < n)"

lemma set_rel_cong:
  "(\<And>i. i < E \<Longrightarrow> v' i = v i) \<Longrightarrow> set_rel v E xs order n \<Longrightarrow> set_rel v' E xs order n"
  unfolding set_rel_def by (auto cong: map_cong elim!: sorted_wrt_mono_rel [rotated])

lemma set_rel_mono: "set_rel v E xs order n \<Longrightarrow> n \<le> k \<Longrightarrow> set_rel v E xs order k"
  unfolding set_rel_def by force

lemma set_rel_length: "set_rel v E xs order n \<Longrightarrow> length xs = card {i. i < E \<and> is_valid (v i)}"
  unfolding set_rel_def by (metis distinct_card length_map)

lemma set_rel_front:
  assumes "lru_count (v j) = n" and "x = unat (line_tag (v j))" and "distinct (j # us)"
    and "set (j # us) = {i. i < E \<and> is_valid (v i)}"
    and "sorted_wrt (\<lambda>i j. lru_count (v j) < lru_count (v i)) us"
    and "ys = map (\<lambda>i. unat (line_tag (v i))) us" and "distinct (x # ys)" and "\<forall>i\<in>set us. lru_count (v i) < n"
  shows "set_rel v E (x # ys) (j # us) (Suc n)"
proof -
  have "\<forall>i\<in>set (j # us). lru_count (v i) < Suc n" using assms(1,8) by (auto simp: less_Suc_eq)
  moreover have "sorted_wrt (\<lambda>i j. lru_count (v j) < lru_count (v i)) (j # us)" using assms(1,5,8) by simp
  moreover have "x # ys = map (\<lambda>i. unat (line_tag (v i))) (j # us)" using assms(2,6) by simp
  ultimately show ?thesis using assms(3,4,7) unfolding set_rel_def by blast
qed

lemma set_rel_hit:
  assumes r: "set_rel v E xs order n" and j: "j < E" "is_valid (v j)"
  shows "set_rel (v(j := (v j)\<lparr>lru_count := n\<rparr>)) E (unat (line_tag (v j)) # remove1 (unat (line_tag (v j))) xs)
           (j # remove1 j order) (Suc n)"
proof -
  let ?f = "\<lambda>i. unat (line_tag (v i))" and ?v = "v(j := (v j)\<lparr>lru_count := n\<rparr>)"
  have d: "distinct order" "set order = {i. i < E \<and> is_valid (v i)}" "xs = map ?f order" "distinct xs"
    "sorted_wrt (\<lambda>i j. lru_count (v j) < lru_count (v i)) order" "\<forall>i\<in>set order. lru_count (v i) < n"
    using r by (auto simp: set_rel_def)
  have jin: "j \<in> set order" using d(2) j by simp
  obtain us ws where o: "order = us @ j # ws" using jin by (auto simp: in_set_conv_decomp)
  have nj: "j \<notin> set us" "j \<notin> set ws" using d(1) o by auto
  have nf: "?f j \<notin> ?f ` set us" using d(3,4) o by auto
  have rm: "remove1 j order = us @ ws" "remove1 (?f j) xs = map ?f (us @ ws)"
    using o nj nf d(3) by (auto simp: remove1_append)
  have eq: "?v i = v i" if "i \<in> set (us @ ws)" for i using that nj by auto
  have "sorted_wrt (\<lambda>i j. lru_count (v j) < lru_count (v i)) (us @ ws)"
    using d(5) o by (auto simp: sorted_wrt_append)
  then have "sorted_wrt (\<lambda>i j. lru_count (?v j) < lru_count (?v i)) (us @ ws)"
    by (rule sorted_wrt_mono_rel [rotated]) (use eq in simp)
  moreover have "\<forall>i\<in>set (us @ ws). lru_count (?v i) < n" using d(6) o eq by auto
  moreover have "set (j # us @ ws) = {i. i < E \<and> is_valid (?v i)}" using d(2) o by auto
  moreover have "map (\<lambda>i. unat (line_tag (?v i))) (us @ ws) = map ?f (us @ ws)" using eq by simp
  moreover have "distinct (?f j # map ?f (us @ ws))" "distinct (j # us @ ws)" using d(1,3,4) o by auto
  ultimately show ?thesis
    unfolding rm by (intro set_rel_front) auto
qed

lemma set_rel_new:
  assumes r: "set_rel v E xs order n" and j: "j < E" "\<not> is_valid (v j)" and t: "unat tg \<notin> set xs"
  shows "set_rel (v(j := \<lparr>is_valid = True, line_tag = tg, lru_count = n\<rparr>)) E (unat tg # xs) (j # order) (Suc n)"
proof -
  let ?v = "v(j := \<lparr>is_valid = True, line_tag = tg, lru_count = n\<rparr>)"
  have d: "distinct order" "set order = {i. i < E \<and> is_valid (v i)}"
    "xs = map (\<lambda>i. unat (line_tag (v i))) order" "distinct xs"
    "sorted_wrt (\<lambda>i j. lru_count (v j) < lru_count (v i)) order" "\<forall>i\<in>set order. lru_count (v i) < n"
    using r by (auto simp: set_rel_def)
  have nj: "j \<notin> set order" using d(2) j by simp
  have eq: "?v i = v i" if "i \<in> set order" for i using that nj by auto
  have "sorted_wrt (\<lambda>i j. lru_count (?v j) < lru_count (?v i)) order"
    by (rule sorted_wrt_mono_rel [OF _ d(5)]) (use eq in simp)
  moreover have "map (\<lambda>i. unat (line_tag (?v i))) order = xs" using eq d(3) by simp
  moreover have "set (j # order) = {i. i < E \<and> is_valid (?v i)}" using d(2) j by auto
  moreover have "\<forall>i\<in>set order. lru_count (?v i) < n" using d(6) eq by auto
  ultimately show ?thesis
    using d(1,4) nj t by (intro set_rel_front) auto
qed

lemma set_rel_replace:
  assumes r: "set_rel v E xs order n" and full: "\<forall>i<E. is_valid (v i)" and j: "j < E"
    and min: "\<forall>i<E. lru_count (v j) \<le> lru_count (v i)" and t: "unat tg \<notin> set xs"
  shows "set_rel (v(j := \<lparr>is_valid = True, line_tag = tg, lru_count = n\<rparr>)) E (unat tg # butlast xs)
           (j # butlast order) (Suc n)"
proof -
  let ?v = "v(j := \<lparr>is_valid = True, line_tag = tg, lru_count = n\<rparr>)"
  have d: "distinct order" "set order = {i. i < E \<and> is_valid (v i)}"
    "xs = map (\<lambda>i. unat (line_tag (v i))) order" "distinct xs"
    "sorted_wrt (\<lambda>i j. lru_count (v j) < lru_count (v i)) order" "\<forall>i\<in>set order. lru_count (v i) < n"
    using r by (auto simp: set_rel_def)
  have jin: "j \<in> set order" using d(2) full j by simp
  then obtain us l where o: "order = us @ [l]" by (metis append_butlast_last_id empty_iff list.set(1))
  have "l = j"
  proof (rule ccontr)
    assume "l \<noteq> j"
    then have "j \<in> set us" using jin o by auto
    then have "lru_count (v l) < lru_count (v j)" using d(5) o by (auto simp: sorted_wrt_append)
    moreover have "l < E" using d(2) o by auto
    ultimately show False using min by (auto simp: not_less [symmetric])
  qed
  then have nj: "j \<notin> set us" "order = us @ [j]" using d(1) o by auto
  have eq: "?v i = v i" if "i \<in> set us" for i using that nj by auto
  have "sorted_wrt (\<lambda>i j. lru_count (v j) < lru_count (v i)) us" using d(5) nj by (auto simp: sorted_wrt_append)
  then have "sorted_wrt (\<lambda>i j. lru_count (?v j) < lru_count (?v i)) us"
    by (rule sorted_wrt_mono_rel [rotated]) (use eq in simp)
  moreover have "map (\<lambda>i. unat (line_tag (?v i))) us = butlast xs" using eq d(3) nj by (simp add: butlast_append)
  moreover have "set (j # us) = {i. i < E \<and> is_valid (?v i)}" using d(2) nj j by auto
  moreover have "unat tg \<notin> set (butlast xs)" using t by (auto dest: in_set_butlastD)
  moreover have "\<forall>i\<in>set us. lru_count (?v i) < n" using d(6) nj eq by auto
  moreover have "distinct (butlast xs)" "distinct us" using d nj by (auto simp: distinct_butlast)
  ultimately show ?thesis
    unfolding nj(2) butlast_snoc using nj(1) by (intro set_rel_front) auto
qed

section \<open>The whole cache\<close>

definition set_view :: "csim \<Rightarrow> nat \<Rightarrow> nat \<Rightarrow> cache_line" where
  "set_view c k i = cache c ! (k * cE c + i)"

definition cache_rel :: "nat \<Rightarrow> nat \<Rightarrow> nat \<Rightarrow> nat \<Rightarrow> csim \<Rightarrow> lru \<Rightarrow> bool" where
  "cache_rel s E b n c m \<longleftrightarrow> cE c = E \<and> cs c = s \<and> cb c = b \<and> ct c = 64 - int s - int b \<and>
     length (cache c) = 2 ^ s * E \<and> (\<forall>k<2 ^ s. \<exists>order. set_rel (set_view c k) E (sets m k) order n) \<and>
     hit c = hits m \<and> miss c = misses m \<and> evict c = evictions m"

lemma slot_inj:
  fixes k k' E :: nat
  assumes "k * E + i = k' * E + i'" and "i < E" and "i' < E"
  shows "k = k' \<and> i = i'"
proof -
  have "(k * E + i) div E = k" "(k' * E + i') div E = k'" using assms(2,3) by auto
  then have "k = k'" using assms(1) by metis
  then show ?thesis using assms(1) by simp
qed

lemma slot_bound: "k < 2 ^ s \<Longrightarrow> i < E \<Longrightarrow> k * E + i < 2 ^ s * E" for k E i :: nat
proof -
  assume "k < 2 ^ s" "i < E"
  then have "k * E + i < (k + 1) * E" by simp
  also have "\<dots> \<le> 2 ^ s * E" using \<open>k < 2 ^ s\<close> by (intro mult_le_mono1) simp
  finally show ?thesis .
qed

lemma cache_rel_update:
  assumes r: "cache_rel s E b n c m" and k: "k < 2 ^ s" "j < E"
    and new: "set_rel ((set_view c k)(j := l)) E xs order (Suc n)"
  shows "cache_rel s E b (Suc n)
     (c\<lparr>cache := (cache c)[k * E + j := l], hit := hit c + h, miss := miss c + ms, evict := evict c + ev\<rparr>)
     \<lparr>sets = (sets m)(k := xs), hits = hits m + h, misses = misses m + ms, evictions = evictions m + ev\<rparr>"
    (is "cache_rel _ _ _ _ ?c ?m")
proof -
  have R: "cE c = E" "length (cache c) = 2 ^ s * E"
    "\<And>k. k < 2 ^ s \<Longrightarrow> \<exists>order. set_rel (set_view c k) E (sets m k) order n"
    using r by (auto simp: cache_rel_def)
  have view: "set_view ?c k' i = (if k' = k \<and> i = j then l else set_view c k' i)" if "i < E" "k' < 2 ^ s" for k' i
  proof (cases "k' = k \<and> i = j")
    case True
    then show ?thesis using slot_bound [OF k] R by (simp add: set_view_def)
  next
    case False
    then have "k * E + j \<noteq> k' * E + i" using slot_inj [of k E j k' i] that(1) k(2) by auto
    then show ?thesis using R False by (auto simp: set_view_def)
  qed
  have "\<exists>order. set_rel (set_view ?c k') E (sets ?m k') order (Suc n)" if k': "k' < 2 ^ s" for k'
  proof (cases "k' = k")
    case True
    have "set_rel (set_view ?c k) E xs order (Suc n)"
      by (rule set_rel_cong [OF _ new]) (use view k in auto)
    then show ?thesis using True by auto
  next
    case False
    obtain o' where "set_rel (set_view c k') E (sets m k') o' n" using R(3) k' by blast
    then have "set_rel (set_view c k') E (sets m k') o' (Suc n)" by (rule set_rel_mono) simp
    then have "set_rel (set_view ?c k') E (sets m k') o' (Suc n)"
      by (rule set_rel_cong [rotated]) (simp only: view k' False simp_thms if_False)
    moreover have "sets ?m k' = sets m k'" using False by simp
    ultimately show ?thesis by metis
  qed
  then show ?thesis using r unfolding cache_rel_def by simp
qed

lemma set_rel_tags:
  assumes "set_rel v E xs order n"
  shows "x \<in> set xs \<longleftrightarrow> (\<exists>i<E. is_valid (v i) \<and> unat (line_tag (v i)) = x)"
    and "i < E \<Longrightarrow> j < E \<Longrightarrow> is_valid (v i) \<Longrightarrow> is_valid (v j) \<Longrightarrow> line_tag (v i) = line_tag (v j) \<Longrightarrow> i = j"
proof -
  have d: "set order = {i. i < E \<and> is_valid (v i)}" "xs = map (\<lambda>i. unat (line_tag (v i))) order" "distinct xs"
    using assms by (auto simp: set_rel_def)
  then show "x \<in> set xs \<longleftrightarrow> (\<exists>i<E. is_valid (v i) \<and> unat (line_tag (v i)) = x)" by auto
  show "i = j" if "i < E" "j < E" "is_valid (v i)" "is_valid (v j)" "line_tag (v i) = line_tag (v j)"
  proof (rule inj_onD [of "\<lambda>i. unat (line_tag (v i))" "set order"])
    show "inj_on (\<lambda>i. unat (line_tag (v i))) (set order)" using d by (simp add: distinct_map)
  qed (use that d in auto)
qed

text \<open>The address as the simulator splits it.\<close>

definition set_of :: "nat \<Rightarrow> nat \<Rightarrow> u32 \<Rightarrow> nat" where
  "set_of s b a = unat a div 2 ^ b mod 2 ^ s"

definition tag_of :: "nat \<Rightarrow> nat \<Rightarrow> u32 \<Rightarrow> nat" where
  "tag_of s b a = unat a div 2 ^ (b + s)"

lemma cache_rel_address:
  assumes "cache_rel s E b n c m" and "0 < s" and "b + s < 32"
  shows "GET_SET_INDEX c a = set_of s b a" "unat (GET_TAG c a) = tag_of s b a" "set_of s b a < 2 ^ s"
  using assms GET_SET_INDEX_eq [of c a] GET_TAG_eq [of c a]
  by (auto simp: cache_rel_def set_of_def tag_of_def)

lemma lru_touch_eq:
  "lru_touch s E b m (unat a) = (case lru_access E (sets m (set_of s b a)) (tag_of s b a) of
     (xs, h, ms, ev) \<Rightarrow> \<lparr>sets = (sets m)(set_of s b a := xs), hits = hits m + h, misses = misses m + ms,
       evictions = evictions m + ev\<rparr>)"
  by (simp add: lru_touch_def set_of_def tag_of_def Let_def)

lemma search_result:
  assumes r: "cache_rel s E b n c m" and k: "k < 2 ^ s" and E: "0 < E" "n \<le> INT_MAX"
    and sr: "set_rel (set_view c k) E xs order n"
  obtains (Hit) j where "search (cache c) (k * E) tg 0 E None None INT_MAX = Some (Inl j)" "j < E"
      "is_valid (set_view c k j)" "line_tag (set_view c k j) = tg" "unat tg \<in> set xs"
  | (Empty) j l where "search (cache c) (k * E) tg 0 E None None INT_MAX = Some (Inr (Some j, l))" "j < E"
      "\<not> is_valid (set_view c k j)" "unat tg \<notin> set xs" "length xs < E"
  | (Full) j where "search (cache c) (k * E) tg 0 E None None INT_MAX = Some (Inr (None, Some j))" "j < E"
      "\<forall>i<E. is_valid (set_view c k i)" "\<forall>i<E. lru_count (set_view c k j) \<le> lru_count (set_view c k i)"
      "unat tg \<notin> set xs" "length xs = E"
proof -
  have len: "k * E + (0 + E) \<le> length (cache c)"
    using slot_bound [OF k, of "E - 1" E] E r by (auto simp: cache_rel_def)
  have v: "cache c ! (k * E + j) = set_view c k j" for j using r by (simp add: set_view_def cache_rel_def)
  note tags = set_rel_tags [OF sr]
  have cl: "length xs = card {i. i < E \<and> is_valid (set_view c k i)}" by (rule set_rel_length [OF sr])
  from search_total [OF len] obtain res where res: "search (cache c) (k * E) tg 0 E None None INT_MAX = Some res"
    by blast
  show thesis
  proof (cases res)
    case (Inl j)
    have "j < E \<and> line_tag (set_view c k j) = tg \<and> is_valid (set_view c k j)"
      using search_hit [OF len res [unfolded Inl]] v by simp
    then show thesis using Hit [of j] res Inl tags(1) by auto
  next
    case (Inr p)
    obtain e l where p: "p = (e, l)" by (cases p)
    note sm = search_miss [OF len res [unfolded Inr p], unfolded v]
    have nt: "unat tg \<notin> set xs" unfolding tags(1) word_unat_eq_iff [symmetric] using sm by auto
    show thesis
    proof (cases e)
      case (Some j)
      then have j: "j < E" "\<not> is_valid (set_view c k j)" using sm by auto
      have "card {i. i < E \<and> is_valid (set_view c k i)} < card {..<E}"
        using j by (intro psubset_card_mono) auto
      then show thesis using Empty [of j l] res Inr p Some j nt cl by simp
    next
      case None
      then have full: "\<forall>i<E. is_valid (set_view c k i)" using sm by auto
      then have "{i. i < E \<and> is_valid (set_view c k i)} = {..<E}" by auto
      then have le: "length xs = E" using cl by simp
      have low: "lru_count (set_view c k 0) < INT_MAX" using sr full E unfolding set_rel_def by force
      have "\<exists>j. l = Some j \<and> j < E \<and> (\<forall>i<E. lru_count (set_view c k j) \<le> lru_count (set_view c k i))"
        using search_lru [OF len res [unfolded Inr p], unfolded v] full low E by force
      then show thesis using Full res Inr p None full nt le by blast
    qed
  qed
qed

section \<open>The counts\<close>

text \<open>The counts of the cache are in the range of an \<^verbatim>\<open>int\<close>; they only grow.\<close>

definition fits :: "lru \<Rightarrow> bool" where
  "fits m \<longleftrightarrow> hits m \<le> INT_MAX \<and> misses m \<le> INT_MAX \<and> evictions m \<le> INT_MAX"

lemma fits_touch: "fits (lru_touch s E b m a) \<Longrightarrow> fits m"
  by (auto simp: fits_def lru_touch_def lru_access_def Let_def split: if_splits)

lemma fits_op: "fits (lru_op s E b m x) \<Longrightarrow> fits m"
  by (auto simp: lru_op_def split: prod.splits if_splits dest: fits_touch)

lemma fits_run: "fits (foldl (lru_op s E b) m tr) \<Longrightarrow> fits m"
  by (induction tr arbitrary: m) (auto dest: fits_op)

text \<open>
  They are in the range for a trace of up to \<open>2 ^ 30\<close> operations: an operation is at most two accesses, and one of all accesses,
  the first one, is a miss.
\<close>

definition counted :: "nat \<Rightarrow> lru \<Rightarrow> bool" where
  "counted n m \<longleftrightarrow> hits m + misses m \<le> 2 * n \<and> misses m \<le> n \<and> evictions m \<le> misses m \<and>
     ((\<exists>k. sets m k \<noteq> []) \<or> 0 < hits m \<longrightarrow> 0 < misses m)"

lemma counted_op:
  assumes "counted n m"
  shows "counted (Suc n) (lru_op s E b m x)"
  using assms unfolding counted_def
  by (cases x) (auto simp: lru_op_def lru_touch_def lru_access_def Let_def split: if_splits)

lemma counted_fits: "counted n m \<Longrightarrow> n \<le> 2 ^ 30 \<Longrightarrow> fits m"
  by (auto simp: counted_def fits_def INT_MAX_def)

lemma counted_run: "counted n m \<Longrightarrow> counted (n + length tr) (foldl (lru_op s E b) m tr)"
proof (induction tr arbitrary: n m)
  case (Cons x tr)
  then show ?case using Cons.IH [OF counted_op [OF Cons.prems], of s E b x] by simp
qed simp

lemma short_fits: "length tr \<le> 2 ^ 30 \<Longrightarrow> fits (lru_run s E b tr)"
  unfolding lru_run_def
  by (rule counted_fits [OF counted_run [of 0]]) (simp_all add: counted_def)

section \<open>Accesses and traces\<close>

lemma get_cache_touch:
  assumes r: "cache_rel s E b (op_counter c) c m" and p: "0 < s" "b + s < 32" "0 < E" "op_counter c < INT_MAX"
    and f: "fits (lru_touch s E b m (unat a))"
  shows "\<exists>c'. get_cache c a = Some c' \<and> cache_rel s E b (Suc (op_counter c)) c' (lru_touch s E b m (unat a)) \<and>
           op_counter c' = op_counter c \<and>
           (\<exists>j<E. set_view c' (set_of s b a) j = \<lparr>is_valid = True, line_tag = GET_TAG c a, lru_count = op_counter c\<rparr>)"
proof -
  let ?k = "set_of s b a" and ?n = "op_counter c" and ?tg = "GET_TAG c a"
  note A = cache_rel_address [OF r p(1,2), of a]
  have cE: "cE c = E" and len: "length (cache c) = 2 ^ s * E" using r by (auto simp: cache_rel_def)
  have n: "hit c = hits m" "miss c = misses m" "evict c = evictions m" using r by (auto simp: cache_rel_def)
  obtain order where sr: "set_rel (set_view c ?k) E (sets m ?k) order ?n"
    using r A(3) by (auto simp: cache_rel_def)
  have slot: "j < E \<Longrightarrow> ?k * E + j < length (cache c)" for j using slot_bound [OF A(3)] len by simp
  have view: "set_view (c\<lparr>cache := (cache c)[?k * E + j := l], hit := h, miss := ms, evict := ev\<rparr>) ?k j = l"
    if "j < E" for j l h ms ev using slot [OF that] cE by (simp add: set_view_def)
  have vj: "cache c ! (?k * E + j) = set_view c ?k j" for j by (simp add: set_view_def cE)
  note upd = cache_rel_update [OF r A(3)]
  from search_result [OF r A(3) p(3) less_imp_le [OF p(4)] sr, of ?tg] show ?thesis
  proof cases
    case (1 j)
    let ?c = "c\<lparr>cache := (cache c)[?k * E + j := (set_view c ?k j)\<lparr>lru_count := ?n\<rparr>], hit := hit c + 1, miss := miss c + 0, evict := evict c + 0\<rparr>"
    have t: "lru_touch s E b m (unat a) = \<lparr>sets = (sets m)(?k := unat ?tg # remove1 (unat ?tg) (sets m ?k)),
        hits = hits m + 1, misses = misses m + 0, evictions = evictions m + 0\<rparr>"
      using 1(5) A(2) by (simp add: lru_touch_eq lru_access_def)
    have g: "get_cache c a = Some ?c"
      using 1 slot cE A f n unfolding t by (simp add: get_cache_def Let_def vj aget_def aset_def incr_def fits_def)
    have "cache_rel s E b (Suc ?n) ?c (lru_touch s E b m (unat a))"
      unfolding t by (rule upd [OF 1(2)]) (use set_rel_hit [OF sr 1(2,3)] 1(4) in simp)
    moreover have "set_view ?c ?k j = \<lparr>is_valid = True, line_tag = ?tg, lru_count = ?n\<rparr>"
    proof -
      have "set_view ?c ?k j = (set_view c ?k j)\<lparr>lru_count := ?n\<rparr>" by (rule view [OF 1(2)])
      also have "\<dots> = \<lparr>is_valid = True, line_tag = ?tg, lru_count = ?n\<rparr>" using 1(3,4) by simp
      finally show ?thesis .
    qed
    moreover have "op_counter ?c = ?n" by simp
    ultimately show ?thesis using g 1(2) by blast
  next
    case (2 j l)
    let ?l = "\<lparr>is_valid = True, line_tag = ?tg, lru_count = ?n\<rparr>"
    let ?c = "c\<lparr>cache := (cache c)[?k * E + j := ?l], hit := hit c + 0, miss := miss c + 1, evict := evict c + 0\<rparr>"
    have t: "lru_touch s E b m (unat a) = \<lparr>sets = (sets m)(?k := unat ?tg # sets m ?k),
        hits = hits m + 0, misses = misses m + 1, evictions = evictions m + 0\<rparr>"
      using 2(4,5) A(2) by (simp add: lru_touch_eq lru_access_def)
    have g: "get_cache c a = Some ?c"
      using 2 slot cE A f n unfolding t by (simp add: get_cache_def Let_def aset_def incr_def fits_def)
    have "cache_rel s E b (Suc ?n) ?c (lru_touch s E b m (unat a))"
      unfolding t by (rule upd [OF 2(2) set_rel_new [OF sr 2(2,3,4)]])
    moreover have "set_view ?c ?k j = ?l" by (rule view [OF 2(2)])
    moreover have "op_counter ?c = ?n" by simp
    ultimately show ?thesis using g 2(2) by blast
  next
    case (3 j)
    let ?l = "\<lparr>is_valid = True, line_tag = ?tg, lru_count = ?n\<rparr>"
    let ?c = "c\<lparr>cache := (cache c)[?k * E + j := ?l], hit := hit c + 0, miss := miss c + 1, evict := evict c + 1\<rparr>"
    have t: "lru_touch s E b m (unat a) = \<lparr>sets = (sets m)(?k := unat ?tg # butlast (sets m ?k)),
        hits = hits m + 0, misses = misses m + 1, evictions = evictions m + 1\<rparr>"
      using 3(5,6) A(2) by (simp add: lru_touch_eq lru_access_def)
    have g: "get_cache c a = Some ?c"
      using 3 slot cE A f n unfolding t by (simp add: get_cache_def Let_def aset_def incr_def fits_def)
    have "cache_rel s E b (Suc ?n) ?c (lru_touch s E b m (unat a))"
      unfolding t by (rule upd [OF 3(2) set_rel_replace [OF sr 3(3,2,4,5)]])
    moreover have "set_view ?c ?k j = ?l" by (rule view [OF 3(2)])
    moreover have "op_counter ?c = ?n" by simp
    ultimately show ?thesis using g 3(2) by blast
  qed
qed

text \<open>The store of a modify operation, right after its load.\<close>

lemma get_cache_again:
  assumes r: "cache_rel s E b (Suc (op_counter c)) c m" and p: "0 < s" "b + s < 32" "0 < E" "op_counter c < INT_MAX"
    and j: "j < E" "set_view c (set_of s b a) j = \<lparr>is_valid = True, line_tag = GET_TAG c a, lru_count = op_counter c\<rparr>"
    and front: "\<exists>ys. sets m (set_of s b a) = tag_of s b a # ys" and f: "fits (lru_touch s E b m (unat a))"
  shows "\<exists>c'. get_cache c a = Some c' \<and> cache_rel s E b (Suc (op_counter c)) c' (lru_touch s E b m (unat a)) \<and>
           op_counter c' = op_counter c"
proof -
  let ?k = "set_of s b a" and ?n = "op_counter c" and ?tg = "GET_TAG c a"
  note A = cache_rel_address [OF r p(1,2), of a]
  have cE: "cE c = E" and len: "length (cache c) = 2 ^ s * E" using r by (auto simp: cache_rel_def)
  obtain order where sr: "set_rel (set_view c ?k) E (sets m ?k) order (Suc ?n)"
    using r A(3) by (auto simp: cache_rel_def)
  have slot: "?k * E + j < length (cache c)" using slot_bound [OF A(3) j(1)] len by simp
  have vj: "cache c ! (?k * E + i) = set_view c ?k i" for i by (simp add: set_view_def cE)
  have n: "Suc ?n \<le> INT_MAX" using p(4) by simp
  from search_result [OF r A(3) p(3) n sr, of ?tg] obtain i where
    hit: "search (cache c) (?k * E) ?tg 0 E None None INT_MAX = Some (Inl i)" "i < E" "is_valid (set_view c ?k i)"
      "line_tag (set_view c ?k i) = ?tg"
  proof cases
    case (2 i l)
    then show ?thesis using set_rel_tags(1) [OF sr, of "unat ?tg"] j by auto
  next
    case (3 i)
    then show ?thesis using set_rel_tags(1) [OF sr, of "unat ?tg"] j by auto
  qed
  have "i = j" using set_rel_tags(2) [OF sr hit(2) j(1) hit(3)] hit(4) j(2) by simp
  then have "(cache c)[?k * E + i := (set_view c ?k i)\<lparr>lru_count := ?n\<rparr>] = cache c"
    using j(2) vj [of j] by (simp add: list_update_same_conv slot)
  moreover obtain ys where "sets m ?k = tag_of s b a # ys" using front by blast
  then have t: "lru_touch s E b m (unat a) = m\<lparr>hits := hits m + 1\<rparr>"
    by (simp add: lru_touch_eq lru_access_def fun_upd_idem)
  ultimately have "get_cache c a = Some (c\<lparr>hit := hit c + 1\<rparr>)"
    using hit \<open>i = j\<close> slot cE A f r by (simp add: get_cache_def Let_def vj aget_def aset_def incr_def fits_def cache_rel_def)
  with t show ?thesis using r by (simp add: cache_rel_def set_view_def [abs_def] cE)
qed

lemma lru_touch_front: "\<exists>ys. sets (lru_touch s E b m (unat a)) (set_of s b a) = tag_of s b a # ys"
  by (simp add: lru_touch_eq lru_access_def)

lemma csim_op_ok:
  assumes r: "cache_rel s E b (op_counter c) c m" and p: "0 < s" "b + s < 32" "0 < E" "op_counter c < INT_MAX"
    and f: "fits (lru_op s E b m x)"
  shows "\<exists>c'. csim_op c x = Some c' \<and> cache_rel s E b (op_counter c') c' (lru_op s E b m x) \<and>
           op_counter c' \<le> Suc (op_counter c)"
proof -
  obtain o' a where x: "x = (o', a)" by (cases x)
  show ?thesis
  proof (cases "o' \<in> {CHR ''M'', CHR ''L'', CHR ''S''}")
    case False
    then show ?thesis using r by (simp add: x csim_op_def lru_op_def)
  next
    case True
    then have f1: "fits (lru_touch s E b m (unat a))" using f by (auto simp: x lru_op_def dest: fits_touch split: if_splits)
    obtain c1 j where c1: "get_cache c a = Some c1" "cache_rel s E b (Suc (op_counter c)) c1 (lru_touch s E b m (unat a))"
        "op_counter c1 = op_counter c" "j < E"
        "set_view c1 (set_of s b a) j = \<lparr>is_valid = True, line_tag = GET_TAG c a, lru_count = op_counter c\<rparr>"
      using get_cache_touch [OF r p f1] by blast
    have bump: "cache_rel s E b n (d\<lparr>op_counter := q\<rparr>) l = cache_rel s E b n d l" for n d q l
      by (simp add: cache_rel_def set_view_def [abs_def])
    have n: "incr (op_counter c) = Some (Suc (op_counter c))" using p(4) by (simp add: incr_def)
    show ?thesis
    proof (cases "o' = CHR ''M''")
      case False
      then show ?thesis using True c1 n unfolding x csim_op_def lru_op_def by (auto simp: bump)
    next
      case M: True
      have f2: "fits (lru_touch s E b (lru_touch s E b m (unat a)) (unat a))" using f M by (simp add: x lru_op_def)
      have tg: "GET_TAG c1 a = GET_TAG c a"
        using r c1(2) by (simp add: GET_TAG_def cache_rel_def)
      obtain c2 where "get_cache c1 a = Some c2"
          "cache_rel s E b (Suc (op_counter c)) c2 (lru_touch s E b (lru_touch s E b m (unat a)) (unat a))"
          "op_counter c2 = op_counter c"
        using get_cache_again [OF _ p(1-3), of c1 "lru_touch s E b m (unat a)" j a] c1 p(4) tg lru_touch_front f2 by auto
      then show ?thesis using M c1 n unfolding x csim_op_def lru_op_def by (auto simp: bump)
    qed
  qed
qed

lemma csim_loop_ok:
  assumes "cache_rel s E b (op_counter c) c m" and "0 < s" "b + s < 32" "0 < E"
    and "op_counter c + length tr \<le> INT_MAX" and "fits (foldl (lru_op s E b) m tr)"
  shows "\<exists>c'. csim_loop c tr = Some c' \<and> cache_rel s E b (op_counter c') c' (foldl (lru_op s E b) m tr)"
  using assms
proof (induction tr arbitrary: c m)
  case (Cons x tr)
  have "op_counter c < INT_MAX" using Cons.prems(5) by simp
  moreover have "fits (lru_op s E b m x)" using Cons.prems(6) by (simp add: fits_run)
  ultimately obtain c' where
    "csim_op c x = Some c'" "cache_rel s E b (op_counter c') c' (lru_op s E b m x)" "op_counter c' \<le> Suc (op_counter c)"
    using csim_op_ok [OF Cons.prems(1-4)] by blast
  then show ?case using Cons.IH [of c' "lru_op s E b m x"] Cons.prems by simp
qed simp

text \<open>The dimensions: the numbers of sets and of lines are in the range of an \<^verbatim>\<open>int\<close>.\<close>

lemma csim_init_rel:
  assumes E: "0 < E" and l: "2 ^ s * E \<le> INT_MAX" and b: "b + s < 32" "0 < s"
  shows "\<exists>c. csim_init s E b = Some c \<and> op_counter c = 0 \<and>
    cache_rel s E b 0 c \<lparr>sets = (\<lambda>_. []), hits = 0, misses = 0, evictions = 0\<rparr>"
proof -
  have "2 ^ s \<le> 2 ^ s * E" using E by simp
  then have "2 ^ s \<le> INT_MAX" using l by (rule le_trans)
  moreover have "(2 :: nat) ^ b \<le> 2 ^ 30" using b by (intro power_increasing) auto
  then have "2 ^ b \<le> INT_MAX" by (simp add: INT_MAX_def)
  ultimately obtain c where c: "csim_init s E b = Some c"
    "c = \<lparr>cache = replicate (2 ^ s * E) \<lparr>is_valid = False, line_tag = 0, lru_count = 0\<rparr>,
      cE = E, cs = s, cS = 2 ^ s, cb = b, cB = 2 ^ b, ct = 64 - int s - int b,
      op_counter = 0, hit = 0, miss = 0, evict = 0\<rparr>" using l by (simp add: csim_init_def)
  have "\<not> is_valid (set_view c k i)" if "k < 2 ^ s" "i < E" for k i
    using slot_bound [OF that] by (simp add: set_view_def c(2))
  then have "set_rel (set_view c k) E [] [] 0" if "k < 2 ^ s" for k
    using that by (auto simp: set_rel_def)
  then have "cache_rel s E b 0 c \<lparr>sets = (\<lambda>_. []), hits = 0, misses = 0, evictions = 0\<rparr>"
    by (auto simp: cache_rel_def c(2))
  then show ?thesis using c by simp
qed

lemma csim_main_lru:
  assumes "0 < s" and "b + s < 32" and "0 < E" and "2 ^ s * E \<le> INT_MAX" and "length tr \<le> 2 ^ 30"
  shows "csim_main s E b tr =
     Some (hits (lru_run s E b tr), misses (lru_run s E b tr), evictions (lru_run s E b tr))"
proof -
  let ?m = "\<lparr>sets = (\<lambda>_. []), hits = 0, misses = 0, evictions = 0\<rparr>"
  obtain c where c: "csim_init s E b = Some c" "op_counter c = 0" "cache_rel s E b (op_counter c) c ?m"
    using csim_init_rel [OF assms(3,4,2,1)] by auto
  have "length tr \<le> INT_MAX" using assms(5) by (simp add: INT_MAX_def)
  then have "\<exists>c'. csim_loop c tr = Some c' \<and> cache_rel s E b (op_counter c') c' (foldl (lru_op s E b) ?m tr)"
    using csim_loop_ok [OF c(3) assms(1-3), of tr] c(2) short_fits [OF assms(5), of s E b] by (simp add: lru_run_def)
  then show ?thesis using c(1) by (auto simp: csim_main_def lru_run_def cache_rel_def)
qed

text \<open>
  With at least one set bit, one line per set and fewer than 32 bits of set and block index, up to \<^verbatim>\<open>INT_MAX\<close> lines,
  and on a trace of at most \<open>2 ^ 30\<close> operations, \<^verbatim>\<open>csim.c\<close> never leaves its array of lines, no counter overflows,
  and the hits, misses and evictions that it prints are exactly those of a cache that keeps,
  for every set, the tags in the order of their last use and evicts the least recently used one.
\<close>

theorem csim_simulates_lru:
  assumes "0 < s" and "b + s < 32" and "0 < E" and "2 ^ s * E \<le> INT_MAX" and "length tr \<le> 2 ^ 30"
  shows "csim_main s E b tr =
     Some (hits (lru_run s E b tr), misses (lru_run s E b tr), evictions (lru_run s E b tr))"
  using assms by (rule csim_main_lru)

theorem csim_simulates_lru_witness:
  "csim_main 1 1 1 [(CHR ''L'', 0), (CHR ''M'', 4), (CHR ''L'', 0), (CHR ''I'', 8)] = Some (1, 3, 2)"
  using csim_simulates_lru [of 1 1 1 "[(CHR ''L'', 0), (CHR ''M'', 4), (CHR ''L'', 0), (CHR ''I'', 8)]"]
  by (simp add: lru_run_def lru_op_def lru_touch_def lru_access_def INT_MAX_def)

text \<open>
  The comment of the program says that it works for arbitrary values of \<^verbatim>\<open>s\<close>, \<^verbatim>\<open>E\<close> and \<^verbatim>\<open>b\<close>.  For
  a cache with a single set (\<^verbatim>\<open>s = 0\<close>) the set index is not masked: every address from \<open>2 ^ b\<close>
  on is looked up outside of the array of lines.
\<close>

theorem csim_single_set_out_of_bounds:
  assumes "2 ^ b \<le> unat a" and "0 < E"
  shows "csim_main 0 E b [(CHR ''L'', a)] = None"
proof (cases "csim_init 0 E b")
  case (Some c)
  then have b: "2 ^ b < (2 :: nat) ^ 31" and c: "cE c = E" "length (cache c) = E" "cb c = b" "ct c = 64 - int b" "cs c = 0"
    by (auto simp: csim_init_def INT_MAX_def split: if_splits)
  have "b < 31" using b by (rule power_less_imp_less_exp [rotated]) simp
  then have i: "GET_SET_INDEX c a = unat a div 2 ^ b"
    by (simp add: GET_SET_INDEX_def c shr_def shl_def unat_drop flip: drop_bit_eq_div)
  have "0 < unat a div 2 ^ b" using assms(1) by (simp add: div_greater_zero_iff)
  then have "E \<le> unat a div 2 ^ b * E" by simp
  then have "aget (cache c) (GET_SET_INDEX c a * E + 0) = None" using c by (simp add: i)
  then have "search (cache c) (GET_SET_INDEX c a * E) tg 0 (Suc n) None None INT_MAX = None" for tg n
    by (simp only: search.simps(2) bind.bind_lzero)
  then have "search (cache c) (GET_SET_INDEX c a * E) tg 0 E None None INT_MAX = None" for tg
    using assms(2) by (metis gr0_implies_Suc)
  then have "get_cache c a = None" by (simp add: get_cache_def Let_def c)
  then show ?thesis using Some by (simp add: csim_main_def csim_op_def)
qed (simp add: csim_main_def)

theorem csim_single_set_out_of_bounds_witness:
  "csim_main 0 4 4 [(CHR ''L'', 16)] = None"
  using csim_single_set_out_of_bounds [of 4 16 4] by simp

end
