(* ===== verification/CString.thy ===== *)
theory CString
  imports Prelude
begin

text \<open>
  Strings as C has them: arrays of characters of a fixed size with a terminator, and the functions of
  the C library that the proxy and the web server call on them.  An array is the list of all of its
  characters; \<open>None\<close> is a write beyond its end.
\<close>

abbreviation NUL :: char where "NUL \<equiv> CHR 0x00"
abbreviation CRLF :: string where "CRLF \<equiv> [CHR 0x0D, CHR 0x0A]"

definition cstr :: "string \<Rightarrow> string" where
  "cstr a = takeWhile (\<lambda>c. c \<noteq> NUL) a"

definition store :: "string \<Rightarrow> nat \<Rightarrow> string \<Rightarrow> string option" where
  "store a k s = (if k + length s \<le> length a then Some (take k a @ s @ drop (k + length s) a) else None)"

definition c_strcpy :: "string \<Rightarrow> string \<Rightarrow> string option" where
  "c_strcpy a s = store a 0 (cstr s @ [NUL])"

text \<open>\<^verbatim>\<open>strncpy(a, s, strlen(s))\<close> and \<^verbatim>\<open>strncat(a, s, strlen(s))\<close>: the first writes no terminator.\<close>

definition strncpy_len :: "string \<Rightarrow> string \<Rightarrow> string option" where
  "strncpy_len a s = store a 0 (cstr s)"

definition strncat_len :: "string \<Rightarrow> string \<Rightarrow> string option" where
  "strncat_len a s = store a (length (cstr a)) (cstr s @ [NUL])"

definition has_prefix :: "string \<Rightarrow> string \<Rightarrow> bool" where
  "has_prefix p s \<longleftrightarrow> take (length p) s = p"

text \<open>The string from the first occurrence of a pattern on.\<close>

fun strstr :: "string \<Rightarrow> string \<Rightarrow> string option" where
  "strstr [] p = (if p = [] then Some [] else None)"
| "strstr (c # s) p = (if has_prefix p (c # s) then Some (c # s) else strstr s p)"

text \<open>
  The conversions of \<^verbatim>\<open>sscanf\<close> that the programs use: \<^verbatim>\<open>%[^c]\<close> and \<^verbatim>\<open>%s\<close>, the text they match and
  what is behind it, or \<open>None\<close> if they match nothing.
\<close>

definition scan_until :: "char \<Rightarrow> string \<Rightarrow> (string \<times> string) option" where
  "scan_until c s = (case takeWhile (\<lambda>x. x \<noteq> c) s of [] \<Rightarrow> None | w \<Rightarrow> Some (w, dropWhile (\<lambda>x. x \<noteq> c) s))"

definition scan_word :: "string \<Rightarrow> (string \<times> string) option" where
  "scan_word s = (let s = dropWhile is_space s in
     case takeWhile (\<lambda>x. \<not> is_space x) s of [] \<Rightarrow> None | w \<Rightarrow> Some (w, dropWhile (\<lambda>x. \<not> is_space x) s))"

definition to_lower :: "char \<Rightarrow> char" where
  "to_lower c = (if 65 \<le> char_code c \<and> char_code c \<le> 90 then char_of (char_code c + 32) else c)"

definition strcasecmp_eq :: "string \<Rightarrow> string \<Rightarrow> bool" where
  "strcasecmp_eq s t \<longleftrightarrow> map to_lower s = map to_lower t"

lemma cstr_no_NUL [simp]: "NUL \<notin> set s \<Longrightarrow> cstr s = s"
  by (auto simp: cstr_def takeWhile_eq_all_conv)

lemma cstr_append_NUL [simp]: "NUL \<notin> set s \<Longrightarrow> cstr (s @ NUL # r) = s"
  by (induction s) (auto simp: cstr_def)

lemma cstr_set: "NUL \<notin> set (cstr s)"
  by (auto simp: cstr_def dest: set_takeWhileD)

lemma cstr_idem [simp]: "cstr (cstr s) = cstr s"
  using cstr_set by (rule cstr_no_NUL)

lemma has_prefix_append [simp]: "has_prefix p (p @ s)"
  by (simp add: has_prefix_def)

lemma has_prefix_iff: "has_prefix p s \<longleftrightarrow> (\<exists>r. s = p @ r)"
  by (metis append_take_drop_id has_prefix_append has_prefix_def)

lemma strstr_prefix: "p \<noteq> [] \<Longrightarrow> strstr (p @ s) p = Some (p @ s)"
  by (cases p) (auto simp: has_prefix_def)

lemma strstr_char: "strstr s [c] = (if c \<in> set s then Some (dropWhile (\<lambda>x. x \<noteq> c) s) else None)"
  by (induction s) (auto simp: has_prefix_def)

lemma strstr_absent: "c \<notin> set s \<Longrightarrow> strstr s (c # p) = None"
  by (induction s) (auto simp: has_prefix_def)

end
