(* ===== verification/Sio.thy ===== *)
theory Sio
  imports CString "HOL-Library.Signed_Division"
begin

text \<open>
  The signal-safe output functions of \<^verbatim>\<open>csapp.c\<close> (\<^verbatim>\<open>sp_06_proxylab/proxylab-handout/csapp.c\<close>).

  A \<^verbatim>\<open>long\<close> is an \<open>int\<close> between \<open>-2^63\<close> and \<open>2^63 - 1\<close>, and its division truncates.  Arrays are checked as in theory
  \<open>Prelude\<close>.  What \<^verbatim>\<open>write\<close> returns is a parameter; the functions give the bytes that are handed to it.
\<close>

section \<open>Private functions\<close>

function reverse_loop :: "string \<Rightarrow> nat \<Rightarrow> int \<Rightarrow> string option" where
  "reverse_loop s i j =
     (if int i < j then do {
        c \<leftarrow> aget s i;
        d \<leftarrow> aget s (nat j);
        s \<leftarrow> aset s i d;
        s \<leftarrow> aset s (nat j) c;
        reverse_loop s (Suc i) (j - 1) }
      else Some s)"
  by pat_completeness auto
termination
  by (relation "measure (\<lambda>(_, i, j). nat (j - int i))") auto

declare reverse_loop.simps [simp del]

definition sio_reverse :: "string \<Rightarrow> string option" where
  "sio_reverse s = (if NUL \<in> set s then reverse_loop s 0 (int (length (cstr s)) - 1) else None)"

definition ltoa_char :: "int \<Rightarrow> char" where
  "ltoa_char c = char_of (nat ((if c < 10 then c + 48 else c - 10 + 97) mod 256))"

function ltoa_loop :: "int \<Rightarrow> int \<Rightarrow> string \<Rightarrow> nat \<Rightarrow> string option" where
  "ltoa_loop b v s i =
     (case aset s i (ltoa_char (v smod b)) of
        None \<Rightarrow> None
      | Some s \<Rightarrow> if v sdiv b > 0 then ltoa_loop b (v sdiv b) s (Suc i) else aset s (Suc i) NUL)"
  by pat_completeness auto
termination
  by (relation "measure (\<lambda>(_, _, s, i). length s - i)") auto

declare ltoa_loop.simps [simp del]

text \<open>The two divisions that trap have no result.\<close>

definition sio_ltoa :: "int \<Rightarrow> string \<Rightarrow> int \<Rightarrow> string option" where
  "sio_ltoa v s b =
     (if b = 0 \<or> (b = -1 \<and> v = - (2 ^ 63)) then None
      else do { s \<leftarrow> ltoa_loop b v s 0; sio_reverse s })"

function sio_strlen :: "string \<Rightarrow> nat \<Rightarrow> nat option" where
  "sio_strlen s i = (case aget s i of None \<Rightarrow> None | Some c \<Rightarrow> if c \<noteq> NUL then sio_strlen s (Suc i) else Some i)"
  by pat_completeness auto
termination
  by (relation "measure (\<lambda>(s, i). length s - i)") auto

declare sio_strlen.simps [simp del]

section \<open>Public functions and their wrappers\<close>

definition sio_puts :: "(string \<Rightarrow> int) \<Rightarrow> string \<Rightarrow> (string \<times> int) option" where
  "sio_puts wr s = do { n \<leftarrow> sio_strlen s 0; Some (take n s, wr (take n s)) }"

text \<open>\<open>buf\<close> is the local array before its initialisation, of 128 characters.\<close>

definition sio_putl :: "(string \<Rightarrow> int) \<Rightarrow> string \<Rightarrow> int \<Rightarrow> (string \<times> int) option" where
  "sio_putl wr buf v = do { s \<leftarrow> sio_ltoa v buf 10; sio_puts wr s }"

text \<open>The end of the program with a status, or a value.\<close>

datatype sio_end = Sio_exit nat | Sio_return int

definition sio_error :: "(string \<Rightarrow> int) \<Rightarrow> string \<Rightarrow> (string \<times> sio_end) option" where
  "sio_error wr s = do { (out, _) \<leftarrow> sio_puts wr s; Some (out, Sio_exit 1) }"

definition Sio_error :: "(string \<Rightarrow> int) \<Rightarrow> string \<Rightarrow> (string \<times> sio_end) option" where
  "Sio_error wr s = sio_error wr s"

definition Sio_puts :: "(string \<Rightarrow> int) \<Rightarrow> string \<Rightarrow> (string \<times> sio_end) option" where
  "Sio_puts wr s = do {
     (out, n) \<leftarrow> sio_puts wr s;
     if n < 0 then do {
       (out', e) \<leftarrow> sio_error wr (''Sio_puts error'' @ [NUL]);
       Some (out @ out', e) }
     else Some (out, Sio_return n) }"

definition Sio_putl :: "(string \<Rightarrow> int) \<Rightarrow> string \<Rightarrow> int \<Rightarrow> (string \<times> sio_end) option" where
  "Sio_putl wr buf v = do {
     (out, n) \<leftarrow> sio_putl wr buf v;
     if n < 0 then do {
       (out', e) \<leftarrow> sio_error wr (''Sio_putl error'' @ [NUL]);
       Some (out @ out', e) }
     else Some (out, Sio_return n) }"

section \<open>Lengths and reversal\<close>

lemma sio_strlen_suffix: "i \<le> length (cstr s) \<Longrightarrow> NUL \<in> set s \<Longrightarrow> sio_strlen s i = Some (length (cstr s))"
proof (induction s i rule: sio_strlen.induct)
  case (1 s i)
  have l: "length (cstr s) < length s" using 1(3)
    by (metis (mono_tags, lifting) cstr_def cstr_set length_takeWhile_le order_le_imp_less_or_eq takeWhile_eq_take take_all_iff)
  show ?case
  proof (cases "i = length (cstr s)")
    case True
    have "s ! i = NUL" using nth_length_takeWhile [of "\<lambda>c. c \<noteq> NUL" s] l True by (simp add: cstr_def)
    then have "aget s i = Some NUL" using l True by simp
    then have "sio_strlen s i = Some i" by (subst sio_strlen.simps) (simp del: aget_Some_iff)
    then show ?thesis using True by simp
  next
    case False
    then have "s ! i = cstr s ! i" "i < length (cstr s)" using 1(2) by (simp_all add: cstr_def takeWhile_nth)
    then have "s ! i \<noteq> NUL" using cstr_set [of s] by (metis nth_mem)
    then have "aget s i = Some (s ! i)" "sio_strlen s (Suc i) = Some (length (cstr s))"
      using 1 False l \<open>i < length (cstr s)\<close> by simp_all
    then show ?thesis using \<open>s ! i \<noteq> NUL\<close> by (subst sio_strlen.simps) (simp del: aget_Some_iff)
  qed
qed

lemma sio_puts_cstr: "NUL \<in> set s \<Longrightarrow> sio_puts wr s = Some (cstr s, wr (cstr s))"
  by (simp add: sio_puts_def sio_strlen_suffix) (simp add: cstr_def takeWhile_eq_take [symmetric])

lemma reverse_loop_rev:
  "int (length m) = j - int i + 1 \<Longrightarrow> length p = i \<Longrightarrow> reverse_loop (p @ m @ q) i j = Some (p @ rev m @ q)"
proof (induction m arbitrary: p q i j rule: length_induct)
  case (1 m)
  show ?case
  proof (cases "int i < j")
    case True
    then have "2 \<le> length m" using 1(2) by linarith
    then obtain x ys where m: "m = x # ys" and "ys \<noteq> []" by (cases m) (auto simp: Suc_le_eq)
    then obtain y ns where ys: "ys = ns @ [y]" by (metis rev_exhaust)
    have j: "nat j = i + Suc (length ns)" using 1(2) m ys True by simp
    have g: "aget (p @ m @ q) i = Some x" "aget (p @ m @ q) (nat j) = Some y"
      using j m ys 1(3) by (auto simp: nth_append)
    have s: "(p @ m @ q)[i := y] = p @ (y # ns @ [y]) @ q"
      "(p @ (y # ns @ [y]) @ q)[nat j := x] = (p @ [y]) @ ns @ (x # q)"
      using j m ys 1(3) by (simp_all add: list_update_append)
    have "reverse_loop ((p @ [y]) @ ns @ (x # q)) (Suc i) (j - 1) = Some ((p @ [y]) @ rev ns @ (x # q))"
      by (rule 1(1) [rule_format]) (use 1(2,3) m ys True in auto)
    moreover have "i < length (p @ m @ q)" "nat j < length (p @ (y # ns @ [y]) @ q)" using j m ys 1(3) by auto
    ultimately have "reverse_loop (p @ m @ q) i j = Some ((p @ [y]) @ rev ns @ (x # q))"
      using True g s by (subst reverse_loop.simps) (simp add: aset_in_range del: aget_Some_iff)
    then show ?thesis using m ys by simp
  next
    case False
    then have "length m \<le> 1" using 1(2) by linarith
    then have "rev m = m" by (cases m) auto
    then show ?thesis using False by (simp add: reverse_loop.simps)
  qed
qed

lemma sio_reverse_rev: "NUL \<notin> set w \<Longrightarrow> sio_reverse (w @ NUL # q) = Some (rev w @ NUL # q)"
  using reverse_loop_rev [of w "int (length w) - 1" 0 "[]" "NUL # q"] by (simp add: sio_reverse_def)

section \<open>Conversion\<close>

text \<open>The digits of a number, the last one first.\<close>

fun rdigits :: "nat \<Rightarrow> string" where
  "rdigits n = ltoa_char (int (n mod 10)) # (if n div 10 = 0 then [] else rdigits (n div 10))"

declare rdigits.simps [simp del]

lemma ltoa_char_digit: "d < 10 \<Longrightarrow> char_code (ltoa_char (int d)) = d + 48"
  by (simp add: ltoa_char_def nat_add_distrib of_char_of nat_mod_distrib)

lemma rdigits_ne: "rdigits n \<noteq> []"
  by (simp add: rdigits.simps)

lemma rdigits_digit: "c \<in> set (rdigits n) \<Longrightarrow> is_digit c"
proof (induction n rule: rdigits.induct)
  case (1 n)
  have "is_digit (ltoa_char (int (n mod 10)))" by (simp add: is_digit_def ltoa_char_digit del: of_nat_mod)
  then show ?case using 1 by (auto simp: rdigits.simps [of n] simp del: of_nat_mod split: if_splits)
qed

lemma rdigits_no_NUL: "NUL \<notin> set (rdigits n)"
  using rdigits_digit [of NUL n] by (auto simp: is_digit_def)

lemma ltoa_loop_rdigits:
  "i + length (rdigits n) < length s \<Longrightarrow>
     ltoa_loop 10 (int n) s i = Some (take i s @ rdigits n @ NUL # drop (Suc (i + length (rdigits n))) s)"
proof (induction n arbitrary: s i rule: rdigits.induct)
  case (1 n)
  have sd: "int n smod 10 = int (n mod 10)" "int n sdiv 10 = int (n div 10)"
    by (simp_all add: zdiv_int zmod_int smod_int_alt_def signed_divide_int_def sgn_if)
  let ?c = "ltoa_char (int (n mod 10))"
  have i: "i < length s" using 1(2) by simp
  show ?case
  proof (cases "n div 10 = 0")
    case True
    then show ?thesis using 1(2) i
      by (simp add: rdigits.simps [of n] ltoa_loop.simps [of 10 "int n"] sd aset_in_range upd_conv_take_nth_drop)
  next
    case False
    have l: "Suc i + length (rdigits (n div 10)) < length (s[i := ?c])" using 1(2) False by (simp add: rdigits.simps [of n])
    have "ltoa_loop 10 (int n) s i = ltoa_loop 10 (int (n div 10)) (s[i := ?c]) (Suc i)"
      using i False by (simp add: ltoa_loop.simps [of 10 "int n"] sd aset_in_range)
    also have "\<dots> = Some (take (Suc i) (s[i := ?c]) @ rdigits (n div 10) @ NUL # drop (Suc (Suc i + length (rdigits (n div 10)))) s)"
      using 1(1) [OF False l] by simp
    also have "take (Suc i) (s[i := ?c]) = take i s @ [?c]" using i by (simp add: take_Suc_conv_app_nth)
    finally show ?thesis using False by (simp add: rdigits.simps [of n])
  qed
qed

lemma scan_digits_append:
  "list_all is_digit w \<Longrightarrow> scan_digits (w @ s) a = scan_digits s (scan_digits w a)"
  by (induction w arbitrary: a) auto

lemma scan_rdigits: "scan_digits (rev (rdigits n)) 0 = n"
proof (induction n rule: rdigits.induct)
  case (1 n)
  have d: "is_digit (ltoa_char (int (n mod 10)))" by (simp add: is_digit_def ltoa_char_digit del: of_nat_mod)
  show ?case
  proof (cases "n div 10 = 0")
    case True
    then show ?thesis using d by (simp add: rdigits.simps [of n] ltoa_char_digit del: of_nat_mod)
  next
    case False
    have "list_all is_digit (rev (rdigits (n div 10)))" using rdigits_digit by (auto simp: list_all_iff)
    then show ?thesis using 1 False d
      by (simp add: rdigits.simps [of n] scan_digits_append ltoa_char_digit del: of_nat_mod)
  qed
qed

lemma rdigits_length: "n < 10 ^ k \<Longrightarrow> 0 < k \<Longrightarrow> length (rdigits n) \<le> k"
proof (induction n arbitrary: k rule: rdigits.induct)
  case (1 n)
  show ?case
  proof (cases "n div 10 = 0")
    case False
    obtain j where j: "k = Suc j" using 1(3) by (cases k) auto
    then have k: "k = Suc j" "0 < j" using False 1(2) by (auto intro!: gr0I)
    then have "n div 10 < 10 ^ j" using 1(2) by (simp add: less_mult_imp_div_less mult.commute)
    then show ?thesis using 1(1) [OF False, of j] k False by (simp add: rdigits.simps [of n])
  qed (use 1(3) in \<open>simp add: rdigits.simps [of n]\<close>)
qed

lemma last_rdigits: "char_code (last (rdigits n)) = 48 \<Longrightarrow> n = 0"
proof (induction n rule: rdigits.induct)
  case (1 n)
  then show ?case
    by (cases "n div 10 = 0") (auto simp: rdigits.simps [of n] ltoa_char_digit rdigits_ne simp del: of_nat_mod)
qed

lemma sio_ltoa_rdigits:
  "length (rdigits n) < length buf \<Longrightarrow>
     sio_ltoa (int n) buf 10 = Some (rev (rdigits n) @ NUL # drop (Suc (length (rdigits n))) buf)"
  using ltoa_loop_rdigits [of 0 n buf] by (simp add: sio_ltoa_def sio_reverse_rev rdigits_no_NUL)

section \<open>Decimal numbers\<close>

text \<open>The conversion \<^verbatim>\<open>%d\<close> of the C library, for a number that is not negative.\<close>

definition fmt_d :: "nat \<Rightarrow> string" where
  "fmt_d n = rev (rdigits n)"

lemma fmt_d_digits: "list_all is_digit (fmt_d n)" "fmt_d n \<noteq> []"
  using rdigits_digit [of _ n] rdigits_ne [of n] by (auto simp: fmt_d_def list_all_iff)

lemma atoi_digits: "list_all is_digit w \<Longrightarrow> w \<noteq> [] \<Longrightarrow> atoi w = int (scan_digits w 0)"
  by (cases w) (auto simp: atoi_def is_digit_def is_space_def)

lemma atoi_fmt_d [simp]: "atoi (fmt_d n) = int n"
  using atoi_digits [OF fmt_d_digits] by (simp add: fmt_d_def scan_rdigits)

text \<open>The conversion \<^verbatim>\<open>%d\<close> of an \<^verbatim>\<open>int\<close>.\<close>

definition fmt_int :: "int \<Rightarrow> string" where
  "fmt_int n = (if n < 0 then ''-'' @ fmt_d (nat (- n)) else fmt_d (nat n))"

lemma fmt_int_nat [simp]: "fmt_int (int n) = fmt_d n"
  by (simp add: fmt_int_def)

text \<open>
  C25. \<^verbatim>\<open>sio_putl\<close> prints a number that is not negative in decimal notation, without leading zeros, in at most
  19 characters of its array of 128, whatever the array held; reading the text back gives the number.
\<close>

theorem sio_putl_decimal:
  assumes "0 \<le> v" and "v < 2 ^ 63" and "length buf = 128"
  shows "\<exists>s. sio_putl wr buf v = Some (s, wr s) \<and> atoi s = v \<and> list_all is_digit s \<and>
    0 < length s \<and> length s \<le> 19 \<and> (hd s = CHR ''0'' \<longrightarrow> v = 0)"
proof -
  obtain n where n: "v = int n" using assms(1) by (metis nonneg_int_cases)
  let ?s = "rev (rdigits n)"
  have len: "length (rdigits n) \<le> 19" using assms(2) n by (intro rdigits_length) auto
  have p: "sio_putl wr buf v = Some (?s, wr ?s)"
    using len assms(3) n rdigits_no_NUL [of n] by (simp add: sio_putl_def sio_ltoa_rdigits sio_puts_cstr)
  have dg: "is_digit (hd ?s)" "list_all is_digit ?s" using rdigits_digit [of _ n] rdigits_ne [of n]
    by (auto simp: list_all_iff hd_rev)
  have sp: "\<not> is_space c \<and> c \<noteq> CHR ''-'' \<and> c \<noteq> CHR ''+''" if "is_digit c" for c
    using that by (auto simp: is_digit_def is_space_def)
  obtain c cs where c: "?s = c # cs" using rdigits_ne [of n] by (cases ?s) auto
  have "atoi ?s = int (scan_digits ?s 0)" using sp [OF dg(1)] c by (simp add: atoi_def)
  then have "atoi ?s = v" using n by (simp add: scan_rdigits)
  moreover have "hd ?s = CHR ''0'' \<longrightarrow> v = 0" using last_rdigits [of n] n by (auto simp: hd_rev rdigits_ne)
  ultimately show ?thesis using p dg(2) len rdigits_ne [of n] by (intro exI [of _ ?s]) simp
qed

lemma sio_putl_decimal_witness:
  "\<exists>s. sio_putl (\<lambda>s. int (length s)) (replicate 128 (CHR ''x'')) 2021 = Some (s, int (length s)) \<and> atoi s = 2021"
  using sio_putl_decimal [of 2021 "replicate 128 (CHR ''x'')" "\<lambda>s. int (length s)"] by auto

text \<open>A negative number is printed as one character that is not a digit, for example a parenthesis for -7.\<close>

lemma sio_putl_negative:
  assumes "v smod 10 = - d" and "v sdiv 10 \<le> 0" and "0 < d" and "d < 10"
  shows "sio_putl wr (replicate 128 c) v = Some ([char_of (nat (48 - d))], wr [char_of (nat (48 - d))])"
proof -
  let ?c = "char_of (nat (48 - d)) :: char"
  have "ltoa_char (- d) = ?c" using assms(3,4) by (simp add: ltoa_char_def)
  then have "ltoa_loop 10 v (replicate 128 c) 0 = Some ([?c] @ NUL # replicate 126 c)"
    using assms(1,2) by (simp add: ltoa_loop.simps aset_in_range numeral_nat)
  moreover have "?c \<noteq> NUL"
  proof
    assume "?c = NUL"
    then have "of_char ?c = (0 :: nat)" by simp
    then show False using assms(3,4) by (simp add: of_char_of)
  qed
  ultimately show ?thesis using sio_reverse_rev [of "[?c]"] sio_puts_cstr [of "?c # NUL # replicate 126 c" wr]
    by (simp add: sio_putl_def sio_ltoa_def cstr_def)
qed

lemma sio_putl_minus_7: "sio_putl wr (replicate 128 c) (-7) = Some ('')'', wr '')'')"
  by (subst sio_putl_negative [where d = 7]) (simp_all add: smod_int_alt_def signed_divide_int_def char_of_def bit_0)

end
