(* ===== verification/CacheMain.thy ===== *)
theory CacheMain
  imports Trans CsimCorrect Sio
begin

text \<open>
  The main routines of the cache lab from the command line on: the options of \<^verbatim>\<open>csim.c\<close>, the trace file that it
  reads and the result file that it writes, and the options of \<^verbatim>\<open>tracegen.c\<close> and the matrices that it fills.

  The files are a map from names to contents.  \<open>None\<close> is undefined behaviour: a variable that is read before it is set, a
  read from a file that could not be opened, a shift by a negative number, an access outside of an array.
\<close>

section \<open>Reading the trace\<close>

text \<open>
  The conversion \<^verbatim>\<open>%x\<close>: the value as \<^verbatim>\<open>strtoul\<close> computes it with 64 bits, cut down to the 32 of the variable,
  or \<open>None\<close> for a matching failure; and the input behind it.
\<close>

definition hex_digit :: "char \<Rightarrow> bool" where
  "hex_digit c \<longleftrightarrow> hex_value c \<noteq> None"

definition sign_off :: "string \<Rightarrow> string" where
  "sign_off s = (if s \<noteq> [] \<and> hd s \<in> {CHR ''-'', CHR ''+''} then tl s else s)"

definition hex_part :: "string \<Rightarrow> string" where
  "hex_part inp =
     (let s = sign_off (dropWhile is_space inp)
      in if take 2 s \<in> {''0x'', ''0X''} then drop 2 s else s)"

definition scanf_x :: "string \<Rightarrow> u32 option \<times> string" where
  "scanf_x inp =
     (let s = hex_part inp;
          neg = (take 1 (dropWhile is_space inp) = ''-'');
          v = scan_hex (takeWhile hex_digit s) 0;
          rest = dropWhile hex_digit s
      in if takeWhile hex_digit s = [] then (None, rest)
         else if 2 ^ 64 \<le> v then (Some (- 1), rest)
         else (Some (if neg then - of_nat v else of_nat v), rest))"

text \<open>The rest of the format, a comma and \<^verbatim>\<open>%d\<close>; the size is not used.\<close>

definition scanf_size :: "string \<Rightarrow> string" where
  "scanf_size inp =
     (if take 1 inp = '','' then dropWhile is_digit (sign_off (dropWhile is_space (tl inp))) else inp)"

lemma sign_off_le: "length (sign_off s) \<le> length s"
  by (simp add: sign_off_def)

lemma scanf_x_le: "length (snd (scanf_x inp)) \<le> length inp"
proof -
  have "length (hex_part inp) \<le> length inp"
    using sign_off_le [of "dropWhile is_space inp"] length_dropWhile_le [of is_space inp]
    by (auto simp: hex_part_def Let_def)
  then show ?thesis using length_dropWhile_le [of hex_digit "hex_part inp"] by (auto simp: scanf_x_def Let_def)
qed

lemma scanf_size_le: "length (scanf_size inp) \<le> length inp"
proof -
  have "length (dropWhile is_digit (sign_off (dropWhile is_space (tl inp)))) \<le> length inp"
    using length_dropWhile_le [of is_digit "sign_off (dropWhile is_space (tl inp))"] sign_off_le [of "dropWhile is_space (tl inp)"]
      length_dropWhile_le [of is_space "tl inp"] by simp
  then show ?thesis by (simp add: scanf_size_def)
qed

text \<open>
  The operations that the loop of \<^verbatim>\<open>main\<close> handles.  A line without an address still counts as a
  conversion, so that the loop goes on with the address of the line before.
\<close>

function scan_ops :: "u32 \<Rightarrow> string \<Rightarrow> (char \<times> u32) list" where
  "scan_ops addr inp =
     (case dropWhile is_space inp of
        [] \<Rightarrow> []
      | c # r \<Rightarrow>
          (case scanf_x r of
             (None, r) \<Rightarrow> (c, addr) # scan_ops addr r
           | (Some a, r) \<Rightarrow> (c, a) # scan_ops a (scanf_size r)))"
  by pat_completeness auto
termination
proof (relation "measure (\<lambda>(_, inp). length inp)", simp_all)
  fix inp c r and y :: string
  assume "dropWhile is_space inp = c # r"
  then have r: "length r < length inp" using length_dropWhile_le [of is_space inp] by simp
  show "(None, y) = scanf_x r \<Longrightarrow> length y < length inp" using scanf_x_le [of r] r by (metis le_less_trans snd_conv)
  show "(Some a, y) = scanf_x r \<Longrightarrow> length (scanf_size y) < length inp" for a
    using scanf_x_le [of r] scanf_size_le [of y] r by (metis le_less_trans snd_conv)
qed

declare scan_ops.simps [simp del]

section \<open>The simulator\<close>

record copts =
  o_verbose :: bool
  o_s :: int
  o_E :: int
  o_b :: int
  o_tracefile :: "string option"

definition copts0 :: copts where
  "copts0 = \<lparr>o_verbose = False, o_s = 0, o_E = 0, o_b = 0, o_tracefile = None\<rparr>"

text \<open>The options that \<^verbatim>\<open>getopt\<close> reports, with their arguments; an unknown one only prints a message.\<close>

fun csim_opts :: "(char \<times> string) list \<Rightarrow> copts \<Rightarrow> copts" where
  "csim_opts [] opt = opt"
| "csim_opts ((c, optarg) # os) opt =
     csim_opts os
       (if c = CHR ''v'' then opt\<lparr>o_verbose := True\<rparr>
        else if c = CHR ''s'' then opt\<lparr>o_s := atoi optarg\<rparr>
        else if c = CHR ''E'' then opt\<lparr>o_E := atoi optarg\<rparr>
        else if c = CHR ''b'' then opt\<lparr>o_b := atoi optarg\<rparr>
        else if c = CHR ''t'' then opt\<lparr>o_tracefile := Some optarg\<rparr>
        else opt)"

text \<open>\<^verbatim>\<open>printSummary\<close> of \<^verbatim>\<open>cachelab.c\<close>: what is printed, and the contents of \<^verbatim>\<open>.csim_results\<close>.\<close>

definition printSummary :: "nat \<Rightarrow> nat \<Rightarrow> nat \<Rightarrow> string \<times> string" where
  "printSummary h m e =
     (''hits:'' @ fmt_d h @ '' misses:'' @ fmt_d m @ '' evictions:'' @ fmt_d e @ ''\<newline>'',
      fmt_d h @ '' '' @ fmt_d m @ '' '' @ fmt_d e @ ''\<newline>'')"

text \<open>
  \<^verbatim>\<open>main\<close> of \<^verbatim>\<open>csim.c\<close>: the summary that it prints and the contents of its result file.  \<open>junk\<close> is the variable
  \<^verbatim>\<open>address\<close> before it is set.  The copy of the name of the trace file is one byte longer than the memory that is
  asked for; \<open>usable n\<close> is the size of the block that \<^verbatim>\<open>malloc(n)\<close> returns (\<^verbatim>\<open>malloc_usable_size\<close>), and a
  write beyond it is \<open>None\<close>.  The memory for the lines is taken to be there.
\<close>

definition name_overruns :: "(nat \<Rightarrow> nat) \<Rightarrow> (char \<times> string) list \<Rightarrow> bool" where
  "name_overruns usable args \<longleftrightarrow> list_ex (\<lambda>(c, optarg). c = CHR ''t'' \<and> usable (length optarg) < length optarg + 1) args"

definition csim_program :: "(nat \<Rightarrow> nat) \<Rightarrow> (string \<Rightarrow> string option) \<Rightarrow> u32 \<Rightarrow> (char \<times> string) list \<Rightarrow> (string \<times> string) option" where
  "csim_program usable files junk args =
     (if name_overruns usable args then None else
      let opt = csim_opts args copts0 in
      case o_tracefile opt of
        None \<Rightarrow> None
      | Some f \<Rightarrow>
          case files f of
            None \<Rightarrow> None
          | Some text \<Rightarrow>
              if o_s opt < 0 \<or> o_b opt < 0 \<or> o_E opt < 0 then None
              else do {
                (h, m, e) \<leftarrow> csim_main (nat (o_s opt)) (nat (o_E opt)) (nat (o_b opt)) (scan_ops junk text);
                Some (printSummary h m e) })"

section \<open>Printing a trace and reading it again\<close>

definition hexd :: "nat \<Rightarrow> char" where
  "hexd d = char_of (if d < 10 then d + 48 else d + 87)"

fun rhex :: "nat \<Rightarrow> string" where
  "rhex n = hexd (n mod 16) # (if n div 16 = 0 then [] else rhex (n div 16))"

declare rhex.simps [simp del]

definition fmt_x :: "nat \<Rightarrow> string" where
  "fmt_x n = rev (rhex n)"

text \<open>
  A line as Valgrind writes it: the operation, the address in hexadecimal digits, and the size.  The address is padded with zeros
  to a width of eight; the traces that are written by hand have a width of zero.
\<close>

definition op_line :: "nat \<Rightarrow> char \<times> nat \<times> nat \<Rightarrow> string" where
  "op_line w l = (case l of (c, a, n) \<Rightarrow> (if c = CHR ''I'' then ''I  '' else '' '' @ [c] @ '' '') @
     replicate (w - length (fmt_x a)) (CHR ''0'') @ fmt_x a @ '','' @ fmt_d n @ ''\<newline>'')"

lemma hexd_value: "d < 16 \<Longrightarrow> hex_value (hexd d) = Some d"
  by (auto simp: hex_value_def hexd_def is_digit_def of_char_of)

lemma rhex_digits: "\<forall>c\<in>set (rhex n). hex_digit c"
proof (induction n rule: rhex.induct)
  case (1 n)
  then show ?case by (subst rhex.simps) (simp add: hex_digit_def hexd_value)
qed

lemma fmt_x_digits: "\<forall>c\<in>set (fmt_x n). hex_digit c" "fmt_x n \<noteq> []"
  using rhex_digits [of n] by (auto simp: fmt_x_def rhex.simps [of n])

lemma scan_hex_append: "\<forall>c\<in>set w. hex_digit c \<Longrightarrow> scan_hex (w @ v) acc = scan_hex v (scan_hex w acc)"
  by (induction w arbitrary: acc) (auto simp: hex_digit_def)

lemma scan_fmt_x: "scan_hex (fmt_x n) 0 = n"
proof (induction n rule: rhex.induct)
  case (1 n)
  have d: "scan_hex [hexd (n mod 16)] acc = 16 * acc + n mod 16" for acc by (simp add: hexd_value)
  show ?case
  proof (cases "n div 16 = 0")
    case True
    then have "fmt_x n = [hexd (n mod 16)]" "n mod 16 = n" by (simp_all add: fmt_x_def rhex.simps [of n])
    then show ?thesis using d [of 0] by simp
  next
    case False
    have "fmt_x n = fmt_x (n div 16) @ [hexd (n mod 16)]" using False by (simp add: fmt_x_def rhex.simps [of n])
    then have "scan_hex (fmt_x n) 0 = 16 * (n div 16) + n mod 16"
      using 1 [OF False] d by (simp add: scan_hex_append [OF fmt_x_digits(1)])
    then show ?thesis by simp
  qed
qed

lemma not_hex_digit [simp]:
  "\<not> hex_digit (CHR '','')" "\<not> hex_digit (CHR ''-'')" "\<not> hex_digit (CHR ''+'')" "\<not> hex_digit (CHR ''x'')"
  "\<not> hex_digit (CHR ''X'')" "\<not> hex_digit (CHR '' '')"
  by (simp_all add: hex_digit_def hex_value_def is_digit_def)

lemma hex_not_space: "hex_digit c \<Longrightarrow> \<not> is_space c"
  by (auto simp: hex_digit_def hex_value_def is_digit_def is_space_def split: if_splits)

lemma takeWhile_stops: "\<forall>c\<in>set w. P c \<Longrightarrow> \<not> P x \<Longrightarrow> takeWhile P (w @ x # r) = w"
  and dropWhile_stops: "\<forall>c\<in>set w. P c \<Longrightarrow> \<not> P x \<Longrightarrow> dropWhile P (w @ x # r) = x # r"
  by (induction w) auto

lemma scan_hex_zeros: "scan_hex (replicate k (CHR ''0'') @ w) 0 = scan_hex w 0"
  by (induction k) (simp_all add: hex_value_def is_digit_def)

lemma scanf_x_digits:
  assumes sp: "\<forall>c\<in>set sp. is_space c" and ds: "ds \<noteq> []" "\<forall>c\<in>set ds. hex_digit c" and n: "scan_hex ds 0 = n" "n < 2 ^ 64"
  shows "scanf_x (sp @ ds @ '','' @ r) = (Some (of_nat n), '','' @ r)"
proof -
  obtain c w where cw: "ds = c # w" using ds(1) by (cases ds) auto
  have h: "hex_digit c" "\<forall>d\<in>set w. hex_digit d" using ds(2) cw by auto
  have s: "dropWhile is_space (sp @ ds @ '','' @ r) = ds @ CHR '','' # r"
    using sp hex_not_space [OF h(1)] by (induction sp) (simp_all add: cw)
  have "c \<noteq> CHR ''-''" "c \<noteq> CHR ''+''" using h(1) by auto
  then have so: "sign_off (ds @ CHR '','' # r) = ds @ CHR '','' # r" by (simp add: sign_off_def cw)
  have neg: "take 1 (ds @ CHR '','' # r) \<noteq> ''-''" using \<open>c \<noteq> CHR ''-''\<close> by (simp add: cw)
  have "take 2 (ds @ CHR '','' # r) \<notin> {''0x'', ''0X''}"
  proof (cases w)
    case Nil
    then show ?thesis by (simp add: cw numeral_2_eq_2)
  next
    case (Cons d v)
    then have "d \<noteq> CHR ''x''" "d \<noteq> CHR ''X''" using h(2) by auto
    then show ?thesis by (simp add: cw Cons numeral_2_eq_2)
  qed
  then have p: "hex_part (sp @ ds @ '','' @ r) = ds @ CHR '','' # r"
    unfolding hex_part_def Let_def s so by simp
  have "takeWhile hex_digit (ds @ CHR '','' # r) = ds" "dropWhile hex_digit (ds @ CHR '','' # r) = CHR '','' # r"
    using ds(2) by (auto intro: takeWhile_stops dropWhile_stops)
  then show ?thesis using n ds(1) neg unfolding scanf_x_def Let_def p s by simp
qed

lemma padded_digits:
  "replicate k (CHR ''0'') @ fmt_x n \<noteq> []" "\<forall>c\<in>set (replicate k (CHR ''0'') @ fmt_x n). hex_digit c"
  "scan_hex (replicate k (CHR ''0'') @ fmt_x n) 0 = n"
proof -
  have "hex_digit (CHR ''0'')" by (simp add: hex_digit_def hex_value_def is_digit_def)
  then show "replicate k (CHR ''0'') @ fmt_x n \<noteq> []" "\<forall>c\<in>set (replicate k (CHR ''0'') @ fmt_x n). hex_digit c"
    using fmt_x_digits [of n] by auto
  show "scan_hex (replicate k (CHR ''0'') @ fmt_x n) 0 = n" by (simp add: scan_hex_zeros scan_fmt_x)
qed

lemma scanf_size_fmt: "scanf_size ('','' @ fmt_d n @ ''\<newline>'' @ r) = ''\<newline>'' @ r"
proof -
  obtain c w where cw: "fmt_d n = c # w" using fmt_d_digits(2) [of n] by (cases "fmt_d n") auto
  have h: "is_digit c" "\<forall>d\<in>set (fmt_d n). is_digit d" using fmt_d_digits(1) [of n] cw by (auto simp: list_all_iff)
  have "\<not> is_space c" "c \<noteq> CHR ''-''" "c \<noteq> CHR ''+''" using h(1) by (auto simp: is_digit_def is_space_def)
  then have "sign_off (dropWhile is_space (fmt_d n @ ''\<newline>'' @ r)) = fmt_d n @ ''\<newline>'' @ r"
    by (simp add: cw sign_off_def)
  moreover have "dropWhile is_digit (fmt_d n @ ''\<newline>'' @ r) = ''\<newline>'' @ r"
    using dropWhile_stops [of "fmt_d n" is_digit "CHR 0x0A" r] h(2) by (simp add: is_digit_def)
  ultimately show ?thesis by (simp add: scanf_size_def)
qed

text \<open>
  Reading a trace is the inverse of writing it: the loop of \<^verbatim>\<open>csim.c\<close> reads, from the lines that Valgrind writes for
  a list of operations, exactly these operations, and the low 32 bits of the addresses, for all 64-bit addresses and all sizes.
\<close>

lemma scan_ops_read:
  assumes "\<forall>(c, a, n)\<in>set ops. \<not> is_space c \<and> a < 2 ^ 64"
  shows "scan_ops junk (concat (map (op_line w) ops)) = map (\<lambda>(c, a, n). (c, of_nat a)) ops"
proof -
  have "scan_ops junk (sp @ concat (map (op_line w) ops)) = map (\<lambda>(c, a, n). (c, of_nat a)) ops" if "\<forall>c\<in>set sp. is_space c" for sp
    using assms that
  proof (induction ops arbitrary: junk sp)
    case Nil
    have "dropWhile is_space sp = []" using Nil(2) by (simp add: dropWhile_eq_Nil_conv)
    then show ?case by (subst scan_ops.simps) (simp del: dropWhile_eq_Nil_conv)
  next
    case (Cons l ops)
    obtain c a n where l: "l = (c, a, n)" by (metis prod_cases3)
    have c: "\<not> is_space c" "a < 2 ^ 64" using Cons.prems(1) l by auto
    let ?tail = "''\<newline>'' @ concat (map (op_line w) ops)" and ?gap = "if c = CHR ''I'' then ''  '' else '' ''"
      and ?ds = "replicate (w - length (fmt_x a)) (CHR ''0'') @ fmt_x a"
    have blank: "is_space (CHR '' '')" "\<not> is_space (CHR ''I'')" by (simp_all add: is_space_def)
    have "dropWhile is_space (sp @ op_line w l @ concat (map (op_line w) ops)) = c # (?gap @ ?ds @ '','' @ fmt_d n @ ?tail)"
      using Cons.prems(2) c(1) blank by (induction sp) (simp_all add: op_line_def l)
    moreover have "scanf_x (?gap @ ?ds @ '','' @ fmt_d n @ ?tail) = (Some (of_nat a), '','' @ fmt_d n @ ?tail)"
      by (rule scanf_x_digits [OF _ padded_digits c(2)]) (simp add: blank)
    moreover have "scanf_size ('','' @ fmt_d n @ ?tail) = ?tail" by (rule scanf_size_fmt)
    moreover have "scan_ops (of_nat a) ?tail = map (\<lambda>(c, a, n). (c, of_nat a)) ops"
      using Cons.IH [of "''\<newline>''" "of_nat a"] Cons.prems(1) by (simp add: is_space_def)
    ultimately show ?case by (subst scan_ops.simps) (simp add: l)
  qed
  from this [of "[]"] show ?thesis by simp
qed

text \<open>The program on such a file.\<close>

lemma csim_program_run:
  assumes "csim_opts args copts0 = \<lparr>o_verbose = v, o_s = int s, o_E = int E, o_b = int b, o_tracefile = Some f\<rparr>"
    and "files f = Some (concat (map (op_line w) ops))" and "\<forall>(c, a, n)\<in>set ops. \<not> is_space c \<and> a < 2 ^ 64"
    and "0 < s" and "b + s < 32" and "0 < E" and "2 ^ s * E \<le> INT_MAX" and "length ops \<le> 2 ^ 30"
    and "\<not> name_overruns usable args"
  shows "csim_program usable files junk args =
    (let m = lru_run s E b (map (\<lambda>(c, a, n). (c, of_nat a :: u32)) ops) in Some (printSummary (hits m) (misses m) (evictions m)))"
proof -
  have "scan_ops junk (concat (map (op_line w) ops)) = map (\<lambda>(c, a, n). (c, of_nat a :: u32)) ops"
    by (rule scan_ops_read [OF assms(3)])
  moreover have "csim_main s E b (map (\<lambda>(c, a, n). (c, of_nat a :: u32)) ops) =
      (let m = lru_run s E b (map (\<lambda>(c, a, n). (c, of_nat a :: u32)) ops) in Some (hits m, misses m, evictions m))"
    unfolding Let_def by (rule csim_main_lru) (use assms in simp_all)
  ultimately show ?thesis using assms(2,9) unfolding csim_program_def Let_def assms(1) by simp
qed

text \<open>
  C10. \<^verbatim>\<open>csim\<close> from the command line to its result file: with the options \<^verbatim>\<open>-s\<close>, \<^verbatim>\<open>-E\<close>, \<^verbatim>\<open>-b\<close> and \<^verbatim>\<open>-t\<close> in
  any order, of a file of lines as Valgrind writes them, for instructions, loads, stores and modifications, it prints and writes
  the hits, misses and evictions of an LRU cache of these dimensions on the accesses of the file.  The number of cache lines is at most
  \<^verbatim>\<open>INT_MAX\<close>, the file has at most \<open>2 ^ 30\<close> lines, so that no counter overflows, and the allocator has a spare byte behind the name of the
  file, which the code forgets to ask for.
\<close>

theorem csim_program_lru:
  assumes "csim_opts args copts0 = \<lparr>o_verbose = v, o_s = int s, o_E = int E, o_b = int b, o_tracefile = Some f\<rparr>"
    and "files f = Some (concat (map (op_line w) ops))" and "\<forall>(c, a, n)\<in>set ops. \<not> is_space c \<and> a < 2 ^ 64"
    and "0 < s" and "b + s < 32" and "0 < E" and "2 ^ s * E \<le> INT_MAX" and "length ops \<le> 2 ^ 30"
    and "\<not> name_overruns usable args"
  shows "csim_program usable files junk args =
    (let m = lru_run s E b (map (\<lambda>(c, a, n). (c, of_nat a :: u32)) ops) in Some (printSummary (hits m) (misses m) (evictions m)))"
  using csim_program_run [OF assms(1), of files w ops usable junk] assms(2-) by blast

theorem csim_program_lru_witness:
  "csim_program (max 24) (\<lambda>_. Some (concat (map (op_line 8) [(CHR ''L'', 0, 1), (CHR ''I'', 64, 3), (CHR ''S'', 0, 1)]))) 0
     [(CHR ''b'', ''4''), (CHR ''s'', ''1''), (CHR ''E'', ''1''), (CHR ''t'', ''f'')] = Some (printSummary 1 1 0)"
proof -
  have "csim_opts [(CHR ''b'', ''4''), (CHR ''s'', ''1''), (CHR ''E'', ''1''), (CHR ''t'', ''f'')] copts0 =
      \<lparr>o_verbose = False, o_s = int 1, o_E = int 1, o_b = int 4, o_tracefile = Some ''f''\<rparr>"
    by (simp add: copts0_def atoi_def is_space_def is_digit_def)
  from csim_program_lru [OF this, of "\<lambda>_. Some (concat (map (op_line 8) [(CHR ''L'', 0, 1), (CHR ''I'', 64, 3), (CHR ''S'', 0, 1)]))" 8
      "[(CHR ''L'', 0, 1), (CHR ''I'', 64, 3), (CHR ''S'', 0, 1)]" "max 24" 0]
  show ?thesis by (simp add: name_overruns_def is_space_def INT_MAX_def lru_run_def lru_op_def lru_touch_def lru_access_def)
qed

text \<open>When the block has no spare byte, the copy of the name leaves it.\<close>

lemma csim_name_overrun:
  assumes "usable (length f) = length f" and "(CHR ''t'', f) \<in> set args"
  shows "csim_program usable files junk args = None"
proof -
  have "name_overruns usable args" unfolding name_overruns_def list_ex_iff using assms by (intro bexI [OF _ assms(2)]) simp
  then show ?thesis by (simp add: csim_program_def)
qed

section \<open>The trace generator\<close>

text \<open>
  \<^verbatim>\<open>initMatrix\<close> of \<^verbatim>\<open>cachelab.c\<close>; \<open>rand k\<close> is the result of the call number \<open>k\<close> of \<^verbatim>\<open>rand\<close>.
\<close>

definition initMatrix :: "nat \<Rightarrow> nat \<Rightarrow> (nat \<Rightarrow> int) \<Rightarrow> matrix \<Rightarrow> matrix \<Rightarrow> (matrix \<times> matrix) option" where
  "initMatrix M N rand A B =
     map_option (\<lambda>(A, B, k). (A, B))
       (for_each (steps 0 N 1) (\<lambda>i. for_each (steps 0 M 1) (\<lambda>j (A, B, k). do {
          A \<leftarrow> mset N M A i j (rand k);
          B \<leftarrow> mset M N B j i (rand (k + 1));
          Some (A, B, k + 2) })) (A, B, 0))"

definition randMatrix :: "nat \<Rightarrow> nat \<Rightarrow> (nat \<Rightarrow> int) \<Rightarrow> matrix \<Rightarrow> matrix option" where
  "randMatrix M N rand A =
     map_option fst
       (for_each (steps 0 N 1) (\<lambda>i. for_each (steps 0 M 1) (\<lambda>j (A, k). do {
          A \<leftarrow> mset N M A i j (rand k);
          Some (A, k + 1) })) (A, 0))"

text \<open>The options; \<open>None\<close> is the exit with status 1.\<close>

fun tracegen_opts :: "(char \<times> string) list \<Rightarrow> int \<times> int \<times> int \<Rightarrow> (int \<times> int \<times> int) option" where
  "tracegen_opts [] r = Some r"
| "tracegen_opts ((c, optarg) # os) (M, N, selectedFunc) =
     (if c = CHR ''M'' then tracegen_opts os (atoi optarg, N, selectedFunc)
      else if c = CHR ''N'' then tracegen_opts os (M, atoi optarg, selectedFunc)
      else if c = CHR ''F'' then tracegen_opts os (M, N, atoi optarg)
      else None)"

text \<open>
  \<^verbatim>\<open>main\<close> of \<^verbatim>\<open>tracegen.c\<close>: the exit status.  The static arrays of 256 by 256 numbers are used as arrays of the
  dimensions of the options, so that these have to fit.
\<close>

definition tracegen_program :: "(nat \<Rightarrow> int) \<Rightarrow> (char \<times> string) list \<Rightarrow> nat option" where
  "tracegen_program rand args =
     (case tracegen_opts args (0, 0, -1) of
        None \<Rightarrow> Some 1
      | Some (M, N, selectedFunc) \<Rightarrow>
          if M < 0 \<or> N < 0 \<or> 256 * 256 < M * N \<or> selectedFunc < -1 then None
          else do {
            (A, B) \<leftarrow> initMatrix (nat M) (nat N) rand (\<lambda>_ _. 0) (\<lambda>_ _. 0);
            tracegen_main (nat M) (nat N) (if selectedFunc = -1 then None else Some (nat selectedFunc)) A B })"

lemma for_each_total:
  assumes "\<And>x s. x \<in> set xs \<Longrightarrow> \<exists>s'. body x s = Some s'"
  shows "\<exists>s'. for_each xs body s = Some s'"
  using assms
proof (induction xs arbitrary: s)
  case (Cons x xs)
  obtain s' where "body x s = Some s'" using Cons.prems [of x s] by auto
  then show ?case using Cons.IH [of s'] Cons.prems by auto
qed simp

lemma initMatrix_total: "\<exists>A' B'. initMatrix M N rand A B = Some (A', B')"
proof -
  have "\<exists>r. for_each (steps 0 N 1) (\<lambda>i. for_each (steps 0 M 1) (\<lambda>j (A, B, k). do {
          A \<leftarrow> mset N M A i j (rand k);
          B \<leftarrow> mset M N B j i (rand (k + 1));
          Some (A, B, k + 2) })) (A, B, 0 :: nat) = Some r"
  proof (rule for_each_total, rule for_each_total)
    fix i j and r :: "matrix \<times> matrix \<times> nat"
    assume "i \<in> set (steps 0 N 1)" "j \<in> set (steps 0 M 1)"
    then have "i < N" "j < M" by (auto simp: steps_set)
    then show "\<exists>s'. (case r of (A, B, k) \<Rightarrow> do {
          A \<leftarrow> mset N M A i j (rand k);
          B \<leftarrow> mset M N B j i (rand (k + 1));
          Some (A, B, k + 2) }) = Some s'" by (cases r) (simp add: mset_def)
  qed
  then show ?thesis unfolding initMatrix_def by (auto simp: split_paired_Ex)
qed

text \<open>The program with the options for one or both of the functions.\<close>

lemma tracegen_program_ok:
  assumes "tracegen_opts args (0, 0, -1) = Some (int M, int N, k)" and "M \<le> 256" and "N \<le> 256" and "k \<in> {-1, 0, 1}"
  shows "tracegen_program rand args = Some 0"
proof -
  obtain A B where AB: "initMatrix M N rand (\<lambda>_ _. 0) (\<lambda>_ _. 0) = Some (A, B)" using initMatrix_total by blast
  have "M * N \<le> 256 * 256" using assms(2,3) by (rule mult_le_mono)
  then have "int M * int N \<le> 256 * 256" by (metis of_nat_le_iff of_nat_mult of_nat_numeral)
  moreover have "tracegen_main M N (if k = -1 then None else Some (nat k)) A B = Some 0"
    by (rule tracegen_ok) (use assms(4) in auto)
  ultimately show ?thesis using assms(1,4) AB by (auto simp: tracegen_program_def)
qed

text \<open>
  The trace generator validates what it traces: with dimensions up to 256 and, if \<^verbatim>\<open>-F\<close> is given, the number of one of the
  two registered functions, \<^verbatim>\<open>tracegen\<close> fills the matrices, runs the transposes and exits with status
  0, whatever numbers \<^verbatim>\<open>rand\<close> returns.
\<close>

theorem tracegen_program_validates:
  assumes "tracegen_opts args (0, 0, -1) = Some (int M, int N, k)" and "M \<le> 256" and "N \<le> 256" and "k \<in> {-1, 0, 1}"
  shows "tracegen_program rand args = Some 0"
  by (rule tracegen_program_ok [OF assms])

theorem tracegen_program_validates_witness:
  "tracegen_program int [(CHR ''M'', ''61''), (CHR ''N'', ''67''), (CHR ''F'', ''0'')] = Some 0"
  by (rule tracegen_program_validates [of _ 61 67 0]) (simp_all add: atoi_def is_space_def is_digit_def)

end
