(* ===== verification/TestTrans.thy ===== *)
theory TestTrans
  imports CacheMain
begin

text \<open>
  The test driver of the transposes (\<^verbatim>\<open>sp_04_cachelab/test-trans.c\<close>), which runs the trace generator under
  Valgrind for every registered function, selects the part of the trace that belongs to the function, writes it to a file
  and runs a cache simulator on the file.

  The programs that it runs are parameters: \<open>run args\<close> is what \<^verbatim>\<open>tracegen\<close> with these options leaves under Valgrind, the exit
  status, the two markers and the lines of the trace; \<open>sim files args\<close> is the result file of the simulator \<^verbatim>\<open>csim-ref\<close>.
\<close>

section \<open>Lines of the trace\<close>

text \<open>The operation and the address of a line that is a memory access.\<close>

definition trace_line :: "string \<Rightarrow> (char \<times> nat) option" where
  "trace_line buf =
     (if 3 \<le> length buf \<and> buf ! 0 = CHR '' '' \<and> buf ! 2 = CHR '' '' \<and> buf ! 1 \<in> {CHR ''S'', CHR ''M'', CHR ''L''}
      then Some (buf ! 1, scan_hex (dropWhile is_space (drop 3 buf)) 0) else None)"

text \<open>The loop over the lines of the full trace: the lines that are written to the file of the function.\<close>

fun part_file :: "nat \<Rightarrow> nat \<Rightarrow> bool \<Rightarrow> string list \<Rightarrow> string list" where
  "part_file marker_start marker_end flag [] = []"
| "part_file marker_start marker_end flag (buf # ls) =
     (case trace_line buf of
        None \<Rightarrow> part_file marker_start marker_end flag ls
      | Some (c, addr) \<Rightarrow>
          let flag = (if addr = marker_start then True else flag);
              out = (if flag \<and> addr < 0xffffffff then [buf] else [])
          in if addr = marker_end then out
             else out @ part_file marker_start marker_end flag ls)"

text \<open>
  Whether the loop meets the end marker.  Only then it closes the file of the function before the simulator reads it; otherwise the end of the
  file is still in a buffer, and what the simulator finds is not determined.
\<close>

definition part_closed :: "nat \<Rightarrow> string list \<Rightarrow> bool" where
  "part_closed marker_end ls \<longleftrightarrow> list_ex (\<lambda>buf. case trace_line buf of None \<Rightarrow> False | Some (c, addr) \<Rightarrow> addr = marker_end) ls"

section \<open>Evaluation\<close>

record ev_results =
  funcid :: int
  r_correct :: bool
  r_misses :: nat

type_synonym run = "(char \<times> string) list \<Rightarrow> nat \<times> (nat \<times> nat) \<times> string list"
type_synonym sim = "(string \<Rightarrow> string option) \<Rightarrow> (char \<times> string) list \<Rightarrow> string"

definition initial_results :: ev_results where
  "initial_results = \<lparr>funcid = -1, r_correct = False, r_misses = INT_MAX\<rparr>"

text \<open>The conversion \<^verbatim>\<open>%u\<close>, and the three numbers of the result file; a variable whose conversion fails keeps its value.\<close>

definition scanf_u :: "string \<Rightarrow> (nat \<times> string) option" where
  "scanf_u inp =
     (let s = dropWhile is_space inp in
      if takeWhile is_digit s = [] then None else Some (scan_digits s 0 mod 2 ^ 32, dropWhile is_digit s))"

definition read_results :: "string \<Rightarrow> nat \<times> nat \<times> nat \<Rightarrow> nat \<times> nat \<times> nat" where
  "read_results text = (\<lambda>(hits, misses, evictions).
     case scanf_u text of
       None \<Rightarrow> (hits, misses, evictions)
     | Some (hits, text) \<Rightarrow>
         (case scanf_u text of
            None \<Rightarrow> (hits, misses, evictions)
          | Some (misses, text) \<Rightarrow>
              (case scanf_u text of
                 None \<Rightarrow> (hits, misses, evictions)
               | Some (evictions, _) \<Rightarrow> (hits, misses, evictions))))"

text \<open>
  The body of the loop of \<^verbatim>\<open>eval_perf\<close>; the exit status of a process has eight bits.  \<open>vs\<close> are the variables \<^verbatim>\<open>hits\<close>,
  \<^verbatim>\<open>misses\<close> and \<^verbatim>\<open>evictions\<close>.  \<open>None\<close>: the file of the function was not closed.
\<close>

type_synonym counts = "nat \<times> nat \<times> nat"

definition eval_func :: "run \<Rightarrow> sim \<Rightarrow> int \<Rightarrow> int \<Rightarrow> nat \<Rightarrow> nat \<Rightarrow> nat \<Rightarrow> nat \<Rightarrow> trans_func \<Rightarrow> counts \<Rightarrow> ev_results
    \<Rightarrow> (trans_func \<times> counts \<times> ev_results) option" where
  "eval_func run sim M N s E b i f vs r =
     (let r = (if description f = ''Transpose submission'' then r\<lparr>funcid := int i\<rparr> else r) in
      case run [(CHR ''M'', fmt_int M), (CHR ''N'', fmt_int N), (CHR ''F'', fmt_d i)] of
        (status, (marker_start, marker_end), trace) \<Rightarrow>
          if status mod 256 \<noteq> 0 then Some (f, vs, r)
          else if \<not> part_closed marker_end trace then None
          else
            let r = (if funcid r = int i then r\<lparr>r_correct := True\<rparr> else r);
                filename = ''trace.f'' @ fmt_d i;
                text = sim [filename \<mapsto> concat (part_file marker_start marker_end False trace)]
                  [(CHR ''s'', fmt_d s), (CHR ''E'', fmt_d E), (CHR ''b'', fmt_d b), (CHR ''t'', filename)]
            in case read_results text vs of (h, m, e) \<Rightarrow>
              Some (f\<lparr>correct := True, num_hits := h, num_misses := m, num_evictions := e\<rparr>, (h, m, e),
                if funcid r = int i then r\<lparr>r_misses := m\<rparr> else r))"

fun eval_loop :: "run \<Rightarrow> sim \<Rightarrow> int \<Rightarrow> int \<Rightarrow> nat \<Rightarrow> nat \<Rightarrow> nat \<Rightarrow> nat \<Rightarrow> trans_func list \<Rightarrow> counts \<Rightarrow> ev_results
    \<Rightarrow> (trans_func list \<times> ev_results) option" where
  "eval_loop run sim M N s E b i [] vs r = Some ([], r)"
| "eval_loop run sim M N s E b i (f # fs) vs r = do {
     (f, vs, r) \<leftarrow> eval_func run sim M N s E b i f vs r;
     (fs, r) \<leftarrow> eval_loop run sim M N s E b (Suc i) fs vs r;
     Some (f # fs, r) }"

definition eval_perf :: "run \<Rightarrow> sim \<Rightarrow> counts \<Rightarrow> int \<Rightarrow> int \<Rightarrow> nat \<Rightarrow> nat \<Rightarrow> nat \<Rightarrow> (trans_func list \<times> ev_results) option" where
  "eval_perf run sim vs M N s E b = do {
     fs \<leftarrow> registerFunctions [];
     eval_loop run sim M N s E b 0 fs vs initial_results }"

section \<open>The program\<close>

text \<open>
  The end of the program by \<^verbatim>\<open>exit\<close>, the numbers of the line \<^verbatim>\<open>TEST_TRANS_RESULTS\<close>, or the end in a handler, which prints this
  line with two zeros.
\<close>

datatype tt_end = Tt_exit nat | Tt_results bool nat | Tt_handler nat

datatype tt_signal = Sig_segv | Sig_alrm

definition tt_sigsegv_handler :: tt_end where
  "tt_sigsegv_handler = Tt_handler 1"

definition tt_sigalrm_handler :: tt_end where
  "tt_sigalrm_handler = Tt_handler 1"

text \<open>The loop over the options, each a letter and its argument.\<close>

fun tt_options :: "(char \<times> string) list \<Rightarrow> int \<Rightarrow> int \<Rightarrow> tt_end + int \<times> int" where
  "tt_options [] M N = Inr (M, N)"
| "tt_options ((c, optarg) # os) M N =
     (if c = CHR ''M'' then tt_options os (atoi optarg) N
      else if c = CHR ''N'' then tt_options os M (atoi optarg)
      else if c = CHR ''h'' then Inl (Tt_exit 0)
      else Inl (Tt_exit 1))"

definition MAXN :: int where "MAXN = 256"

text \<open>\<open>sg\<close> is the signal that arrives during the evaluation, if any: the alarm after 120 seconds, or a fault.\<close>

definition test_trans_main :: "run \<Rightarrow> sim \<Rightarrow> counts \<Rightarrow> tt_signal option \<Rightarrow> (char \<times> string) list \<Rightarrow> tt_end option" where
  "test_trans_main run sim vs sg opts =
     (case tt_options opts 0 0 of
        Inl e \<Rightarrow> Some e
      | Inr (M, N) \<Rightarrow>
          if M = 0 \<or> N = 0 then Some (Tt_exit 1)
          else if M > MAXN \<or> N > MAXN then Some (Tt_exit 1)
          else case sg of
            Some Sig_segv \<Rightarrow> Some tt_sigsegv_handler
          | Some Sig_alrm \<Rightarrow> Some tt_sigalrm_handler
          | None \<Rightarrow> do {
              (fs, r) \<leftarrow> eval_perf run sim vs M N 5 1 5;
              Some (if funcid r = -1 then Tt_results False 0 else Tt_results (r_correct r) (r_misses r)) })"

section \<open>The file of a function\<close>

lemma trace_line_access:
  assumes c: "c \<noteq> CHR ''I''"
  shows "trace_line (op_line w (c, a, n)) = (if c \<in> {CHR ''S'', CHR ''M'', CHR ''L''} then Some (c, a) else None)"
proof -
  let ?ds = "replicate (w - length (fmt_x a)) (CHR ''0'') @ fmt_x a" and ?r = "'','' @ fmt_d n @ ''\<newline>''"
  have l: "op_line w (c, a, n) = '' '' @ [c] @ '' '' @ ?ds @ ?r" using c by (simp add: op_line_def)
  obtain d ds where d: "?ds = d # ds" using padded_digits(1) by (metis neq_Nil_conv)
  have "hex_digit d" using padded_digits(2) d by (metis list.set_intros(1))
  then have "dropWhile is_space (?ds @ ?r) = ?ds @ ?r" using hex_not_space unfolding d by simp
  moreover have "scan_hex (?ds @ ?r) 0 = a"
    using scan_hex_append [OF padded_digits(2), of "w - length (fmt_x a)" a ?r 0] padded_digits(3) [of "w - length (fmt_x a)" a]
    by (simp add: hex_value_def is_digit_def)
  ultimately show ?thesis unfolding l trace_line_def by (simp add: numeral_2_eq_2 numeral_3_eq_3)
qed

lemma trace_line_op:
  assumes "trace_line (op_line w (c, a, n)) = Some (c', a')"
  shows "c' = c \<and> a' = a \<and> \<not> is_space c"
proof -
  have c: "c \<noteq> CHR ''I''" using assms by (auto simp: trace_line_def op_line_def split: if_splits)
  show ?thesis using assms unfolding trace_line_access [OF c] by (auto simp: is_space_def split: if_splits)
qed

text \<open>The lines of a trace as Valgrind writes them; the lines that are no memory accesses may be anything.\<close>

definition valgrind_lines :: "string list \<Rightarrow> bool" where
  "valgrind_lines ls \<longleftrightarrow> (\<forall>l\<in>set ls. trace_line l = None \<or> (\<exists>c a n. l = op_line 8 (c, a, n) \<and> a < 2 ^ 64))"

lemma valgrind_op_lines: "\<forall>(c, a, n)\<in>set ops. a < 2 ^ 64 \<Longrightarrow> valgrind_lines (map (op_line 8) ops)"
  by (fastforce simp: valgrind_lines_def)

lemma part_file_ops:
  assumes "valgrind_lines ls"
  shows "\<exists>ops. part_file s e fl ls = map (op_line 8) ops \<and> map (\<lambda>(c, a, n). (c, a)) ops = part_trace s e fl (map trace_line ls) \<and>
    (\<forall>(c, a, n)\<in>set ops. \<not> is_space c \<and> a < 2 ^ 64) \<and> length ops \<le> length ls"
  using assms
proof (induction ls arbitrary: fl)
  case (Cons l ls)
  have v: "valgrind_lines ls" using Cons.prems by (simp add: valgrind_lines_def)
  show ?case
  proof (cases "trace_line l")
    case None
    obtain ops where "part_file s e fl ls = map (op_line 8) ops" "map (\<lambda>(c, a, n). (c, a)) ops = part_trace s e fl (map trace_line ls)"
      "\<forall>(c, a, n)\<in>set ops. \<not> is_space c \<and> a < 2 ^ 64" "length ops \<le> length ls" using Cons.IH [OF v] by blast
    then show ?thesis using None by (intro exI [of _ ops]) simp
  next
    case (Some x)
    then obtain c a n where l: "l = op_line 8 (c, a, n)" "a < 2 ^ 64" using Cons.prems by (auto simp: valgrind_lines_def)
    have x: "x = (c, a)" "\<not> is_space c" using trace_line_op [of 8 c a n "fst x" "snd x"] Some l(1) by (auto simp: prod_eq_iff)
    let ?fl = "if a = s then True else fl" and ?out = "if (if a = s then True else fl) \<and> a < 0xffffffff then [(c, a, n)] else []"
    obtain ops where o: "part_file s e ?fl ls = map (op_line 8) ops" "map (\<lambda>(c, a, n). (c, a)) ops = part_trace s e ?fl (map trace_line ls)"
      "\<forall>(c, a, n)\<in>set ops. \<not> is_space c \<and> a < 2 ^ 64" "length ops \<le> length ls" using Cons.IH [OF v] by blast
    show ?thesis
    proof (intro exI [of _ "if a = e then ?out else ?out @ ops"] conjI)
      show "part_file s e fl (l # ls) = map (op_line 8) (if a = e then ?out else ?out @ ops)"
        using Some o(1) by (simp add: x(1) l(1) Let_def)
      show "map (\<lambda>(c, a, n). (c, a)) (if a = e then ?out else ?out @ ops) = part_trace s e fl (map trace_line (l # ls))"
        using Some o(2) by (simp add: x(1) Let_def)
      show "\<forall>(c, a, n)\<in>set (if a = e then ?out else ?out @ ops). \<not> is_space c \<and> a < 2 ^ 64" using o(3) x(2) l(2) by auto
      show "length (if a = e then ?out else ?out @ ops) \<le> length (l # ls)" using o(4) by simp
    qed
  qed
qed simp

section \<open>The result file\<close>

lemma scan_digits_stops: "list_all is_digit ds \<Longrightarrow> \<not> is_digit x \<Longrightarrow> scan_digits (ds @ x # r) acc = scan_digits ds acc"
  by (induction ds arbitrary: acc) auto

lemma scanf_u_fmt:
  assumes "list_all is_space sp" and "\<not> is_digit x"
  shows "scanf_u (sp @ fmt_d n @ x # r) = Some (n mod 2 ^ 32, x # r)"
proof -
  obtain d ds where d: "fmt_d n = d # ds" using fmt_d_digits(2) by (metis neq_Nil_conv)
  have D: "list_all is_digit (fmt_d n)" by (rule fmt_d_digits(1))
  then have "\<not> is_space d" using d by (auto simp: is_digit_def is_space_def)
  then have s: "dropWhile is_space (sp @ fmt_d n @ x # r) = fmt_d n @ x # r"
    using assms(1) unfolding d by (induction sp) auto
  have "takeWhile is_digit (fmt_d n @ x # r) = fmt_d n" "dropWhile is_digit (fmt_d n @ x # r) = x # r"
    using D assms(2) by (auto intro!: takeWhile_stops dropWhile_stops simp: list_all_iff)
  moreover have "scan_digits (fmt_d n @ x # r) 0 = n"
    using scan_digits_stops [OF D assms(2)] by (simp add: fmt_d_def scan_rdigits)
  ultimately show ?thesis using fmt_d_digits(2) by (simp add: scanf_u_def s)
qed

lemma read_results_printed:
  "read_results (snd (printSummary h m e)) vs = (h mod 2 ^ 32, m mod 2 ^ 32, e mod 2 ^ 32)"
proof -
  have nd: "\<not> is_digit (CHR '' '')" "\<not> is_digit (CHR ''\<newline>'')" and sp: "list_all is_space []" "list_all is_space '' ''"
    by (simp_all add: is_digit_def is_space_def)
  let ?t2 = "CHR ''\<newline>'' # []"
  let ?t1 = "CHR '' '' # (fmt_d e @ ?t2)"
  let ?t0 = "CHR '' '' # (fmt_d m @ ?t1)"
  have "scanf_u (snd (printSummary h m e)) = Some (h mod 2 ^ 32, ?t0)"
    using scanf_u_fmt [OF sp(1) nd(1), of h "fmt_d m @ ?t1"] by (simp add: printSummary_def)
  moreover have "scanf_u ?t0 = Some (m mod 2 ^ 32, ?t1)" using scanf_u_fmt [OF sp(2) nd(1), of m "fmt_d e @ ?t2"] by simp
  moreover have "scanf_u ?t1 = Some (e mod 2 ^ 32, ?t2)" using scanf_u_fmt [OF sp(2) nd(2), of e "[]"] by simp
  ultimately show ?thesis by (cases vs) (simp only: read_results_def option.case prod.case)
qed

lemma lru_misses: "misses (foldl (lru_op s E b) m tr) \<le> misses m + 2 * length tr"
proof (induction tr arbitrary: m)
  case (Cons r tr)
  have touch: "misses (lru_touch s E b m a) \<le> misses m + 1" for m a
    by (auto simp: lru_touch_def lru_access_def Let_def)
  have "misses (lru_op s E b m r) \<le> misses m + 2"
    using touch [of m "unat (snd r)"] touch [of "lru_touch s E b m (unat (snd r))" "unat (snd r)"]
    by (auto simp: lru_op_def split: prod.splits)
  then show ?case using Cons.IH [of "lru_op s E b m r"] by simp
qed simp

section \<open>The whole lab\<close>

text \<open>
  The simulator \<^verbatim>\<open>csim.c\<close> in the place of \<^verbatim>\<open>csim-ref\<close>, with an allocator that has a spare byte behind the names of the trace files,
  which have eight characters or more.
\<close>

definition csim_as_ref :: sim where
  "csim_as_ref files args = (case csim_program Suc files 0 args of None \<Rightarrow> [] | Some (out, res) \<Rightarrow> res)"

lemma registered_two:
  "\<exists>f g. registerFunctions [] = Some [f, g] \<and> description f = ''Transpose submission'' \<and>
     description g \<noteq> ''Transpose submission''"
  by (simp add: registerFunctions_def registerTransFunction_def MAX_TRANS_FUNCS_def)

text \<open>The options that \<^verbatim>\<open>test-trans\<close> gives to the trace generator.\<close>

definition gen_args :: "int \<Rightarrow> int \<Rightarrow> nat \<Rightarrow> (char \<times> string) list" where
  "gen_args M N i = [(CHR ''M'', fmt_int M), (CHR ''N'', fmt_int N), (CHR ''F'', fmt_d i)]"

lemma csim_on_part:
  assumes "valgrind_lines ls" and "length ls \<le> 2 ^ 30"
  shows "read_results (csim_as_ref [name \<mapsto> concat (part_file s e False ls)]
      [(CHR ''s'', fmt_d 5), (CHR ''E'', fmt_d 1), (CHR ''b'', fmt_d 5), (CHR ''t'', name)]) vs =
    (let m = lru_run 5 1 5 (map (\<lambda>(c, a). (c, of_nat a)) (part_trace s e False (map trace_line ls)))
     in (hits m mod 2 ^ 32, misses m, evictions m mod 2 ^ 32))"
proof -
  obtain ops where o: "part_file s e False ls = map (op_line 8) ops" "map (\<lambda>(c, a, n). (c, a)) ops = part_trace s e False (map trace_line ls)"
    "\<forall>(c, a, n)\<in>set ops. \<not> is_space c \<and> a < 2 ^ 64" "length ops \<le> length ls" using part_file_ops [OF assms(1)] by blast
  let ?m = "lru_run 5 1 5 (map (\<lambda>(c, a, n). (c, of_nat a :: u32)) ops)"
  have opts: "csim_opts [(CHR ''s'', fmt_d 5), (CHR ''E'', fmt_d 1), (CHR ''b'', fmt_d 5), (CHR ''t'', name)] copts0 =
      \<lparr>o_verbose = False, o_s = int 5, o_E = int 1, o_b = int 5, o_tracefile = Some name\<rparr>"
    by (simp add: copts0_def)
  have len: "length ops \<le> 2 ^ 30" "2 ^ 5 * 1 \<le> INT_MAX" using o(4) assms(2) by (simp_all add: INT_MAX_def)
  have ov: "\<not> name_overruns Suc [(CHR ''s'', fmt_d 5), (CHR ''E'', fmt_d 1), (CHR ''b'', fmt_d 5), (CHR ''t'', name)]"
    by (simp add: name_overruns_def)
  have "csim_program Suc [name \<mapsto> concat (map (op_line 8) ops)] 0
      [(CHR ''s'', fmt_d 5), (CHR ''E'', fmt_d 1), (CHR ''b'', fmt_d 5), (CHR ''t'', name)] =
      Some (printSummary (hits ?m) (misses ?m) (evictions ?m))"
    using csim_program_run [OF opts, of "[name \<mapsto> concat (map (op_line 8) ops)]" 8 ops Suc 0] o(3) len ov by (simp add: Let_def)
  then have c: "csim_as_ref [name \<mapsto> concat (map (op_line 8) ops)]
      [(CHR ''s'', fmt_d 5), (CHR ''E'', fmt_d 1), (CHR ''b'', fmt_d 5), (CHR ''t'', name)] = snd (printSummary (hits ?m) (misses ?m) (evictions ?m))"
    by (simp add: csim_as_ref_def printSummary_def)
  have "misses ?m \<le> 2 * length ops" using lru_misses [of 5 1 5 "\<lparr>sets = (\<lambda>_. []), hits = 0, misses = 0, evictions = 0\<rparr>"]
    by (simp add: lru_run_def) (metis length_map)
  then have lt: "misses ?m mod 2 ^ 32 = misses ?m" using o(4) assms(2) by simp
  have tr: "map (\<lambda>(c, a, n). (c, of_nat a :: u32)) ops = map (\<lambda>(c, a). (c, of_nat a)) (part_trace s e False (map trace_line ls))"
    unfolding o(2) [symmetric] by auto
  show ?thesis unfolding o(1) c read_results_printed lt by (simp only: tr Let_def)
qed

lemma gen_args_opts: "tracegen_opts (gen_args (int M) (int N) i) (0, 0, -1) = Some (int M, int N, int i)"
  by (simp add: gen_args_def)

lemma tracegen_status_0:
  assumes "tracegen_program rand (gen_args (int M) (int N) i) = Some st" and "i < 2" and "M \<le> 256" and "N \<le> 256"
  shows "st = 0"
proof -
  have "int i \<in> {-1, 0, 1}" using assms(2) by auto
  from tracegen_program_ok [OF gen_args_opts assms(3,4) this] show ?thesis using assms(1) by simp
qed

text \<open>
  C26. The programs of the cache lab together, through the command lines and files by which they communicate: \<^verbatim>\<open>test-trans\<close> with
  sizes from 1 to 256 reports the submitted transpose as correct, and as its misses the misses of a direct-mapped LRU cache of 32
  sets with lines of 32 bytes on the accesses of the trace between the markers, if Valgrind passes on the exit status of
  \<^verbatim>\<open>tracegen\<close>, writes its lines in its format and the access to the end marker among them, the simulator is \<^verbatim>\<open>csim.c\<close>, and the time is not up; whatever the
  numbers in the matrices and the addresses in the trace are.
\<close>

theorem test_trans_reports:
  assumes "atoi ms = int M" and "atoi ns = int N" and "0 < M" and "M \<le> 256" and "0 < N" and "N \<le> 256"
    and "\<And>i. i < 2 \<Longrightarrow> tracegen_program rand (gen_args (int M) (int N) i) = Some (fst (run (gen_args (int M) (int N) i)))"
    and "\<And>i. i < 2 \<Longrightarrow> case run (gen_args (int M) (int N) i) of (_, (_, m), ls) \<Rightarrow> part_closed m ls"
    and "run (gen_args (int M) (int N) 0) = (st, (m1, m2), trace)" and "valgrind_lines trace" and "length trace \<le> 2 ^ 30"
  shows "test_trans_main run csim_as_ref vs None [(CHR ''M'', ms), (CHR ''N'', ns)] =
    Some (Tt_results True (misses (lru_run 5 1 5
      (map (\<lambda>(c, a). (c, of_nat a)) (part_trace m1 m2 False (map trace_line trace))))))"
proof -
  let ?m = "lru_run 5 1 5 (map (\<lambda>(c, a). (c, of_nat a)) (part_trace m1 m2 False (map trace_line trace)))"
  obtain st1 a1 b1 t1 where r1: "run (gen_args (int M) (int N) (Suc 0)) = (st1, (a1, b1), t1)" by (metis prod_cases3 surj_pair)
  have st: "st = 0" "st1 = 0"
    using tracegen_status_0 [OF assms(7) [of 0] _ assms(4,6)] tracegen_status_0 [OF assms(7) [of 1] _ assms(4,6)] assms(9) r1 by simp_all
  have cl: "part_closed m2 trace" "part_closed b1 t1" using assms(8) [of 0] assms(8) [of 1] assms(9) r1 by simp_all
  note sim = csim_on_part [OF assms(10,11), of "''trace.f'' @ fmt_d 0" m1 m2 vs]
  obtain f g where fg: "registerFunctions [] = Some [f, g]" "description f = ''Transpose submission''"
      "description g \<noteq> ''Transpose submission''"
    using registered_two by blast
  have first: "\<exists>f' vs'. eval_func run csim_as_ref (int M) (int N) 5 1 5 0 f vs initial_results =
      Some (f', vs', \<lparr>funcid = 0, r_correct = True, r_misses = misses ?m\<rparr>)"
    using assms(9) [unfolded gen_args_def] cl(1) st(1) fg(2) sim by (simp add: eval_func_def Let_def initial_results_def)
  have second: "\<exists>g' vs'. eval_func run csim_as_ref (int M) (int N) 5 1 5 (Suc 0) g us r = Some (g', vs', r)" if "funcid r = 0" for us r
    using r1 [unfolded gen_args_def] cl(2) st(2) fg(3) that by (auto simp: eval_func_def Let_def split: prod.splits)
  obtain f' us where f': "eval_func run csim_as_ref (int M) (int N) 5 1 5 0 f vs initial_results =
      Some (f', us, \<lparr>funcid = 0, r_correct = True, r_misses = misses ?m\<rparr>)" using first by blast
  obtain g' us' where "eval_func run csim_as_ref (int M) (int N) 5 1 5 (Suc 0) g us \<lparr>funcid = 0, r_correct = True, r_misses = misses ?m\<rparr> =
      Some (g', us', \<lparr>funcid = 0, r_correct = True, r_misses = misses ?m\<rparr>)"
    using second [where r = "\<lparr>funcid = 0, r_correct = True, r_misses = misses ?m\<rparr>" and us = us] by auto
  then have "eval_perf run csim_as_ref vs (int M) (int N) 5 1 5 =
      Some ([f', g'], \<lparr>funcid = 0, r_correct = True, r_misses = misses ?m\<rparr>)"
    using fg(1) f' by (simp add: eval_perf_def)
  then show ?thesis using assms(1-6) by (simp add: test_trans_main_def MAXN_def)
qed

lemma test_trans_reports_witness:
  "test_trans_main (\<lambda>_. (0, (16, 32), map (op_line 8) [(CHR ''S'', 16, 1), (CHR ''L'', 1024, 4), (CHR ''L'', 137438949224, 8),
       (CHR ''L'', 1028, 4), (CHR ''S'', 32, 1), (CHR ''L'', 2048, 4)]))
     csim_as_ref (0, 0, 0) None [(CHR ''M'', ''61''), (CHR ''N'', ''67'')] = Some (Tt_results True 3)"
proof -
  let ?tr = "map (op_line 8) [(CHR ''S'', 16, 1), (CHR ''L'', 1024, 4), (CHR ''L'', 137438949224, 8),
       (CHR ''L'', 1028, 4), (CHR ''S'', 32, 1), (CHR ''L'', 2048, 4)]"
  have sizes: "atoi ''61'' = int 61" "atoi ''67'' = int 67" by code_simp+
  have lines: "part_trace 16 32 False (map trace_line ?tr) = [(CHR ''S'', 16), (CHR ''L'', 1024), (CHR ''L'', 1028), (CHR ''S'', 32)]"
    by (simp add: trace_line_access)
  have cl: "part_closed 32 ?tr" by (simp add: part_closed_def trace_line_access)
  have v: "valgrind_lines ?tr" by (rule valgrind_op_lines) simp
  have gen: "tracegen_program (\<lambda>_. 0) (gen_args (int 61) (int 67) i) = Some 0" if "i < 2" for i
    by (rule tracegen_program_ok [OF gen_args_opts]) (use that in auto)
  have "misses (lru_run 5 1 5 (map (\<lambda>(c, a). (c, of_nat a)) [(CHR ''S'', 16), (CHR ''L'', 1024), (CHR ''L'', 1028), (CHR ''S'', 32)])) = 3"
    by (simp add: lru_run_def lru_op_def lru_touch_def lru_access_def)
  then show ?thesis
    using test_trans_reports [OF sizes, of "\<lambda>_. 0" "\<lambda>_. (0, (16, 32), ?tr)" 0 16 32 ?tr "(0, 0, 0)"] gen v cl unfolding lines by simp
qed

text \<open>A transpose that fails the validation leaves the misses at \<^verbatim>\<open>INT_MAX\<close>.\<close>

lemma test_trans_rejects:
  assumes "\<And>i. i < 2 \<Longrightarrow> fst (run (gen_args M N i)) mod 256 \<noteq> 0" and "0 < M" "M \<le> 256" "0 < N" "N \<le> 256"
    and "atoi ms = M" "atoi ns = N"
  shows "test_trans_main run sim vs None [(CHR ''M'', ms), (CHR ''N'', ns)] = Some (Tt_results False INT_MAX)"
proof -
  obtain f g where fg: "registerFunctions [] = Some [f, g]" "description f = ''Transpose submission''"
      "description g \<noteq> ''Transpose submission''"
    using registered_two by blast
  have e: "eval_func run sim M N 5 1 5 i h vs r =
      Some (h, vs, if description h = ''Transpose submission'' then r\<lparr>funcid := int i\<rparr> else r)" if "i < 2" for i h r
    using assms(1) [OF that, unfolded gen_args_def] by (auto simp: eval_func_def Let_def split: prod.splits)
  show ?thesis using fg assms(2-7) e [of 0] e [of "Suc 0"]
    by (simp add: test_trans_main_def MAXN_def eval_perf_def initial_results_def)
qed

end
