(* ===== verification/Memlist.thy ===== *)
theory Memlist
  imports Prelude
begin

text \<open>
  The list of memory blocks of the linking lab (\<^verbatim>\<open>sp_01_linklab/handout/utils/memlist.c\<close>).

  The nodes behind the dummy head are a list of items.  Pointers are natural numbers, sizes
  are \<^verbatim>\<open>size_t\<close>, the reference count is an \<^verbatim>\<open>int\<close>.  A pointer to an item is the address of the
  block it describes, which identifies it.
\<close>

record item =
  i_ptr :: nat
  i_size :: u64
  i_cnt :: int

section \<open>Operations\<close>

definition new_list :: "item list" where
  "new_list = []"

text \<open>\<^verbatim>\<open>alloc\<close>: update the item of the block, or insert a new one in front of the first larger address.\<close>

fun alloc_block :: "item list \<Rightarrow> nat \<Rightarrow> u64 \<Rightarrow> item list" where
  "alloc_block [] p z = [\<lparr>i_ptr = p, i_size = z, i_cnt = 1\<rparr>]"
| "alloc_block (cur # rest) p z =
     (if i_ptr cur < p then cur # alloc_block rest p z
      else if i_ptr cur = p then cur\<lparr>i_size := z, i_cnt := i_cnt cur + 1\<rparr> # rest
      else \<lparr>i_ptr = p, i_size = z, i_cnt = 1\<rparr> # cur # rest)"

text \<open>\<^verbatim>\<open>dealloc\<close>: the new list, and the item after its count was decremented, or NULL.\<close>

fun dealloc_block :: "item list \<Rightarrow> nat \<Rightarrow> item list \<times> item option" where
  "dealloc_block [] p = ([], None)"
| "dealloc_block (cur # rest) p =
     (if i_ptr cur \<noteq> p then (case dealloc_block rest p of (l, r) \<Rightarrow> (cur # l, r))
      else (cur\<lparr>i_cnt := i_cnt cur - 1\<rparr> # rest, Some (cur\<lparr>i_cnt := i_cnt cur - 1\<rparr>)))"

fun find_block :: "item list \<Rightarrow> nat \<Rightarrow> item option" where
  "find_block [] p = None"
| "find_block (cur # rest) p =
     (if p > i_ptr cur then find_block rest p else if i_ptr cur = p then Some cur else None)"

section \<open>The list as a table\<close>

text \<open>The list is ordered by address, without duplicates.\<close>

definition ordered :: "item list \<Rightarrow> bool" where
  "ordered l \<longleftrightarrow> sorted_wrt (\<lambda>x y. i_ptr x < i_ptr y) l"

lemma alloc_ptrs: "i_ptr ` set (alloc_block l p z) = insert p (i_ptr ` set l)"
  by (induction l p z rule: alloc_block.induct) auto

lemma dealloc_map: "map i_ptr (fst (dealloc_block l p)) = map i_ptr l"
  by (induction l p rule: dealloc_block.induct) (auto split: prod.splits)

lemma dealloc_ptrs: "i_ptr ` set (fst (dealloc_block l p)) = i_ptr ` set l"
  using arg_cong [OF dealloc_map [of l p], of set] by simp

lemma ordered_Cons: "ordered (x # l) \<longleftrightarrow> (\<forall>q\<in>i_ptr ` set l. i_ptr x < q) \<and> ordered l"
  by (auto simp: ordered_def)

lemma ordered_Nil [simp]: "ordered []"
  by (simp add: ordered_def)

lemma alloc_ordered [inv_intros]: "ordered l \<Longrightarrow> ordered (alloc_block l p z)"
proof (induction l p z rule: alloc_block.induct)
  case (2 cur rest p z)
  then show ?case by (auto simp: ordered_Cons alloc_ptrs dest: less_trans)
qed (simp add: ordered_Cons)

lemma dealloc_ordered [inv_intros]: "ordered l \<Longrightarrow> ordered (fst (dealloc_block l p))"
  using dealloc_map [of l p] by (metis ordered_def sorted_wrt_map)

lemma find_None: "ordered l \<Longrightarrow> find_block l p = None \<longleftrightarrow> p \<notin> i_ptr ` set l"
  by (induction l p rule: find_block.induct) (auto simp: ordered_Cons)

lemma find_ptr: "find_block l p = Some i \<Longrightarrow> i_ptr i = p \<and> i \<in> set l"
  by (induction l p rule: find_block.induct) (auto split: if_splits)

lemma find_below: "ordered l \<Longrightarrow> \<forall>q\<in>i_ptr ` set l. p < q \<Longrightarrow> find_block l p = None"
  by (cases l) auto

lemma find_alloc:
  "ordered l \<Longrightarrow> find_block (alloc_block l p z) q =
     (if q = p then Some \<lparr>i_ptr = p, i_size = z,
        i_cnt = (case find_block l p of None \<Rightarrow> 0 | Some i \<Rightarrow> i_cnt i) + 1\<rparr>
      else find_block l q)"
proof (induction l p z rule: alloc_block.induct)
  case (2 cur rest p z)
  have r: "ordered rest" "\<forall>x\<in>i_ptr ` set rest. i_ptr cur < x" using 2(2) by (auto simp: ordered_Cons)
  have "find_block rest q = None" if "q \<le> i_ptr cur" using find_below [OF r(1), of q] r(2) that by force
  then show ?case using 2(1) r by (cases "i_ptr cur < p") auto
qed auto

lemma find_dealloc:
  "ordered l \<Longrightarrow> find_block (fst (dealloc_block l p)) q =
     (if q = p then map_option (\<lambda>i. i\<lparr>i_cnt := i_cnt i - 1\<rparr>) (find_block l p) else find_block l q)"
proof (induction l p rule: dealloc_block.induct)
  case (2 cur rest p)
  have r: "ordered rest" "\<forall>x\<in>i_ptr ` set rest. i_ptr cur < x" using 2(2) by (auto simp: ordered_Cons)
  have none: "find_block (fst (dealloc_block rest p)) q = None" if "q \<le> i_ptr cur" for q
    using find_below [OF dealloc_ordered [OF r(1)], of p q] dealloc_ptrs [of rest p] r(2) that by force
  have "find_block rest q = None" if "q \<le> i_ptr cur" for q using find_below [OF r(1), of q] r(2) that by force
  then show ?case using 2(1) r none by (cases "i_ptr cur = p") (auto split: prod.splits)
qed auto

lemma dealloc_result:
  "ordered l \<Longrightarrow> snd (dealloc_block l p) = map_option (\<lambda>i. i\<lparr>i_cnt := i_cnt i - 1\<rparr>) (find_block l p)"
proof (induction l p rule: dealloc_block.induct)
  case (2 cur rest p)
  have r: "ordered rest" "\<forall>x\<in>i_ptr ` set rest. i_ptr cur < x" using 2(2) by (auto simp: ordered_Cons)
  have "find_block rest p = None" if "p < i_ptr cur" using find_below [OF r(1), of p] r(2) that by force
  then show ?case using 2(1) r by (auto split: prod.splits)
qed simp

section \<open>Live blocks\<close>

text \<open>The bytes of the blocks that are counted as allocated.\<close>

definition live_bytes :: "item list \<Rightarrow> u64" where
  "live_bytes l = sum_list (map (\<lambda>i. if i_cnt i > 0 then i_size i else 0) l)"

definition is_live :: "item list \<Rightarrow> nat \<Rightarrow> bool" where
  "is_live l p \<longleftrightarrow> (\<exists>i. find_block l p = Some i \<and> i_cnt i > 0)"

text \<open>Every count is 0 or 1.\<close>

definition counted :: "item list \<Rightarrow> bool" where
  "counted l \<longleftrightarrow> (\<forall>i\<in>set l. i_cnt i = 0 \<or> i_cnt i = 1)"

lemma find_Cons_other: "ordered (x # l) \<Longrightarrow> i_ptr x \<noteq> p \<Longrightarrow> find_block (x # l) p = find_block l p"
  using find_below [of l p] by (force simp: ordered_Cons)

lemma alloc_live:
  "ordered l \<Longrightarrow> counted l \<Longrightarrow> \<not> is_live l p \<Longrightarrow>
     live_bytes (alloc_block l p z) = live_bytes l + z \<and> counted (alloc_block l p z)"
proof (induction l p z rule: alloc_block.induct)
  case (2 cur rest p z)
  have r: "ordered rest" "counted rest" using 2(2,3) by (auto simp: ordered_Cons counted_def)
  show ?case
  proof (cases "i_ptr cur = p")
    case True
    then have "i_cnt cur = 0" using 2(3,4) by (auto simp: is_live_def counted_def)
    then show ?thesis using True r by (simp add: live_bytes_def counted_def add.commute)
  next
    case False
    then have "\<not> is_live rest p" using 2(4) find_Cons_other [OF 2(2) False] by (simp add: is_live_def)
    then show ?thesis using 2 r False by (auto simp: live_bytes_def counted_def add.assoc)
  qed
qed (simp add: live_bytes_def counted_def)

lemma dealloc_live:
  "ordered l \<Longrightarrow> counted l \<Longrightarrow> find_block l p = Some i \<Longrightarrow> i_cnt i > 0 \<Longrightarrow>
     live_bytes l = live_bytes (fst (dealloc_block l p)) + i_size i \<and> counted (fst (dealloc_block l p))"
proof (induction l p rule: dealloc_block.induct)
  case (2 cur rest p)
  have r: "ordered rest" "counted rest" using 2(2,3) by (auto simp: ordered_Cons counted_def)
  show ?case
  proof (cases "i_ptr cur = p")
    case True
    then have "i = cur" "i_cnt cur = 1" using 2(3,4,5) by (auto simp: counted_def)
    then show ?thesis using True r by (simp add: live_bytes_def counted_def add.commute)
  next
    case False
    then have "find_block rest p = Some i" using 2(4) find_Cons_other [OF 2(2) False] by simp
    from 2(1) [OF False r this 2(5)] show ?thesis
      using False 2(3) by (auto simp: live_bytes_def counted_def add.assoc split: prod.splits)
  qed
qed simp

end
