(* ===== verification/Memtrace.thy ===== *)
theory Memtrace
  imports Memlist
begin

text \<open>
  The memory tracers of the linking lab (\<^verbatim>\<open>sp_01_linklab/handout/part1..3/memtrace.c\<close>): wrappers
  around the allocation functions of the C library that count, log and, from part 2 on, keep the
  list of blocks.

  The C library is a parameter, a record of its four functions over an abstract heap; the
  wrappers fetch their addresses with \<^verbatim>\<open>dlsym\<close>.  The counters are \<^verbatim>\<open>unsigned long\<close>, words of 64
  bits.  \<open>None\<close> is a null pointer dereference or a division by zero.
\<close>

datatype log_entry = L_malloc u64 nat | L_calloc u64 u64 nat | L_realloc nat u64 nat | L_free nat
  | L_ill_free | L_double_free | L_statistics u64 u64 u64 | L_nonfreed_start | L_block nat u64 int
  | L_stop

record 'h libc =
  mallocp :: "'h \<Rightarrow> u64 \<Rightarrow> 'h \<times> nat"
  callocp :: "'h \<Rightarrow> u64 \<Rightarrow> u64 \<Rightarrow> 'h \<times> nat"
  reallocp :: "'h \<Rightarrow> nat \<Rightarrow> u64 \<Rightarrow> 'h \<times> nat"
  freep :: "'h \<Rightarrow> nat \<Rightarrow> 'h"

record 'h tracer =
  libheap :: 'h
  n_malloc :: u64
  n_calloc :: u64
  n_realloc :: u64
  n_allocb :: u64
  n_freeb :: u64
  tlist :: "item list"
  tlog :: "log_entry list"

definition LOG :: "'h tracer \<Rightarrow> log_entry \<Rightarrow> 'h tracer" where
  "LOG t e = t\<lparr>tlog := tlog t @ [e]\<rparr>"

definition tracer_init :: "'h \<Rightarrow> 'h tracer" where
  "tracer_init h = \<lparr>libheap = h, n_malloc = 0, n_calloc = 0, n_realloc = 0, n_allocb = 0, n_freeb = 0,
     tlist = new_list, tlog = []\<rparr>"

section \<open>Part 1: logging and counting\<close>

definition p1_malloc :: "'h libc \<Rightarrow> 'h tracer \<Rightarrow> u64 \<Rightarrow> 'h tracer \<times> nat" where
  "p1_malloc c t z =
     (let (h, ptr) = mallocp c (libheap t) z;
          t = LOG (t\<lparr>libheap := h\<rparr>) (L_malloc z ptr)
      in (t\<lparr>n_allocb := n_allocb t + z, n_malloc := n_malloc t + 1\<rparr>, ptr))"

definition p1_calloc :: "'h libc \<Rightarrow> 'h tracer \<Rightarrow> u64 \<Rightarrow> u64 \<Rightarrow> 'h tracer \<times> nat" where
  "p1_calloc c t nmemb z =
     (let (h, ptr) = callocp c (libheap t) nmemb z;
          t = LOG (t\<lparr>libheap := h\<rparr>) (L_calloc nmemb z ptr)
      in (t\<lparr>n_allocb := n_allocb t + nmemb * z, n_calloc := n_calloc t + 1\<rparr>, ptr))"

definition p1_realloc :: "'h libc \<Rightarrow> 'h tracer \<Rightarrow> nat \<Rightarrow> u64 \<Rightarrow> 'h tracer \<times> nat" where
  "p1_realloc c t ptr z =
     (let (h, res) = reallocp c (libheap t) ptr z;
          t = LOG (t\<lparr>libheap := h\<rparr>) (L_realloc ptr z res)
      in (t\<lparr>n_allocb := n_allocb t + z, n_realloc := n_realloc t + 1\<rparr>, ptr))"

definition p1_free :: "'h libc \<Rightarrow> 'h tracer \<Rightarrow> nat \<Rightarrow> 'h tracer" where
  "p1_free c t ptr =
     (if ptr = 0 then t else LOG (t\<lparr>libheap := freep c (libheap t) ptr\<rparr>) (L_free ptr))"

definition p1_fini :: "'h tracer \<Rightarrow> 'h tracer option" where
  "p1_fini t =
     (let n = n_malloc t + n_calloc t + n_realloc t in
      if n = 0 then None
      else Some (LOG (LOG t (L_statistics (n_allocb t) (n_allocb t div n) 0)) L_stop))"

section \<open>Part 2: the list of blocks\<close>

definition p2_malloc :: "'h libc \<Rightarrow> 'h tracer \<Rightarrow> u64 \<Rightarrow> 'h tracer \<times> nat" where
  "p2_malloc c t z =
     (let (h, ptr) = mallocp c (libheap t) z;
          t = t\<lparr>libheap := h, tlist := alloc_block (tlist t) ptr z\<rparr>;
          t = LOG t (L_malloc z ptr)
      in (t\<lparr>n_allocb := n_allocb t + z, n_malloc := n_malloc t + 1\<rparr>, ptr))"

definition p2_calloc :: "'h libc \<Rightarrow> 'h tracer \<Rightarrow> u64 \<Rightarrow> u64 \<Rightarrow> 'h tracer \<times> nat" where
  "p2_calloc c t nmemb z =
     (let (h, ptr) = callocp c (libheap t) nmemb z;
          t = t\<lparr>libheap := h, tlist := alloc_block (tlist t) ptr (nmemb * z)\<rparr>;
          t = LOG t (L_calloc nmemb z ptr)
      in (t\<lparr>n_allocb := n_allocb t + nmemb * z, n_calloc := n_calloc t + 1\<rparr>, ptr))"

text \<open>The size of the item is read before the test for NULL.\<close>

definition p2_realloc :: "'h libc \<Rightarrow> 'h tracer \<Rightarrow> nat \<Rightarrow> u64 \<Rightarrow> ('h tracer \<times> nat) option" where
  "p2_realloc c t ptr z =
     (case find_block (tlist t) ptr of
        None \<Rightarrow> None
      | Some i \<Rightarrow>
          if z \<le> i_size i then Some (LOG t (L_realloc ptr z ptr), ptr)
          else
            (let t = t\<lparr>tlist := fst (dealloc_block (tlist t) ptr), n_freeb := n_freeb t + i_size i\<rparr>;
                 (h, res) = reallocp c (libheap t) ptr z;
                 t = LOG (t\<lparr>libheap := h\<rparr>) (L_realloc ptr z res);
                 t = t\<lparr>tlist := alloc_block (tlist t) res z\<rparr>
             in Some (t\<lparr>n_allocb := n_allocb t + z, n_realloc := n_realloc t + 1\<rparr>, res)))"

definition p2_free :: "'h libc \<Rightarrow> 'h tracer \<Rightarrow> nat \<Rightarrow> 'h tracer" where
  "p2_free c t ptr =
     (if ptr = 0 then t
      else
        (let (l, r) = dealloc_block (tlist t) ptr;
             t = (case r of None \<Rightarrow> t\<lparr>tlist := l\<rparr> | Some i \<Rightarrow> t\<lparr>tlist := l, n_freeb := n_freeb t + i_size i\<rparr>)
         in LOG (t\<lparr>libheap := freep c (libheap t) ptr\<rparr>) (L_free ptr)))"

definition p2_fini :: "'h tracer \<Rightarrow> 'h tracer option" where
  "p2_fini t =
     (let n = n_malloc t + n_calloc t + n_realloc t in
      if n = 0 then None
      else
        (let t = LOG t (L_statistics (n_allocb t) (n_allocb t div n) (n_freeb t));
             t = (if n_freeb t < n_allocb t then
                    foldl (\<lambda>t i. LOG t (L_block (i_ptr i) (i_size i) (i_cnt i))) (LOG t L_nonfreed_start)
                      (filter (\<lambda>i. i_cnt i \<noteq> 0) (tlist t))
                  else t)
         in Some (LOG t L_stop)))"

section \<open>Part 3: illegal and double frees\<close>

definition p3_malloc :: "'h libc \<Rightarrow> 'h tracer \<Rightarrow> u64 \<Rightarrow> 'h tracer \<times> nat" where
  "p3_malloc c t z =
     (let (h, ptr) = mallocp c (libheap t) z;
          t = t\<lparr>libheap := h, tlist := alloc_block (tlist t) ptr z\<rparr>;
          t = LOG t (L_malloc z ptr)
      in (t\<lparr>n_allocb := n_allocb t + z, n_malloc := n_malloc t + 1\<rparr>, ptr))"

definition p3_calloc :: "'h libc \<Rightarrow> 'h tracer \<Rightarrow> u64 \<Rightarrow> u64 \<Rightarrow> 'h tracer \<times> nat" where
  "p3_calloc c t nmemb z =
     (let (h, ptr) = callocp c (libheap t) nmemb z;
          t = t\<lparr>libheap := h, tlist := alloc_block (tlist t) ptr (nmemb * z)\<rparr>;
          t = LOG t (L_calloc nmemb z ptr)
      in (t\<lparr>n_allocb := n_allocb t + nmemb * z, n_calloc := n_calloc t + 1\<rparr>, ptr))"

text \<open>In the last case the size of the item of \<open>ptr\<close> is read after the list was updated.\<close>

definition p3_realloc :: "'h libc \<Rightarrow> 'h tracer \<Rightarrow> nat \<Rightarrow> u64 \<Rightarrow> 'h tracer \<times> nat" where
  "p3_realloc c t ptr z =
     (case find_block (tlist t) ptr of
        None \<Rightarrow>
          (let (h, res) = reallocp c (libheap t) 0 z;
               t = LOG (LOG (t\<lparr>libheap := h\<rparr>) (L_realloc ptr z res)) L_ill_free;
               t = t\<lparr>tlist := alloc_block (tlist t) res z\<rparr>
           in (t\<lparr>n_allocb := n_allocb t + z, n_realloc := n_realloc t + 1\<rparr>, res))
      | Some i \<Rightarrow>
          if i_cnt i = 0 then
            (let (h, res) = reallocp c (libheap t) 0 z;
                 t = LOG (t\<lparr>libheap := h\<rparr>) (L_realloc ptr z res);
                 t = t\<lparr>tlist := alloc_block (tlist t) res z\<rparr>
             in (LOG (t\<lparr>n_allocb := n_allocb t + z, n_realloc := n_realloc t + 1\<rparr>) L_double_free, res))
          else if z \<le> i_size i then (LOG t (L_realloc ptr z ptr), ptr)
          else
            (let (h, res) = reallocp c (libheap t) ptr z;
                 t = LOG (t\<lparr>libheap := h\<rparr>) (L_realloc ptr z res);
                 t = t\<lparr>tlist := fst (dealloc_block (tlist t) ptr)\<rparr>;
                 t = t\<lparr>tlist := alloc_block (tlist t) res z\<rparr>;
                 sz = (case find_block (tlist t) ptr of None \<Rightarrow> 0 | Some i \<Rightarrow> i_size i)
             in (t\<lparr>n_freeb := n_freeb t + sz, n_allocb := n_allocb t + z, n_realloc := n_realloc t + 1\<rparr>, res)))"

definition p3_free :: "'h libc \<Rightarrow> 'h tracer \<Rightarrow> nat \<Rightarrow> 'h tracer" where
  "p3_free c t ptr =
     (if ptr = 0 then t
      else case find_block (tlist t) ptr of
        None \<Rightarrow> LOG (LOG t (L_free ptr)) L_ill_free
      | Some i \<Rightarrow>
          if i_cnt i = 0 then LOG (LOG t (L_free ptr)) L_double_free
          else LOG (t\<lparr>libheap := freep c (libheap t) ptr, tlist := fst (dealloc_block (tlist t) ptr),
                 n_freeb := n_freeb t + i_size i\<rparr>) (L_free ptr))"

definition p3_fini :: "'h tracer \<Rightarrow> 'h tracer option" where
  "p3_fini t =
     (let n = n_malloc t + n_calloc t + n_realloc t in
      if n = 0 then None
      else
        (let t = LOG t (L_statistics (n_allocb t) (n_allocb t div n) (n_freeb t));
             t = (if n_freeb t < n_allocb t then
                    foldl (\<lambda>t i. LOG t (L_block (i_ptr i) (i_size i) (i_cnt i))) (LOG t L_nonfreed_start)
                      (filter (\<lambda>i. i_cnt i > 0) (tlist t))
                  else t)
         in Some (LOG t L_stop)))"

section \<open>A program under the tracer of part 3\<close>

datatype request = Malloc u64 | Calloc u64 u64 | Realloc nat u64 | Free nat

text \<open>The pointer that the C library returns to the tracer for a request.\<close>

fun lib_result :: "'h libc \<Rightarrow> 'h tracer \<Rightarrow> request \<Rightarrow> nat option" where
  "lib_result c t (Malloc z) = Some (snd (mallocp c (libheap t) z))"
| "lib_result c t (Calloc k z) = Some (snd (callocp c (libheap t) k z))"
| "lib_result c t (Realloc p z) =
     (case find_block (tlist t) p of
        None \<Rightarrow> Some (snd (reallocp c (libheap t) 0 z))
      | Some i \<Rightarrow>
          if i_cnt i = 0 then Some (snd (reallocp c (libheap t) 0 z))
          else if z \<le> i_size i then None
          else Some (snd (reallocp c (libheap t) p z)))"
| "lib_result c t (Free p) = None"

fun serve :: "'h libc \<Rightarrow> 'h tracer \<Rightarrow> request \<Rightarrow> 'h tracer" where
  "serve c t (Malloc z) = fst (p3_malloc c t z)"
| "serve c t (Calloc k z) = fst (p3_calloc c t k z)"
| "serve c t (Realloc p z) = fst (p3_realloc c t p z)"
| "serve c t (Free p) = p3_free c t p"

text \<open>
  What a reallocation in place adds to the freed bytes beyond the size of the old block: the size is read after the list has
  got the new one.
\<close>

fun in_place_growth :: "'h libc \<Rightarrow> 'h tracer \<Rightarrow> request \<Rightarrow> u64" where
  "in_place_growth c t (Realloc p z) =
     (case find_block (tlist t) p of
        None \<Rightarrow> 0
      | Some i \<Rightarrow> if i_cnt i \<noteq> 0 \<and> \<not> z \<le> i_size i \<and> snd (reallocp c (libheap t) p z) = p then z - i_size i else 0)"
| "in_place_growth c t _ = 0"

text \<open>
  The states that a program can reach, whatever it requests, as long as the library never
  returns a block that is in use, other than the block that it reallocates; and the growth of the blocks that it has reallocated in
  place.  A failed allocation is entered as a block at NULL, so that this excludes a second one.
\<close>

inductive traced :: "'h libc \<Rightarrow> 'h \<Rightarrow> 'h tracer \<Rightarrow> u64 \<Rightarrow> bool" for c h where
  start: "traced c h (tracer_init h) 0"
| step: "traced c h t d \<Longrightarrow> (\<forall>p. lib_result c t r = Some p \<longrightarrow> \<not> is_live (tlist t) p \<or> (\<exists>z. r = Realloc p z)) \<Longrightarrow>
    traced c h (serve c t r) (d + in_place_growth c t r)"

inductive_cases traced_cases: "traced c h t d"

definition balanced :: "u64 \<Rightarrow> 'h tracer \<Rightarrow> bool" where
  "balanced d t \<longleftrightarrow> ordered (tlist t) \<and> counted (tlist t) \<and> n_allocb t + d = n_freeb t + live_bytes (tlist t)"

lemma balanced_alloc:
  assumes "balanced d t" and "\<not> is_live (tlist t) p" and "tlist t' = alloc_block (tlist t) p z"
    and "n_allocb t' = n_allocb t + z" and "n_freeb t' = n_freeb t"
  shows "balanced d t'"
proof -
  have "n_allocb t' + d = n_freeb t + live_bytes (tlist t) + z"
    using assms(1,4) by (simp add: balanced_def algebra_simps)
  then show ?thesis
    using assms alloc_live [of "tlist t" p z] alloc_ordered [of "tlist t" p z] by (simp add: balanced_def add.assoc)
qed

lemma balanced_dealloc:
  assumes "balanced d t" and "find_block (tlist t) p = Some i" and "i_cnt i > 0"
    and "tlist t' = fst (dealloc_block (tlist t) p)" and "n_allocb t' = n_allocb t"
    and "n_freeb t' = n_freeb t + i_size i"
  shows "balanced d t'"
  using assms dealloc_live [of "tlist t" p i] dealloc_ordered [of "tlist t" p]
  by (simp add: balanced_def ac_simps)

lemma balanced_cnt: "balanced d t \<Longrightarrow> find_block (tlist t) p = Some i \<Longrightarrow> i_cnt i = 0 \<or> i_cnt i = 1"
  using find_ptr [of "tlist t" p i] by (auto simp: balanced_def counted_def)

lemma balanced_LOG [simp]: "balanced d (LOG t e) = balanced d t"
  by (simp add: balanced_def LOG_def)

text \<open>The last case of \<^verbatim>\<open>realloc\<close>: the block has grown, in place or not.\<close>

lemma realloc_grows:
  assumes b: "balanced d t" and i: "find_block (tlist t) p = Some i" "i_cnt i = 1" "\<not> z \<le> i_size i"
    and lib: "reallocp c (libheap t) p z = (h, res)" and res: "\<not> is_live (tlist t) res \<or> res = p"
  shows "balanced (d + (if res = p then z - i_size i else 0)) (fst (p3_realloc c t p z))"
proof -
  let ?l = "fst (dealloc_block (tlist t) p)"
  let ?t1 = "t\<lparr>tlist := ?l, n_freeb := n_freeb t + i_size i\<rparr>"
  have b1: "balanced d ?t1" by (rule balanced_dealloc [OF b i(1)]) (use i(2) in simp_all)
  have o: "ordered (tlist t)" "ordered ?l" "counted ?l" using b b1 by (auto simp: balanced_def)
  have nl: "\<not> is_live ?l res"
    using res i by (auto simp: is_live_def find_dealloc [OF o(1)])
  have sz: "find_block (alloc_block ?l res z) p = Some (if res = p then \<lparr>i_ptr = p, i_size = z, i_cnt = 1\<rparr> else i\<lparr>i_cnt := i_cnt i - 1\<rparr>)"
    using i find_ptr [OF i(1)] by (auto simp: find_alloc [OF o(2)] find_dealloc [OF o(1)])
  have t': "n_allocb (fst (p3_realloc c t p z)) = n_allocb t + z" "tlist (fst (p3_realloc c t p z)) = alloc_block ?l res z"
    "n_freeb (fst (p3_realloc c t p z)) = n_freeb t + (if res = p then z else i_size i)"
    using i lib sz by (simp_all add: p3_realloc_def LOG_def Let_def)
  have "live_bytes (alloc_block ?l res z) = live_bytes ?l + z" "ordered (alloc_block ?l res z)" "counted (alloc_block ?l res z)"
    using alloc_live [OF o(2,3) nl] alloc_ordered [OF o(2)] by auto
  moreover have "n_allocb t + d = n_freeb t + i_size i + live_bytes ?l" using b1 by (simp add: balanced_def)
  ultimately show ?thesis by (simp add: balanced_def t' algebra_simps)
qed

lemma serve_balanced:
  assumes b: "balanced d t" and fresh: "\<forall>p. lib_result c t r = Some p \<longrightarrow> \<not> is_live (tlist t) p \<or> (\<exists>z. r = Realloc p z)"
  shows "balanced (d + in_place_growth c t r) (serve c t r)"
proof (cases r)
  case (Malloc z)
  then show ?thesis
    using fresh by (auto simp: p3_malloc_def LOG_def split: prod.splits intro!: balanced_alloc [OF b])
next
  case (Calloc k z)
  then show ?thesis
    using fresh by (auto simp: p3_calloc_def LOG_def split: prod.splits intro!: balanced_alloc [OF b])
next
  case (Free p)
  show ?thesis
  proof (cases "find_block (tlist t) p")
    case (Some i)
    then show ?thesis
      using Free b balanced_cnt [OF b Some]
      by (auto simp: p3_free_def intro!: balanced_dealloc [OF b Some])
  qed (use Free b in \<open>simp add: p3_free_def\<close>)
next
  case (Realloc p z)
  show ?thesis
  proof (cases "find_block (tlist t) p")
    case None
    then have "\<not> is_live (tlist t) (snd (reallocp c (libheap t) 0 z))" using Realloc fresh by (auto simp: is_live_def)
    then show ?thesis
      using Realloc None by (auto simp: p3_realloc_def LOG_def split: prod.splits intro!: balanced_alloc [OF b])
  next
    case (Some i)
    obtain h res where lib: "reallocp c (libheap t) p z = (h, res)" by (cases "reallocp c (libheap t) p z")
    consider "i_cnt i = 0" | "i_cnt i = 1" "z \<le> i_size i" | "i_cnt i = 1" "\<not> z \<le> i_size i"
      using balanced_cnt [OF b Some] by blast
    then show ?thesis
    proof cases
      case 1
      then have "\<not> is_live (tlist t) (snd (reallocp c (libheap t) 0 z))" using Realloc fresh Some by (auto simp: is_live_def)
      then show ?thesis
        using Realloc Some 1 by (auto simp: p3_realloc_def LOG_def split: prod.splits intro!: balanced_alloc [OF b])
    next
      case 2
      then show ?thesis using Realloc Some b by (simp add: p3_realloc_def)
    next
      case 3
      then have "\<not> is_live (tlist t) res \<or> res = p" using fresh Realloc Some lib by auto
      from realloc_grows [OF b Some 3 lib this] show ?thesis using Realloc Some 3 lib by simp
    qed
  qed
qed


section \<open>Properties\<close>


text \<open>A library whose heap is the next free address.\<close>

definition bump :: "nat libc" where
  "bump = \<lparr>mallocp = (\<lambda>h z. (h + 16, h)), callocp = (\<lambda>h k z. (h + 16, h)),
     reallocp = (\<lambda>h p z. (h + 16, h)), freep = (\<lambda>h p. h)\<rparr>"

text \<open>A library that reallocates in place.\<close>

definition in_place :: "nat libc" where
  "in_place = bump\<lparr>reallocp := (\<lambda>h p z. (h, p))\<rparr>"


text \<open>
  C15. A block that is freed twice, or was never allocated, never reaches the C library's
  \<^verbatim>\<open>free\<close> under the tracer of part 3: nothing changes but the log, which gets an illegal free for an address that is not in
  the list and a double free for a block that is freed already.  A block in use is freed exactly once: the library frees it, its bytes are
  counted, the other blocks stay as they are, and the books remain balanced.
\<close>

theorem p3_free_guards:
  assumes "balanced d t" and "p \<noteq> 0"
  shows "case find_block (tlist t) p of
       None \<Rightarrow> p3_free c t p = t\<lparr>tlog := tlog t @ [L_free p, L_ill_free]\<rparr>
     | Some i \<Rightarrow>
         if i_cnt i = 0 then p3_free c t p = t\<lparr>tlog := tlog t @ [L_free p, L_double_free]\<rparr>
         else libheap (p3_free c t p) = freep c (libheap t) p \<and> tlog (p3_free c t p) = tlog t @ [L_free p] \<and>
           n_freeb (p3_free c t p) = n_freeb t + i_size i \<and> n_allocb (p3_free c t p) = n_allocb t \<and>
           (\<forall>q. find_block (tlist (p3_free c t p)) q = (if q = p then Some (i\<lparr>i_cnt := 0\<rparr>) else find_block (tlist t) q)) \<and>
           balanced d (p3_free c t p)"
proof -
  have o: "ordered (tlist t)" using assms(1) by (simp add: balanced_def)
  have "balanced d (p3_free c t p)" using serve_balanced [OF assms(1), of c "Free p"] by simp
  then show ?thesis using assms(2) balanced_cnt [OF assms(1), of p]
    by (auto simp: p3_free_def LOG_def find_dealloc [OF o] split: option.splits)
qed

theorem p3_free_guards_witness:
  "let t = fst (p3_malloc bump (tracer_init 64) 10); t' = p3_free bump t 64 in
   p3_free bump t 8 = t\<lparr>tlog := tlog t @ [L_free 8, L_ill_free]\<rparr> \<and> n_freeb t' = 10 \<and>
   p3_free bump t' 64 = t'\<lparr>tlog := tlog t' @ [L_free 64, L_double_free]\<rparr>"
proof -
  let ?t = "fst (p3_malloc bump (tracer_init 64) 10)" and ?t' = "p3_free bump (fst (p3_malloc bump (tracer_init 64) 10)) 64"
  note d = bump_def p3_malloc_def LOG_def tracer_init_def new_list_def p3_free_def
  have b: "balanced 0 ?t" "balanced 0 ?t'"
    by (simp_all add: d balanced_def counted_def live_bytes_def ordered_Cons)
  have f: "find_block (tlist ?t) 8 = None" "find_block (tlist ?t) 64 = Some \<lparr>i_ptr = 64, i_size = 10, i_cnt = 1\<rparr>"
    "find_block (tlist ?t') 64 = Some \<lparr>i_ptr = 64, i_size = 10, i_cnt = 0\<rparr>" "n_freeb ?t = 0" by (simp_all add: d)
  show ?thesis
    using p3_free_guards [OF b(1), of 8 bump] p3_free_guards [OF b(1), of 64 bump] p3_free_guards [OF b(2), of 64 bump] f
    by (simp add: Let_def)
qed

text \<open>
  A reallocation that the C library can do in place breaks the books: the tracer reads the
  size of the old block after it has overwritten it, and counts the new size as freed.
\<close>

theorem p3_realloc_in_place_miscounts:
  assumes "balanced 0 t" and "find_block (tlist t) p = Some i" and "i_cnt i = 1" and "i_size i < z"
    and "reallocp c (libheap t) p z = (h, p)"
  shows "n_allocb (fst (p3_realloc c t p z)) \<noteq>
         n_freeb (fst (p3_realloc c t p z)) + live_bytes (tlist (fst (p3_realloc c t p z)))"
proof -
  have "balanced (z - i_size i) (fst (p3_realloc c t p z))"
    using realloc_grows [OF assms(1-3) _ assms(5)] assms(4) by (simp add: not_le)
  then show ?thesis using assms(4) by (auto simp: balanced_def)
qed

theorem p3_realloc_in_place_miscounts_witness:
  "let t = fst (p3_realloc in_place (fst (p3_malloc in_place (tracer_init 64) 10)) 64 100)
   in n_allocb t \<noteq> n_freeb t + live_bytes (tlist t)"
proof -
  let ?t = "fst (p3_malloc in_place (tracer_init 64) 10)"
  note d = in_place_def bump_def p3_malloc_def LOG_def tracer_init_def new_list_def
  have "balanced 0 ?t" by (simp add: d balanced_def counted_def live_bytes_def ordered_Cons)
  moreover have "find_block (tlist ?t) 64 = Some \<lparr>i_ptr = 64, i_size = 10, i_cnt = 1\<rparr>" by (simp add: d)
  moreover have "reallocp in_place (libheap ?t) 64 100 = (80, 64)" by (simp add: d)
  ultimately show ?thesis
    using p3_realloc_in_place_miscounts [of ?t 64 _ 100 in_place 80] by (simp add: Let_def)
qed

end
