(* ===== verification/Tsh.thy ===== *)
theory Tsh
  imports Prelude
begin

text \<open>
  The tiny shell with job control (\<^verbatim>\<open>sp_02_shelllab/tsh.c\<close>): the job list, the parser of command
  lines, the built-in commands, the evaluation of a command line and the signal handlers.

  The globals are a record; \<^verbatim>\<open>sh_out\<close> collects what the shell prints and \<^verbatim>\<open>sh_kills\<close> the signals
  that it sends.  A pointer to a job is the index of its slot.  The kernel is a parameter: the
  result of \<^verbatim>\<open>fork\<close>, whether a \<^verbatim>\<open>kill\<close> succeeds, and the children that \<^verbatim>\<open>waitpid\<close> reports.
  \<open>Inl\<close> is the end of the shell: an exit with a status, or a dereferenced null pointer.
\<close>

definition MAXLINE :: nat where "MAXLINE = 1024"
definition MAXARGS :: nat where "MAXARGS = 128"
definition MAXJOBS :: nat where "MAXJOBS = 16"

definition SIGINT :: nat where "SIGINT = 2"
definition SIGCONT :: nat where "SIGCONT = 18"
definition SIGTSTP :: nat where "SIGTSTP = 20"

datatype jstate = UNDEF | FG | BG | ST

record job =
  jpid :: int
  jjid :: int
  jstate :: jstate
  jcmd :: string

datatype msg = Too_many_jobs | Added int int string | Job_info int int string
  | Signal_info int int string | No_such_job int | No_such_process int | Needs_argument string
  | Bad_argument string | Listed int int jstate string | Not_found string

datatype stop = Exit nat | Segv

record shell =
  sh_jobs :: "job list"
  nextjid :: int
  verbose :: bool
  sh_out :: "msg list"
  sh_kills :: "(int \<times> nat) list"

definition say :: "shell \<Rightarrow> msg \<Rightarrow> shell" where
  "say s m = s\<lparr>sh_out := sh_out s @ [m]\<rparr>"

section \<open>The job list\<close>

definition clearjob :: "job \<Rightarrow> job" where
  "clearjob j = \<lparr>jpid = 0, jjid = 0, jstate = UNDEF, jcmd = []\<rparr>"

definition initjobs :: "job list \<Rightarrow> job list" where
  "initjobs js = map clearjob js"

definition maxjid :: "job list \<Rightarrow> int" where
  "maxjid js = foldl (\<lambda>m j. if jjid j > m then jjid j else m) 0 js"

text \<open>The index of the first job with a property, the result of the loops over the array.\<close>

fun first_job :: "(job \<Rightarrow> bool) \<Rightarrow> job list \<Rightarrow> nat option" where
  "first_job P [] = None"
| "first_job P (j # js) = (if P j then Some 0 else map_option Suc (first_job P js))"

definition addjob :: "shell \<Rightarrow> int \<Rightarrow> jstate \<Rightarrow> string \<Rightarrow> shell \<times> int" where
  "addjob s pid st cmdline =
     (if pid < 1 then (s, 0)
      else case first_job (\<lambda>j. jpid j = 0) (sh_jobs s) of
        None \<Rightarrow> (say s Too_many_jobs, 0)
      | Some i \<Rightarrow>
          let jid = nextjid s;
              s = s\<lparr>sh_jobs := (sh_jobs s)[i := \<lparr>jpid = pid, jjid = jid, jstate = st, jcmd = cmdline\<rparr>],
                nextjid := (if jid + 1 > int MAXJOBS then 1 else jid + 1)\<rparr>
          in (if verbose s then say s (Added jid pid cmdline) else s, 1))"

definition deletejob :: "shell \<Rightarrow> int \<Rightarrow> shell \<times> int" where
  "deletejob s pid =
     (if pid < 1 then (s, 0)
      else case first_job (\<lambda>j. jpid j = pid) (sh_jobs s) of
        None \<Rightarrow> (s, 0)
      | Some i \<Rightarrow>
          let js = (sh_jobs s)[i := clearjob (sh_jobs s ! i)]
          in (s\<lparr>sh_jobs := js, nextjid := maxjid js + 1\<rparr>, 1))"

definition fgpid :: "job list \<Rightarrow> int" where
  "fgpid js = (case first_job (\<lambda>j. jstate j = FG) js of None \<Rightarrow> 0 | Some i \<Rightarrow> jpid (js ! i))"

definition getjobpid :: "job list \<Rightarrow> int \<Rightarrow> nat option" where
  "getjobpid js pid = (if pid < 1 then None else first_job (\<lambda>j. jpid j = pid) js)"

definition getjobjid :: "job list \<Rightarrow> int \<Rightarrow> nat option" where
  "getjobjid js jid = (if jid < 1 then None else first_job (\<lambda>j. jjid j = jid) js)"

definition pid2jid :: "job list \<Rightarrow> int \<Rightarrow> int" where
  "pid2jid js pid =
     (if pid < 1 then 0
      else case first_job (\<lambda>j. jpid j = pid) js of None \<Rightarrow> 0 | Some i \<Rightarrow> jjid (js ! i))"

text \<open>One round of the loop of \<^verbatim>\<open>listjobs\<close>.\<close>

definition list_slot :: "shell \<Rightarrow> nat \<Rightarrow> shell" where
  "list_slot s i = (let j = sh_jobs s ! i in
     if jpid j \<noteq> 0 then say s (Listed (jjid j) (jpid j) (jstate j) (jcmd j)) else s)"

definition print_job_info :: "shell \<Rightarrow> nat option \<Rightarrow> stop + shell" where
  "print_job_info s i = (case i of
     None \<Rightarrow> Inl Segv
   | Some i \<Rightarrow> let j = sh_jobs s ! i in Inr (say s (Job_info (jjid j) (jpid j) (jcmd j))))"

definition print_signal_info :: "shell \<Rightarrow> nat option \<Rightarrow> string \<Rightarrow> stop + shell" where
  "print_signal_info s i txt = (case i of
     None \<Rightarrow> Inl Segv
   | Some i \<Rightarrow> let j = sh_jobs s ! i in Inr (say s (Signal_info (jjid j) (jpid j) txt)))"

section \<open>Parsing\<close>

text \<open>\<^verbatim>\<open>strchr\<close>: what is before the first occurrence, and what is behind it.\<close>

definition strchr :: "string \<Rightarrow> char \<Rightarrow> (string \<times> string) option" where
  "strchr s c = (if c \<in> set s then Some (takeWhile (\<lambda>x. x \<noteq> c) s, tl (dropWhile (\<lambda>x. x \<noteq> c) s)) else None)"

abbreviation space :: char where "space \<equiv> CHR '' ''"
abbreviation quote :: char where "quote \<equiv> CHR 0x27"

text \<open>The next argument: leading spaces are skipped, a quote is matched with the next one.\<close>

definition next_arg :: "string \<Rightarrow> (string \<times> string) option" where
  "next_arg buf =
     (case dropWhile (\<lambda>c. c = space) buf of
        [] \<Rightarrow> None
      | c # rest \<Rightarrow> if c = quote then strchr rest quote else strchr (c # rest) space)"

lemma strchr_shorter: "strchr s c = Some (a, r) \<Longrightarrow> length r < length s"
proof -
  assume "strchr s c = Some (a, r)"
  then have c: "c \<in> set s" and r: "r = tl (dropWhile (\<lambda>x. x \<noteq> c) s)" by (auto simp: strchr_def split: if_splits)
  have "dropWhile (\<lambda>x. x \<noteq> c) s \<noteq> []" using c by (auto simp: dropWhile_eq_Nil_conv)
  then show ?thesis using r length_dropWhile_le [of "\<lambda>x. x \<noteq> c" s]
    by (cases "dropWhile (\<lambda>x. x \<noteq> c) s") auto
qed

lemma next_arg_shorter: "next_arg s = Some (a, r) \<Longrightarrow> length r < length s"
  using length_dropWhile_le [of "\<lambda>c. c = space" s]
  by (auto simp: next_arg_def split: list.splits if_splits dest!: strchr_shorter)

function args :: "string \<Rightarrow> string list" where
  "args buf = (case next_arg buf of None \<Rightarrow> [] | Some (a, rest) \<Rightarrow> a # args rest)"
  by pat_completeness auto
termination by (relation "measure length") (auto dest: next_arg_shorter)

declare args.simps [simp del]

text \<open>
  The result: the arguments and whether the job is for the background.  \<open>None\<close>: the command
  line is empty, or does not fit in the array that it is copied to, or has more arguments than the array of the caller holds.
\<close>

definition parseline :: "string \<Rightarrow> (string list \<times> bool) option" where
  "parseline cmdline =
     (if cmdline = [] \<or> MAXLINE \<le> length cmdline then None
      else
        let argv = args (butlast cmdline @ [space]) in
        if MAXARGS \<le> length argv then None
        else if argv = [] then Some ([], True)
        else
          let bg = (case last argv of [] \<Rightarrow> False | c # _ \<Rightarrow> c = CHR ''&'')
          in Some (if bg then butlast argv else argv, bg))"

section \<open>Built-in commands\<close>

text \<open>
  Where the shell is.  It is at its prompt, or waits for a foreground job, or is at a point inside a command where a signal
  handler may run and find or change the job list: in \<^verbatim>\<open>do_bgfg\<close> the slot is found but the pid not yet read (\<open>Found\<close>), SIGCONT is
  about to be sent (\<open>Resume\<close>), the state of the slot is about to be set (\<open>Mark\<close>), the job is about to be printed (\<open>Print\<close>); in \<^verbatim>\<open>eval\<close>
  a background job is in the list and the signals are unblocked, but it is not yet printed (\<open>Launched\<close>); \<^verbatim>\<open>listjobs\<close> is at a
  slot (\<open>Listing\<close>).
\<close>

datatype mode = Prompt | Wait int | Found string nat | Resume string nat int | Mark string nat int | Print nat
  | Launched int | Listing nat

definition send :: "(int \<Rightarrow> nat \<Rightarrow> bool) \<Rightarrow> shell \<Rightarrow> int \<Rightarrow> nat \<Rightarrow> stop + shell" where
  "send kill_ok s pid sig =
     (if kill_ok pid sig then Inr (s\<lparr>sh_kills := sh_kills s @ [(pid, sig)]\<rparr>) else Inl (Exit 1))"

definition set_state :: "shell \<Rightarrow> nat \<Rightarrow> jstate \<Rightarrow> shell" where
  "set_state s i st = s\<lparr>sh_jobs := (sh_jobs s)[i := (sh_jobs s ! i)\<lparr>jstate := st\<rparr>]\<rparr>"

text \<open>The start of \<^verbatim>\<open>do_bgfg\<close>, up to the job that its argument names.\<close>

definition bgfg_find :: "shell \<Rightarrow> string list \<Rightarrow> stop + shell \<times> mode" where
  "bgfg_find s argv =
     (case argv of
        [] \<Rightarrow> Inl Segv
      | [name] \<Rightarrow> Inr (say s (Needs_argument name), Prompt)
      | name # arg # _ \<Rightarrow>
          if (arg \<noteq> [] \<and> hd arg = CHR ''%'') \<and> atoi (tl arg) \<noteq> 0 then
            (case getjobjid (sh_jobs s) (atoi (tl arg)) of
               Some i \<Rightarrow> Inr (s, Found name i)
             | None \<Rightarrow> Inr (say s (No_such_job (atoi (tl arg))), Prompt))
          else if atoi arg \<noteq> 0 then
            (case getjobpid (sh_jobs s) (atoi arg) of
               Some i \<Rightarrow> Inr (s, Resume name i (atoi arg))
             | None \<Rightarrow> Inr (say s (No_such_process (atoi arg)), Prompt))
          else Inr (say s (Bad_argument name), Prompt))"

text \<open>What a command does next, from a point where it can be interrupted to the following one.\<close>

fun go_on :: "(int \<Rightarrow> nat \<Rightarrow> bool) \<Rightarrow> shell \<Rightarrow> mode \<Rightarrow> stop + shell \<times> mode" where
  "go_on kill_ok s Prompt = Inr (s, Prompt)"
| "go_on kill_ok s (Wait pid) = Inr (s, Wait pid)"
| "go_on kill_ok s (Found name i) = Inr (s, Resume name i (jpid (sh_jobs s ! i)))"
| "go_on kill_ok s (Resume name i pid) = map_sum id (\<lambda>s. (s, Mark name i pid)) (send kill_ok s (- pid) SIGCONT)"
| "go_on kill_ok s (Mark name i pid) =
     (if name = ''fg'' then Inr (set_state s i FG, Wait pid) else Inr (set_state s i BG, Print i))"
| "go_on kill_ok s (Print i) = map_sum id (\<lambda>s. (s, Prompt)) (print_job_info s (Some i))"
| "go_on kill_ok s (Launched pid) = map_sum id (\<lambda>s. (s, Prompt)) (print_job_info s (getjobpid (sh_jobs s) pid))"
| "go_on kill_ok s (Listing i) =
     (if i < MAXJOBS then Inr (list_slot s i, Listing (Suc i)) else Inr (s, Prompt))"

text \<open>The number of steps that are left, and a command that no signal interrupts.\<close>

fun steps_left :: "mode \<Rightarrow> nat" where
  "steps_left (Found _ _) = 4"
| "steps_left (Resume _ _ _) = 3"
| "steps_left (Mark _ _ _) = 2"
| "steps_left (Print _) = 1"
| "steps_left (Launched _) = 1"
| "steps_left (Listing i) = Suc (MAXJOBS - i)"
| "steps_left _ = 0"

lemma go_on_steps: "go_on kill_ok s m = Inr (s', m') \<Longrightarrow> 0 < steps_left m \<Longrightarrow> steps_left m' < steps_left m"
  by (cases "(kill_ok, s, m)" rule: go_on.cases)
    (auto simp: map_sum_def send_def print_job_info_def Let_def split: if_splits sum.splits option.splits)

function settle :: "(int \<Rightarrow> nat \<Rightarrow> bool) \<Rightarrow> shell \<Rightarrow> mode \<Rightarrow> stop + shell \<times> mode" where
  "settle kill_ok s m =
     (if steps_left m = 0 then Inr (s, m)
      else case go_on kill_ok s m of Inl e \<Rightarrow> Inl e | Inr (s, m) \<Rightarrow> settle kill_ok s m)"
  by pat_completeness auto
termination by (relation "measure (\<lambda>(k, s, m). steps_left m)") (auto dest: go_on_steps)

declare settle.simps [simp del]

definition do_bgfg :: "(int \<Rightarrow> nat \<Rightarrow> bool) \<Rightarrow> shell \<Rightarrow> string list \<Rightarrow> stop + shell \<times> mode" where
  "do_bgfg kill_ok s argv = (case bgfg_find s argv of Inl e \<Rightarrow> Inl e | Inr (s, m) \<Rightarrow> settle kill_ok s m)"

text \<open>\<open>None\<close> is the result 0: the command is not built in.\<close>

definition builtin_cmd :: "shell \<Rightarrow> string list \<Rightarrow> (stop + shell \<times> mode) option" where
  "builtin_cmd s argv =
     (let name = hd argv in
      if name = ''quit'' then Some (Inl (Exit 0))
      else if name = ''fg'' \<or> name = ''bg'' then Some (bgfg_find s argv)
      else if name = ''jobs'' then Some (Inr (s, Listing 0))
      else None)"

text \<open>
  \<^verbatim>\<open>eval\<close> in the parent, up to the first point at which a handler may run.  The signals are blocked from before
  the fork until the job is in the list, so no handler runs in between; \<open>pid\<close> is the result of \<^verbatim>\<open>fork\<close>.
\<close>

definition eval_start :: "shell \<Rightarrow> string \<Rightarrow> int \<Rightarrow> stop + shell \<times> mode" where
  "eval_start s cmdline pid =
     (case parseline cmdline of
        None \<Rightarrow> Inl Segv
      | Some (argv, bg) \<Rightarrow>
          if argv = [] then Inr (s, Prompt)
          else case builtin_cmd s argv of
            Some r \<Rightarrow> r
          | None \<Rightarrow>
              if pid < 0 then Inl (Exit 1)
              else
                let (s, _) = addjob s pid (if bg then BG else FG) cmdline in
                Inr (s, if bg then Launched pid else Wait pid))"

text \<open>The whole of it, up to the wait for a foreground job, when no signal arrives.\<close>

definition eval :: "(int \<Rightarrow> nat \<Rightarrow> bool) \<Rightarrow> shell \<Rightarrow> string \<Rightarrow> int \<Rightarrow> stop + shell \<times> mode" where
  "eval kill_ok s cmdline pid =
     (case eval_start s cmdline pid of Inl e \<Rightarrow> Inl e | Inr (s, m) \<Rightarrow> settle kill_ok s m)"

text \<open>The test of the loop of \<^verbatim>\<open>waitfg\<close>.\<close>

definition waitfg_done :: "shell \<Rightarrow> int \<Rightarrow> bool" where
  "waitfg_done s pid \<longleftrightarrow> pid \<noteq> fgpid (sh_jobs s)"

section \<open>Signal handlers\<close>

datatype status = Exited nat | Signaled nat | Stopped nat

text \<open>One round of the loop of \<^verbatim>\<open>sigchld_handler\<close>, for a child that \<^verbatim>\<open>waitpid\<close> reports.\<close>

definition reap :: "shell \<Rightarrow> int \<times> status \<Rightarrow> stop + shell" where
  "reap s r = (case r of (pid, st) \<Rightarrow>
     let i = getjobpid (sh_jobs s) pid in
     case st of
       Exited _ \<Rightarrow> Inr (fst (deletejob s pid))
     | Signaled _ \<Rightarrow>
         (case print_signal_info s i ''terminated by signal 2'' of
            Inl e \<Rightarrow> Inl e
          | Inr s \<Rightarrow> Inr (fst (deletejob s pid)))
     | Stopped _ \<Rightarrow>
         (case print_signal_info s i ''stopped by signal 20'' of
            Inl e \<Rightarrow> Inl e
          | Inr s \<Rightarrow> Inr (s\<lparr>sh_jobs := (sh_jobs s)[the i := (sh_jobs s ! the i)\<lparr>jstate := ST\<rparr>]\<rparr>)))"

fun sigchld_handler :: "shell \<Rightarrow> (int \<times> status) list \<Rightarrow> stop + shell" where
  "sigchld_handler s [] = Inr s"
| "sigchld_handler s (r # rs) = (case reap s r of Inl e \<Rightarrow> Inl e | Inr s \<Rightarrow> sigchld_handler s rs)"

text \<open>
  \<open>mid\<close> is what other handlers do between the reading of the foreground job and the signal to it.
\<close>

definition sigint_handler :: "(int \<Rightarrow> nat \<Rightarrow> bool) \<Rightarrow> (shell \<Rightarrow> stop + shell) \<Rightarrow> shell \<Rightarrow> stop + shell" where
  "sigint_handler kill_ok mid s =
     (let pid = fgpid (sh_jobs s) in
      if pid \<noteq> 0 then (case mid s of Inl e \<Rightarrow> Inl e | Inr s \<Rightarrow> send kill_ok s (- pid) SIGINT) else Inr s)"

definition sigtstp_handler :: "(int \<Rightarrow> nat \<Rightarrow> bool) \<Rightarrow> (shell \<Rightarrow> stop + shell) \<Rightarrow> shell \<Rightarrow> stop + shell" where
  "sigtstp_handler kill_ok mid s =
     (let pid = fgpid (sh_jobs s) in
      if pid \<noteq> 0 then (case mid s of Inl e \<Rightarrow> Inl e | Inr s \<Rightarrow> send kill_ok s (- pid) SIGTSTP) else Inr s)"

section \<open>The shell as a state machine\<close>

definition shell_init :: "bool \<Rightarrow> shell" where
  "shell_init v = \<lparr>sh_jobs = initjobs (replicate MAXJOBS (clearjob \<lparr>jpid = 0, jjid = 0, jstate = UNDEF, jcmd = []\<rparr>)),
     nextjid = 1, verbose = v, sh_out = [], sh_kills = []\<rparr>"

text \<open>
  What the handlers can do from one point to another.  A round of \<^verbatim>\<open>sigchld_handler\<close> is a step of its own, and the keyboard
  handlers may be interrupted themselves, between the reading of the foreground job and the signal to it.
\<close>

inductive handlers :: "(int \<Rightarrow> nat \<Rightarrow> bool) \<Rightarrow> shell \<Rightarrow> shell \<Rightarrow> bool" for kill_ok where
  idle: "handlers kill_ok s s"
| chld: "\<lbrakk>handlers kill_ok s s1; reap s1 r = Inr s2\<rbrakk> \<Longrightarrow> handlers kill_ok s s2"
| key: "\<lbrakk>handlers kill_ok s s1; pid = fgpid (sh_jobs s1); pid \<noteq> 0; handlers kill_ok s1 s2;
     sig = SIGINT \<or> sig = SIGTSTP; send kill_ok s2 (- pid) sig = Inr s3\<rbrakk> \<Longrightarrow> handlers kill_ok s s3"

text \<open>
  The steps of the main loop and of the handlers.  \<^verbatim>\<open>fork\<close> returns a pid that no job in the
  list has.  Handlers run at every point of \<open>mode\<close>.  \<open>late\<close> is whether the job that \<^verbatim>\<open>fg\<close> resumes may be reaped before \<^verbatim>\<open>do_bgfg\<close> has set
  its state; the code does not prevent this (\<open>late_fg\<close> in \<open>TshTheorems\<close>), and the program is the relation
  with \<open>late\<close>.
\<close>

definition late_mark :: "shell \<Rightarrow> mode \<Rightarrow> bool" where
  "late_mark s m \<longleftrightarrow> (case m of Mark name i pid \<Rightarrow> name = ''fg'' \<and> jpid (sh_jobs s ! i) = 0 | _ \<Rightarrow> False)"

inductive shell_step :: "(int \<Rightarrow> nat \<Rightarrow> bool) \<Rightarrow> bool \<Rightarrow> shell \<times> mode \<Rightarrow> shell \<times> mode \<Rightarrow> bool" for kill_ok late where
  command: "\<lbrakk>pid \<noteq> 0; \<forall>j\<in>set (sh_jobs s). jpid j \<noteq> pid; eval_start s line pid = Inr (s', m)\<rbrakk> \<Longrightarrow>
    shell_step kill_ok late (s, Prompt) (s', m)"
| goes_on: "\<lbrakk>0 < steps_left m; late \<or> \<not> late_mark s m; go_on kill_ok s m = Inr (s', m')\<rbrakk> \<Longrightarrow> shell_step kill_ok late (s, m) (s', m')"
| waited: "waitfg_done s pid \<Longrightarrow> shell_step kill_ok late (s, Wait pid) (s, Prompt)"
| signals: "handlers kill_ok s s' \<Longrightarrow> shell_step kill_ok late (s, m) (s', m)"

inductive shell_reach :: "(int \<Rightarrow> nat \<Rightarrow> bool) \<Rightarrow> bool \<Rightarrow> bool \<Rightarrow> shell \<times> mode \<Rightarrow> bool" for kill_ok late v where
  boot: "shell_reach kill_ok late v (shell_init v, Prompt)"
| run: "shell_reach kill_ok late v c \<Longrightarrow> shell_step kill_ok late c c' \<Longrightarrow> shell_reach kill_ok late v c'"

inductive_cases shell_step_cases: "shell_step kill_ok late (s, m) (s', m')"

end
