(* ===== verification/TshCorrect.thy ===== *)
theory TshCorrect
  imports Tsh
begin

text \<open>
  Properties of the shell: the laws of the job list, the invariant of the job list over all the
  steps of the shell, the parser against a printer of command lines, and the job numbers.
\<close>

section \<open>The laws of the job list\<close>

lemma first_job_Some:
  "first_job P js = Some i \<longleftrightarrow> i < length js \<and> P (js ! i) \<and> (\<forall>k<i. \<not> P (js ! k))"
proof (induction js arbitrary: i)
  case (Cons j js)
  show ?case
  proof (cases i)
    case (Suc k)
    then show ?thesis using Cons.IH [of k] by (auto simp: less_Suc_eq_0_disj)
  qed auto
qed simp

lemma first_job_None: "first_job P js = None \<longleftrightarrow> (\<forall>j\<in>set js. \<not> P j)"
  by (induction js) auto

definition no_job :: job where
  "no_job = \<lparr>jpid = 0, jjid = 0, jstate = UNDEF, jcmd = []\<rparr>"

lemma clearjob_no_job [simp]: "clearjob j = no_job" by (simp add: clearjob_def no_job_def)

lemma no_job_sel [simp]: "jpid no_job = 0" "jjid no_job = 0" "jstate no_job = UNDEF"
  by (simp_all add: no_job_def)

text \<open>
  The table: sixteen slots, each empty or a job with a positive pid and number, and no pid twice.  An empty slot may have
  a state, which \<^verbatim>\<open>do_bgfg\<close> can give to the slot of a job that is no longer there.
\<close>

definition empty_slot :: "job \<Rightarrow> bool" where
  "empty_slot j \<longleftrightarrow> jpid j = 0 \<and> jjid j = 0 \<and> jcmd j = []"

lemma empty_no_job [simp]: "empty_slot no_job" "empty_slot (no_job\<lparr>jstate := st\<rparr>)"
  by (simp_all add: empty_slot_def no_job_def)

lemma empty_slot_state [simp]: "empty_slot (j\<lparr>jstate := st\<rparr>) \<longleftrightarrow> empty_slot j"
  by (simp add: empty_slot_def)

definition good_slot :: "job \<Rightarrow> bool" where
  "good_slot j \<longleftrightarrow> empty_slot j \<or> jpid j > 0 \<and> jjid j > 0 \<and> jstate j \<noteq> UNDEF"

definition jobs_wf :: "job list \<Rightarrow> bool" where
  "jobs_wf js \<longleftrightarrow> length js = MAXJOBS \<and> (\<forall>i<length js. good_slot (js ! i)) \<and>
     (\<forall>i<length js. \<forall>k<length js. jpid (js ! i) = jpid (js ! k) \<longrightarrow> jpid (js ! i) \<noteq> 0 \<longrightarrow> i = k)"

text \<open>Only the job that the shell waits for is in the foreground.\<close>

definition fg_ok :: "job list \<Rightarrow> mode \<Rightarrow> bool" where
  "fg_ok js m \<longleftrightarrow> (\<forall>i<length js. jstate (js ! i) = FG \<longrightarrow> jpid (js ! i) \<noteq> 0 \<and> m = Wait (jpid (js ! i)))"

text \<open>Inside a command, the slot still has the job that was found, or is empty.\<close>

definition mode_ok :: "job list \<Rightarrow> mode \<Rightarrow> bool" where
  "mode_ok js m \<longleftrightarrow> (case m of
     Found name i \<Rightarrow> i < length js
   | Resume name i pid \<Rightarrow> i < length js \<and> (jpid (js ! i) = 0 \<or> jpid (js ! i) = pid)
   | Mark name i pid \<Rightarrow> i < length js \<and> (jpid (js ! i) = 0 \<or> jpid (js ! i) = pid)
   | _ \<Rightarrow> True)"

definition shell_wf :: "bool \<Rightarrow> shell \<times> mode \<Rightarrow> bool" where
  "shell_wf late c \<longleftrightarrow> (case c of (s, m) \<Rightarrow> jobs_wf (sh_jobs s) \<and> mode_ok (sh_jobs s) m \<and> nextjid s > 0 \<and>
     (late \<or> fg_ok (sh_jobs s) m))"

lemma distinct_filter_nth:
  "(\<And>i k. i < length xs \<Longrightarrow> k < length xs \<Longrightarrow> xs ! i = xs ! k \<Longrightarrow> P (xs ! i) \<Longrightarrow> i = k) \<Longrightarrow>
     distinct (filter P xs)"
proof (induction xs)
  case (Cons x xs)
  have "distinct (filter P xs)"
  proof (rule Cons.IH)
    fix i k assume "i < length xs" "k < length xs" "xs ! i = xs ! k" "P (xs ! i)"
    then show "i = k" using Cons.prems [of "Suc i" "Suc k"] by simp
  qed
  moreover have "x \<notin> set xs" if "P x"
    using Cons.prems [of 0 "Suc _"] that by (force simp: in_set_conv_nth)
  ultimately show ?case by simp
qed simp

lemma jobs_wf_slot: "jobs_wf js \<Longrightarrow> i < length js \<Longrightarrow> good_slot (js ! i)"
  by (simp add: jobs_wf_def)

lemma jobs_wf_pid: "jobs_wf js \<Longrightarrow> i < length js \<Longrightarrow> jpid (js ! i) \<noteq> 0 \<Longrightarrow> 0 < jpid (js ! i) \<and> 0 < jjid (js ! i)"
  using jobs_wf_slot [of js i] by (auto simp: good_slot_def empty_slot_def)

lemma jobs_wf_inj:
  "jobs_wf js \<Longrightarrow> i < length js \<Longrightarrow> k < length js \<Longrightarrow> jpid (js ! i) = jpid (js ! k) \<Longrightarrow>
     jpid (js ! i) \<noteq> 0 \<Longrightarrow> i = k"
  by (simp add: jobs_wf_def)

text \<open>A slot is overwritten with an empty slot, or with a job whose pid no other slot has.\<close>

lemma jobs_wf_update:
  assumes wf: "jobs_wf js" and j: "good_slot j"
    and fresh: "\<And>k. k < length js \<Longrightarrow> k \<noteq> i \<Longrightarrow> jpid (js ! k) = jpid j \<Longrightarrow> jpid j = 0"
  shows "jobs_wf (js[i := j])"
  unfolding jobs_wf_def
proof (intro conjI allI impI)
  show "length (js[i := j]) = MAXJOBS" using wf by (simp add: jobs_wf_def)
next
  fix k assume "k < length (js[i := j])"
  then show "good_slot (js[i := j] ! k)" using jobs_wf_slot [OF wf, of k] j by (simp add: nth_update)
next
  fix k l
  assume "k < length (js[i := j])" "l < length (js[i := j])"
    "jpid (js[i := j] ! k) = jpid (js[i := j] ! l)" "jpid (js[i := j] ! k) \<noteq> 0"
  then show "k = l"
    using jobs_wf_inj [OF wf, of k l] fresh [of k] fresh [of l] by (simp add: nth_update split: if_splits)
qed

lemma jobs_wf_add:
  assumes "jobs_wf js" and "\<forall>j\<in>set js. jpid j \<noteq> jpid j'" and "jpid j' > 0" and "jjid j' > 0"
    and "jstate j' \<noteq> UNDEF"
  shows "jobs_wf (js[i := j'])"
  using assms by (intro jobs_wf_update) (auto simp: all_set_conv_all_nth good_slot_def)

lemma jobs_wf_clear: "jobs_wf js \<Longrightarrow> jobs_wf (js[i := no_job])"
  by (rule jobs_wf_update) (auto simp: good_slot_def)

lemma jobs_wf_state:
  assumes wf: "jobs_wf js" and st: "st \<noteq> UNDEF"
  shows "jobs_wf (js[i := (js ! i)\<lparr>jstate := st\<rparr>])"
proof (cases "i < length js")
  case True
  then show ?thesis using wf st jobs_wf_slot [OF wf True] jobs_wf_inj [OF wf]
    by (intro jobs_wf_update) (auto simp: good_slot_def)
qed (use wf in \<open>simp add: list_update_beyond\<close>)

lemma fg_ok_update: "fg_ok js m \<Longrightarrow> jstate j \<noteq> FG \<Longrightarrow> fg_ok (js[i := j]) m"
  by (auto simp: fg_ok_def nth_update split: if_splits)

lemma fg_ok_foreground:
  assumes "fg_ok js m" and "\<And>pid. m \<noteq> Wait pid" and "jpid j \<noteq> 0"
  shows "fg_ok (js[i := j]) (Wait (jpid j))"
  using assms by (auto simp: fg_ok_def nth_update split: if_splits)

lemma fg_ok_no_wait:
  assumes "fg_ok js m" and "\<And>pid. m \<noteq> Wait pid"
  shows "fg_ok js m'"
  using assms by (auto simp: fg_ok_def)

lemma fg_ok_prompt: "fg_ok js Prompt \<longleftrightarrow> (\<forall>j\<in>set js. jstate j \<noteq> FG)"
  by (auto simp: fg_ok_def all_set_conv_all_nth)

lemma mode_ok_clear: "mode_ok js m \<Longrightarrow> mode_ok (js[i := no_job]) m"
  by (auto simp: mode_ok_def nth_update split: mode.splits)

lemma mode_ok_state: "mode_ok js m \<Longrightarrow> mode_ok (js[i := (js ! i)\<lparr>jstate := st\<rparr>]) m"
  by (auto simp: mode_ok_def nth_update split: mode.splits)

lemma mode_ok_simps [simp]:
  "mode_ok js Prompt" "mode_ok js (Wait pid)" "mode_ok js (Print i)" "mode_ok js (Launched pid)" "mode_ok js (Listing i)"
  by (simp_all add: mode_ok_def)

lemma maxjid_fold:
  "a \<le> foldl (\<lambda>m j. if jjid j > m then jjid j else m) a js"
  "j \<in> set js \<Longrightarrow> jjid j \<le> foldl (\<lambda>m j. if jjid j > m then jjid j else m) a js"
proof -
  let ?f = "\<lambda>a js. foldl (\<lambda>m j. if jjid j > m then jjid j else m) a js"
  have start: "a \<le> ?f a js" for a js
  proof (induction js arbitrary: a)
    case (Cons j js)
    show ?case using Cons.IH [of "if jjid j > a then jjid j else a"] by (simp split: if_splits)
  qed simp
  have mono: "j \<in> set js \<Longrightarrow> jjid j \<le> ?f a js" for a
  proof (induction js arbitrary: a)
    case (Cons i js)
    show ?case
    proof (cases "j = i")
      case True
      then show ?thesis using start [of "if jjid j > a then jjid j else a" js] by (simp split: if_splits)
    next
      case False
      then show ?thesis using Cons.IH Cons.prems by auto
    qed
  qed simp
  show "a \<le> ?f a js" by (rule start)
  show "j \<in> set js \<Longrightarrow> jjid j \<le> ?f a js" by (rule mono)
qed

lemma maxjid_nonneg: "maxjid js \<ge> 0" using maxjid_fold(1) by (simp add: maxjid_def)

lemma maxjid_ge: "j \<in> set js \<Longrightarrow> jjid j \<le> maxjid js" using maxjid_fold(2) by (simp add: maxjid_def)

lemma say_sel [simp]:
  "sh_jobs (say s m) = sh_jobs s" "nextjid (say s m) = nextjid s" "verbose (say s m) = verbose s"
  "sh_kills (say s m) = sh_kills s"
  by (simp_all add: say_def)

lemma getjobpid_Some:
  "getjobpid js pid = Some i \<Longrightarrow> i < length js \<and> jpid (js ! i) = pid \<and> pid > 0"
  by (auto simp: getjobpid_def first_job_Some split: if_splits)

lemma getjobjid_Some:
  "getjobjid js jid = Some i \<Longrightarrow> i < length js \<and> jjid (js ! i) = jid \<and> jid > 0"
  by (auto simp: getjobjid_def first_job_Some split: if_splits)

text \<open>The result of \<^verbatim>\<open>addjob\<close> and \<^verbatim>\<open>deletejob\<close> on the table.\<close>

lemma addjob_cases:
  assumes "addjob s pid st c = (s', r)"
  obtains (bad) "pid < 1" "s' = s" "r = 0"
  | (full) "pid \<ge> 1" "\<forall>j\<in>set (sh_jobs s). jpid j \<noteq> 0" "s' = say s Too_many_jobs" "r = 0"
  | (added) i where "pid \<ge> 1" "i < length (sh_jobs s)" "jpid (sh_jobs s ! i) = 0"
      "\<forall>k<i. jpid (sh_jobs s ! k) \<noteq> 0"
      "sh_jobs s' = (sh_jobs s)[i := \<lparr>jpid = pid, jjid = nextjid s, jstate = st, jcmd = c\<rparr>]"
      "nextjid s' = (if nextjid s + 1 > int MAXJOBS then 1 else nextjid s + 1)"
      "sh_kills s' = sh_kills s" "r = 1"
proof (cases "pid < 1")
  case True
  then show ?thesis using assms bad by (auto simp: addjob_def)
next
  case False
  show ?thesis
  proof (cases "first_job (\<lambda>j. jpid j = 0) (sh_jobs s)")
    case None
    then have "s' = say s Too_many_jobs" "r = 0" using False assms by (auto simp: addjob_def)
    then show ?thesis using False None full by (simp add: first_job_None)
  next
    case (Some i)
    then have i: "i < length (sh_jobs s)" "jpid (sh_jobs s ! i) = 0" "\<forall>k<i. jpid (sh_jobs s ! k) \<noteq> 0"
      by (auto simp: first_job_Some)
    show ?thesis using assms Some False by (intro added [OF _ i]) (auto simp: addjob_def Let_def)
  qed
qed

lemma deletejob_cases:
  assumes "deletejob s pid = (s', r)"
  obtains (bad) "s' = s" "r = 0" "pid < 1 \<or> (\<forall>j\<in>set (sh_jobs s). jpid j \<noteq> pid)"
  | (deleted) i where "pid \<ge> 1" "i < length (sh_jobs s)" "jpid (sh_jobs s ! i) = pid" "r = 1"
      "s' = s\<lparr>sh_jobs := (sh_jobs s)[i := no_job], nextjid := maxjid ((sh_jobs s)[i := no_job]) + 1\<rparr>"
proof (cases "pid < 1 \<or> first_job (\<lambda>j. jpid j = pid) (sh_jobs s) = None")
  case True
  then have "s' = s" "r = 0" using assms by (auto simp: deletejob_def split: if_splits)
  then show ?thesis using True bad by (auto simp: first_job_None)
next
  case False
  then obtain i where i: "first_job (\<lambda>j. jpid j = pid) (sh_jobs s) = Some i" and p: "pid \<ge> 1" by auto
  show ?thesis
    using assms i p by (intro deleted [of i]) (auto simp: deletejob_def Let_def first_job_Some)
qed

section \<open>Every step keeps the table well formed\<close>

lemma shell_wf_init: "shell_wf late (shell_init v, Prompt)"
  by (auto simp: shell_wf_def shell_init_def initjobs_def jobs_wf_def fg_ok_def MAXJOBS_def nth_Cons' good_slot_def
      simp flip: no_job_def)

lemma shell_wf_sel:
  "shell_wf late (s, m) \<longleftrightarrow> jobs_wf (sh_jobs s) \<and> mode_ok (sh_jobs s) m \<and> nextjid s > 0 \<and> (late \<or> fg_ok (sh_jobs s) m)"
  by (simp add: shell_wf_def)

lemma shell_wf_same:
  "shell_wf late (s, m) \<Longrightarrow> sh_jobs s' = sh_jobs s \<Longrightarrow> nextjid s' = nextjid s \<Longrightarrow> shell_wf late (s', m)"
  by (simp add: shell_wf_sel)

text \<open>A command goes on: no job is in the foreground before or after.\<close>

lemma shell_wf_mode:
  assumes "shell_wf late (s, m)" and "\<And>pid. m \<noteq> Wait pid" and "mode_ok (sh_jobs s) m'"
  shows "shell_wf late (s, m')"
  using assms by (auto simp: shell_wf_sel intro: fg_ok_no_wait)

lemma send_wf: "send kill_ok s pid sig = Inr s' \<Longrightarrow>
    sh_jobs s' = sh_jobs s \<and> nextjid s' = nextjid s \<and> sh_kills s' = sh_kills s @ [(pid, sig)]"
  by (auto simp: send_def split: if_splits)

lemma print_job_info_wf: "print_job_info s i = Inr s' \<Longrightarrow> sh_jobs s' = sh_jobs s \<and> nextjid s' = nextjid s"
  by (auto simp: print_job_info_def Let_def split: option.splits)

lemma print_signal_info_wf:
  "print_signal_info s i t = Inr s' \<Longrightarrow> sh_jobs s' = sh_jobs s \<and> nextjid s' = nextjid s \<and> i \<noteq> None"
  by (auto simp: print_signal_info_def Let_def split: option.splits)

lemma list_slot_wf: "sh_jobs (list_slot s i) = sh_jobs s \<and> nextjid (list_slot s i) = nextjid s"
  by (simp add: list_slot_def Let_def)

lemma addjob_wf:
  assumes wf: "shell_wf late (s, Prompt)" and fresh: "\<forall>j\<in>set (sh_jobs s). jpid j \<noteq> pid"
    and st: "st = FG \<or> st = BG" and a: "addjob s pid st c = (s', r)"
  shows "shell_wf late (s', if st = FG then Wait pid else Launched pid)"
  using a
proof (cases rule: addjob_cases)
  case (added i)
  let ?j = "\<lparr>jpid = pid, jjid = nextjid s, jstate = st, jcmd = c\<rparr>"
  have w: "jobs_wf (sh_jobs s)" "nextjid s > 0" "late \<or> fg_ok (sh_jobs s) Prompt" using wf by (simp_all add: shell_wf_sel)
  have "jobs_wf (sh_jobs s')"
    unfolding added using w fresh added st by (intro jobs_wf_add) auto
  moreover have "\<not> late \<longrightarrow> fg_ok (sh_jobs s') (if st = FG then Wait pid else Launched pid)"
  proof
    assume "\<not> late"
    then have f: "fg_ok (sh_jobs s) Prompt" using w by simp
    have l: "fg_ok (sh_jobs s) (Launched pid)" by (rule fg_ok_no_wait [OF f]) simp
    show "fg_ok (sh_jobs s') (if st = FG then Wait pid else Launched pid)" using fg_ok_foreground [OF f, of ?j i] fg_ok_update [OF l, of ?j i] st \<open>pid \<ge> 1\<close>
      by (auto simp: added)
  qed
  moreover have "nextjid s' > 0" using w by (simp add: added)
  ultimately show ?thesis by (auto simp: shell_wf_sel)
next
  case full
  have "shell_wf late (s, if st = FG then Wait pid else Launched pid)" using shell_wf_mode [OF wf] by simp
  then show ?thesis using full by (simp add: shell_wf_sel)
next
  case bad
  then show ?thesis using shell_wf_mode [OF wf] by simp
qed

lemma deletejob_wf:
  assumes wf: "shell_wf late (s, m)" and d: "deletejob s pid = (s', r)"
  shows "shell_wf late (s', m)"
  using d
proof (cases rule: deletejob_cases)
  case (deleted i)
  then show ?thesis using wf maxjid_nonneg [of "(sh_jobs s)[i := no_job]"]
    by (auto simp: shell_wf_sel intro: jobs_wf_clear fg_ok_update mode_ok_clear)
qed (use wf in simp)

lemma set_state_wf:
  assumes wf: "shell_wf late (s, m)" and st: "st \<noteq> UNDEF" "st \<noteq> FG"
  shows "shell_wf late (set_state s i st, m)"
  using assms by (auto simp: shell_wf_sel set_state_def intro: jobs_wf_state mode_ok_state fg_ok_update)

lemma set_foreground_wf:
  assumes wf: "shell_wf late (s, Mark name i pid)" and l: "late \<or> jpid (sh_jobs s ! i) \<noteq> 0"
  shows "shell_wf late (set_state s i FG, Wait pid)"
proof -
  have w: "jobs_wf (sh_jobs s)" "late \<or> fg_ok (sh_jobs s) (Mark name i pid)" "nextjid s > 0"
    "jpid (sh_jobs s ! i) = 0 \<or> jpid (sh_jobs s ! i) = pid" using wf by (auto simp: shell_wf_sel mode_ok_def)
  have "fg_ok ((sh_jobs s)[i := (sh_jobs s ! i)\<lparr>jstate := FG\<rparr>]) (Wait pid)" if "\<not> late"
    using fg_ok_foreground [of "sh_jobs s" "Mark name i pid" "(sh_jobs s ! i)\<lparr>jstate := FG\<rparr>" i] w(2,4) l that by auto
  then show ?thesis using jobs_wf_state [OF w(1), of FG i] w(3) by (auto simp: shell_wf_sel set_state_def)
qed

lemma go_on_wf:
  assumes wf: "shell_wf late (s, m)" and l: "late \<or> \<not> late_mark s m" and g: "go_on kill_ok s m = Inr (s', m')"
  shows "shell_wf late (s', m')"
proof (cases "(kill_ok, s, m)" rule: go_on.cases)
  case (3 k t name i)
  have "mode_ok (sh_jobs s) (Resume name i (jpid (sh_jobs s ! i)))" using wf 3 by (auto simp: shell_wf_sel mode_ok_def)
  then have "shell_wf late (s, Resume name i (jpid (sh_jobs s ! i)))" using 3 by (intro shell_wf_mode [OF wf]) simp_all
  then show ?thesis using g 3 by auto
next
  case (4 k t name i pid)
  then obtain s1 where s1: "send kill_ok s (- pid) SIGCONT = Inr s1" "s' = s1" "m' = Mark name i pid"
    using g by (auto simp: map_sum_def split: sum.splits)
  have "mode_ok (sh_jobs s) (Mark name i pid)" using wf 4 by (auto simp: shell_wf_sel mode_ok_def)
  then have "shell_wf late (s, Mark name i pid)" using 4 by (intro shell_wf_mode [OF wf]) simp_all
  from shell_wf_same [OF this] show ?thesis using send_wf [OF s1(1)] s1 by simp
next
  case (5 k t name i pid)
  have "shell_wf late (s, Print i)" using shell_wf_mode [OF wf] 5 by simp
  then have "shell_wf late (set_state s i BG, Print i)" by (rule set_state_wf) simp_all
  moreover have "shell_wf late (set_state s i FG, Wait pid)" if "name = ''fg''"
    using set_foreground_wf [of late s name i pid] wf l 5 that by (simp add: late_mark_def)
  ultimately show ?thesis using g 5 by (auto split: if_splits)
next
  case (6 k t i)
  then have "shell_wf late (s, Prompt)" by (intro shell_wf_mode [OF wf]) simp_all
  note same = shell_wf_same [OF this]
  show ?thesis using g 6 same by (auto simp: map_sum_def split: sum.splits dest!: print_job_info_wf)
next
  case (7 k t pid)
  then have "shell_wf late (s, Prompt)" by (intro shell_wf_mode [OF wf]) simp_all
  note same = shell_wf_same [OF this]
  show ?thesis using g 7 same by (auto simp: map_sum_def split: sum.splits dest!: print_job_info_wf)
next
  case (8 k t i)
  then have w: "shell_wf late (s, Listing (Suc i))" "shell_wf late (s, Prompt)" by (intro shell_wf_mode [OF wf]; simp)+
  show ?thesis using g 8 w shell_wf_same [OF w(1) conjunct1 [OF list_slot_wf] conjunct2 [OF list_slot_wf]] by (auto split: if_splits)
qed (use g wf in auto)

lemma bgfg_find_wf:
  assumes wf: "shell_wf late (s, Prompt)" and r: "bgfg_find s argv = Inr (s', m)"
  shows "shell_wf late (s', m)"
proof -
  have say: "shell_wf late (say s msg, Prompt)" for msg using shell_wf_same [OF wf] by simp
  have f: "mode_ok (sh_jobs s) (Found name i)" if "getjobjid (sh_jobs s) n = Some i" for name n i
    using getjobjid_Some [OF that] by (simp add: mode_ok_def)
  have p: "mode_ok (sh_jobs s) (Resume name i n)" if "getjobpid (sh_jobs s) n = Some i" for name n i
    using getjobpid_Some [OF that] by (simp add: mode_ok_def)
  note mode = shell_wf_mode [OF wf mode.distinct(1)]
  consider name where "argv = [name]" | name arg rest where "argv = name # arg # rest"
    using r by (cases argv rule: remdups_adj.cases) (auto simp: bgfg_find_def)
  then show ?thesis
  proof cases
    case 1
    then show ?thesis using r say by (auto simp: bgfg_find_def)
  next
    case (2 name arg rest)
    let ?j = "getjobjid (sh_jobs s) (atoi (tl arg))" and ?p = "getjobpid (sh_jobs s) (atoi arg)"
    show ?thesis
    proof (cases "(arg \<noteq> [] \<and> hd arg = CHR ''%'') \<and> atoi (tl arg) \<noteq> 0")
      case True
      then show ?thesis using r say mode [OF f] by (cases ?j) (auto simp: bgfg_find_def 2)
    next
      case False
      note r = r [unfolded bgfg_find_def 2 list.case if_not_P [OF False]]
      show ?thesis
      proof (cases "atoi arg = 0")
        case True
        then show ?thesis using r say by auto
      next
        case False
        then show ?thesis using r say mode [OF p] by (cases ?p) auto
      qed
    qed
  qed
qed

lemma eval_start_wf:
  assumes wf: "shell_wf late (s, Prompt)" and fresh: "\<forall>j\<in>set (sh_jobs s). jpid j \<noteq> pid"
    and e: "eval_start s line pid = Inr (s', m)"
  shows "shell_wf late (s', m)"
proof -
  obtain argv bg where p: "parseline line = Some (argv, bg)" using e by (auto simp: eval_start_def split: option.splits)
  obtain s1 r where a: "addjob s pid (if bg then BG else FG) line = (s1, r)" by force
  have "shell_wf late (s1, if bg then Launched pid else Wait pid)"
    using addjob_wf [OF wf fresh _ a] by (auto split: if_splits)
  then show ?thesis using e p a wf bgfg_find_wf [OF wf] shell_wf_mode [OF wf]
    by (auto simp: eval_start_def builtin_cmd_def Let_def split: if_splits option.splits)
qed

lemma waitfg_done_wf:
  assumes wf: "shell_wf late (s, Wait pid)" and d: "waitfg_done s pid"
  shows "shell_wf late (s, Prompt)"
proof -
  have "fg_ok (sh_jobs s) Prompt" if "\<not> late"
  proof (rule ccontr)
    assume "\<not> fg_ok (sh_jobs s) Prompt"
    then have "first_job (\<lambda>j. jstate j = FG) (sh_jobs s) \<noteq> None" by (auto simp: fg_ok_prompt first_job_None)
    then obtain i where i: "first_job (\<lambda>j. jstate j = FG) (sh_jobs s) = Some i" by blast
    then have "jpid (sh_jobs s ! i) = pid" using wf that by (auto simp: shell_wf_sel fg_ok_def first_job_Some)
    then show False using d i by (simp add: waitfg_done_def fgpid_def)
  qed
  then show ?thesis using wf by (auto simp: shell_wf_sel)
qed

lemma reap_wf:
  assumes wf: "shell_wf late (s, m)" and r: "reap s (pid, st) = Inr s'"
  shows "shell_wf late (s', m)"
proof (cases st)
  case (Exited n)
  then show ?thesis using r deletejob_wf [OF wf] by (cases "deletejob s pid") (auto simp: reap_def)
next
  case (Signaled n)
  then obtain s1 where s1: "print_signal_info s (getjobpid (sh_jobs s) pid) ''terminated by signal 2'' = Inr s1"
    and s': "s' = fst (deletejob s1 pid)" using r by (auto simp: reap_def split: sum.splits)
  have "shell_wf late (s1, m)" using print_signal_info_wf [OF s1] wf by (auto intro: shell_wf_same)
  then show ?thesis using deletejob_wf s' by (cases "deletejob s1 pid") auto
next
  case (Stopped n)
  then obtain s1 where s1: "print_signal_info s (getjobpid (sh_jobs s) pid) ''stopped by signal 20'' = Inr s1"
    and s': "s' = set_state s1 (the (getjobpid (sh_jobs s) pid)) ST"
    using r by (auto simp: reap_def set_state_def Let_def split: sum.splits)
  have "shell_wf late (s1, m)" using print_signal_info_wf [OF s1] wf by (auto intro: shell_wf_same)
  then show ?thesis using s' by (auto intro: set_state_wf)
qed

lemma handlers_wf: "handlers kill_ok s s' \<Longrightarrow> shell_wf late (s, m) \<Longrightarrow> shell_wf late (s', m)"
proof (induction rule: handlers.induct)
  case (chld s s1 r s2)
  then show ?case using reap_wf [of late s1 m "fst r" "snd r" s2] by simp
next
  case (key s s1 pid s2 sig s3)
  then show ?case using send_wf [of kill_ok s2 "- pid" sig s3] by (auto intro: shell_wf_same)
qed

lemma shell_step_wf: "shell_step kill_ok late c c' \<Longrightarrow> shell_wf late c \<Longrightarrow> shell_wf late c'"
proof (induction rule: shell_step.induct)
  case (command pid s line s' m)
  then show ?case by (blast intro: eval_start_wf)
next
  case (goes_on m s s' m')
  then show ?case by (blast intro: go_on_wf)
next
  case (waited s pid)
  then show ?case by (blast intro: waitfg_done_wf)
next
  case (signals s s' m)
  then show ?case by (blast intro: handlers_wf)
qed

lemma shell_reach_wf: "shell_reach kill_ok late v c \<Longrightarrow> shell_wf late c"
  by (induction rule: shell_reach.induct) (auto intro: shell_wf_init shell_step_wf)

lemma fg_ok_fgpid:
  assumes fg: "fg_ok js m" and j: "j \<in> set js" "jstate j = FG"
  shows "fgpid js = jpid j"
proof -
  have "first_job (\<lambda>j. jstate j = FG) js \<noteq> None" using j by (auto simp: first_job_None)
  then obtain i where i: "first_job (\<lambda>j. jstate j = FG) js = Some i" by blast
  have k: "i < length js" "jstate (js ! i) = FG" using i by (auto simp: first_job_Some)
  have "m = Wait (jpid j)" using j fg by (auto simp: fg_ok_def in_set_conv_nth)
  moreover have "m = Wait (jpid (js ! i))" using k fg by (simp add: fg_ok_def)
  ultimately show ?thesis using i by (simp add: fgpid_def)
qed

text \<open>
  C9. In every state that the shell reaches, whatever the commands, the children and the signals, at every point where a
  handler may run, the sixteen slots of the job list are empty or hold a job with a positive pid and number, and no
  two jobs have the same pid.  As long as no job was reaped between the SIGCONT of \<^verbatim>\<open>fg\<close> and the update of its state
  (\<open>\<not> late\<close>; see \<open>late_fg\<close> for what happens then), at most one job is in the foreground: the one that the shell waits for.
\<close>

theorem shell_invariant:
  assumes "shell_reach kill_ok late v (s, m)"
  shows "length (sh_jobs s) = MAXJOBS \<and>
    (\<forall>j\<in>set (sh_jobs s). empty_slot j \<or> jpid j > 0 \<and> jjid j > 0 \<and> jstate j \<noteq> UNDEF) \<and>
    distinct (filter (\<lambda>p. p \<noteq> 0) (map jpid (sh_jobs s))) \<and>
    (\<not> late \<longrightarrow>
      (\<forall>j\<in>set (sh_jobs s). jstate j = FG \<longrightarrow> jpid j > 0 \<and> m = Wait (jpid j) \<and> fgpid (sh_jobs s) = jpid j) \<and>
      ((\<forall>pid. m \<noteq> Wait pid) \<longrightarrow> fgpid (sh_jobs s) = 0))"
proof -
  have wf: "jobs_wf (sh_jobs s)" and fg: "late \<or> fg_ok (sh_jobs s) m"
    using shell_reach_wf [OF assms] by (simp_all add: shell_wf_sel)
  have len: "length (sh_jobs s) = MAXJOBS" using wf by (simp add: jobs_wf_def)
  have slots: "\<forall>j\<in>set (sh_jobs s). empty_slot j \<or> jpid j > 0 \<and> jjid j > 0 \<and> jstate j \<noteq> UNDEF"
    using jobs_wf_slot [OF wf] by (simp add: all_set_conv_all_nth good_slot_def)
  have dis: "distinct (filter (\<lambda>p. p \<noteq> 0) (map jpid (sh_jobs s)))"
    by (rule distinct_filter_nth) (use jobs_wf_inj [OF wf] in auto)
  have same: "jpid j > 0 \<and> m = Wait (jpid j) \<and> fgpid (sh_jobs s) = jpid j"
    if "\<not> late" and j: "j \<in> set (sh_jobs s)" "jstate j = FG" for j
  proof -
    have f: "fg_ok (sh_jobs s) m" using fg that(1) by simp
    then show ?thesis using fg_ok_fgpid [OF f j] j jobs_wf_pid [OF wf] by (auto simp: fg_ok_def in_set_conv_nth)
  qed
  have prompt: "fgpid (sh_jobs s) = 0" if "\<not> late" "\<forall>pid. m \<noteq> Wait pid"
    using fg that by (auto simp: fgpid_def fg_ok_def first_job_Some split: option.splits)
  show ?thesis using len slots dis same prompt by blast
qed

definition kill_all_ok :: "int \<Rightarrow> nat \<Rightarrow> bool" where
  "kill_all_ok pid sig \<longleftrightarrow> True"

text \<open>A command that no signal interrupts is a sequence of steps.\<close>

lemma settle_reach:
  assumes "shell_reach kill_ok late v (s, m)" and "settle kill_ok s m = Inr c" and "late"
  shows "shell_reach kill_ok late v c"
  using assms
proof (induction kill_ok s m rule: settle.induct)
  case (1 kill_ok s m)
  show ?case
  proof (cases "steps_left m = 0")
    case True
    then show ?thesis using 1 by (simp add: settle.simps [of kill_ok s m])
  next
    case False
    then obtain s1 m1 where g: "go_on kill_ok s m = Inr (s1, m1)" "settle kill_ok s1 m1 = Inr c"
      using 1(3) by (auto simp: settle.simps [of kill_ok s m] split: sum.splits)
    have "shell_reach kill_ok late v (s1, m1)"
      using False g(1) 1(4) by (intro shell_reach.run [OF 1(2)] goes_on) auto
    then show ?thesis using 1(1) [OF False g(1) refl] g(2) 1(4) by blast
  qed
qed

lemma reach_start:
  "shell_reach kill_ok late v (s, Prompt) \<Longrightarrow> list_all (\<lambda>j. jpid j \<noteq> pid) (sh_jobs s) \<Longrightarrow> pid \<noteq> 0 \<Longrightarrow>
     eval_start s line pid = Inr c \<Longrightarrow> shell_reach kill_ok late v c"
  by (cases c) (auto intro!: shell_reach.run [of kill_ok late v "(s, Prompt)"] shell_step.command simp: list_all_iff)

lemma reach_command:
  assumes "shell_reach kill_ok True v (s, Prompt)" and "list_all (\<lambda>j. jpid j \<noteq> pid) (sh_jobs s)" and "pid \<noteq> 0"
    and "eval kill_ok s line pid = Inr c"
  shows "shell_reach kill_ok True v c"
proof -
  obtain s1 m1 where e: "eval_start s line pid = Inr (s1, m1)" "settle kill_ok s1 m1 = Inr c"
    using assms(4) by (auto simp: eval_def split: sum.splits)
  show ?thesis using settle_reach [OF reach_start [OF assms(1-3) e(1)] e(2)] by simp
qed

lemma shell_invariant_witness:
  "let s = fst (projr (eval_start (shell_init False) ''ls\<newline>'' 5))
   in shell_reach kill_all_ok False False (s, Wait 5) \<and>
      length (sh_jobs s) = MAXJOBS \<and> distinct (filter (\<lambda>p. p \<noteq> 0) (map jpid (sh_jobs s))) \<and>
      (\<forall>j\<in>set (sh_jobs s). jstate j = FG \<longrightarrow> jpid j = 5) \<and> fgpid (sh_jobs s) = 5"
proof -
  let ?s = "fst (projr (eval_start (shell_init False) ''ls\<newline>'' 5))"
  have e: "eval_start (shell_init False) ''ls\<newline>'' 5 = Inr (?s, Wait 5)" by code_simp
  have r: "shell_reach kill_all_ok False False (?s, Wait 5)"
    by (rule reach_start [OF shell_reach.boot _ _ e]) (simp_all add: list_all_iff shell_init_def initjobs_def)
  have "fgpid (sh_jobs ?s) = 5" by code_simp
  then show ?thesis using r shell_invariant [OF r] unfolding Let_def by auto
qed

end
