(* ===== verification/TshTheorems.thy ===== *)
theory TshTheorems
  imports TshCorrect
begin

text \<open>
  The parser of the shell against a printer of command lines, the signals that the shell sends,
  and the numbers of the jobs.
\<close>

section \<open>Parsing what was printed\<close>

text \<open>A word with a space in it, or an empty one, is written in quotes.\<close>

definition arg_text :: "string \<Rightarrow> string" where
  "arg_text w = (if w = [] \<or> space \<in> set w then quote # w @ [quote] else w)"

definition command_line :: "string list \<Rightarrow> string" where
  "command_line ws = concat (map (\<lambda>w. arg_text w @ [space]) ws)"

lemma takeWhile_stop: "c \<notin> set w \<Longrightarrow> takeWhile (\<lambda>x. x \<noteq> c) (w @ c # r) = w"
  by (induction w) auto

lemma dropWhile_stop: "c \<notin> set w \<Longrightarrow> dropWhile (\<lambda>x. x \<noteq> c) (w @ c # r) = c # r"
  by (induction w) auto

lemma strchr_append: "c \<notin> set w \<Longrightarrow> strchr (w @ c # r) c = Some (w, r)"
  by (simp add: strchr_def takeWhile_stop dropWhile_stop)

lemma next_arg_space: "next_arg (space # s) = next_arg s"
  by (simp add: next_arg_def)

lemma args_space: "args (space # s) = args s"
  by (simp add: args.simps [of s] args.simps [of "space # s"] next_arg_space)

lemma args_Nil: "args [] = []"
  by (simp add: args.simps [of "[]"] next_arg_def)

lemma args_plain:
  assumes "quote \<notin> set w" and "w \<noteq> []" and "space \<notin> set w"
  shows "args (w @ space # r) = w # args r"
proof -
  obtain c cs where w: "w = c # cs" using assms(2) by (cases w) auto
  have "next_arg (w @ space # r) = Some (w, r)"
    using assms strchr_append [of space w r] by (auto simp: w next_arg_def)
  then show ?thesis by (simp add: args.simps [of "w @ space # r"])
qed

lemma args_quoted:
  assumes "quote \<notin> set w"
  shows "args (quote # w @ quote # space # r) = w # args r"
proof -
  have "next_arg (quote # w @ quote # space # r) = Some (w, space # r)"
    using strchr_append [OF assms, of "space # r"] by (simp add: next_arg_def)
  then show ?thesis by (simp add: args.simps [of "quote # w @ quote # space # r"] args_space)
qed

lemma args_command_line: "\<forall>w\<in>set ws. quote \<notin> set w \<Longrightarrow> args (command_line ws) = ws"
proof (induction ws)
  case (Cons w ws)
  then show ?case using args_plain [of w "command_line ws"] args_quoted [of w "command_line ws"]
    by (simp add: command_line_def arg_text_def)
qed (simp add: command_line_def args_Nil)

lemma command_line_last: "ws \<noteq> [] \<Longrightarrow> butlast (command_line ws) @ [space] = command_line ws"
  by (cases ws rule: rev_cases) (simp_all add: command_line_def butlast_append)

text \<open>
  C13. Parsing a printed command line gives the words back: for every list of fewer than 128 words
  without quotes, written with quotes around the words that need them and with the newline that
  \<^verbatim>\<open>fgets\<close> keeps in place of the last space, on a line of fewer than 1024 characters, \<^verbatim>\<open>parseline\<close> returns the words, and the job
  runs in the background exactly when the last word starts with an ampersand, which is removed.
\<close>

theorem parseline_command_line:
  assumes "ws \<noteq> []" and "length ws < MAXARGS" and "\<forall>w\<in>set ws. quote \<notin> set w"
    and "length (command_line ws) < MAXLINE"
  shows "parseline (butlast (command_line ws) @ ''\<newline>'') =
    (if last ws \<noteq> [] \<and> hd (last ws) = CHR ''&'' then Some (butlast ws, True) else Some (ws, False))"
proof -
  have "command_line ws \<noteq> []" using assms(1) by (cases ws) (simp_all add: command_line_def)
  then show ?thesis using assms args_command_line [OF assms(3)] command_line_last [OF assms(1)]
    by (auto simp: parseline_def Let_def split: list.splits)
qed

lemma parseline_command_line_witness:
  "parseline ''cp 'my file' dst &\<newline>'' = Some ([''cp'', ''my file'', ''dst''], True)"
  using parseline_command_line [of "[''cp'', ''my file'', ''dst'', ''&'']"]
  by (simp add: command_line_def arg_text_def MAXARGS_def MAXLINE_def)

section \<open>Signals from the keyboard\<close>



section \<open>The built-in commands fg and bg\<close>

text \<open>
  How an argument names the job in slot \<open>i\<close>: by its pid, or by a percent sign and its number.  When two jobs have the
  same number (see \<open>job_numbers\<close>), it names the first of them.
\<close>

definition names_slot :: "job list \<Rightarrow> string \<Rightarrow> nat \<Rightarrow> bool" where
  "names_slot js arg i \<longleftrightarrow> i < length js \<and> jpid (js ! i) \<noteq> 0 \<and>
     (case arg of
        [] \<Rightarrow> False
      | c # num \<Rightarrow>
          if c = CHR ''%'' then atoi num = jjid (js ! i) \<and> (\<forall>k<i. jjid (js ! k) \<noteq> jjid (js ! i))
          else atoi arg = jpid (js ! i))"

lemma settle_resume:
  assumes "kill_ok (- p) SIGCONT"
  shows "settle kill_ok s (Resume ''fg'' i p) = Inr (set_state (s\<lparr>sh_kills := sh_kills s @ [(- p, SIGCONT)]\<rparr>) i FG, Wait p)"
    and "i < length (sh_jobs s) \<Longrightarrow> settle kill_ok s (Resume ''bg'' i p) =
      Inr (say (set_state (s\<lparr>sh_kills := sh_kills s @ [(- p, SIGCONT)]\<rparr>) i BG)
        (Job_info (jjid (sh_jobs s ! i)) (jpid (sh_jobs s ! i)) (jcmd (sh_jobs s ! i))), Prompt)"
  using assms by (simp_all add: settle.simps [of kill_ok] send_def print_job_info_def set_state_def Let_def)

text \<open>
  C16. At the prompt of a reachable state, \<^verbatim>\<open>fg\<close> and \<^verbatim>\<open>bg\<close> with the pid of a job, or with a percent sign and its number, send
  SIGCONT to the process group of this job, and of no other, and change the state of this job only: \<^verbatim>\<open>fg\<close>
  puts it in the foreground and waits for it, \<^verbatim>\<open>bg\<close> puts it in the background, prints it and
  returns to the prompt.  This is for a command that no signal interrupts.
\<close>

theorem fg_bg_named:
  assumes reach: "shell_reach kill_ok late v (s, Prompt)" and i: "names_slot (sh_jobs s) arg i"
    and p: "jpid (sh_jobs s ! i) = p" and ok: "kill_ok (- p) SIGCONT"
  shows "do_bgfg kill_ok s [''fg'', arg] =
      Inr (s\<lparr>sh_kills := sh_kills s @ [(- p, SIGCONT)],
             sh_jobs := (sh_jobs s)[i := (sh_jobs s ! i)\<lparr>jstate := FG\<rparr>]\<rparr>, Wait p) \<and>
    do_bgfg kill_ok s [''bg'', arg] =
      Inr (s\<lparr>sh_kills := sh_kills s @ [(- p, SIGCONT)],
             sh_jobs := (sh_jobs s)[i := (sh_jobs s ! i)\<lparr>jstate := BG\<rparr>],
             sh_out := sh_out s @ [Job_info (jjid (sh_jobs s ! i)) p (jcmd (sh_jobs s ! i))]\<rparr>, Prompt)"
proof -
  have wf: "jobs_wf (sh_jobs s)" using shell_reach_wf [OF reach] by (simp add: shell_wf_sel)
  have il: "i < length (sh_jobs s)" "p \<noteq> 0" using i p by (auto simp: names_slot_def)
  have pos: "p \<ge> 1" "jjid (sh_jobs s ! i) \<ge> 1" using jobs_wf_pid [OF wf il(1)] il(2) p by auto
  obtain c num where arg: "arg = c # num" using i by (cases arg) (auto simp: names_slot_def)
  have find: "bgfg_find s [name, arg] = Inr (s, Found name i) \<or> bgfg_find s [name, arg] = Inr (s, Resume name i p)" for name
  proof (cases "c = CHR ''%''")
    case True
    then have n: "atoi num = jjid (sh_jobs s ! i)" "\<forall>k<i. jjid (sh_jobs s ! k) \<noteq> jjid (sh_jobs s ! i)"
      using i by (auto simp: names_slot_def arg)
    have "getjobjid (sh_jobs s) (atoi num) = Some i" using n il pos by (simp add: getjobjid_def first_job_Some)
    then show ?thesis using True n pos by (simp add: bgfg_find_def arg)
  next
    case False
    then have n: "atoi arg = p" using i p by (auto simp: names_slot_def arg)
    have "jpid (sh_jobs s ! k) \<noteq> p" if "k < i" for k
      using jobs_wf_inj [OF wf, of k i] that il p by auto
    then have "getjobpid (sh_jobs s) p = Some i" using il pos p by (simp add: getjobpid_def first_job_Some)
    then show ?thesis using False n pos by (simp add: bgfg_find_def arg [symmetric]) (simp add: arg)
  qed
  have f: "settle kill_ok s (Found name i) = settle kill_ok s (Resume name i p)" for name
    using p by (simp add: settle.simps [of kill_ok s "Found name i"])
  have "do_bgfg kill_ok s [name, arg] = settle kill_ok s (Resume name i p)" for name
    using find [of name] by (auto simp: do_bgfg_def f)
  then show ?thesis using settle_resume [where kill_ok = kill_ok and p = p and s = s and i = i] ok il p by (simp add: set_state_def say_def)
qed

section \<open>The numbers of the jobs\<close>

abbreviation bg_line :: string where "bg_line \<equiv> ''a &\<newline>''"

lemma parse_bg_line: "parseline bg_line = Some ([''a''], True)" by code_simp

lemma spawn_bg:
  assumes reach: "shell_reach kill_ok True v (s, Prompt)" and p: "p \<ge> 1" "\<forall>j\<in>set (sh_jobs s). jpid j \<noteq> p"
    and i: "first_job (\<lambda>j. jpid j = 0) (sh_jobs s) = Some i"
  shows "\<exists>s'. shell_reach kill_ok True v (s', Prompt) \<and>
    sh_jobs s' = (sh_jobs s)[i := \<lparr>jpid = p, jjid = nextjid s, jstate = BG, jcmd = bg_line\<rparr>] \<and>
    nextjid s' = (if nextjid s + 1 > int MAXJOBS then 1 else nextjid s + 1)"
proof -
  obtain s1 r where a: "addjob s p BG bg_line = (s1, r)" by force
  have s1: "sh_jobs s1 = (sh_jobs s)[i := \<lparr>jpid = p, jjid = nextjid s, jstate = BG, jcmd = bg_line\<rparr>]"
    "nextjid s1 = (if nextjid s + 1 > int MAXJOBS then 1 else nextjid s + 1)"
    using a i p by (auto simp: addjob_def Let_def split: if_splits)
  have "i < length (sh_jobs s)" using i by (simp add: first_job_Some)
  then have "\<exists>j\<in>set (sh_jobs s1). jpid j = p" 
    unfolding s1 by (intro bexI [of _ "\<lparr>jpid = p, jjid = nextjid s, jstate = BG, jcmd = bg_line\<rparr>"])
      (simp_all add: set_update_memI)
  then have "first_job (\<lambda>j. jpid j = p) (sh_jobs s1) \<noteq> None" by (auto simp: first_job_None)
  then obtain k where k: "getjobpid (sh_jobs s1) p = Some k" using p by (auto simp: getjobpid_def)
  obtain s2 where s2: "print_job_info s1 (getjobpid (sh_jobs s1) p) = Inr s2"
    by (simp add: k print_job_info_def Let_def)
  have "eval kill_ok s bg_line p = Inr (s2, Prompt)"
    using s2 p by (simp add: eval_def eval_start_def parse_bg_line builtin_cmd_def a settle.simps [of kill_ok])
  then have "shell_reach kill_ok True v (s2, Prompt)"
    using reach p by (intro reach_command [OF reach]) (auto simp: list_all_iff)
  then show ?thesis using s1 print_job_info_wf [OF s2] by auto
qed

lemma job_exits:
  assumes reach: "shell_reach kill_ok True v (s, m)" and p: "p \<ge> 1"
    and i: "first_job (\<lambda>j. jpid j = p) (sh_jobs s) = Some i"
  shows "\<exists>s'. shell_reach kill_ok True v (s', m) \<and> sh_jobs s' = (sh_jobs s)[i := no_job] \<and>
    nextjid s' = maxjid ((sh_jobs s)[i := no_job]) + 1"
proof -
  let ?s = "fst (deletejob s p)"
  have "handlers kill_ok s ?s" by (rule handlers.chld [OF handlers.idle, of _ "(p, Exited 0)"]) (simp add: reap_def)
  then have "shell_step kill_ok True (s, m) (?s, m)" by (rule shell_step.signals)
  then have "shell_reach kill_ok True v (?s, m)" using reach shell_reach.run by blast
  then show ?thesis using i p by (intro exI [of _ ?s]) (simp add: deletejob_def Let_def)
qed

text \<open>
  The table with the jobs of pid 1 and 2, the first with number 1 and the second with number
  \<open>n\<close>: two more jobs are started and the older ones end, and the number has grown by two.
\<close>

definition bg_job :: "int \<Rightarrow> int \<Rightarrow> job" where
  "bg_job p n = \<lparr>jpid = p, jjid = n, jstate = BG, jcmd = bg_line\<rparr>"

lemma bg_job_sel [simp]: "jpid (bg_job p n) = p" "jjid (bg_job p n) = n" "jstate (bg_job p n) = BG"
  by (simp_all add: bg_job_def)

definition two_jobs :: "int \<Rightarrow> job list" where
  "two_jobs n = bg_job 1 1 # bg_job 2 n # replicate 14 no_job"

lemma replicate_14: "replicate 14 x = x # replicate 13 x"
  by (simp add: numeral_eq_Suc)

lemma foldl_replicate_same: "f a x = a \<Longrightarrow> foldl f a (replicate n x) = a"
  by (induction n) auto

lemma maxjid_empty_slots: "0 \<le> a \<Longrightarrow>
    foldl (\<lambda>m j. if jjid j > m then jjid j else m) a (replicate n no_job) = a"
  by (rule foldl_replicate_same) simp

lemma grow_step:
  assumes reach: "shell_reach kill_ok True v (s, Prompt)" and js: "sh_jobs s = two_jobs n"
    and nx: "nextjid s = n + 1" and n: "n \<ge> 2"
  shows "\<exists>s'. shell_reach kill_ok True v (s', Prompt) \<and> sh_jobs s' = two_jobs (n + 2) \<and> nextjid s' = n + 3"
proof -
  obtain s1 where s1: "shell_reach kill_ok True v (s1, Prompt)"
    "sh_jobs s1 = bg_job 1 1 # bg_job 2 n # bg_job 3 (n + 1) # replicate 13 no_job"
    using spawn_bg [OF reach, of 3 2] by (auto simp: js nx two_jobs_def replicate_14 simp flip: bg_job_def)
  obtain s2 where s2: "shell_reach kill_ok True v (s2, Prompt)"
    "sh_jobs s2 = bg_job 1 1 # no_job # bg_job 3 (n + 1) # replicate 13 no_job" "nextjid s2 = n + 2"
    using job_exits [OF s1(1), of 2 1] n by (auto simp: s1 maxjid_def maxjid_empty_slots)
  obtain s3 where s3: "shell_reach kill_ok True v (s3, Prompt)"
    "sh_jobs s3 = bg_job 1 1 # bg_job 2 (n + 2) # bg_job 3 (n + 1) # replicate 13 no_job"
    using spawn_bg [OF s2(1), of 2 1] by (auto simp: s2 simp flip: bg_job_def)
  obtain s4 where "shell_reach kill_ok True v (s4, Prompt)"
    "sh_jobs s4 = bg_job 1 1 # bg_job 2 (n + 2) # no_job # replicate 13 no_job" "nextjid s4 = n + 3"
    using job_exits [OF s3(1), of 3 2] n by (auto simp: s3 maxjid_def maxjid_empty_slots)
  then show ?thesis by (auto simp: two_jobs_def replicate_14)
qed

lemma two_jobs_start:
  "\<exists>s. shell_reach kill_ok True v (s, Prompt) \<and> sh_jobs s = two_jobs 2 \<and> nextjid s = 3"
proof -
  have i: "sh_jobs (shell_init v) = no_job # no_job # replicate 14 no_job" "nextjid (shell_init v) = 1"
    by (simp_all add: shell_init_def initjobs_def MAXJOBS_def numeral_eq_Suc)
  obtain s1 where s1: "shell_reach kill_ok True v (s1, Prompt)" "nextjid s1 = 2"
    "sh_jobs s1 = bg_job 1 1 # no_job # replicate 14 no_job"
    using spawn_bg [OF shell_reach.boot, of 1 v 0 kill_ok] by (auto simp: i MAXJOBS_def simp flip: bg_job_def)
  then show ?thesis
    using spawn_bg [OF s1(1), of 2 1] by (auto simp: MAXJOBS_def two_jobs_def simp flip: bg_job_def)
qed

lemma two_jobs_reachable:
  "\<exists>s. shell_reach kill_ok True v (s, Prompt) \<and> sh_jobs s = two_jobs (2 * int k + 2) \<and> nextjid s = 2 * int k + 3"
proof (induction k)
  case 0
  then show ?case using two_jobs_start by simp
next
  case (Suc k)
  then obtain s where "shell_reach kill_ok True v (s, Prompt)" "sh_jobs s = two_jobs (2 * int k + 2)"
    "nextjid s = 2 * int k + 3" by blast
  then show ?case using grow_step [of kill_ok v s "2 * int k + 2"] by (auto simp: algebra_simps)
qed

text \<open>
  The wrap-around of \<^verbatim>\<open>addjob\<close> bounds neither the numbers of the jobs nor keeps them apart:
  with at most three jobs at a time, states are reachable with a job number above any bound, and
  a state is reachable in which two jobs have the same number, so that \<^verbatim>\<open>getjobjid\<close>, and with it
  \<^verbatim>\<open>fg %1\<close>, finds the first of them only.
\<close>

theorem job_numbers:
  "(\<forall>n. \<exists>s. shell_reach kill_ok True v (s, Prompt) \<and> (\<exists>j\<in>set (sh_jobs s). jjid j > n)) \<and>
   (\<exists>s. shell_reach kill_ok True v (s, Prompt) \<and>
      (\<exists>i<length (sh_jobs s). \<exists>k<length (sh_jobs s). i \<noteq> k \<and> jpid (sh_jobs s ! i) \<noteq> jpid (sh_jobs s ! k) \<and>
         jjid (sh_jobs s ! i) = 1 \<and> jjid (sh_jobs s ! k) = 1 \<and> getjobjid (sh_jobs s) 1 = Some i))"
proof (intro conjI allI)
  fix n :: int
  obtain s where s: "shell_reach kill_ok True v (s, Prompt)" "sh_jobs s = two_jobs (2 * int (nat n) + 2)"
    using two_jobs_reachable by blast
  have "\<exists>j\<in>set (sh_jobs s). jjid j > n" by (simp add: s two_jobs_def)
  then show "\<exists>s. shell_reach kill_ok True v (s, Prompt) \<and> (\<exists>j\<in>set (sh_jobs s). jjid j > n)" using s by blast
next
  obtain s where s: "shell_reach kill_ok True v (s, Prompt)" "sh_jobs s = two_jobs 16" "nextjid s = 17"
    using two_jobs_reachable [of kill_ok v 7] by auto
  obtain s1 where s1: "shell_reach kill_ok True v (s1, Prompt)" "nextjid s1 = 1"
    "sh_jobs s1 = bg_job 1 1 # bg_job 2 16 # bg_job 3 17 # replicate 13 no_job"
    using spawn_bg [OF s(1), of 3 2] by (auto simp: s two_jobs_def replicate_14 MAXJOBS_def simp flip: bg_job_def)
  have r: "replicate 13 no_job = no_job # replicate 12 no_job" by (simp add: numeral_eq_Suc)
  obtain s2 where s2: "shell_reach kill_ok True v (s2, Prompt)"
    "sh_jobs s2 = bg_job 1 1 # bg_job 2 16 # bg_job 3 17 # bg_job 4 1 # replicate 12 no_job"
    using spawn_bg [OF s1(1), of 4 3] by (auto simp: s1 r simp flip: bg_job_def)
  show "\<exists>s. shell_reach kill_ok True v (s, Prompt) \<and>
      (\<exists>i<length (sh_jobs s). \<exists>k<length (sh_jobs s). i \<noteq> k \<and> jpid (sh_jobs s ! i) \<noteq> jpid (sh_jobs s ! k) \<and>
         jjid (sh_jobs s ! i) = 1 \<and> jjid (sh_jobs s ! k) = 1 \<and> getjobjid (sh_jobs s) 1 = Some i)"
    using s2 by (intro exI [of _ s2] conjI exI [of _ 0] exI [of _ "3::nat"]) (auto simp: getjobjid_def)
qed

section \<open>A full table, and jobs that end too early\<close>

text \<open>
  When the table is full, a command in the background makes the shell dereference a null
  pointer: \<^verbatim>\<open>addjob\<close> reports the failure, \<^verbatim>\<open>eval\<close> ignores it and prints the job that is not
  in the list.  The child is already running by then.
\<close>

theorem full_table_crash:
  assumes full: "\<forall>j\<in>set (sh_jobs s). jpid j \<noteq> 0" and fresh: "\<forall>j\<in>set (sh_jobs s). jpid j \<noteq> pid"
    and pid: "pid \<ge> 1" and line: "parseline line = Some (argv, True)" "argv \<noteq> []"
    and b: "builtin_cmd s argv = None"
  shows "addjob s pid BG line = (say s Too_many_jobs, 0) \<and> eval kill_ok s line pid = Inl Segv"
proof -
  have n: "first_job (\<lambda>j. jpid j = 0) (sh_jobs s) = None" using full by (simp add: first_job_None)
  have g: "getjobpid (sh_jobs s) pid = None" using fresh by (simp add: getjobpid_def first_job_None)
  have a: "addjob s pid BG line = (say s Too_many_jobs, 0)" using n pid by (simp add: addjob_def)
  show ?thesis using a g line b pid by (simp add: eval_def eval_start_def print_job_info_def settle.simps [of kill_ok])
qed

lemma full_table_crash_witness:
  "let s = (shell_init False)\<lparr>sh_jobs := replicate 16 (bg_job 7 1)\<rparr>
   in eval kill_all_ok s ''a &\<newline>'' 8 = Inl Segv"
  using full_table_crash [of "(shell_init False)\<lparr>sh_jobs := replicate 16 (bg_job 7 1)\<rparr>" 8 bg_line "[''a'']" kill_all_ok]
    parse_bg_line by (simp add: builtin_cmd_def)

text \<open>
  The same happens to a command in the background that ends before it is printed: the signals are unblocked by
  then, so that the handler takes the job out of the list and \<^verbatim>\<open>getjobpid\<close> returns a null pointer.
\<close>

theorem launched_race:
  assumes reach: "shell_reach kill_ok late v (s, Launched pid)" and r: "reap s (pid, Exited st) = Inr s'"
  shows "shell_reach kill_ok late v (s', Launched pid) \<and> go_on kill_ok s' (Launched pid) = Inl Segv"
proof
  have "handlers kill_ok s s'" by (rule handlers.chld [OF handlers.idle r])
  then show "shell_reach kill_ok late v (s', Launched pid)" using reach shell_reach.run signals by blast
  have wf: "jobs_wf (sh_jobs s)" using shell_reach_wf [OF reach] by (simp add: shell_wf_sel)
  have d: "deletejob s pid = (s', snd (deletejob s pid))" using r by (auto simp: reap_def prod_eq_iff)
  have "getjobpid (sh_jobs s') pid = None"
    using d
  proof (cases rule: deletejob_cases)
    case (deleted i)
    have "jpid ((sh_jobs s)[i := no_job] ! k) \<noteq> pid" if "k < length (sh_jobs s)" for k
      using jobs_wf_inj [OF wf, of k i] that deleted by (auto simp: nth_update)
    then show ?thesis using deleted by (simp add: getjobpid_def first_job_None all_set_conv_all_nth)
  qed (auto simp: getjobpid_def first_job_None)
  then show "go_on kill_ok s' (Launched pid) = Inl Segv" by (simp add: print_job_info_def)
qed

text \<open>
  \<^verbatim>\<open>do_bgfg\<close> does not block SIGCHLD: when the job ends between the signal and the update of
  its state, the empty slot is marked as the foreground job.  From then on \<^verbatim>\<open>fgpid\<close> is 0 as
  long as no job stands before the slot in the foreground: a later foreground job is not waited
  for, and ctrl-c is not forwarded to it.  A run: two jobs are started in the background; \<^verbatim>\<open>fg 5\<close> sends SIGCONT, and the job ends;
  the slot is marked and the wait is over at once; \<^verbatim>\<open>fg 6\<close> puts the other job in the foreground, and returns to the prompt at once.
\<close>

definition late_1 :: shell where
  "late_1 = fst (projr (eval kill_all_ok (fst (projr (eval kill_all_ok (shell_init False) bg_line 5))) bg_line 6))"

definition late_2 :: shell where
  "late_2 = projr (send kill_all_ok late_1 (-5) SIGCONT)"

definition late_3 :: shell where
  "late_3 = projr (reap late_2 (5, Exited 0))"

definition late_4 :: shell where
  "late_4 = set_state late_3 0 FG"

definition late_5 :: shell where
  "late_5 = fst (projr (eval kill_all_ok late_4 ''fg 6\<newline>'' 7))"

lemma late_runs:
  "shell_reach kill_all_ok True False (late_1, Prompt)" "shell_reach kill_all_ok True False (late_4, Prompt)"
  "shell_reach kill_all_ok True False (late_5, Prompt)"
proof -
  let ?r = "shell_reach kill_all_ok True False"
  let ?s0 = "fst (projr (eval kill_all_ok (shell_init False) bg_line 5))"
  have e0: "eval kill_all_ok (shell_init False) bg_line 5 = Inr (?s0, Prompt)" by code_simp
  have r0: "?r (?s0, Prompt)"
    by (rule reach_command [OF shell_reach.boot _ _ e0]) (simp_all add: list_all_iff shell_init_def initjobs_def)
  have e1: "eval kill_all_ok ?s0 bg_line 6 = Inr (late_1, Prompt)" "list_all (\<lambda>j. jpid j \<noteq> 6) (sh_jobs ?s0)" by code_simp+
  show r1: "?r (late_1, Prompt)" by (rule reach_command [OF r0 e1(2) _ e1(1)]) simp
  have e2: "eval_start late_1 ''fg 5\<newline>'' 7 = Inr (late_1, Resume ''fg'' 0 5)" "list_all (\<lambda>j. jpid j \<noteq> 7) (sh_jobs late_1)"
    "go_on kill_all_ok late_1 (Resume ''fg'' 0 5) = Inr (late_2, Mark ''fg'' 0 5)" by code_simp+
  have r2: "?r (late_2, Mark ''fg'' 0 5)"
    by (rule shell_reach.run [OF reach_start [OF r1 e2(2) _ e2(1)] goes_on [OF _ _ e2(3)]]) simp_all
  have e3: "reap late_2 (5, Exited 0) = Inr late_3" "go_on kill_all_ok late_3 (Mark ''fg'' 0 5) = Inr (late_4, Wait 5)"
    "waitfg_done late_4 5" by code_simp+
  have r3: "?r (late_3, Mark ''fg'' 0 5)"
    by (rule shell_reach.run [OF r2 signals [OF handlers.chld [OF handlers.idle e3(1)]]])
  have "?r (late_4, Wait 5)" by (rule shell_reach.run [OF r3 goes_on [OF _ _ e3(2)]]) simp_all
  then show r4: "?r (late_4, Prompt)" by (rule shell_reach.run [OF _ waited [OF e3(3)]])
  have e5: "eval kill_all_ok late_4 ''fg 6\<newline>'' 7 = Inr (late_5, Wait 6)" "list_all (\<lambda>j. jpid j \<noteq> 7) (sh_jobs late_4)"
    "waitfg_done late_5 6" by code_simp+
  have "?r (late_5, Wait 6)" by (rule reach_command [OF r4 e5(2) _ e5(1)]) simp
  then show "?r (late_5, Prompt)" by (rule shell_reach.run [OF _ waited [OF e5(3)]])
qed

theorem late_fg:
  "\<exists>s. shell_reach kill_all_ok True False (s, Prompt) \<and> (\<exists>j\<in>set (sh_jobs s). jpid j = 6 \<and> jstate j = FG) \<and>
     sigint_handler kill_all_ok mid s = Inr s"
proof -
  have "list_ex (\<lambda>j. jpid j = 6 \<and> jstate j = FG) (sh_jobs late_5)" "fgpid (sh_jobs late_5) = 0" by code_simp+
  then show ?thesis using late_runs(3) by (intro exI [of _ late_5]) (auto simp: list_ex_iff sigint_handler_def)
qed

lemma fg_bg_named_witness:
  "map_sum id snd (do_bgfg kill_all_ok late_1 [''fg'', ''%2'']) = Inr (Wait 6) \<and>
   map_sum id snd (do_bgfg kill_all_ok late_1 [''fg'', ''6'']) = Inr (Wait 6)"
proof -
  have js: "sh_jobs late_1 = bg_job 5 1 # bg_job 6 2 # replicate 14 no_job" by code_simp
  have a: "atoi ''2'' = 2" "atoi ''6'' = 6" by code_simp+
  have n: "names_slot (sh_jobs late_1) ''%2'' 1" "names_slot (sh_jobs late_1) ''6'' 1"
    unfolding js by (simp_all add: names_slot_def a)
  show ?thesis using fg_bg_named [OF late_runs(1) n(1), of 6] fg_bg_named [OF late_runs(1) n(2), of 6]
    by (simp add: kill_all_ok_def js)
qed

end
