(* ===== verification/TshMain.thy ===== *)
theory TshMain
  imports TshTheorems
begin

text \<open>
  The main routine of the tiny shell (\<^verbatim>\<open>sp_02_shelllab/tsh.c\<close>): the options, the read and evaluate loop on
  the standard input, and the loop that waits for a foreground job, with the signals that arrive.

  What the kernel does is a list of turns, one for each command line: the signals that arrive
  while the shell is at its prompt, whether the read fails, the result of \<^verbatim>\<open>fork\<close>, and the signals that
  arrive before each step of the command, and while it waits.  A run over a list of turns is a run of the step relation of \<open>Tsh\<close>.
\<close>

section \<open>Reading\<close>

abbreviation newline :: char where "newline \<equiv> CHR 0x0A"

text \<open>\<^verbatim>\<open>fgets\<close> with a buffer of \<open>n\<close> bytes: the line, whether the end of the file was met, and the rest.\<close>

definition fgets :: "nat \<Rightarrow> string \<Rightarrow> string \<times> bool \<times> string" where
  "fgets n inp =
     (let l = take (n - 1) inp in
      if newline \<in> set l then
        (takeWhile (\<lambda>c. c \<noteq> newline) l @ [newline], False, tl (dropWhile (\<lambda>c. c \<noteq> newline) inp))
      else (l, length inp < n - 1, drop (n - 1) inp))"

section \<open>Signals\<close>

text \<open>A keyboard signal comes with the signals that are handled before its handler sends it on.\<close>

datatype signal = Chld "(int \<times> status) list" | Intr "signal list" | Tstp "signal list" | Quit

text \<open>The shell ends with status 1 on a SIGQUIT, and after the usage line.\<close>

definition sigquit_handler :: stop where
  "sigquit_handler = Exit 1"

definition tsh_usage :: stop where
  "tsh_usage = Exit 1"

text \<open>The handlers that \<^verbatim>\<open>main\<close> installs.\<close>

fun handle :: "(int \<Rightarrow> nat \<Rightarrow> bool) \<Rightarrow> signal \<Rightarrow> shell \<Rightarrow> stop + shell" and
  handle_all :: "(int \<Rightarrow> nat \<Rightarrow> bool) \<Rightarrow> signal list \<Rightarrow> shell \<Rightarrow> stop + shell" where
  "handle kill_ok (Chld rs) s = sigchld_handler s rs"
| "handle kill_ok (Intr es) s = sigint_handler kill_ok (handle_all kill_ok es) s"
| "handle kill_ok (Tstp es) s = sigtstp_handler kill_ok (handle_all kill_ok es) s"
| "handle kill_ok Quit s = Inl sigquit_handler"
| "handle_all kill_ok [] s = Inr s"
| "handle_all kill_ok (e # es) s = (case handle kill_ok e s of Inl x \<Rightarrow> Inl x | Inr s \<Rightarrow> handle_all kill_ok es s)"

text \<open>A command; the signals of one list arrive before each of its steps.\<close>

function run_command :: "(int \<Rightarrow> nat \<Rightarrow> bool) \<Rightarrow> shell \<Rightarrow> mode \<Rightarrow> signal list list \<Rightarrow> stop + shell \<times> mode" where
  "run_command kill_ok s m ess =
     (if steps_left m = 0 then Inr (s, m)
      else case handle_all kill_ok (case ess of [] \<Rightarrow> [] | es # _ \<Rightarrow> es) s of
        Inl e \<Rightarrow> Inl e
      | Inr s \<Rightarrow> (case go_on kill_ok s m of Inl e \<Rightarrow> Inl e | Inr (s, m) \<Rightarrow> run_command kill_ok s m (tl ess)))"
  by pat_completeness auto
termination by (relation "measure (\<lambda>(k, s, m, ess). steps_left m)") (auto dest: go_on_steps)

declare run_command.simps [simp del]

text \<open>
  The loop of \<^verbatim>\<open>waitfg\<close>; one signal arrives in each sleep.  The result has the signals that are left;
  if there are none and the job is still in the foreground, the shell goes on to wait.
\<close>

fun waitfg :: "(int \<Rightarrow> nat \<Rightarrow> bool) \<Rightarrow> shell \<Rightarrow> int \<Rightarrow> signal list \<Rightarrow> stop + shell \<times> mode \<times> signal list" where
  "waitfg kill_ok s pid [] = Inr (s, if waitfg_done s pid then Prompt else Wait pid, [])"
| "waitfg kill_ok s pid (e # es) =
     (if waitfg_done s pid then Inr (s, Prompt, e # es)
      else case handle kill_ok e s of Inl x \<Rightarrow> Inl x | Inr s \<Rightarrow> waitfg kill_ok s pid es)"

section \<open>The main routine\<close>

record turn =
  at_prompt :: "signal list"
  read_error :: bool
  forked :: int
  in_command :: "signal list list"
  in_wait :: "signal list"

text \<open>
  The read and evaluate loop; \<open>n\<close> counts the prompts.  The first argument of the result is how the shell ended, or
  where it is when the turns are over.  \<open>None\<close>: \<^verbatim>\<open>fork\<close> cannot return the pid of a child
  that is in the job list, or 0 in the parent.
\<close>

fun tsh_loop :: "(int \<Rightarrow> nat \<Rightarrow> bool) \<Rightarrow> bool \<Rightarrow> turn list \<Rightarrow> signal list \<Rightarrow> string \<Rightarrow> shell \<Rightarrow> nat \<Rightarrow>
    ((stop + shell \<times> mode) \<times> nat) option" where
  "tsh_loop kill_ok emit_prompt [] es inp s n = Some (Inr (s, Prompt), n)"
| "tsh_loop kill_ok emit_prompt (t # ts) es inp s n =
     (let n = (if emit_prompt then n + 1 else n) in
      case handle_all kill_ok (es @ at_prompt t) s of
        Inl e \<Rightarrow> Some (Inl e, n)
      | Inr s \<Rightarrow>
          if read_error t then Some (Inl (Exit 1), n)
          else case fgets MAXLINE inp of (cmdline, feof, inp) \<Rightarrow>
            if feof then Some (Inl (Exit 0), n)
            else if forked t = 0 \<or> forked t \<in> jpid ` set (sh_jobs s) then None
            else case eval_start s cmdline (forked t) of
              Inl e \<Rightarrow> Some (Inl e, n)
            | Inr (s, m) \<Rightarrow> (case run_command kill_ok s m (in_command t) of
                Inl e \<Rightarrow> Some (Inl e, n)
              | Inr (s, Wait pid) \<Rightarrow> (case waitfg kill_ok s pid (in_wait t) of
                    Inl e \<Rightarrow> Some (Inl e, n)
                  | Inr (s, Wait pid, _) \<Rightarrow> Some (Inr (s, Wait pid), n)
                  | Inr (s, m, es) \<Rightarrow> tsh_loop kill_ok emit_prompt ts es inp s n)
              | Inr (s, m) \<Rightarrow> tsh_loop kill_ok emit_prompt ts [] inp s n))"

text \<open>The options that \<^verbatim>\<open>getopt\<close> reports; all but \<^verbatim>\<open>-v\<close> and \<^verbatim>\<open>-p\<close> end in \<^verbatim>\<open>usage\<close>, which exits with status 1.\<close>

fun tsh_opts :: "char list \<Rightarrow> bool \<Rightarrow> bool \<Rightarrow> (bool \<times> bool) option" where
  "tsh_opts [] verb emit_prompt = Some (verb, emit_prompt)"
| "tsh_opts (c # cs) verb emit_prompt =
     (if c = CHR ''v'' then tsh_opts cs True emit_prompt
      else if c = CHR ''p'' then tsh_opts cs verb False
      else None)"

definition tsh_main :: "(int \<Rightarrow> nat \<Rightarrow> bool) \<Rightarrow> char list \<Rightarrow> turn list \<Rightarrow> string \<Rightarrow> ((stop + shell \<times> mode) \<times> nat) option" where
  "tsh_main kill_ok opts ts inp =
     (case tsh_opts opts False True of
        None \<Rightarrow> Some (Inl tsh_usage, 0)
      | Some (verb, emit_prompt) \<Rightarrow> tsh_loop kill_ok emit_prompt ts [] inp (shell_init verb) 0)"

section \<open>Runs of the main routine are runs of the step relation\<close>

lemma handlers_trans: "handlers kill_ok s1 s2 \<Longrightarrow> handlers kill_ok s s1 \<Longrightarrow> handlers kill_ok s s2"
proof (induction rule: handlers.induct)
  case (key s0 s1 pid s2 sig s3)
  show ?case by (rule handlers.key [OF key.IH(1) [OF key.prems] key.hyps(2,3,4,5,6)])
qed (auto intro: handlers.chld)

lemma sigchld_handlers: "sigchld_handler s rs = Inr s' \<Longrightarrow> handlers kill_ok s s'"
proof (induction rs arbitrary: s)
  case (Cons r rs)
  then obtain s1 where s1: "reap s r = Inr s1" "sigchld_handler s1 rs = Inr s'" by (auto split: sum.splits)
  then show ?case using Cons.IH [OF s1(2)] handlers.chld [OF handlers.idle s1(1)] by (blast intro: handlers_trans)
qed (simp add: handlers.idle)

lemma keyboard_handlers:
  assumes "\<And>s s'. mid s = Inr s' \<Longrightarrow> handlers kill_ok s s'"
  shows "sigint_handler kill_ok mid s = Inr s' \<Longrightarrow> handlers kill_ok s s'"
    and "sigtstp_handler kill_ok mid s = Inr s' \<Longrightarrow> handlers kill_ok s s'"
proof -
  have k: "handlers kill_ok s s'" if "fgpid (sh_jobs s) \<noteq> 0" "mid s = Inr s2" "sig = SIGINT \<or> sig = SIGTSTP"
    "send kill_ok s2 (- fgpid (sh_jobs s)) sig = Inr s'" for s2 sig
    by (rule handlers.key [OF handlers.idle refl that(1) assms [OF that(2)] that(3,4)])
  show "sigint_handler kill_ok mid s = Inr s' \<Longrightarrow> handlers kill_ok s s'" "sigtstp_handler kill_ok mid s = Inr s' \<Longrightarrow> handlers kill_ok s s'"
    using k by (auto simp: sigint_handler_def sigtstp_handler_def Let_def handlers.idle split: if_splits sum.splits)
qed

lemma handle_handlers:
  "handle kill_ok e s = Inr s' \<Longrightarrow> handlers kill_ok s s'"
  "handle_all kill_ok es s = Inr s' \<Longrightarrow> handlers kill_ok s s'"
proof (induction kill_ok e s and kill_ok es s arbitrary: s' and s' rule: handle_handle_all.induct)
  case (2 kill_ok es s)
  then show ?case by (auto intro: keyboard_handlers(1) [of "handle_all kill_ok es"])
next
  case (3 kill_ok es s)
  then show ?case by (auto intro: keyboard_handlers(2) [of "handle_all kill_ok es"])
qed (auto simp: handlers.idle intro: sigchld_handlers handlers_trans split: sum.splits)

lemma handle_all_reach:
  "handle_all kill_ok es s = Inr s' \<Longrightarrow> shell_reach kill_ok late v (s, m) \<Longrightarrow> shell_reach kill_ok late v (s', m)"
  by (blast intro: shell_reach.run signals handle_handlers)

lemma run_command_reach:
  "run_command kill_ok s m ess = Inr c \<Longrightarrow> shell_reach kill_ok True v (s, m) \<Longrightarrow> shell_reach kill_ok True v c"
proof (induction kill_ok s m ess rule: run_command.induct)
  case (1 kill_ok s m ess)
  show ?case
  proof (cases "steps_left m = 0")
    case True
    then show ?thesis using 1 by (simp add: run_command.simps [of kill_ok s m])
  next
    case False
    obtain s1 where s1: "handle_all kill_ok (case ess of [] \<Rightarrow> [] | es # _ \<Rightarrow> es) s = Inr s1"
      using 1(2) False by (auto simp: run_command.simps [of kill_ok s m] split: sum.splits)
    obtain s2 m2 where g: "go_on kill_ok s1 m = Inr (s2, m2)" "run_command kill_ok s2 m2 (tl ess) = Inr c"
      using 1(2) False s1 by (auto simp: run_command.simps [of kill_ok s m] split: sum.splits)
    have "shell_reach kill_ok True v (s2, m2)"
      using False g(1) by (intro shell_reach.run [OF handle_all_reach [OF s1 1(3)]] goes_on) auto
    then show ?thesis using 1(1) [OF False s1 g(1) refl g(2)] by blast
  qed
qed

lemma waitfg_reach:
  "waitfg kill_ok s pid es = Inr (s', m, es') \<Longrightarrow> shell_reach kill_ok late v (s, Wait pid) \<Longrightarrow> shell_reach kill_ok late v (s', m)"
proof (induction es arbitrary: s)
  case Nil
  then show ?case by (auto split: if_splits intro: shell_step.waited shell_reach.run)
next
  case (Cons e es)
  have h: "shell_reach kill_ok late v (s1, Wait pid)" if "handle kill_ok e s = Inr s1" for s1
    using handle_all_reach [of kill_ok "[e]" s s1] that Cons.prems(2) by simp
  show ?case using Cons h by (auto split: if_splits sum.splits intro: shell_step.waited shell_reach.run)
qed

text \<open>A command ends at the prompt or in the wait for a foreground job.\<close>

lemma settled: "steps_left m = 0 \<Longrightarrow> m = Prompt \<or> (\<exists>pid. m = Wait pid)"
  by (cases m) auto

lemma run_command_settled: "run_command kill_ok s m ess = Inr (s', m') \<Longrightarrow> m' = Prompt \<or> (\<exists>pid. m' = Wait pid)"
proof (induction kill_ok s m ess rule: run_command.induct)
  case (1 kill_ok s m ess)
  then show ?case using settled by (auto simp: run_command.simps [of kill_ok s m] split: if_splits sum.splits)
qed

lemma waitfg_settled: "waitfg kill_ok s pid es = Inr (s', m', es') \<Longrightarrow> m' = Prompt \<or> m' = Wait pid"
  by (induction es arbitrary: s) (auto split: if_splits sum.splits)

lemma tsh_loop_reach:
  "tsh_loop kill_ok p ts es inp s n = Some (Inr c, n') \<Longrightarrow> shell_reach kill_ok True v (s, Prompt) \<Longrightarrow> shell_reach kill_ok True v c"
proof (induction ts arbitrary: es inp s n)
  case (Cons t ts)
  obtain s1 where s1: "handle_all kill_ok (es @ at_prompt t) s = Inr s1"
    using Cons.prems(1) by (auto simp: Let_def split: sum.splits)
  have r1: "shell_reach kill_ok True v (s1, Prompt)" using handle_all_reach [OF s1 Cons.prems(2)] .
  obtain cmd eof rest where f: "fgets MAXLINE inp = (cmd, eof, rest)" by (cases "fgets MAXLINE inp") auto
  have g: "\<not> read_error t" "\<not> eof" "forked t \<noteq> 0" "forked t \<notin> jpid ` set (sh_jobs s1)"
    using Cons.prems(1) s1 f by (auto simp: Let_def split: if_splits)
  obtain s2 m where e: "eval_start s1 cmd (forked t) = Inr (s2, m)"
    using Cons.prems(1) s1 f g by (auto simp: Let_def split: sum.splits)
  have "\<forall>j\<in>set (sh_jobs s1). jpid j \<noteq> forked t" using g(4) by (metis image_eqI)
  then have r2: "shell_reach kill_ok True v (s2, m)" using shell_reach.run [OF r1 command [OF g(3) _ e]] by blast
  obtain s3 m3 where c: "run_command kill_ok s2 m (in_command t) = Inr (s3, m3)"
    using Cons.prems(1) s1 f g e by (auto simp: Let_def split: sum.splits)
  have r3: "shell_reach kill_ok True v (s3, m3)" by (rule run_command_reach [OF c r2])
  consider "m3 = Prompt" | pid where "m3 = Wait pid" using run_command_settled [OF c] by blast
  then show ?case
  proof cases
    case 1
    then show ?thesis using Cons.IH [of "[]" rest s3] Cons.prems(1) s1 f g e c r3 by (simp add: Let_def split: if_splits)
  next
    case (2 pid)
    obtain s4 m4 es4 where w: "waitfg kill_ok s3 pid (in_wait t) = Inr (s4, m4, es4)"
      using Cons.prems(1) s1 f g e c 2 by (auto simp: Let_def split: sum.splits)
    have r4: "shell_reach kill_ok True v (s4, m4)" using waitfg_reach [OF w] r3 2 by simp
    have "m4 = Prompt \<or> m4 = Wait pid" by (rule waitfg_settled [OF w])
    then show ?thesis using Cons.IH [of es4 rest s4] Cons.prems(1) s1 f g e c 2 w r4
      by (elim disjE) (simp_all add: Let_def split: if_splits)
  qed
qed simp

lemma tsh_opts_verbose: "tsh_opts cs v p = Some (v', p') \<Longrightarrow> v' = (v \<or> CHR ''v'' \<in> set cs)"
  by (induction cs arbitrary: v p) (auto split: if_splits)

section \<open>A session of foreground commands\<close>

text \<open>A line that starts a program in the foreground.\<close>

definition fg_line :: "string \<Rightarrow> bool" where
  "fg_line l \<longleftrightarrow> newline \<notin> set l \<and> length l + 1 < MAXLINE \<and>
     (\<exists>name args. parseline (l @ [newline]) = Some (name # args, False) \<and> name \<notin> {''quit'', ''fg'', ''bg'', ''jobs''})"

text \<open>The program gets the pid \<open>p\<close> and ends while the shell waits for it.\<close>

definition ends_turn :: "int \<Rightarrow> turn" where
  "ends_turn p = \<lparr>at_prompt = [], read_error = False, forked = p, in_command = [], in_wait = [Chld [(p, Exited 0)]]\<rparr>"

lemma fgets_line:
  assumes "newline \<notin> set l" and "length l + 1 < n"
  shows "fgets n (l @ newline # rest) = (l @ [newline], False, rest)"
proof -
  have t: "take (n - 1) (l @ newline # rest) = l @ newline # take (n - 1 - length l - 1) rest"
    using assms(2) by (simp add: take_Cons')
  have "takeWhile (\<lambda>c. c \<noteq> newline) (l @ newline # r) = l" for r using assms(1) by (induction l) auto
  moreover have "dropWhile (\<lambda>c. c \<noteq> newline) (l @ newline # r) = newline # r" for r using assms(1) by (induction l) auto
  ultimately show ?thesis unfolding fgets_def Let_def t by simp
qed

lemma foreground_turn:
  assumes l: "fg_line l" and p: "1 \<le> p"
  shows "tsh_loop kill_ok e (ends_turn p # ts) [] (l @ newline # rest) (shell_init False) n =
    tsh_loop kill_ok e ts [] rest (shell_init False) (if e then n + 1 else n)"
proof -
  let ?s = "shell_init False"
  have js: "sh_jobs ?s = no_job # replicate 15 no_job" "nextjid ?s = 1" "\<not> verbose ?s"
    by (simp_all add: shell_init_def initjobs_def MAXJOBS_def numeral_eq_Suc)
  obtain name args where pl: "parseline (l @ [newline]) = Some (name # args, False)"
    and name: "name \<notin> {''quit'', ''fg'', ''bg'', ''jobs''}" using l by (auto simp: fg_line_def)
  have none: "first_job (\<lambda>j. jstate j = FG) (replicate 15 no_job) = None" by (simp add: first_job_None)
  let ?j = "\<lparr>jpid = p, jjid = 1, jstate = FG, jcmd = l @ [newline]\<rparr>"
  let ?s1 = "?s\<lparr>sh_jobs := ?j # replicate 15 no_job, nextjid := 2\<rparr>"
  have add: "addjob ?s p FG (l @ [newline]) = (?s1, 1)"
    using p by (simp add: addjob_def js MAXJOBS_def)
  have "eval_start ?s (l @ [newline]) p = Inr (?s1, Wait p)"
    using p name by (simp add: eval_start_def pl builtin_cmd_def add)
  moreover have "run_command kill_ok ?s1 (Wait p) [] = Inr (?s1, Wait p)"
    by (simp add: run_command.simps)
  moreover have "fst (deletejob ?s1 p) = ?s"
  proof -
    have "maxjid (no_job # replicate 15 no_job) = 0"
      using maxjid_empty_slots [of 0 16] by (simp add: maxjid_def numeral_eq_Suc)
    then show ?thesis using p js by (simp add: deletejob_def shell_init_def)
  qed
  then have "waitfg kill_ok ?s1 p [Chld [(p, Exited 0)]] = Inr (?s, Prompt, [])"
    using p js none by (simp add: waitfg_done_def fgpid_def reap_def)
  moreover have "p \<noteq> 0 \<and> p \<notin> jpid ` set (sh_jobs ?s)" using p js by auto
  moreover have "fgets MAXLINE (l @ newline # rest) = (l @ [newline], False, rest)"
    using l by (intro fgets_line) (auto simp: fg_line_def)
  ultimately show ?thesis by (simp add: ends_turn_def)
qed

section \<open>Properties\<close>

text \<open>
  C36. For any options, any input, any results of \<^verbatim>\<open>fork\<close> that are not the pid of a child in the job list, and any
  signals at the prompt, before each step of a command, in a keyboard handler and while the shell waits, what \<^verbatim>\<open>main\<close> of the shell does is a
  run of the step relation, so that the invariant of the job list holds wherever the run is.
\<close>

theorem tsh_main_refines:
  assumes "tsh_main kill_ok opts ts inp = Some (Inr c, n)"
  shows "shell_reach kill_ok True (CHR ''v'' \<in> set opts) c \<and> shell_wf True c"
proof -
  obtain v p where o: "tsh_opts opts False True = Some (v, p)" using assms by (auto simp: tsh_main_def split: option.splits)
  have "shell_reach kill_ok True (CHR ''v'' \<in> set opts) c"
    using tsh_loop_reach [OF _ shell_reach.boot] assms tsh_opts_verbose [OF o] by (simp add: tsh_main_def o)
  then show ?thesis using shell_reach_wf by blast
qed

text \<open>A program is started and stopped by ctrl-z, resumed in the background while ctrl-c arrives, and ends while the jobs are listed.\<close>

definition sample_turns :: "turn list" where
  "sample_turns =
     [\<lparr>at_prompt = [], read_error = False, forked = 5, in_command = [], in_wait = [Tstp [], Chld [(5, Stopped 20)]]\<rparr>,
      \<lparr>at_prompt = [Intr []], read_error = False, forked = 6, in_command = [[], [Intr []], []], in_wait = []\<rparr>,
      \<lparr>at_prompt = [], read_error = False, forked = 6, in_command = [[Chld [(5, Exited 0)]]], in_wait = []\<rparr>]"

definition sample_lines :: string where
  "sample_lines = ''ls'' @ newline # ''bg 5'' @ newline # ''jobs'' @ [newline]"

definition sample_end :: shell where
  "sample_end = fst (projr (fst (the (tsh_main kill_all_ok [CHR ''v''] sample_turns sample_lines))))"

theorem tsh_main_refines_witness:
  "tsh_main kill_all_ok [CHR ''v''] sample_turns sample_lines = Some (Inr (sample_end, Prompt), 3) \<and>
   sh_kills sample_end = [(-5, SIGTSTP), (-5, SIGCONT)] \<and>
   shell_reach kill_all_ok True True (sample_end, Prompt) \<and> shell_wf True (sample_end, Prompt)"
proof -
  have m: "tsh_main kill_all_ok [CHR ''v''] sample_turns sample_lines = Some (Inr (sample_end, Prompt), 3)" by code_simp
  have "sh_kills sample_end = [(-5, SIGTSTP), (-5, SIGCONT)]" by code_simp
  then show ?thesis using tsh_main_refines [OF m] m by simp
qed

text \<open>
  C37. A session of foreground commands runs to its end: if every line of the input starts a program that
  ends while the shell waits for it, \<^verbatim>\<open>main\<close> prints a prompt for each line and one more, and exits with status 0 at the end
  of the file.
\<close>

theorem tsh_session_ends:
  assumes "\<forall>(l, p)\<in>set cmds. fg_line l \<and> 1 \<le> p" and "\<not> read_error t" and "at_prompt t = []"
  shows "tsh_main kill_ok [] (map (\<lambda>(l, p). ends_turn p) cmds @ [t]) (concat (map (\<lambda>(l, p). l @ [newline]) cmds)) =
    Some (Inl (Exit 0), length cmds + 1)"
proof -
  have "tsh_loop kill_ok True (map (\<lambda>(l, p). ends_turn p) cmds @ [t]) [] (concat (map (\<lambda>(l, p). l @ [newline]) cmds))
      (shell_init False) n = Some (Inl (Exit 0), n + length cmds + 1)" for n
    using assms(1)
  proof (induction cmds arbitrary: n)
    case Nil
    then show ?case using assms(2,3) by (simp add: fgets_def MAXLINE_def)
  next
    case (Cons c cmds)
    obtain l p where c: "c = (l, p)" by force
    then have "fg_line l" "1 \<le> p" using Cons.prems by auto
    note turn = foreground_turn [OF this, of kill_ok True "map (\<lambda>(l, p). ends_turn p) cmds @ [t]"
      "concat (map (\<lambda>(l, p). l @ [newline]) cmds)" n]
    show ?case using turn Cons.IH [of "n + 1"] Cons.prems by (simp add: c)
  qed
  from this [of 0] show ?thesis by (simp add: tsh_main_def)
qed

lemma ls_line: "fg_line ''ls''"
proof -
  have "parseline (''ls'' @ [newline]) = Some ([''ls''], False)"
    by (simp add: parseline_def args.simps next_arg_def strchr_def MAXARGS_def MAXLINE_def)
  then show ?thesis by (auto simp: fg_line_def MAXLINE_def)
qed

theorem tsh_session_ends_witness:
  "tsh_main (\<lambda>_ _. True) [] [ends_turn 100, ends_turn 101, ends_turn 102] (''ls'' @ newline # ''ls'' @ [newline]) =
     Some (Inl (Exit 0), 3)"
  using tsh_session_ends [of "[(''ls'', 100), (''ls'', 101)]" "ends_turn 102" "\<lambda>_ _. True"] ls_line
  by (simp add: ends_turn_def)

text \<open>
  A last line without a newline is read together with the end of the file, and is not evaluated.
\<close>

lemma last_line_dropped:
  assumes "newline \<notin> set l" and "length l + 1 < MAXLINE" and "\<not> read_error t" and "at_prompt t = []"
  shows "tsh_main kill_ok [] (t # ts) l = Some (Inl (Exit 0), 1)"
proof -
  have "fgets MAXLINE l = (l, True, [])" using assms(1,2) by (simp add: fgets_def Let_def)
  then show ?thesis using assms(3,4) by (simp add: tsh_main_def)
qed

text \<open>
  A line of 1023 characters or more is read in pieces, and \<^verbatim>\<open>parseline\<close> overwrites the last character of
  a piece, taking it for the newline.
\<close>

lemma long_line_piece:
  assumes "newline \<notin> set l" and "length l = MAXLINE - 1"
  shows "fgets MAXLINE (l @ rest) = (l, False, rest)"
  using assms by (simp add: fgets_def Let_def MAXLINE_def)

end
