(* ===== verification/Sbuf.thy ===== *)
theory Sbuf
  imports Prelude
begin

text \<open>
  The bounded buffer of the proxy (\<^verbatim>\<open>sp_06_proxylab/proxylab-handout/sbuf.c\<close>), shared by the main
  thread, which inserts connected descriptors, and the worker threads, which remove them.

  The buffer is a record; a semaphore is its value.  A thread is the statement it is about to
  execute, with its local variables; a step of the system executes one statement of one thread, in
  any order of the threads.  The indices \<^verbatim>\<open>front\<close> and \<^verbatim>\<open>rear\<close> are \<^verbatim>\<open>int\<close> in the program and only
  grow; the model is the program up to \<^verbatim>\<open>INT_MAX\<close> insertions.
\<close>

section \<open>The buffer\<close>

record sbuf_t =
  buf :: "int list"
  n_buf :: nat
  front :: nat
  rear :: nat
  mutex :: nat
  slots :: nat
  items :: nat

definition sbuf_init :: "nat \<Rightarrow> sbuf_t" where
  "sbuf_init n = \<lparr>buf = replicate n 0, n_buf = n, front = 0, rear = 0, mutex = 1, slots = n, items = 0\<rparr>"

text \<open>The statements between the semaphore operations.\<close>

definition put_item :: "sbuf_t \<Rightarrow> int \<Rightarrow> sbuf_t" where
  "put_item sp item =
     sp\<lparr>rear := rear sp + 1, buf := (buf sp)[(rear sp + 1) mod n_buf sp := item]\<rparr>"

definition take_item :: "sbuf_t \<Rightarrow> sbuf_t \<times> int" where
  "take_item sp = (sp\<lparr>front := front sp + 1\<rparr>, buf sp ! ((front sp + 1) mod n_buf sp))"

section \<open>Threads\<close>

text \<open>
  The statement a thread is about to execute: outside of the functions, one of the five statements
  of \<^verbatim>\<open>sbuf_insert\<close>, or one of the five of \<^verbatim>\<open>sbuf_remove\<close>.
\<close>

datatype at = Out
  | Ins_P_slots int | Ins_P_mutex int | Ins_put int | Ins_V_mutex | Ins_V_items
  | Rem_P_items | Rem_P_mutex | Rem_take | Rem_V_mutex int | Rem_V_slots int

text \<open>One statement of a thread; \<open>None\<close> if the thread has to wait.\<close>

fun exec :: "sbuf_t \<Rightarrow> at \<Rightarrow> (sbuf_t \<times> at) option" where
  "exec sp Out = None"
| "exec sp (Ins_P_slots x) = (if slots sp = 0 then None else Some (sp\<lparr>slots := slots sp - 1\<rparr>, Ins_P_mutex x))"
| "exec sp (Ins_P_mutex x) = (if mutex sp = 0 then None else Some (sp\<lparr>mutex := mutex sp - 1\<rparr>, Ins_put x))"
| "exec sp (Ins_put x) = Some (put_item sp x, Ins_V_mutex)"
| "exec sp Ins_V_mutex = Some (sp\<lparr>mutex := mutex sp + 1\<rparr>, Ins_V_items)"
| "exec sp Ins_V_items = Some (sp\<lparr>items := items sp + 1\<rparr>, Out)"
| "exec sp Rem_P_items = (if items sp = 0 then None else Some (sp\<lparr>items := items sp - 1\<rparr>, Rem_P_mutex))"
| "exec sp Rem_P_mutex = (if mutex sp = 0 then None else Some (sp\<lparr>mutex := mutex sp - 1\<rparr>, Rem_take))"
| "exec sp Rem_take = (let (sp, item) = take_item sp in Some (sp, Rem_V_mutex item))"
| "exec sp (Rem_V_mutex x) = Some (sp\<lparr>mutex := mutex sp + 1\<rparr>, Rem_V_slots x)"
| "exec sp (Rem_V_slots x) = Some (sp\<lparr>slots := slots sp + 1\<rparr>, Out)"

text \<open>
  The system, with two histories that the program does not have: the items in the order in which
  they were put, and in the order in which they were taken.
\<close>

record sys =
  sp :: sbuf_t
  ths :: "at list"
  put :: "int list"
  taken :: "int list"

definition note_put :: "at \<Rightarrow> int list \<Rightarrow> int list" where
  "note_put a h = (case a of Ins_put x \<Rightarrow> h @ [x] | _ \<Rightarrow> h)"

definition note_taken :: "at \<Rightarrow> int list \<Rightarrow> int list" where
  "note_taken a h = (case a of Rem_V_mutex x \<Rightarrow> h @ [x] | _ \<Rightarrow> h)"

inductive move :: "sys \<Rightarrow> sys \<Rightarrow> bool" where
  move: "i < length (ths s) \<Longrightarrow> exec (sp s) (ths s ! i) = Some (sp', a) \<Longrightarrow>
    move s \<lparr>sp = sp', ths = (ths s)[i := a], put = note_put (ths s ! i) (put s),
      taken = (if ths s ! i = Rem_take then note_taken a (taken s) else taken s)\<rparr>"

inductive sys_step :: "sys \<Rightarrow> sys \<Rightarrow> bool" where
  statement: "move s s' \<Longrightarrow> sys_step s s'"
| call_insert: "i < length (ths s) \<Longrightarrow> ths s ! i = Out \<Longrightarrow> sys_step s (s\<lparr>ths := (ths s)[i := Ins_P_slots x]\<rparr>)"
| call_remove: "i < length (ths s) \<Longrightarrow> ths s ! i = Out \<Longrightarrow> sys_step s (s\<lparr>ths := (ths s)[i := Rem_P_items]\<rparr>)"

inductive sys_reach :: "nat \<Rightarrow> nat \<Rightarrow> sys \<Rightarrow> bool" for n k where
  start: "sys_reach n k \<lparr>sp = sbuf_init n, ths = replicate k Out, put = [], taken = []\<rparr>"
| run: "sys_reach n k s \<Longrightarrow> sys_step s s' \<Longrightarrow> sys_reach n k s'"

section \<open>The invariant\<close>

definition inside :: "at \<Rightarrow> bool" where
  "inside a \<longleftrightarrow> (case a of Ins_put _ \<Rightarrow> True | Ins_V_mutex \<Rightarrow> True | Rem_take \<Rightarrow> True | Rem_V_mutex _ \<Rightarrow> True | _ \<Rightarrow> False)"

text \<open>A thread that has taken a free slot and not yet filled it, or emptied one and not yet given it back.\<close>

definition has_slot :: "at \<Rightarrow> bool" where
  "has_slot a \<longleftrightarrow> (case a of Ins_P_mutex _ \<Rightarrow> True | Ins_put _ \<Rightarrow> True | Rem_V_mutex _ \<Rightarrow> True | Rem_V_slots _ \<Rightarrow> True | _ \<Rightarrow> False)"

definition has_item :: "at \<Rightarrow> bool" where
  "has_item a \<longleftrightarrow> (case a of Rem_P_mutex \<Rightarrow> True | Rem_take \<Rightarrow> True | Ins_V_mutex \<Rightarrow> True | Ins_V_items \<Rightarrow> True | _ \<Rightarrow> False)"

lemmas at_kinds = inside_def has_slot_def has_item_def

definition books :: "sys \<Rightarrow> bool" where
  "books s \<longleftrightarrow> mutex (sp s) + count inside (ths s) = 1 \<and>
     slots (sp s) + count has_slot (ths s) + rear (sp s) = n_buf (sp s) + front (sp s) \<and>
     items (sp s) + count has_item (ths s) + front (sp s) = rear (sp s)"

definition contents :: "sys \<Rightarrow> bool" where
  "contents s \<longleftrightarrow> length (buf (sp s)) = n_buf (sp s) \<and> length (put s) = rear (sp s) \<and>
     taken s = take (front (sp s)) (put s) \<and>
     (\<forall>k. front (sp s) \<le> k \<longrightarrow> k < rear (sp s) \<longrightarrow> buf (sp s) ! ((k + 1) mod n_buf (sp s)) = put s ! k)"

lemma other_slot:
  fixes k r n :: nat
  assumes "k < r" and "r < k + n"
  shows "(k + 1) mod n \<noteq> (r + 1) mod n"
proof
  assume "(k + 1) mod n = (r + 1) mod n"
  then have "n dvd (r + 1) - (k + 1)" by (metis mod_eq_dvd_iff_nat assms(1) add_le_cancel_right less_imp_le)
  then have "n dvd r - k" by simp
  then show False using assms dvd_imp_le [of n "r - k"] by simp
qed

lemma move_books:
  assumes "move s s'" and "books s"
  shows "books s' \<and> n_buf (sp s') = n_buf (sp s)"
  using assms(1)
proof (cases rule: move.cases)
  case (move i sp' a)
  note c = count_update [OF move(2), of inside a] count_update [OF move(2), of has_slot a]
    count_update [OF move(2), of has_item a]
  have "0 < mutex (sp s) \<Longrightarrow> mutex (sp s) - 1 + 1 = mutex (sp s)" by simp
  then show ?thesis using assms(2) c move(3) unfolding move(1) books_def
    by (cases "ths s ! i") (auto simp: at_kinds put_item_def take_item_def split: if_splits)
qed

lemma move_contents:
  assumes "move s s'" and b: "books s" and c: "contents s"
  shows "contents s'"
  using assms(1)
proof (cases rule: move.cases)
  case (move i sp' a)
  have slot: "0 < count has_slot (ths s)" if "has_slot (ths s ! i)" using count_pos [OF move(2)] that .
  have item: "0 < count has_item (ths s)" if "has_item (ths s ! i)" using count_pos [OF move(2)] that .
  show ?thesis
  proof (cases "ths s ! i")
    case (Ins_put x)
    have room: "rear (sp s) < front (sp s) + n_buf (sp s)" using slot b Ins_put by (simp add: at_kinds books_def)
    then have n: "0 < n_buf (sp s)" using b by (auto simp: books_def)
    have old: "(rear (sp s) + 1) mod n_buf (sp s) \<noteq> (k + 1) mod n_buf (sp s)"
      if "front (sp s) \<le> k" "k < rear (sp s)" for k using that room by (intro other_slot [symmetric]) auto
    have le: "front (sp s) \<le> rear (sp s)" using b by (simp add: books_def)
    show ?thesis using c move(3) Ins_put n old le unfolding move(1)
      by (auto simp: contents_def put_item_def note_put_def nth_append less_Suc_eq)
  next
    case Rem_take
    have "front (sp s) < rear (sp s)" using item b Rem_take by (simp add: at_kinds books_def)
    then have "taken s @ [put s ! front (sp s)] = take (Suc (front (sp s))) (put s)"
      "buf (sp s) ! ((front (sp s) + 1) mod n_buf (sp s)) = put s ! front (sp s)"
      using c by (auto simp: contents_def take_Suc_conv_app_nth)
    then show ?thesis using c move(3) Rem_take unfolding move(1)
      by (auto simp: contents_def take_item_def note_put_def note_taken_def)
  qed (use c move(3) in \<open>auto simp: move(1) contents_def note_put_def note_taken_def split: if_splits\<close>)
qed

lemma step_inv:
  assumes "sys_step s s'" and "books s" and "contents s" and "length (ths s) = k" and "n_buf (sp s) = n"
  shows "books s' \<and> contents s' \<and> length (ths s') = k \<and> n_buf (sp s') = n"
  using assms
proof (induction rule: sys_step.induct)
  case (statement s s')
  then show ?case using move_books move_contents by (auto elim!: move.cases)
next
  case (call_insert i s x)
  note c = count_update [OF call_insert(1), of _ "Ins_P_slots x"]
  show ?case using call_insert c [of inside] c [of has_slot] c [of has_item]
    by (simp add: books_def contents_def at_kinds)
next
  case (call_remove i s)
  note c = count_update [OF call_remove(1), of _ Rem_P_items]
  show ?case using call_remove c [of inside] c [of has_slot] c [of has_item]
    by (simp add: books_def contents_def at_kinds)
qed

lemma reach_inv:
  "sys_reach n k s \<Longrightarrow> books s \<and> contents s \<and> length (ths s) = k \<and> n_buf (sp s) = n"
proof (induction rule: sys_reach.induct)
  case start
  show ?case by (simp add: books_def contents_def sbuf_init_def count_def at_kinds)
next
  case (run s s')
  then show ?case using step_inv by blast
qed

section \<open>Properties\<close>

lemma reach_fifo:
  assumes "sys_reach n k s"
  shows "put s = taken s @ map (\<lambda>i. buf (sp s) ! ((i + 1) mod n)) [front (sp s)..<rear (sp s)] \<and>
    length (put s) \<le> length (taken s) + n \<and> count inside (ths s) \<le> 1"
proof -
  have b: "books s" and c: "contents s" and n: "n_buf (sp s) = n" using reach_inv [OF assms] by auto
  have le: "front (sp s) \<le> rear (sp s)" using b by (simp add: books_def)
  have "map (\<lambda>i. buf (sp s) ! ((i + 1) mod n)) [front (sp s)..<rear (sp s)] = drop (front (sp s)) (put s)"
    using c n le by (intro nth_equalityI) (auto simp: contents_def)
  then show ?thesis using b c n by (auto simp: contents_def books_def)
qed

text \<open>
  C17. For every number of threads that call \<^verbatim>\<open>sbuf_insert\<close> and \<^verbatim>\<open>sbuf_remove\<close> and in every
  interleaving of their statements, the buffer is a first-in first-out queue of at most \<open>n\<close>
  items: what was taken is what was put, in the same order, and the items not yet taken are the
  ones in the buffer, at most \<open>n\<close> of them.  At most one thread is between P and V of the mutex.
\<close>

theorem sbuf_fifo:
  assumes "sys_reach n k s"
  shows "put s = taken s @ map (\<lambda>i. buf (sp s) ! ((i + 1) mod n)) [front (sp s)..<rear (sp s)] \<and>
    length (put s) \<le> length (taken s) + n \<and> count inside (ths s) \<le> 1"
  by (rule reach_fifo [OF assms])

lemma sbuf_fifo_witness:
  "\<exists>s. sys_reach 2 1 s \<and> put s = [7] \<and> buf (sp s) ! 1 = 7 \<and> length (put s) \<le> length (taken s) + 2"
proof -
  let ?s0 = "\<lparr>sp = sbuf_init 2, ths = [Out], put = [], taken = []\<rparr>"
  let ?s1 = "?s0\<lparr>ths := [Ins_P_slots 7]\<rparr>"
  let ?s2 = "?s1\<lparr>sp := (sbuf_init 2)\<lparr>slots := 1\<rparr>, ths := [Ins_P_mutex 7]\<rparr>"
  let ?s3 = "?s2\<lparr>sp := (sbuf_init 2)\<lparr>slots := 1, mutex := 0\<rparr>, ths := [Ins_put 7]\<rparr>"
  let ?s4 = "?s3\<lparr>sp := put_item (sp ?s3) 7, ths := [Ins_V_mutex], put := [7]\<rparr>"
  have 0: "sys_reach 2 1 ?s0" using sys_reach.start [of 2 1] by simp
  have 1: "sys_step ?s0 ?s1" using call_insert [of 0 ?s0 7] by simp
  have 2: "sys_step ?s1 ?s2"
    using statement [OF move.move [of 0 ?s1 "sp ?s2" "Ins_P_mutex 7"]] by (simp add: sbuf_init_def note_put_def)
  have 3: "sys_step ?s2 ?s3"
    using statement [OF move.move [of 0 ?s2 "sp ?s3" "Ins_put 7"]] by (simp add: sbuf_init_def note_put_def)
  have 4: "sys_step ?s3 ?s4"
    using statement [OF move.move [of 0 ?s3 "sp ?s4" Ins_V_mutex]] by (simp add: note_put_def)
  have r: "sys_reach 2 1 ?s4" using 0 1 2 3 4 sys_reach.run by blast
  show ?thesis using sbuf_fifo [OF r] r by (intro exI [of _ ?s4]) (simp add: put_item_def sbuf_init_def)
qed

text \<open>
  The buffer does not deadlock: in a reachable state in which no thread inside of the two
  functions can execute its next statement, every such thread waits at its first P, the inserting
  ones because the buffer is full, the removing ones because it is empty; so if the buffer has
  a slot, inserting threads go on, and never do inserting and removing threads wait at once.
\<close>

theorem sbuf_waits:
  assumes reach: "sys_reach n k s" and n: "0 < n" and stuck: "\<forall>i<length (ths s). exec (sp s) (ths s ! i) = None"
  shows "(\<forall>i<length (ths s). ths s ! i = Out \<or>
      (\<exists>x. ths s ! i = Ins_P_slots x) \<and> rear (sp s) = front (sp s) + n \<or>
      ths s ! i = Rem_P_items \<and> rear (sp s) = front (sp s)) \<and>
    \<not> (\<exists>i<length (ths s). \<exists>j<length (ths s). \<exists>x. ths s ! i = Ins_P_slots x \<and> ths s ! j = Rem_P_items)"
proof -
  have b: "books s" and nb: "n_buf (sp s) = n" using reach_inv [OF reach] by auto
  have none: "count P (ths s) = 0" if "\<And>a. P a \<Longrightarrow> exec (sp s) a \<noteq> None" for P
    using that stuck by (fastforce simp: count_def filter_empty_conv in_set_conv_nth)
  have "count inside (ths s) = 0"
    by (rule none) (auto simp: inside_def take_item_def Let_def split: at.splits)
  then have m: "mutex (sp s) = 1" using b by (simp add: books_def)
  have "count has_slot (ths s) = 0"
    by (rule none) (use m in \<open>auto simp: has_slot_def split: at.splits\<close>)
  then have sl: "slots (sp s) + rear (sp s) = n + front (sp s)" using b nb by (simp add: books_def)
  have "count has_item (ths s) = 0"
    by (rule none) (use m in \<open>auto simp: has_item_def take_item_def Let_def split: at.splits\<close>)
  then have it: "items (sp s) + front (sp s) = rear (sp s)" using b by (simp add: books_def)
  have each: "ths s ! i = Out \<or> (\<exists>x. ths s ! i = Ins_P_slots x) \<and> slots (sp s) = 0 \<or>
      ths s ! i = Rem_P_items \<and> items (sp s) = 0" if "i < length (ths s)" for i
    using stuck that m by (cases "ths s ! i") (auto simp: take_item_def split: if_splits)
  then have waits: "\<forall>i<length (ths s). ths s ! i = Out \<or>
      (\<exists>x. ths s ! i = Ins_P_slots x) \<and> rear (sp s) = front (sp s) + n \<or>
      ths s ! i = Rem_P_items \<and> rear (sp s) = front (sp s)" using sl it by fastforce
  have "False" if "i < length (ths s)" "j < length (ths s)" "ths s ! i = Ins_P_slots x" "ths s ! j = Rem_P_items" for i j x
  proof -
    have "rear (sp s) = front (sp s) + n" using waits that(1,3) by fastforce
    moreover have "rear (sp s) = front (sp s)" using waits that(2,4) by fastforce
    ultimately show False using n by simp
  qed
  then show ?thesis using waits by blast
qed

theorem sbuf_waits_witness:
  "\<exists>s. sys_reach 2 1 s \<and> ths s = [Rem_P_items] \<and> rear (sp s) = front (sp s)"
proof -
  let ?s0 = "\<lparr>sp = sbuf_init 2, ths = [Out], put = [], taken = []\<rparr>"
  let ?s1 = "?s0\<lparr>ths := [Rem_P_items]\<rparr>"
  have "sys_step ?s0 ?s1" using call_remove [of 0 ?s0] by simp
  then have r: "sys_reach 2 1 ?s1" using sys_reach.start [of 2 1] sys_reach.run by fastforce
  have "rear (sp ?s1) = front (sp ?s1)" using sbuf_waits [OF r] by (simp add: sbuf_init_def)
  then show ?thesis using r by (intro exI [of _ ?s1]) simp
qed

end
