(* ===== verification/Rio.thy ===== *)
theory Rio
  imports Prelude
begin

text \<open>
  The robust I/O package of \<^verbatim>\<open>csapp.c\<close> (\<^verbatim>\<open>sp_06_proxylab/proxylab-handout/csapp.c\<close>).

  A descriptor is what the kernel will answer to the calls on it.  For reading this is a list of
  events: data that has arrived, of which a call returns at most what it asks for, an interruption
  by a signal handler (EINTR), or an error; the end of the list is the end of the file.  For
  writing it is the number of bytes that each call accepts.  Functions return the descriptor, the
  bytes that were written to the buffer of the caller, and the result of the C function.
\<close>

section \<open>System calls\<close>

datatype event = Data string | Intr | Fail

datatype answer = Bytes string | EINTR | EOTHER

fun sys_read :: "event list \<Rightarrow> nat \<Rightarrow> event list \<times> answer" where
  "sys_read [] n = ([], Bytes [])"
| "sys_read (Data d # es) n =
     (if d = [] then sys_read es n
      else if length d \<le> n then (es, Bytes d) else (Data (drop n d) # es, Bytes (take n d)))"
| "sys_read (Intr # es) n = (es, EINTR)"
| "sys_read (Fail # es) n = (es, EOTHER)"

fun ev_measure :: "event list \<Rightarrow> nat" where
  "ev_measure [] = 0"
| "ev_measure (Data d # es) = Suc (length d + ev_measure es)"
| "ev_measure (_ # es) = Suc (ev_measure es)"

lemma sys_read_measure:
  "sys_read es n = (es', r) \<Longrightarrow> 0 < n \<Longrightarrow> r \<noteq> Bytes [] \<Longrightarrow> ev_measure es' < ev_measure es"
  by (induction es n rule: sys_read.induct) (auto split: if_splits)

section \<open>Unbuffered functions\<close>

text \<open>
  The loop of \<^verbatim>\<open>rio_readn\<close>, with \<open>nleft\<close> bytes to go; \<open>None\<close> is the result -1.
\<close>

function readn_loop :: "event list \<Rightarrow> nat \<Rightarrow> event list \<times> string \<times> bool" where
  "readn_loop es nleft =
     (if nleft = 0 then (es, [], True)
      else case sys_read es nleft of
        (es, EINTR) \<Rightarrow> readn_loop es nleft
      | (es, EOTHER) \<Rightarrow> (es, [], False)
      | (es, Bytes d) \<Rightarrow>
          if d = [] then (es, [], True)
          else (case readn_loop es (nleft - length d) of (es, d', ok) \<Rightarrow> (es, d @ d', ok)))"
  by pat_completeness auto
termination
  by (relation "measure (\<lambda>(es, _). ev_measure es)") (auto dest!: sys_read_measure [OF sym])

declare readn_loop.simps [simp del]

definition rio_readn :: "event list \<Rightarrow> nat \<Rightarrow> event list \<times> string \<times> int" where
  "rio_readn es n = (case readn_loop es n of (es, d, ok) \<Rightarrow> (es, d, if ok then int (length d) else -1))"

text \<open>
  \<^verbatim>\<open>rio_writen\<close>: \<open>Some k\<close> is a call that accepts \<open>k + 1\<close> bytes, or all if there are fewer;
  \<open>None\<close> in the inner option is an interruption or, with \<open>False\<close>, another error.  Calls beyond the
  list accept everything.
\<close>

datatype wevent = Accept nat | W_intr | W_fail

fun rio_writen :: "wevent list \<Rightarrow> string \<Rightarrow> wevent list \<times> string \<times> int" where
  "rio_writen ws [] = (ws, [], 0)"
| "rio_writen [] d = ([], d, int (length d))"
| "rio_writen (Accept k # ws) d =
     (case rio_writen ws (drop (Suc k) d) of
        (ws, out, r) \<Rightarrow> (ws, take (Suc k) d @ out, if r < 0 then -1 else int (length d)))"
| "rio_writen (W_intr # ws) d = rio_writen ws d"
| "rio_writen (W_fail # ws) d = (ws, [], -1)"

section \<open>Buffered functions\<close>

definition RIO_BUFSIZE :: nat where "RIO_BUFSIZE = 8192"

text \<open>The descriptor and the bytes of the internal buffer from \<^verbatim>\<open>rio_bufptr\<close> on, \<^verbatim>\<open>rio_cnt\<close> many.\<close>

record rio_t =
  rio_fd :: "event list"
  unread :: string

definition rio_readinitb :: "event list \<Rightarrow> rio_t" where
  "rio_readinitb fd = \<lparr>rio_fd = fd, unread = []\<rparr>"

text \<open>The refill loop of \<^verbatim>\<open>rio_read\<close>: \<open>None\<close> for an error, an empty buffer at the end of the file.\<close>

function refill :: "event list \<Rightarrow> event list \<times> string option" where
  "refill es = (case sys_read es RIO_BUFSIZE of
      (es, EINTR) \<Rightarrow> refill es
    | (es, EOTHER) \<Rightarrow> (es, None)
    | (es, Bytes d) \<Rightarrow> (es, Some d))"
  by pat_completeness auto
termination
  by (relation "measure ev_measure") (auto simp: RIO_BUFSIZE_def dest!: sys_read_measure [OF sym])

declare refill.simps [simp del]

definition rio_read :: "rio_t \<Rightarrow> nat \<Rightarrow> rio_t \<times> string \<times> int" where
  "rio_read rp n =
     (let (rp, ok) = (if unread rp = [] then
            (case refill (rio_fd rp) of
               (es, None) \<Rightarrow> (rp\<lparr>rio_fd := es\<rparr>, False)
             | (es, Some d) \<Rightarrow> (rp\<lparr>rio_fd := es, unread := d\<rparr>, True))
          else (rp, True))
      in if \<not> ok then (rp, [], -1)
         else if unread rp = [] then (rp, [], 0)
         else let cnt = (if length (unread rp) < n then length (unread rp) else n)
              in (rp\<lparr>unread := drop cnt (unread rp)\<rparr>, take cnt (unread rp), int cnt))"

definition rio_measure :: "rio_t \<Rightarrow> nat" where
  "rio_measure rp = ev_measure (rio_fd rp) + length (unread rp)"

lemma sys_read_bytes:
  "sys_read es n = (es', Bytes d) \<Longrightarrow> length d + ev_measure es' \<le> ev_measure es"
  by (induction es n rule: sys_read.induct) (auto split: if_splits)

lemma refill_measure:
  "refill es = (es', Some d) \<Longrightarrow> length d + ev_measure es' \<le> ev_measure es"
proof (induction es rule: refill.induct)
  case (1 es)
  obtain es1 a where s: "sys_read es RIO_BUFSIZE = (es1, a)" by force
  show ?case
  proof (cases a)
    case EINTR
    then have "refill es1 = (es', Some d)" using 1(2) s by (simp add: refill.simps [of es])
    then have "length d + ev_measure es' \<le> ev_measure es1" using 1(1) [OF s [symmetric]] EINTR by blast
    moreover have "ev_measure es1 < ev_measure es"
      using sys_read_measure [OF s] EINTR by (simp add: RIO_BUFSIZE_def)
    ultimately show ?thesis by simp
  qed (use 1(2) s sys_read_bytes [of es RIO_BUFSIZE] in \<open>auto simp: refill.simps [of es]\<close>)
qed

lemma sys_read_le: "sys_read es n = (es', a) \<Longrightarrow> ev_measure es' \<le> ev_measure es"
  by (induction es n rule: sys_read.induct) (auto split: if_splits)

lemma refill_none: "refill es = (es', r) \<Longrightarrow> ev_measure es' \<le> ev_measure es"
proof (induction es rule: refill.induct)
  case (1 es)
  obtain es1 a where s: "sys_read es RIO_BUFSIZE = (es1, a)" by force
  show ?case
  proof (cases a)
    case EINTR
    then have "refill es1 = (es', r)" using 1(2) s by (simp add: refill.simps [of es])
    then show ?thesis using 1(1) [OF s [symmetric]] EINTR sys_read_le [OF s] by simp
  qed (use 1(2) s sys_read_le [OF s] in \<open>auto simp: refill.simps [of es]\<close>)
qed

lemma rio_read_measure:
  "rio_read rp n = (rp', d, r) \<Longrightarrow> 0 < r \<Longrightarrow> 0 < n \<Longrightarrow> rio_measure rp' < rio_measure rp"
  by (auto simp: rio_read_def rio_measure_def Let_def split: if_splits prod.splits option.splits
      simp flip: length_greater_0_conv dest!: refill_measure)

text \<open>The loop of \<^verbatim>\<open>rio_readnb\<close>.\<close>

function readnb_loop :: "rio_t \<Rightarrow> nat \<Rightarrow> rio_t \<times> string \<times> bool" where
  "readnb_loop rp nleft =
     (if nleft = 0 then (rp, [], True)
      else case rio_read rp nleft of (rp, d, r) \<Rightarrow>
        if r < 0 then (rp, [], False)
        else if r = 0 then (rp, [], True)
        else (case readnb_loop rp (nleft - nat r) of (rp, d', ok) \<Rightarrow> (rp, d @ d', ok)))"
  by pat_completeness auto
termination
  by (relation "measure (\<lambda>(rp, _). rio_measure rp)") (auto dest!: rio_read_measure [OF sym])

declare readnb_loop.simps [simp del]

definition rio_readnb :: "rio_t \<Rightarrow> nat \<Rightarrow> rio_t \<times> string \<times> int" where
  "rio_readnb rp n = (case readnb_loop rp n of (rp, d, ok) \<Rightarrow> (rp, d, if ok then int (length d) else -1))"

text \<open>
  The loop of \<^verbatim>\<open>rio_readlineb\<close>, with \<open>k\<close> rounds to go: the bytes before the terminator, and
  whether there was no error.  The counter of the rounds is an \<^verbatim>\<open>int\<close>: the model is the code for \<open>maxlen\<close> from
  1 to \<^verbatim>\<open>INT_MAX\<close>; all calls pass \<^verbatim>\<open>MAXLINE\<close>.
\<close>

fun readline_loop :: "rio_t \<Rightarrow> nat \<Rightarrow> rio_t \<times> string \<times> bool" where
  "readline_loop rp 0 = (rp, [], True)"
| "readline_loop rp (Suc k) =
     (case rio_read rp 1 of (rp, d, rc) \<Rightarrow>
        if rc = 1 then
          if d = ''\<newline>'' then (rp, d, True)
          else (case readline_loop rp k of (rp, d', ok) \<Rightarrow> (rp, d @ d', ok))
        else if rc = 0 then (rp, [], True)
        else (rp, [], False))"

definition rio_readlineb :: "rio_t \<Rightarrow> nat \<Rightarrow> rio_t \<times> string \<times> int" where
  "rio_readlineb rp maxlen =
     (case readline_loop rp (maxlen - 1) of (rp, d, ok) \<Rightarrow> (rp, d, if ok then int (length d) else -1))"

lemma rio_read_le: "rio_read rp n = (rp', d, r) \<Longrightarrow> rio_measure rp' \<le> rio_measure rp"
  using refill_none [of "rio_fd rp"] refill_measure [of "rio_fd rp"]
  by (fastforce simp: rio_read_def rio_measure_def Let_def split: if_splits prod.splits option.splits)

lemma readline_loop_le: "readline_loop rp k = (rp', d, ok) \<Longrightarrow> rio_measure rp' \<le> rio_measure rp"
proof (induction rp k arbitrary: d ok rule: readline_loop.induct)
  case (2 rp k)
  obtain rp1 d1 r where s: "rio_read rp 1 = (rp1, d1, r)" by (metis prod_cases3)
  note m = rio_read_le [OF s]
  show ?case
  proof (cases "r = 1 \<and> d1 \<noteq> ''\<newline>''")
    case True
    then obtain d2 where l: "readline_loop rp1 k = (rp', d2, ok)"
      using 2(2) s by (auto split: prod.splits)
    show ?thesis using 2(1) [OF s [symmetric] refl _ _ l] True m by simp
  next
    case False
    then show ?thesis using 2(2) s m by (auto split: if_splits)
  qed
qed simp

lemma readline_loop_measure:
  assumes "readline_loop rp k = (rp', d, ok)" and "d \<noteq> []"
  shows "rio_measure rp' < rio_measure rp"
proof -
  obtain j where k: "k = Suc j" using assms by (cases k) auto
  obtain rp1 d1 r where s: "rio_read rp 1 = (rp1, d1, r)" by (metis prod_cases3)
  have r: "r = 1" using assms s k by (auto split: if_splits)
  have m: "rio_measure rp1 < rio_measure rp" using rio_read_measure [OF s] r by simp
  show ?thesis
  proof (cases "d1 = ''\<newline>''")
    case True
    then show ?thesis using assms s m r k by simp
  next
    case False
    then obtain d2 where "readline_loop rp1 j = (rp', d2, ok)" using assms s r k by (auto split: prod.splits)
    then show ?thesis using readline_loop_le m by fastforce
  qed
qed

lemma rio_readlineb_measure:
  "rio_readlineb rp maxlen = (rp', d, r) \<Longrightarrow> 0 < r \<Longrightarrow> rio_measure rp' < rio_measure rp"
  by (auto simp: rio_readlineb_def split: prod.splits if_splits dest: readline_loop_measure)

end
