(* ===== verification/RioCorrect.thy ===== *)
theory RioCorrect
  imports Rio
begin

text \<open>
  The robust I/O functions against the stream of bytes of their descriptor: short reads,
  interruptions and the internal buffer are not visible.
\<close>

section \<open>The stream of a descriptor\<close>

text \<open>The bytes up to the end of the file or the first error, and whether it is an error.\<close>

fun bytes :: "event list \<Rightarrow> string" where
  "bytes [] = []"
| "bytes (Data d # es) = d @ bytes es"
| "bytes (Intr # es) = bytes es"
| "bytes (Fail # es) = []"

fun fails :: "event list \<Rightarrow> bool" where
  "fails [] \<longleftrightarrow> False"
| "fails (Fail # es) \<longleftrightarrow> True"
| "fails (_ # es) \<longleftrightarrow> fails es"

definition pending :: "rio_t \<Rightarrow> string" where
  "pending rp = unread rp @ bytes (rio_fd rp)"

lemma sys_read_spec:
  assumes "sys_read es n = (es', a)" and "0 < n"
  shows "case a of
      Bytes d \<Rightarrow> bytes es = d @ bytes es' \<and> fails es' = fails es \<and> length d \<le> n \<and>
        (d = [] \<longrightarrow> bytes es = [] \<and> \<not> fails es)
    | EINTR \<Rightarrow> bytes es' = bytes es \<and> fails es' = fails es
    | EOTHER \<Rightarrow> bytes es = [] \<and> fails es"
  using assms
proof (induction es n rule: sys_read.induct)
  case (2 d es n)
  then show ?case by (cases "d = []") (auto split: if_splits answer.splits)
qed auto

lemma readn_loop_spec:
  "readn_loop es n = (es', d, ok) \<Longrightarrow> d = take n (bytes es) \<and> (ok \<longleftrightarrow> n \<le> length (bytes es) \<or> \<not> fails es) \<and>
     (ok \<longrightarrow> bytes es' = drop n (bytes es) \<and> fails es' = fails es)"
proof (induction es n arbitrary: d ok rule: readn_loop.induct)
  case (1 es n)
  obtain es1 a where s: "sys_read es n = (es1, a)" by force
  show ?case
  proof (cases "n = 0")
    case True
    then show ?thesis using 1(3) by (auto simp: readn_loop.simps [of es 0])
  next
    case False
    note sp = sys_read_spec [OF s] False
    show ?thesis
    proof (cases a)
      case (Bytes d1)
      show ?thesis
      proof (cases "d1 = []")
        case True
        then show ?thesis using 1(3) sp s Bytes by (auto simp: readn_loop.simps [of es n])
      next
        case d1: False
        obtain d2 where r: "readn_loop es1 (n - length d1) = (es', d2, ok)" and d: "d = d1 @ d2"
          using 1(3) s Bytes d1 False by (auto simp: readn_loop.simps [of es n] split: prod.splits)
        from 1(1) [OF False s [symmetric] Bytes d1 r] show ?thesis using sp Bytes d by auto
      qed
    next
      case EINTR
      then have "readn_loop es1 n = (es', d, ok)" using 1(3) s False by (simp add: readn_loop.simps [of es n])
      from 1(2) [OF False s [symmetric] EINTR this] show ?thesis using sp EINTR by simp
    next
      case EOTHER
      then show ?thesis using 1(3) sp s by (auto simp: readn_loop.simps [of es n])
    qed
  qed
qed

lemma refill_spec:
  "refill es = (es', r) \<Longrightarrow> (case r of
      None \<Rightarrow> bytes es = [] \<and> fails es
    | Some d \<Rightarrow> bytes es = d @ bytes es' \<and> fails es' = fails es \<and> (d = [] \<longrightarrow> bytes es = [] \<and> \<not> fails es))"
proof (induction es rule: refill.induct)
  case (1 es)
  obtain es1 a where s: "sys_read es RIO_BUFSIZE = (es1, a)" by force
  note sp = sys_read_spec [OF s]
  show ?case
  proof (cases a)
    case EINTR
    then have "refill es1 = (es', r)" using 1(2) s by (simp add: refill.simps [of es])
    from 1(1) [OF s [symmetric] EINTR this] show ?thesis using sp EINTR by (auto simp: RIO_BUFSIZE_def split: option.splits)
  qed (use 1(2) s sp in \<open>auto simp: refill.simps [of es] RIO_BUFSIZE_def\<close>)
qed

lemma rio_read_spec:
  assumes "rio_read rp n = (rp', d, r)" and "0 < n"
  shows "r < 0 \<and> r = -1 \<and> d = [] \<and> pending rp = [] \<and> fails (rio_fd rp) \<or>
    r = 0 \<and> d = [] \<and> pending rp = [] \<and> \<not> fails (rio_fd rp) \<and> pending rp' = [] \<and> \<not> fails (rio_fd rp') \<or>
    r > 0 \<and> int (length d) = r \<and> length d \<le> n \<and> pending rp = d @ pending rp' \<and> fails (rio_fd rp') = fails (rio_fd rp)"
proof (cases "unread rp = []")
  case False
  then show ?thesis using assms by (auto simp: rio_read_def pending_def Let_def split: if_splits)
next
  case True
  obtain es r1 where f: "refill (rio_fd rp) = (es, r1)" by force
  show ?thesis using assms True f refill_spec [OF f]
    by (cases r1) (auto simp: rio_read_def pending_def Let_def split: if_splits)
qed

lemma readnb_loop_spec:
  "readnb_loop rp n = (rp', d, ok) \<Longrightarrow> d = take n (pending rp) \<and>
     (ok \<longleftrightarrow> n \<le> length (pending rp) \<or> \<not> fails (rio_fd rp)) \<and>
     (ok \<longrightarrow> pending rp' = drop n (pending rp) \<and> fails (rio_fd rp') = fails (rio_fd rp))"
proof (induction rp n arbitrary: d ok rule: readnb_loop.induct)
  case (1 rp n)
  obtain rp1 d1 r where s: "rio_read rp n = (rp1, d1, r)" by (metis prod_cases3)
  show ?case
  proof (cases "n = 0")
    case True
    then show ?thesis using 1(2) by (auto simp: readnb_loop.simps [of rp 0])
  next
    case False
    then have sp: "r < 0 \<and> r = -1 \<and> d1 = [] \<and> pending rp = [] \<and> fails (rio_fd rp) \<or>
      r = 0 \<and> d1 = [] \<and> pending rp = [] \<and> \<not> fails (rio_fd rp) \<and> pending rp1 = [] \<and> \<not> fails (rio_fd rp1) \<or>
      r > 0 \<and> int (length d1) = r \<and> length d1 \<le> n \<and> pending rp = d1 @ pending rp1 \<and> fails (rio_fd rp1) = fails (rio_fd rp)"
      using rio_read_spec [OF s] by simp
    show ?thesis
    proof (cases "r > 0")
      case True
      obtain d2 where l: "readnb_loop rp1 (n - nat r) = (rp', d2, ok)" and d: "d = d1 @ d2"
        using 1(2) s True False by (auto simp: readnb_loop.simps [of rp n] split: prod.splits)
      have i: "\<not> r < 0" "r \<noteq> 0" using True by auto
      have nr: "nat r = length d1" using sp True by auto
      show ?thesis using 1(1) [OF False s [symmetric] refl i l] sp True d nr by auto
    next
      case r: False
      then show ?thesis using 1(2) sp s False by (auto simp: readnb_loop.simps [of rp n])
    qed
  qed
qed

section \<open>Lines\<close>

definition first_line :: "string \<Rightarrow> string" where
  "first_line p = takeWhile (\<lambda>c. c \<noteq> CHR ''\<newline>'') p @ (if CHR ''\<newline>'' \<in> set p then ''\<newline>'' else [])"

lemma first_line_Cons:
  "first_line [] = []" "first_line (c # p) = (if c = CHR ''\<newline>'' then [c] else c # first_line p)"
  by (auto simp: first_line_def)

lemma first_line_length: "length (first_line p) \<le> length p"
  by (induction p) (auto simp: first_line_Cons)

lemma first_line_take: "take (length (first_line p)) p = first_line p"
  by (induction p) (auto simp: first_line_Cons)

lemma readline_loop_spec:
  "readline_loop rp k = (rp', d, ok) \<Longrightarrow> d = take k (first_line (pending rp)) \<and>
     (ok \<longleftrightarrow> k \<le> length (pending rp) \<or> CHR ''\<newline>'' \<in> set (pending rp) \<or> \<not> fails (rio_fd rp)) \<and>
     (ok \<longrightarrow> pending rp' = drop (length d) (pending rp) \<and> fails (rio_fd rp') = fails (rio_fd rp))"
proof (induction rp k arbitrary: d ok rule: readline_loop.induct)
  case (2 rp k)
  obtain rp1 d1 r where s: "rio_read rp 1 = (rp1, d1, r)" by (metis prod_cases3)
  consider "r = -1" "d1 = []" "pending rp = []" "fails (rio_fd rp)"
    | "r = 0" "d1 = []" "pending rp = []" "\<not> fails (rio_fd rp)" "pending rp1 = []" "\<not> fails (rio_fd rp1)"
    | c where "r = 1" "d1 = [c]" "pending rp = c # pending rp1" "fails (rio_fd rp1) = fails (rio_fd rp)"
    using rio_read_spec [OF s]
    by (cases d1 rule: remdups_adj.cases) (fastforce simp: Suc_le_eq)+
  then show ?case
  proof cases
    case (3 c)
    show ?thesis
    proof (cases "c = CHR ''\<newline>''")
      case True
      then show ?thesis using 2(2) s 3 by (auto simp: first_line_Cons)
    next
      case False
      obtain d2 where l: "readline_loop rp1 k = (rp', d2, ok)" and d: "d = c # d2"
        using 2(2) s 3 False by (auto split: prod.splits)
      have n: "d1 \<noteq> ''\<newline>''" using 3 False by simp
      show ?thesis using 2(1) [OF s [symmetric] refl 3(1) n l] 3 d False by (auto simp: first_line_Cons)
    qed
  qed (use 2(2) s in \<open>auto simp: first_line_Cons\<close>)
qed simp

section \<open>Properties\<close>

text \<open>
  However the kernel splits the data and whatever calls are interrupted, \<^verbatim>\<open>rio_readn\<close> and the
  buffered \<^verbatim>\<open>rio_readnb\<close> return the next \<open>n\<close> bytes of the stream and leave the bytes behind them
  for the next call; at the end of the file they return what is left; the result is -1 exactly
  when the stream breaks off with an error before the \<open>n\<close>-th byte.
\<close>

theorem rio_reads_stream:
  assumes "rio_readn es n = (es', d, r)" and "rio_readnb rp n = (rp', db, rb)"
  shows "(n \<le> length (bytes es) \<or> \<not> fails es \<longrightarrow>
      r = int (min n (length (bytes es))) \<and> d = take n (bytes es) \<and> bytes es' = drop n (bytes es)) \<and>
    (r = -1 \<longleftrightarrow> length (bytes es) < n \<and> fails es) \<and>
    (n \<le> length (pending rp) \<or> \<not> fails (rio_fd rp) \<longrightarrow>
      rb = int (min n (length (pending rp))) \<and> db = take n (pending rp) \<and> pending rp' = drop n (pending rp)) \<and>
    (rb = -1 \<longleftrightarrow> length (pending rp) < n \<and> fails (rio_fd rp))"
proof -
  obtain ok okb where l: "readn_loop es n = (es', d, ok)" "r = (if ok then int (length d) else -1)"
    "readnb_loop rp n = (rp', db, okb)" "rb = (if okb then int (length db) else -1)"
    using assms by (auto simp: rio_readn_def rio_readnb_def split: prod.splits)
  have a: "d = take n (bytes es)" "ok \<longleftrightarrow> n \<le> length (bytes es) \<or> \<not> fails es"
    "ok \<longrightarrow> bytes es' = drop n (bytes es)" using readn_loop_spec [OF l(1)] by blast+
  have b: "db = take n (pending rp)" "okb \<longleftrightarrow> n \<le> length (pending rp) \<or> \<not> fails (rio_fd rp)"
    "okb \<longrightarrow> pending rp' = drop n (pending rp)" using readnb_loop_spec [OF l(3)] by blast+
  have c: "(ok \<longrightarrow> r = int (min n (length (bytes es)))) \<and> (r = -1 \<longleftrightarrow> \<not> ok)" using l(2) a(1) by (simp add: min.commute)
  have e: "(okb \<longrightarrow> rb = int (min n (length (pending rp)))) \<and> (rb = -1 \<longleftrightarrow> \<not> okb)" using l(4) b(1) by (simp add: min.commute)
  have 1: "n \<le> length (bytes es) \<or> \<not> fails es \<longrightarrow>
      r = int (min n (length (bytes es))) \<and> d = take n (bytes es) \<and> bytes es' = drop n (bytes es)"
    using a c by blast
  have 2: "r = -1 \<longleftrightarrow> length (bytes es) < n \<and> fails es" using a(2) c by (simp add: not_le)
  have 3: "n \<le> length (pending rp) \<or> \<not> fails (rio_fd rp) \<longrightarrow>
      rb = int (min n (length (pending rp))) \<and> db = take n (pending rp) \<and> pending rp' = drop n (pending rp)"
    using b e by blast
  have 4: "rb = -1 \<longleftrightarrow> length (pending rp) < n \<and> fails (rio_fd rp)" using b(2) e by (simp add: not_le)
  show ?thesis using 1 2 3 4 by (intro conjI)
qed

lemma rio_reads_stream_witness:
  "\<exists>es'. rio_readn [Data ''ab'', Intr, Data ''cd''] 3 = (es', ''abc'', 3) \<and> bytes es' = ''d''"
proof -
  obtain es' d r where e: "rio_readn [Data ''ab'', Intr, Data ''cd''] 3 = (es', d, r)" by (metis prod_cases3)
  obtain rp' db rb where b: "rio_readnb (rio_readinitb []) 3 = (rp', db, rb)" by (metis prod_cases3)
  have "r = 3 \<and> d = ''abc'' \<and> bytes es' = ''d''" using rio_reads_stream [OF e b] by simp
  then show ?thesis using e by simp
qed

lemma readlineb_spec:
  assumes "rio_readlineb rp maxlen = (rp', d, r)" and "1 < maxlen"
  shows "d = take (maxlen - 1) (first_line (pending rp)) \<and>
    (if maxlen - 1 \<le> length (pending rp) \<or> CHR ''\<newline>'' \<in> set (pending rp) \<or> \<not> fails (rio_fd rp)
     then r = int (length d) \<and> pending rp = d @ pending rp' \<and> fails (rio_fd rp') = fails (rio_fd rp)
     else r = -1) \<and>
    (r = 0 \<longleftrightarrow> pending rp = [] \<and> \<not> fails (rio_fd rp))"
proof -
  obtain ok where l: "readline_loop rp (maxlen - 1) = (rp', d, ok)" and r: "r = (if ok then int (length d) else -1)"
    using assms by (auto simp: rio_readlineb_def split: prod.splits)
  have s: "d = take (maxlen - 1) (first_line (pending rp))"
    "ok \<longleftrightarrow> maxlen - 1 \<le> length (pending rp) \<or> CHR ''\<newline>'' \<in> set (pending rp) \<or> \<not> fails (rio_fd rp)"
    "ok \<longrightarrow> pending rp' = drop (length d) (pending rp) \<and> fails (rio_fd rp') = fails (rio_fd rp)"
    using readline_loop_spec [OF l] by blast+
  have "take (length d) (pending rp) = d"
    using first_line_take [of "pending rp"] s(1) by (metis length_take take_take min.commute)
  then have split: "ok \<longrightarrow> pending rp = d @ pending rp'" using s(3) append_take_drop_id by metis
  have zero: "d = [] \<longleftrightarrow> pending rp = []"
    using s(1) assms(2) by (cases "pending rp") (auto simp: first_line_Cons)
  have r1: "ok \<Longrightarrow> r = int (length d)" "\<not> ok \<Longrightarrow> r = -1" using r by simp_all
  have k: "maxlen - 1 \<noteq> 0" using assms(2) by simp
  have "r = 0 \<longleftrightarrow> ok \<and> d = []" using r1 by (cases ok) auto
  also have "\<dots> \<longleftrightarrow> pending rp = [] \<and> \<not> fails (rio_fd rp)"
    unfolding zero s(2) using k by auto
  finally have z: "r = 0 \<longleftrightarrow> pending rp = [] \<and> \<not> fails (rio_fd rp)" .
  show ?thesis
  proof (cases ok)
    case True
    show ?thesis unfolding if_P [OF True [unfolded s(2)]] using s(1,3) r1(1) split z True by blast
  next
    case False
    show ?thesis unfolding if_not_P [OF False [unfolded s(2)]] using s(1) r1(2) z False by blast
  qed
qed

text \<open>
  C20. \<^verbatim>\<open>rio_readlineb\<close> returns the next line of the stream with its newline, cut at \<open>maxlen - 1\<close>
  bytes, and leaves what follows for the next call; without a newline before the end of the
  file the rest of the stream is the line, and 0 means that nothing is left.  The result is -1
  exactly when the stream breaks off with an error before the line is complete.
\<close>

theorem rio_readlineb_line:
  assumes "rio_readlineb rp maxlen = (rp', d, r)" and "1 < maxlen"
  shows "d = take (maxlen - 1) (first_line (pending rp)) \<and>
    (if maxlen - 1 \<le> length (pending rp) \<or> CHR ''\<newline>'' \<in> set (pending rp) \<or> \<not> fails (rio_fd rp)
     then r = int (length d) \<and> pending rp = d @ pending rp' \<and> fails (rio_fd rp') = fails (rio_fd rp)
     else r = -1) \<and>
    (r = 0 \<longleftrightarrow> pending rp = [] \<and> \<not> fails (rio_fd rp))"
  using readlineb_spec [OF assms] .

lemma rio_readlineb_line_witness:
  "\<exists>rp'. rio_readlineb (rio_readinitb [Data ''a'', Intr, Data ''b\<newline>c'']) 80 = (rp', ''ab\<newline>'', 3) \<and> pending rp' = ''c''"
proof -
  let ?rp = "rio_readinitb [Data ''a'', Intr, Data ''b\<newline>c'']"
  obtain rp' d r where e: "rio_readlineb ?rp 80 = (rp', d, r)" by (metis prod_cases3)
  have p: "pending ?rp = ''ab\<newline>c''" by (simp add: pending_def rio_readinitb_def)
  have d: "first_line ''ab\<newline>c'' = ''ab\<newline>''" by (simp add: first_line_Cons)
  have "d = ''ab\<newline>'' \<and> r = int (length d) \<and> ''ab\<newline>c'' = d @ pending rp'"
    using rio_readlineb_line [OF e] unfolding p d by simp
  then have "d = ''ab\<newline>''" "r = 3" "pending rp' = ''c''" by auto
  then show ?thesis using e by simp
qed

lemma writen_spec:
  assumes "rio_writen ws d = (ws', out, r)"
  shows "(r = int (length d) \<and> out = d \<or> r = -1 \<and> W_fail \<in> set ws \<and> (\<exists>rest. d = out @ rest \<and> rest \<noteq> []))"
  using assms
proof (induction ws d arbitrary: out r rule: rio_writen.induct)
  case (3 k ws c d)
  obtain out1 r1 where e: "rio_writen ws (drop (Suc k) (c # d)) = (ws', out1, r1)"
    and o: "out = take (Suc k) (c # d) @ out1" "r = (if r1 < 0 then -1 else int (length (c # d)))"
    using "3.prems" by (auto split: prod.splits)
  from "3.IH" [OF e] show ?case
  proof
    assume "r1 = int (length (drop (Suc k) (c # d))) \<and> out1 = drop (Suc k) (c # d)"
    then show ?case using o by simp
  next
    assume f: "r1 = -1 \<and> W_fail \<in> set ws \<and> (\<exists>rest. drop (Suc k) (c # d) = out1 @ rest \<and> rest \<noteq> [])"
    then obtain rest where "drop (Suc k) (c # d) = out1 @ rest" "rest \<noteq> []" by blast
    then have "c # d = out @ rest" using o append_take_drop_id [of "Suc k" "c # d"] by simp
    then show ?case using f o \<open>rest \<noteq> []\<close> by auto
  qed
qed auto

text \<open>
  \<^verbatim>\<open>rio_writen\<close> writes the bytes in order and without loss or duplication: what has reached the
  descriptor is a prefix of the data; it is all of the data, and the result is its length, unless
  a call failed with an error other than an interruption, where the result is -1.
\<close>

theorem rio_writen_all:
  assumes "rio_writen ws d = (ws', out, r)"
  shows "(r = int (length d) \<and> out = d \<or> r = -1 \<and> W_fail \<in> set ws \<and> (\<exists>rest. d = out @ rest \<and> rest \<noteq> []))"
  using writen_spec [OF assms] .

lemma rio_writen_all_witness:
  "\<exists>ws'. rio_writen [Accept 0, W_intr, Accept 7] ''abc'' = (ws', ''abc'', 3)"
proof -
  have e: "rio_writen [Accept 0, W_intr, Accept 7] ''abc'' = ([], ''abc'', 3)" by simp
  show ?thesis using rio_writen_all [OF e] e by blast
qed

end
