(* ===== verification/RioWrap.thy ===== *)
theory RioWrap
  imports CString RioCorrect
begin

text \<open>
  The wrappers of the robust I/O package that end the program on an error (\<^verbatim>\<open>csapp.c\<close>), as the proxy
  and the web server call them, the faults of these programs, and what the wrappers do on a
  stream of lines.
\<close>

datatype fault = Overflow | Null_deref | Bad_free | Uninit | Exit0 string

definition proxy_MAXLINE :: nat where "proxy_MAXLINE = 8192"

definition Rio_readlineb :: "rio_t \<Rightarrow> nat \<Rightarrow> fault + rio_t \<times> string \<times> nat" where
  "Rio_readlineb rp maxlen = (case rio_readlineb rp maxlen of (rp, d, rc) \<Rightarrow>
     if rc < 0 then Inl (Exit0 ''Rio_readlineb error'') else Inr (rp, d, nat rc))"

definition Rio_writen :: "wevent list \<Rightarrow> string \<Rightarrow> fault + wevent list \<times> string" where
  "Rio_writen ws d = (case rio_writen ws d of (ws, out, r) \<Rightarrow>
     if r \<noteq> int (length d) then Inl (Exit0 ''Rio_writen error'') else Inr (ws, out))"

text \<open>The line buffer after \<^verbatim>\<open>Rio_readlineb\<close>, which leaves it alone at the end of the file.\<close>

definition line_buf :: "string \<Rightarrow> string \<Rightarrow> nat \<Rightarrow> string" where
  "line_buf buf d n = (if n = 0 then buf else cstr d)"

section \<open>What they read and write\<close>

lemma Rio_readlineb_measure:
  "Rio_readlineb rp maxlen = Inr (rp', d, n) \<Longrightarrow> n \<noteq> 0 \<Longrightarrow> rio_measure rp' < rio_measure rp"
  by (auto simp: Rio_readlineb_def split: prod.splits if_splits dest: rio_readlineb_measure)

lemma first_line_append: "CHR ''\<newline>'' \<notin> set w \<Longrightarrow> first_line (w @ CHR ''\<newline>'' # r) = w @ ''\<newline>''"
  by (induction w) (auto simp: first_line_Cons)

lemma Rio_readlineb_line:
  assumes p: "pending rp = w @ CHR ''\<newline>'' # r" and w: "CHR ''\<newline>'' \<notin> set w" and l: "length w + 1 < proxy_MAXLINE"
  shows "\<exists>rp'. Rio_readlineb rp proxy_MAXLINE = Inr (rp', w @ ''\<newline>'', length w + 1) \<and> pending rp' = r"
proof -
  obtain rp' d rc where e: "rio_readlineb rp proxy_MAXLINE = (rp', d, rc)" by (metis prod_cases3)
  have m: "1 < proxy_MAXLINE" by (simp add: proxy_MAXLINE_def)
  have d: "d = w @ ''\<newline>''"
    using conjunct1 [OF readlineb_spec [OF e m]] l unfolding p first_line_append [OF w] by simp
  have "CHR ''\<newline>'' \<in> set (pending rp)" by (simp add: p)
  then have "rc = int (length d) \<and> pending rp = d @ pending rp'"
    using conjunct1 [OF conjunct2 [OF readlineb_spec [OF e m]]] by (simp only: if_True simp_thms)
  then have "rc = int (length w + 1)" "pending rp' = r" using p d by simp_all
  then show ?thesis using e by (simp add: Rio_readlineb_def d)
qed

lemma Rio_readlineb_eof:
  assumes "pending rp = []" and "\<not> fails (rio_fd rp)"
  shows "\<exists>rp'. Rio_readlineb rp proxy_MAXLINE = Inr (rp', [], 0) \<and> pending rp' = [] \<and> \<not> fails (rio_fd rp')"
proof -
  obtain rp' d rc where e: "rio_readlineb rp proxy_MAXLINE = (rp', d, rc)" by (metis prod_cases3)
  have m: "1 < proxy_MAXLINE" by (simp add: proxy_MAXLINE_def)
  have "d = [] \<and> rc = 0 \<and> pending rp' = [] \<and> fails (rio_fd rp') = fails (rio_fd rp)"
    using readlineb_spec [OF e m] assms by (simp add: first_line_Cons)
  then show ?thesis using e assms by (simp add: Rio_readlineb_def)
qed

lemma Rio_writen_Inr: "Rio_writen ws d = Inr (ws', out) \<Longrightarrow> out = d"
  using writen_spec [of ws d] by (auto simp: Rio_writen_def split: prod.splits if_splits)

lemma Rio_readlineb_Inr:
  assumes "Rio_readlineb rp proxy_MAXLINE = Inr (rp', d, n)"
  shows "pending rp = d @ pending rp'" "n = length d" "n = 0 \<longleftrightarrow> pending rp = [] \<and> \<not> fails (rio_fd rp)"
    "n = 0 \<longrightarrow> pending rp = []" "fails (rio_fd rp') = fails (rio_fd rp)"
proof -
  obtain rc where e: "rio_readlineb rp proxy_MAXLINE = (rp', d, rc)" and n: "n = nat rc" "\<not> rc < 0"
    using assms by (auto simp: Rio_readlineb_def split: prod.splits if_splits)
  have m: "1 < proxy_MAXLINE" by (simp add: proxy_MAXLINE_def)
  have a: "rc = int (length d) \<and> pending rp = d @ pending rp' \<and> fails (rio_fd rp') = fails (rio_fd rp)"
    using conjunct1 [OF conjunct2 [OF readlineb_spec [OF e m]]] n(2) by (auto split: if_splits)
  have z: "rc = 0 \<longleftrightarrow> pending rp = [] \<and> \<not> fails (rio_fd rp)"
    using conjunct2 [OF conjunct2 [OF readlineb_spec [OF e m]]] .
  show "pending rp = d @ pending rp'" "n = length d" "fails (rio_fd rp') = fails (rio_fd rp)" using a n by auto
  show "n = 0 \<longleftrightarrow> pending rp = [] \<and> \<not> fails (rio_fd rp)" using z n by auto
  then show "n = 0 \<longrightarrow> pending rp = []" by blast
qed

end
