(* ===== verification/Proxy.thy ===== *)
theory Proxy
  imports RioWrap
begin

text \<open>
  The caching web proxy (\<^verbatim>\<open>sp_06_proxylab/proxylab-handout/proxy.c\<close>), without its locks: the cache,
  the parsers of the URI and of the headers, and a whole transaction (\<^verbatim>\<open>doit\<close>).

  Local arrays are not initialised in the program: their contents are parameters.  The kernel (what
  arrives on the two connections, how much a write accepts, the result of the connection to the
  server) and the clock are parameters too.
\<close>

definition MAX_CACHE_SIZE :: nat where "MAX_CACHE_SIZE = 1049000"
definition MAX_OBJECT_SIZE :: nat where "MAX_OBJECT_SIZE = 102400"

section \<open>The cache\<close>

text \<open>The list from \<^verbatim>\<open>list.head\<close>, which is a dummy, to \<^verbatim>\<open>list.tail\<close>.\<close>

record citem =
  cache_object :: string
  c_uri :: string
  access_time :: int
  c_size :: nat

record pcache =
  c_head :: citem
  c_items :: "citem list"
  cache_size :: nat

definition cache_init :: "int \<Rightarrow> pcache" where
  "cache_init now = \<lparr>c_head = \<lparr>cache_object = [NUL], c_uri = [], access_time = now, c_size = 0\<rparr>,
     c_items = [], cache_size = 0\<rparr>"

fun find_item :: "string \<Rightarrow> citem list \<Rightarrow> nat option" where
  "find_item URL [] = None"
| "find_item URL (x # xs) = (if URL = c_uri x then Some 0 else map_option Suc (find_item URL xs))"

text \<open>The index of the item with the oldest access, the first of them.\<close>

fun oldest :: "citem list \<Rightarrow> nat \<Rightarrow> nat \<Rightarrow> int \<Rightarrow> nat" where
  "oldest [] i k t = k"
| "oldest (x # xs) i k t = (if t > access_time x then oldest xs (Suc i) i (access_time x) else oldest xs (Suc i) k t)"

text \<open>
  The items in memory, for \<^verbatim>\<open>evict\<close>: the dummy is the block 1, the \<open>i\<close>-th item of the list the block
  \<open>i + 2\<close>, and 0 is the null pointer.
\<close>

record links =
  l_head :: nat
  l_tail :: nat
  l_prev :: "nat \<Rightarrow> nat"
  l_next :: "nat \<Rightarrow> nat"
  allocated :: "nat \<Rightarrow> bool"

text \<open>The links of the list with \<open>n\<close> items behind the dummy.\<close>

definition links_of :: "nat \<Rightarrow> links" where
  "links_of n = \<lparr>l_head = 1, l_tail = Suc n, l_prev = (\<lambda>p. p - 1), l_next = (\<lambda>p. if 0 < p \<and> p \<le> n then Suc p else 0),
     allocated = (\<lambda>p. 0 < p \<and> p \<le> Suc n)\<rparr>"

text \<open>The item \<open>e\<close> is taken out of the list; a fault comes with the memory at this moment.\<close>

definition unlink_item :: "nat \<Rightarrow> links \<Rightarrow> (links \<times> fault) + links" where
  "unlink_item e s =
     (let s = (if l_next s e = 0 then s\<lparr>l_tail := l_prev s e\<rparr> else s);
          s = (if l_prev s e = 0 then s\<lparr>l_head := l_next s e\<rparr> else s)
      in if l_prev s e = 0 then Inl (s, Null_deref)
         else let s = s\<lparr>l_next := (l_next s)(l_prev s e := l_next s e)\<rparr>
           in if l_next s e = 0 then Inl (s, Null_deref)
              else Inr (s\<lparr>l_prev := (l_prev s)(l_next s e := l_prev s e)\<rparr>))"

text \<open>\<^verbatim>\<open>free\<close> takes a pointer, here a block and an offset into it: only the start of an allocated block can be freed.\<close>

definition c_free :: "nat \<Rightarrow> nat \<Rightarrow> links \<Rightarrow> (links \<times> fault) + links" where
  "c_free p off s = (if off = 0 \<and> allocated s p then Inr (s\<lparr>allocated := (allocated s)(p := False)\<rparr>) else Inl (s, Bad_free))"

text \<open>In an item, \<^verbatim>\<open>cache_object\<close> is at offset 0 and \<^verbatim>\<open>uri\<close> behind its \<^verbatim>\<open>MAX_OBJECT_SIZE\<close> bytes.\<close>

definition free_item :: "nat \<Rightarrow> links \<Rightarrow> (links \<times> fault) + links" where
  "free_item e s = (case c_free e 0 s of
     Inl f \<Rightarrow> Inl f
   | Inr s \<Rightarrow> case c_free e MAX_OBJECT_SIZE s of
       Inl f \<Rightarrow> Inl f
     | Inr s \<Rightarrow> c_free e 0 s)"

definition evict_item :: "pcache \<Rightarrow> (links \<times> fault) + pcache" where
  "evict_item c = (case c_items c of
     [] \<Rightarrow> Inl (links_of 0, Null_deref)
   | x # xs \<Rightarrow>
       let k = oldest (x # xs) 0 0 (access_time x) in
       case unlink_item (k + 2) (links_of (length (x # xs))) of
         Inl f \<Rightarrow> Inl f
       | Inr s \<Rightarrow> case free_item (k + 2) s of
           Inl f \<Rightarrow> Inl f
         | Inr s \<Rightarrow> Inr (c\<lparr>c_items := take k (x # xs) @ drop (Suc k) (x # xs),
             cache_size := cache_size c - c_size ((x # xs) ! k)\<rparr>))"

lemma evict_item_shorter:
  assumes "evict_item c = Inr c'"
  shows "length (c_items c') < length (c_items c)"
  using assms by (auto simp: evict_item_def free_item_def c_free_def Let_def MAX_OBJECT_SIZE_def split: list.splits sum.splits if_splits)

function make_room :: "pcache \<Rightarrow> nat \<Rightarrow> (links \<times> fault) + pcache" where
  "make_room c sz =
     (if cache_size c + sz > MAX_CACHE_SIZE
      then (case evict_item c of Inl f \<Rightarrow> Inl f | Inr c \<Rightarrow> make_room c sz)
      else Inr c)"
  by pat_completeness auto
termination
  by (relation "measure (\<lambda>(c, _). length (c_items c))") (auto dest: evict_item_shorter)

declare make_room.simps [simp del]

text \<open>\<open>junk\<close> is the array of the new item before the object is copied.\<close>

definition cache_URL :: "pcache \<Rightarrow> int \<Rightarrow> string \<Rightarrow> string \<Rightarrow> string \<Rightarrow> nat \<Rightarrow> fault + pcache" where
  "cache_URL c now junk URL obj sz =
     (case make_room c sz of
        Inl (_, f) \<Rightarrow> Inl f
      | Inr c \<Rightarrow>
          case c_strcpy junk obj of
            None \<Rightarrow> Inl Overflow
          | Some a \<Rightarrow>
              Inr (c\<lparr>c_items := c_items c @ [\<lparr>cache_object = a, c_uri = URL, access_time = now, c_size = sz\<rparr>],
                cache_size := cache_size c + sz\<rparr>))"

text \<open>\<^verbatim>\<open>check_cache\<close>: on a hit, the bytes that are written to the client.\<close>

definition check_cache :: "pcache \<Rightarrow> int \<Rightarrow> string \<Rightarrow> pcache \<times> string option" where
  "check_cache c now URL =
     (case find_item URL (c_head c # c_items c) of
        None \<Rightarrow> (c, None)
      | Some 0 \<Rightarrow> (c\<lparr>c_head := (c_head c)\<lparr>access_time := now\<rparr>\<rparr>, Some (take (c_size (c_head c)) (cache_object (c_head c))))
      | Some (Suc i) \<Rightarrow>
          let x = c_items c ! i in
          (c\<lparr>c_items := (c_items c)[i := x\<lparr>access_time := now\<rparr>]\<rparr>, Some (take (c_size x) (cache_object x))))"

section \<open>Parsing\<close>

text \<open>\<^verbatim>\<open>parse_uri\<close>: host name, port and path; \<open>None\<close> is an array that is left as it was.\<close>

definition parse_uri :: "string \<Rightarrow> string option \<times> string option \<times> string option" where
  "parse_uri uri =
     (let start = (case strstr uri ''http://'' of Some s \<Rightarrow> drop 7 s | None \<Rightarrow> uri) in
      if strstr start '':'' \<noteq> None then
        (case scan_until (CHR '':'') start of
           None \<Rightarrow> (None, None, None)
         | Some (host, r) \<Rightarrow>
             case scan_until (CHR ''/'') (tl r) of
               None \<Rightarrow> (Some host, None, None)
             | Some (port, r) \<Rightarrow> (Some host, Some port, map_option fst (scan_word r)))
      else
        (case scan_until (CHR ''/'') start of
           None \<Rightarrow> (None, Some ''80'', None)
         | Some (host, r) \<Rightarrow> (Some host, Some ''80'', map_option fst (scan_word r))))"

definition headers :: "string list" where
  "headers = [''Connection'', ''Proxy-Connection'', ''User-Agent'']"

text \<open>
  \<^verbatim>\<open>check_header\<close>: \<^verbatim>\<open>strncmp\<close> compares as many characters as the name of the header has; \<open>None\<close>:
  without a colon, the length of a null pointer is taken.
\<close>

definition check_header :: "string \<Rightarrow> bool option" where
  "check_header buf = (case strstr buf '':'' of
     None \<Rightarrow> None
   | Some ptr \<Rightarrow>
       let hdr = take (length buf - length ptr) buf
       in Some (list_ex (\<lambda>h. take (length hdr) h = hdr) headers))"

definition request_header :: "string \<Rightarrow> string" where
  "request_header path = ''GET '' @ path @ '' HTTP/1.0'' @ CRLF"

definition user_agent_hdr :: string where
  "user_agent_hdr = ''User-Agent: Mozilla/5.0 (X11; Linux x86_64; rv:10.0.3) Gecko/20120305 Firefox/10.0.3'' @ CRLF"

definition conn_hdr :: string where "conn_hdr = ''Connection: close'' @ CRLF"
definition proxy_conn_hdr :: string where "proxy_conn_hdr = ''Proxy-Connection: close'' @ CRLF"

text \<open>
  The loop of \<^verbatim>\<open>parse_header\<close> over the lines of the client; it may run forever.  \<open>hh\<close> and \<open>ho\<close> are
  the arrays \<^verbatim>\<open>header_host\<close> and \<^verbatim>\<open>header_other\<close>.
\<close>

partial_function (option) header_loop ::
    "rio_t \<Rightarrow> string \<Rightarrow> string \<Rightarrow> string \<Rightarrow> (fault + rio_t \<times> string \<times> string) option" where
  "header_loop rp buf hh ho =
     (if has_prefix CRLF buf then Some (Inr (rp, hh, ho))
      else if has_prefix ''Host'' buf then
        (case strncpy_len hh buf of
           None \<Rightarrow> Some (Inl Overflow)
         | Some hh \<Rightarrow>
             case Rio_readlineb rp proxy_MAXLINE of
               Inl f \<Rightarrow> Some (Inl f)
             | Inr (rp, d, n) \<Rightarrow> header_loop rp (line_buf buf d n) hh ho)
      else
        (case check_header buf of
           None \<Rightarrow> Some (Inl Null_deref)
         | Some known \<Rightarrow>
             case (if known then Some ho else strncat_len ho buf) of
               None \<Rightarrow> Some (Inl Overflow)
             | Some ho \<Rightarrow>
                 case Rio_readlineb rp proxy_MAXLINE of
                   Inl f \<Rightarrow> Some (Inl f)
                 | Inr (rp, d, n) \<Rightarrow> header_loop rp (line_buf buf d n) hh ho))"

definition parse_header :: "string \<Rightarrow> string \<Rightarrow> string \<Rightarrow> string \<Rightarrow> string \<Rightarrow> rio_t
    \<Rightarrow> (fault + rio_t \<times> string) option" where
  "parse_header hostname path buf hh ho rp =
     (case Rio_readlineb rp proxy_MAXLINE of
        Inl f \<Rightarrow> Some (Inl f)
      | Inr (rp, d, n) \<Rightarrow>
          case header_loop rp (line_buf buf d n) hh ho of
            None \<Rightarrow> None
          | Some (Inl f) \<Rightarrow> Some (Inl f)
          | Some (Inr (rp, hh, ho)) \<Rightarrow>
              let host = (if cstr hh = [] then ''Host: '' @ hostname @ CRLF else cstr hh);
                  req = request_header path @ host @ user_agent_hdr @ conn_hdr @ proxy_conn_hdr @ cstr ho @ CRLF
              in Some (if length req < proxy_MAXLINE then Inr (rp, req) else Inl Overflow))"

section \<open>A transaction\<close>

text \<open>
  The loop of \<^verbatim>\<open>doit\<close> that forwards the response line by line and collects it in \<open>obj\<close>: what
  was written to the client, the collected object and the number of bytes of the response.
\<close>

function forward :: "wevent list \<Rightarrow> rio_t \<Rightarrow> string \<Rightarrow> nat \<Rightarrow> fault + string \<times> string \<times> nat" where
  "forward ws server obj sz =
     (case Rio_readlineb server proxy_MAXLINE of
        Inl f \<Rightarrow> Inl f
      | Inr (server, d, n) \<Rightarrow>
          if n = 0 then Inr ([], obj, sz)
          else
            (case Rio_writen ws d of
               Inl f \<Rightarrow> Inl f
             | Inr (ws, out) \<Rightarrow>
                 case (if sz + n < MAX_OBJECT_SIZE then strncat_len obj (cstr d) else Some obj) of
                   None \<Rightarrow> Inl Overflow
                 | Some obj \<Rightarrow>
                     case forward ws server obj (sz + n) of
                       Inl f \<Rightarrow> Inl f
                     | Inr (out', obj, sz) \<Rightarrow> Inr (out @ out', obj, sz)))"
  by pat_completeness auto
termination
  by (relation "measure (\<lambda>(_, rp, _). rio_measure rp)") (auto dest: Rio_readlineb_measure)

declare forward.simps [simp del]

text \<open>What is not determined by the program: arrays before their first use, the clock, and the kernel.\<close>

record environ =
  a_buf :: string
  a_hbuf :: string
  a_host :: string
  a_other :: string
  a_obj :: string
  a_item :: string
  clock :: int
  client_writes :: "wevent list"
  connect_to :: "string \<Rightarrow> string \<Rightarrow> event list option"

text \<open>
  \<^verbatim>\<open>doit\<close>: the new cache, what is written to the client, and what is written to the server if a
  connection is opened.  \<open>connect_to\<close> is \<^verbatim>\<open>Open_clientfd\<close>, which ends the program when it fails;
  sending the request to the server is taken to succeed.
\<close>

definition doit :: "environ \<Rightarrow> pcache \<Rightarrow> event list \<Rightarrow> (fault + pcache \<times> string \<times> string option) option" where
  "doit env c fd =
     (case Rio_readlineb (rio_readinitb fd) proxy_MAXLINE of
        Inl f \<Rightarrow> Some (Inl f)
      | Inr (client, d, n) \<Rightarrow>
          let buf = line_buf (a_buf env) d n in
          case scan_word buf of
            None \<Rightarrow> Some (Inl Uninit)
          | Some (meth, r) \<Rightarrow>
              if \<not> strcasecmp_eq meth ''GET'' then Some (Inr (c, [], None))
              else case scan_word r of
                None \<Rightarrow> Some (Inl Uninit)
              | Some (uri, _) \<Rightarrow>
                  case check_cache c (clock env) uri of
                    (c, Some obj) \<Rightarrow> Some (Inr (c, fst (snd (rio_writen (client_writes env) obj)), None))
                  | (c, None) \<Rightarrow>
                      case parse_uri uri of
                        (Some host, Some port, Some path) \<Rightarrow>
                          (case parse_header host path (a_hbuf env) (a_host env) (a_other env) client of
                             None \<Rightarrow> None
                           | Some (Inl f) \<Rightarrow> Some (Inl f)
                           | Some (Inr (client, req)) \<Rightarrow>
                               case connect_to env host port of
                                 None \<Rightarrow> Some (Inl (Exit0 ''Open_clientfd error''))
                               | Some sfd \<Rightarrow>
                                   case forward (client_writes env) (rio_readinitb sfd) (a_obj env) 0 of
                                     Inl f \<Rightarrow> Some (Inl f)
                                   | Inr (out, obj, sz) \<Rightarrow>
                                       if sz < MAX_OBJECT_SIZE then
                                         (case cache_URL c (clock env) (a_item env) uri obj sz of
                                            Inl f \<Rightarrow> Some (Inl f)
                                          | Inr c \<Rightarrow> Some (Inr (c, out, Some req)))
                                       else Some (Inr (c, out, Some req)))
                      | _ \<Rightarrow> Some (Inl Uninit))"

end
