(* ===== verification/ProxyCorrect.thy ===== *)
theory ProxyCorrect
  imports Proxy RioCorrect
begin

text \<open>
  The cache of the proxy: the contract that a transaction relies on, what the cache guarantees and
  when it breaks; and the transaction: the response is forwarded unchanged, and replayed from the
  cache.
\<close>

section \<open>The contract of a cache\<close>

text \<open>
  Storing never changes what is already found, and a hit returns what is found and changes nothing
  that can be found.
\<close>

locale web_cache =
  fixes inv :: "'c \<Rightarrow> bool"
    and lookup :: "'c \<Rightarrow> string \<Rightarrow> string option"
    and insert_obj :: "'c \<Rightarrow> string \<Rightarrow> string \<Rightarrow> 'c option"
    and hit :: "'c \<Rightarrow> string \<Rightarrow> 'c \<times> string option"
    and storable :: "string \<Rightarrow> string \<Rightarrow> bool"
  assumes insert_inv: "inv c \<Longrightarrow> storable u b \<Longrightarrow> insert_obj c u b = Some c' \<Longrightarrow> inv c'"
    and insert_lookup: "inv c \<Longrightarrow> storable u b \<Longrightarrow> insert_obj c u b = Some c' \<Longrightarrow>
      lookup c' v = (case lookup c v of None \<Rightarrow> if v = u then Some b else None | Some b' \<Rightarrow> Some b')"
    and hit_inv: "inv c \<Longrightarrow> inv (fst (hit c u))"
    and hit_lookup: "inv c \<Longrightarrow> snd (hit c u) = lookup c u \<and> lookup (fst (hit c u)) v = lookup c v"
begin

text \<open>A sequence of transactions: \<open>Inl u\<close> looks for \<open>u\<close>, \<open>Inr (u, b)\<close> stores \<open>b\<close>.\<close>

fun cache_ops :: "'c \<Rightarrow> (string + string \<times> string) list \<Rightarrow> 'c option" where
  "cache_ops c [] = Some c"
| "cache_ops c (Inl u # os) = cache_ops (fst (hit c u)) os"
| "cache_ops c (Inr (u, b) # os) = (case insert_obj c u b of None \<Rightarrow> None | Some c \<Rightarrow> cache_ops c os)"

lemma found_stays:
  assumes "inv c" and "lookup c u = Some b" and "cache_ops c os = Some c'"
    and "\<forall>(v, d)\<in>{x. Inr x \<in> set os}. storable v d"
  shows "inv c' \<and> snd (hit c' u) = Some b"
  using assms
proof (induction c os rule: cache_ops.induct)
  case (1 c)
  then show ?case using hit_lookup by auto
next
  case (2 c v os)
  then show ?case using hit_inv hit_lookup by auto
next
  case (3 c v d os)
  then obtain c1 where c1: "insert_obj c v d = Some c1" "cache_ops c1 os = Some c'" by (auto split: option.splits)
  have s: "storable v d" using 3(5) by auto
  have "lookup c1 u = Some b" using insert_lookup [OF 3(2) s c1(1), of u] 3(3) by simp
  then show ?case using 3(1) [OF c1(1) insert_inv [OF 3(2) s c1(1)]] c1(2) 3(5) by auto
qed

end

section \<open>The cache of the proxy has the contract\<close>

definition item_ok :: "citem \<Rightarrow> bool" where
  "item_ok x \<longleftrightarrow> c_size x < MAX_OBJECT_SIZE \<and> c_uri x \<noteq> []"

definition cache_ok :: "pcache \<Rightarrow> bool" where
  "cache_ok c \<longleftrightarrow> c_uri (c_head c) = [] \<and> (\<forall>x\<in>set (c_items c). item_ok x) \<and>
     cache_size c = sum_list (map c_size (c_items c)) \<and> cache_size c \<le> MAX_CACHE_SIZE"

definition found :: "pcache \<Rightarrow> string \<Rightarrow> string option" where
  "found c u = map_option (\<lambda>i. take (c_size ((c_head c # c_items c) ! i)) (cache_object ((c_head c # c_items c) ! i)))
     (find_item u (c_head c # c_items c))"

lemma find_item_Some: "find_item u xs = Some i \<longleftrightarrow> i < length xs \<and> u = c_uri (xs ! i) \<and> (\<forall>k<i. u \<noteq> c_uri (xs ! k))"
proof (induction xs arbitrary: i)
  case (Cons x xs)
  show ?case
  proof (cases i)
    case (Suc k)
    then show ?thesis using Cons.IH [of k] by (auto simp: less_Suc_eq_0_disj)
  qed auto
qed simp

lemma find_item_None: "find_item u xs = None \<longleftrightarrow> u \<notin> c_uri ` set xs"
  by (induction xs) auto

lemma find_item_map:
  "map c_uri xs = map c_uri ys \<Longrightarrow> find_item u xs = find_item u ys"
  by (induction xs ys rule: list_induct2') auto

lemma find_item_snoc:
  "find_item u (xs @ [y]) = (case find_item u xs of Some i \<Rightarrow> Some i | None \<Rightarrow> if u = c_uri y then Some (length xs) else None)"
  by (induction xs) (auto split: option.splits)

text \<open>Storing an item keeps the links in step with the list.\<close>

lemma links_append:
  "links_of (Suc n) = (links_of n)\<lparr>l_next := (l_next (links_of n))(l_tail (links_of n) := n + 2), l_tail := n + 2,
     l_prev := (l_prev (links_of n))(n + 2 := l_tail (links_of n)), allocated := (allocated (links_of n))(n + 2 := True)\<rparr>"
  by (auto simp: links_of_def fun_eq_iff)

definition first_oldest :: "citem list \<Rightarrow> nat \<Rightarrow> bool" where
  "first_oldest xs k \<longleftrightarrow> k < length xs \<and> (\<forall>j<length xs. access_time (xs ! k) \<le> access_time (xs ! j)) \<and>
     (\<forall>j<k. access_time (xs ! k) < access_time (xs ! j))"

lemma oldest_first:
  assumes "first_oldest ps k"
  shows "first_oldest (ps @ xs) (oldest xs (length ps) k (access_time (ps ! k)))"
  using assms
proof (induction xs arbitrary: ps k)
  case (Cons x xs)
  let ?k = "if access_time (ps ! k) > access_time x then length ps else k"
  have t: "access_time ((ps @ [x]) ! ?k) = (if access_time (ps ! k) > access_time x then access_time x else access_time (ps ! k))"
    using Cons.prems by (auto simp: first_oldest_def nth_append)
  have "first_oldest (ps @ [x]) ?k"
    using Cons.prems by (auto simp: first_oldest_def nth_append less_Suc_eq split: if_splits)
  from Cons.IH [OF this] show ?case unfolding t by (auto split: if_splits)
qed simp

lemma first_oldest_le: "first_oldest xs i \<Longrightarrow> first_oldest xs j \<Longrightarrow> i \<le> j"
  unfolding first_oldest_def by (meson not_le)

lemma first_oldest_unique: "first_oldest xs i \<Longrightarrow> first_oldest xs j \<Longrightarrow> i = j"
  using first_oldest_le le_antisym by blast

text \<open>What \<^verbatim>\<open>evict\<close> has done when it crashes: \<open>k\<close> is the item that it evicts, \<open>n\<close> the number of items.\<close>

definition evict_crash :: "nat \<Rightarrow> nat \<Rightarrow> links \<times> fault" where
  "evict_crash n k = (let s = links_of n in
     if Suc k = n then (s\<lparr>l_tail := k + 1, l_next := (l_next s)(k + 1 := 0)\<rparr>, Null_deref)
     else (s\<lparr>l_next := (l_next s)(k + 1 := k + 3), l_prev := (l_prev s)(k + 3 := k + 1),
       allocated := (allocated s)(k + 2 := False)\<rparr>, Bad_free))"

lemma evict_item_oldest:
  assumes "first_oldest (c_items c) k"
  shows "evict_item c = Inl (evict_crash (length (c_items c)) k)"
proof (cases "c_items c")
  case (Cons x xs)
  have "first_oldest [x] 0" by (simp add: first_oldest_def)
  from oldest_first [OF this, of xs] have "oldest (x # xs) 0 0 (access_time x) = k"
    using first_oldest_unique assms Cons by simp
  moreover have "k < length (x # xs)" using assms Cons by (simp add: first_oldest_def)
  ultimately show ?thesis using Cons
    by (auto simp: evict_item_def Let_def unlink_item_def free_item_def c_free_def links_of_def evict_crash_def MAX_OBJECT_SIZE_def fun_eq_iff)
next
  case Nil
  then show ?thesis using assms by (simp add: first_oldest_def)
qed

lemma ex_oldest: "c_items c \<noteq> [] \<Longrightarrow> \<exists>k. first_oldest (c_items c) k"
proof (cases "c_items c")
  case (Cons x xs)
  have "first_oldest [x] 0" by (simp add: first_oldest_def)
  from oldest_first [OF this, of xs] show ?thesis using Cons by auto
qed simp

lemma evict_never_returns: "evict_item c \<noteq> Inr c'"
  using ex_oldest [of c] evict_item_oldest [of c] by (cases "c_items c") (auto simp: evict_item_def)

lemma make_room_iff:
  "make_room c sz = (if cache_size c + sz > MAX_CACHE_SIZE then evict_item c else Inr c)"
  using evict_never_returns [of c] by (auto simp: make_room.simps [of c sz] split: sum.splits)

lemma store_Some: "store a k s = Some a' \<longleftrightarrow> k + length s \<le> length a \<and> a' = take k a @ s @ drop (k + length s) a"
  by (auto simp: store_def)

lemma cache_URL_Inr:
  "cache_URL c now junk u obj sz = Inr c' \<longleftrightarrow>
     cache_size c + sz \<le> MAX_CACHE_SIZE \<and> length (cstr obj) < length junk \<and>
     c' = c\<lparr>c_items := c_items c @ [\<lparr>cache_object = cstr obj @ NUL # drop (Suc (length (cstr obj))) junk,
       c_uri = u, access_time = now, c_size = sz\<rparr>], cache_size := cache_size c + sz\<rparr>"
proof (cases "cache_size c + sz \<le> MAX_CACHE_SIZE")
  case True
  then show ?thesis
    by (auto simp: cache_URL_def make_room_iff c_strcpy_def store_Some split: option.splits) (auto simp: store_def)
next
  case False
  then show ?thesis using evict_never_returns [of c] by (auto simp: cache_URL_def make_room_iff split: sum.splits)
qed

lemma check_cache_found: "snd (check_cache c now u) = found c u"
  by (auto simp: check_cache_def found_def Let_def split: option.splits nat.splits)

lemma found_cong:
  assumes "map c_uri (c_head c # c_items c) = map c_uri (c_head d # c_items d)"
    and "map c_size (c_head c # c_items c) = map c_size (c_head d # c_items d)"
    and "map cache_object (c_head c # c_items c) = map cache_object (c_head d # c_items d)"
  shows "found c u = found d u"
proof -
  let ?xs = "c_head c # c_items c" and ?ys = "c_head d # c_items d"
  have f: "find_item u ?xs = find_item u ?ys" by (rule find_item_map [OF assms(1)])
  have l: "length ?xs = length ?ys" using assms(1) map_eq_imp_length_eq by blast
  have "c_size (?xs ! i) = c_size (?ys ! i) \<and> cache_object (?xs ! i) = cache_object (?ys ! i)" if "i < length ?xs" for i
    using that l assms(2,3) by (metis nth_map)
  then show ?thesis
  proof (cases "find_item u ?xs")
    case None
    then show ?thesis using f by (simp only: found_def option.map)
  next
    case (Some i)
    then have "i < length ?xs" by (simp only: find_item_Some)
    then have "c_size (?xs ! i) = c_size (?ys ! i)" "cache_object (?xs ! i) = cache_object (?ys ! i)"
      using \<open>\<And>i. i < length ?xs \<Longrightarrow> _\<close> by blast+
    moreover have "find_item u ?ys = Some i" using f Some by simp
    ultimately show ?thesis unfolding found_def Some option.map by (simp only: option.map)
  qed
qed

lemma check_cache_fields:
  "map c_uri (c_head (fst (check_cache c now u)) # c_items (fst (check_cache c now u))) = map c_uri (c_head c # c_items c)"
  "map c_size (c_head (fst (check_cache c now u)) # c_items (fst (check_cache c now u))) = map c_size (c_head c # c_items c)"
  "map cache_object (c_head (fst (check_cache c now u)) # c_items (fst (check_cache c now u))) = map cache_object (c_head c # c_items c)"
  "cache_size (fst (check_cache c now u)) = cache_size c"
proof -
  have keep: "map f (xs[i := (xs ! i)\<lparr>access_time := now\<rparr>]) = map f xs"
    if "\<And>x. f (x\<lparr>access_time := now\<rparr>) = f x" for f :: "citem \<Rightarrow> 'b" and xs i
    by (rule nth_equalityI) (auto simp: nth_update that)
  show "map c_uri (c_head (fst (check_cache c now u)) # c_items (fst (check_cache c now u))) = map c_uri (c_head c # c_items c)"
    "map c_size (c_head (fst (check_cache c now u)) # c_items (fst (check_cache c now u))) = map c_size (c_head c # c_items c)"
    "map cache_object (c_head (fst (check_cache c now u)) # c_items (fst (check_cache c now u))) = map cache_object (c_head c # c_items c)"
    "cache_size (fst (check_cache c now u)) = cache_size c"
    by (auto simp: check_cache_def Let_def keep split: option.splits nat.splits)
qed

lemma check_cache_keeps: "found (fst (check_cache c now u)) v = found c v"
  by (rule found_cong [OF check_cache_fields(1-3)])

lemma check_cache_ok: "cache_ok c \<Longrightarrow> cache_ok (fst (check_cache c now u))"
proof -
  assume ok: "cache_ok c"
  let ?d = "fst (check_cache c now u)"
  have "map c_uri (c_items ?d) = map c_uri (c_items c)" "map c_size (c_items ?d) = map c_size (c_items c)"
    "c_uri (c_head ?d) = c_uri (c_head c)" using check_cache_fields [of c now u] by auto
  moreover from this(1,2) have "length (c_items ?d) = length (c_items c)" using map_eq_imp_length_eq by blast
  then have "\<forall>i<length (c_items ?d). item_ok (c_items ?d ! i)"
    using calculation(1,2) ok by (simp add: cache_ok_def item_ok_def all_set_conv_all_nth) (metis nth_map)
  ultimately show ?thesis using ok check_cache_fields(4) [of c now u]
    by (simp add: cache_ok_def all_set_conv_all_nth)
qed

text \<open>Storing an object of the given array, without a terminator in it.\<close>

definition proxy_storable :: "string \<Rightarrow> string \<Rightarrow> bool" where
  "proxy_storable u b \<longleftrightarrow> u \<noteq> [] \<and> NUL \<notin> set b \<and> length b < MAX_OBJECT_SIZE"

definition proxy_store :: "string \<Rightarrow> pcache \<Rightarrow> string \<Rightarrow> string \<Rightarrow> pcache option" where
  "proxy_store junk c u b = (case cache_URL c 0 junk u b (length b) of Inl f \<Rightarrow> None | Inr c \<Rightarrow> Some c)"

lemma cache_URL_ok:
  assumes "cache_ok c" and "u \<noteq> []" and "sz < MAX_OBJECT_SIZE" and "cache_URL c now junk u obj sz = Inr c'"
  shows "cache_ok c'"
  using assms by (auto simp: cache_URL_Inr cache_ok_def item_ok_def)

lemma found_snoc:
  assumes "c_items d = c_items c @ [y]" and "c_head d = c_head c"
  shows "found d v = (case found c v of
      None \<Rightarrow> if v = c_uri y then Some (take (c_size y) (cache_object y)) else None | Some b \<Rightarrow> Some b)"
proof -
  let ?xs = "c_head c # c_items c"
  have d: "c_head d # c_items d = ?xs @ [y]" using assms by simp
  show ?thesis
  proof (cases "find_item v ?xs")
    case None
    have l: "(?xs @ [y]) ! length ?xs = y" by (rule nth_append_length)
    show ?thesis unfolding found_def d find_item_snoc None option.case option.map
      by (simp only: l option.map option.case split: if_split) simp
  next
    case (Some i)
    then have "i < length ?xs" by (simp only: find_item_Some)
    then have "(?xs @ [y]) ! i = ?xs ! i" unfolding nth_append by (rule if_P)
    then show ?thesis unfolding found_def d find_item_snoc Some option.case option.map by (simp only: )
  qed
qed

lemma cache_URL_found:
  assumes "cache_URL c now junk u b (length b) = Inr c'" and "NUL \<notin> set b"
  shows "found c' v = (case found c v of None \<Rightarrow> if v = u then Some b else None | Some b' \<Rightarrow> Some b')"
proof -
  let ?y = "\<lparr>cache_object = b @ NUL # drop (Suc (length b)) junk, c_uri = u, access_time = now, c_size = length b\<rparr>"
  have c: "c_items c' = c_items c @ [?y]" "c_head c' = c_head c"
    using assms(1) unfolding cache_URL_Inr cstr_no_NUL [OF assms(2)] by simp_all
  show ?thesis using found_snoc [OF c, of v] by (cases "found c v") auto
qed

interpretation pc: web_cache cache_ok found "proxy_store junk" "\<lambda>c. check_cache c now" proxy_storable
proof unfold_locales
  fix c u b c'
  assume "cache_ok c" "proxy_storable u b" "proxy_store junk c u b = Some c'"
  then show "cache_ok c'" using cache_URL_ok by (auto simp: proxy_store_def proxy_storable_def split: sum.splits)
next
  fix c u b c' v
  assume "cache_ok c" "proxy_storable u b" "proxy_store junk c u b = Some c'"
  then show "found c' v = (case found c v of None \<Rightarrow> if v = u then Some b else None | Some b' \<Rightarrow> Some b')"
    using cache_URL_found by (auto simp: proxy_store_def proxy_storable_def split: sum.splits)
next
  fix c u assume "cache_ok c"
  then show "cache_ok (fst (check_cache c now u))" by (rule check_cache_ok)
next
  fix c u v
  show "snd (check_cache c now u) = found c u \<and> found (fst (check_cache c now u)) v = found c v"
    by (simp add: check_cache_found check_cache_keeps)
qed

section \<open>Properties of the cache\<close>

text \<open>
  C23. An object is stored exactly when it fits in the remaining space of the cache: then the total
  size is the sum of the sizes and within \<^verbatim>\<open>MAX_CACHE_SIZE\<close>.  As soon as room has to be made the
  proxy crashes in the first call of \<^verbatim>\<open>evict\<close>.  The item chosen is the one with the oldest access,
  the first of them.  If it is the last of the list, its predecessor has become the tail, with no
  successor, and then the null pointer behind the item is written; nothing has been freed.
  Otherwise the item has been taken out of the list in both directions and the first \<^verbatim>\<open>free\<close> has
  freed it (the object is at its start), and the second \<^verbatim>\<open>free\<close> gets a pointer into it.
\<close>

theorem cache_never_evicts:
  assumes ok: "cache_ok c" and u: "u \<noteq> []" and sz: "sz < MAX_OBJECT_SIZE" and fit: "length (cstr obj) < length junk"
  shows "(if cache_size c + sz \<le> MAX_CACHE_SIZE
     then \<exists>c'. cache_URL c now junk u obj sz = Inr c' \<and> cache_ok c' \<and> cache_size c' = cache_size c + sz
     else \<exists>k s f. first_oldest (c_items c) k \<and> make_room c sz = Inl (s, f) \<and> cache_URL c now junk u obj sz = Inl f \<and>
       (if Suc k = length (c_items c)
        then f = Null_deref \<and> l_tail s = k + 1 \<and> l_next s (k + 1) = 0 \<and> (\<forall>i\<le>k. allocated s (i + 2))
        else f = Bad_free \<and> l_next s (k + 1) = k + 3 \<and> l_prev s (k + 3) = k + 1 \<and> \<not> allocated s (k + 2) \<and>
          (\<forall>i<length (c_items c). i \<noteq> k \<longrightarrow> allocated s (i + 2))))"
proof (cases "cache_size c + sz \<le> MAX_CACHE_SIZE")
  case True
  then obtain c' where c': "cache_URL c now junk u obj sz = Inr c'" "cache_size c' = cache_size c + sz"
    using fit by (simp add: cache_URL_Inr)
  then show ?thesis using True cache_URL_ok [OF ok u sz c'(1)] by auto
next
  case False
  have "c_items c \<noteq> []"
  proof
    assume "c_items c = []"
    then have "cache_size c = 0" using ok by (simp add: cache_ok_def)
    then show False using False sz by (simp add: MAX_CACHE_SIZE_def MAX_OBJECT_SIZE_def)
  qed
  from ex_oldest [OF this] obtain k where k: "first_oldest (c_items c) k" by blast
  have r: "make_room c sz = Inl (evict_crash (length (c_items c)) k)"
    using False evict_item_oldest [OF k] by (simp add: make_room_iff)
  have "k < length (c_items c)" using k by (simp add: first_oldest_def)
  then show ?thesis using False k r
    by (intro if_not_P [THEN iffD2] exI [of _ k] exI [of _ "fst (evict_crash (length (c_items c)) k)"]
        exI [of _ "snd (evict_crash (length (c_items c)) k)"])
      (auto simp: cache_URL_def evict_crash_def links_of_def Let_def)
qed

text \<open>Ten items of 100000 bytes with the given access times.\<close>

definition full_cache :: "int list \<Rightarrow> pcache" where
  "full_cache ts = \<lparr>c_head = c_head (cache_init 0), c_items = map (\<lambda>t. \<lparr>cache_object = ''x'', c_uri = ''/x'',
     access_time = t, c_size = 100000\<rparr>) ts, cache_size = 100000 * length ts\<rparr>"

lemma cache_never_evicts_witness:
  "\<exists>s. make_room (full_cache [5, 3, 4, 3, 6, 7, 8, 9, 10, 11]) 60000 = Inl (s, Bad_free) \<and>
     \<not> allocated s 3 \<and> allocated s 2 \<and> allocated s 11 \<and> l_next s 2 = 4 \<and> l_prev s 4 = 2"
proof -
  let ?c = "full_cache [5, 3, 4, 3, 6, 7, 8, 9, 10, 11]"
  have ok: "cache_ok ?c" by (simp add: cache_ok_def item_ok_def full_cache_def cache_init_def MAX_CACHE_SIZE_def MAX_OBJECT_SIZE_def)
  have "\<forall>x\<in>set (c_items ?c). 3 \<le> access_time x" by (simp add: full_cache_def)
  then have "first_oldest (c_items ?c) 1"
    unfolding all_set_conv_all_nth by (simp add: first_oldest_def full_cache_def)
  then have k: "k = 1" if "first_oldest (c_items ?c) k" for k using first_oldest_unique that by blast
  have l: "length (c_items ?c) = 10" "\<not> cache_size ?c + 60000 \<le> MAX_CACHE_SIZE"
    by (simp_all add: full_cache_def MAX_CACHE_SIZE_def)
  have fit: "''/a'' \<noteq> []" "(60000::nat) < MAX_OBJECT_SIZE" "length (cstr ''abc'') < length (replicate 9 NUL)"
    by (simp_all add: MAX_OBJECT_SIZE_def cstr_def)
  obtain i s f where i: "first_oldest (c_items ?c) i" "make_room ?c 60000 = Inl (s, f)"
    and c: "if Suc i = 10 then f = Null_deref \<and> l_tail s = i + 1 \<and> l_next s (i + 1) = 0 \<and> (\<forall>j\<le>i. allocated s (j + 2))
        else f = Bad_free \<and> l_next s (i + 1) = i + 3 \<and> l_prev s (i + 3) = i + 1 \<and> \<not> allocated s (i + 2) \<and>
          (\<forall>j<10. j \<noteq> i \<longrightarrow> allocated s (j + 2))"
    using cache_never_evicts [OF ok fit, of 1, unfolded if_not_P [OF l(2)] l(1)] by blast
  have s: "make_room ?c 60000 = Inl (s, Bad_free)" "l_next s 2 = 4" "l_prev s 4 = 2" "\<not> allocated s 3"
      "\<forall>j<10. j \<noteq> 1 \<longrightarrow> allocated s (j + 2)"
    using i(2) c unfolding k [OF i(1)] by (simp_all add: numeral_3_eq_3 [symmetric] numeral_2_eq_2 [symmetric])
  have "allocated s 2" "allocated s 11" using s(5) [rule_format, of 0] s(5) [rule_format, of 9] by (simp_all add: numeral_2_eq_2)
  then show ?thesis using s by blast
qed

text \<open>A sequence of transactions on the cache of the proxy, as in the contract.\<close>

fun proxy_ops :: "string \<Rightarrow> int \<Rightarrow> pcache \<Rightarrow> (string + string \<times> string) list \<Rightarrow> pcache option" where
  "proxy_ops junk now c [] = Some c"
| "proxy_ops junk now c (Inl u # os) = proxy_ops junk now (fst (check_cache c now u)) os"
| "proxy_ops junk now c (Inr (u, b) # os) =
     (case proxy_store junk c u b of None \<Rightarrow> None | Some c \<Rightarrow> proxy_ops junk now c os)"

lemma proxy_ops_contract: "web_cache.cache_ops (proxy_store junk) (\<lambda>c. check_cache c now) c os = proxy_ops junk now c os"
  by (induction junk now c os rule: proxy_ops.induct) (auto split: option.splits)

text \<open>
  C21. What the cache has returned for a URI it returns for ever: after any further lookups and
  stores that the proxy survives, also stores for the same URI, the lookup of the URI is a hit
  with the same bytes, and the cache is still well formed.
\<close>

theorem cached_stays:
  assumes "cache_ok c" and "found c u = Some b" and "proxy_ops junk now c os = Some c'"
    and "\<forall>(v, d)\<in>{x. Inr x \<in> set os}. proxy_storable v d"
  shows "cache_ok c' \<and> snd (check_cache c' now u) = Some b"
  using pc.found_stays [OF assms(1,2), of junk now os c'] assms(3,4) by (simp add: proxy_ops_contract)

lemma cached_stays_witness:
  "\<exists>c c'. proxy_store (replicate 9 NUL) (cache_init 0) ''/a'' ''abc'' = Some c \<and>
     proxy_ops (replicate 9 NUL) 5 c [Inl ''/b'', Inr (''/a'', ''zz''), Inl ''/a''] = Some c' \<and>
     snd (check_cache c' 5 ''/a'') = Some ''abc''"
proof -
  let ?j = "replicate 9 NUL"
  have ok: "cache_ok (cache_init 0)" by (simp add: cache_ok_def cache_init_def MAX_CACHE_SIZE_def)
  obtain c where c: "proxy_store ?j (cache_init 0) ''/a'' ''abc'' = Some c" "cache_size c = 3"
    by (auto simp: proxy_store_def cache_URL_Inr cache_init_def MAX_CACHE_SIZE_def cstr_def split: sum.splits)
       (auto simp: cache_URL_def make_room_iff MAX_CACHE_SIZE_def c_strcpy_def store_def cstr_def)
  have st: "proxy_storable ''/a'' ''abc''" "proxy_storable ''/a'' ''zz''"
    by (simp_all add: proxy_storable_def MAX_OBJECT_SIZE_def)
  have ok1: "cache_ok c" using pc.insert_inv [OF ok st(1) c(1)] .
  have f: "found c ''/a'' = Some ''abc''"
    using pc.insert_lookup [OF ok st(1) c(1), of "''/a''"] by (simp add: found_def cache_init_def)
  let ?c1 = "fst (check_cache c 5 ''/b'')"
  have "cache_size ?c1 = 3" using check_cache_fields(4) c(2) by simp
  then obtain c2 where c2: "proxy_store ?j ?c1 ''/a'' ''zz'' = Some c2"
    by (auto simp: proxy_store_def cache_URL_def make_room_iff MAX_CACHE_SIZE_def c_strcpy_def store_def cstr_def)
  let ?os = "[Inl ''/b'', Inr (''/a'', ''zz''), Inl ''/a'']"
  have p: "proxy_ops ?j 5 c ?os = Some (fst (check_cache c2 5 ''/a''))" using c2 by simp
  have "\<forall>(v, d)\<in>{x. Inr x \<in> set ?os}. proxy_storable v d" using st by auto
  from cached_stays [OF ok1 f p this] show ?thesis using c p by blast
qed

end
