(* ===== verification/ProxyTheorems.thy ===== *)
theory ProxyTheorems
  imports ProxyCorrect
begin

text \<open>
  The parsers of the proxy, and the whole transaction.
\<close>

section \<open>The URI\<close>

lemma takeWhile_neq_append: "c \<notin> set w \<Longrightarrow> takeWhile (\<lambda>x. x \<noteq> c) (w @ c # r) = w"
  by (induction w) auto

lemma dropWhile_neq_append: "c \<notin> set w \<Longrightarrow> dropWhile (\<lambda>x. x \<noteq> c) (w @ c # r) = c # r"
  by (induction w) auto

lemma scan_until_append: "c \<notin> set w \<Longrightarrow> w \<noteq> [] \<Longrightarrow> scan_until c (w @ c # r) = Some (w, c # r)"
  by (cases w) (auto simp: scan_until_def takeWhile_neq_append dropWhile_neq_append)

lemma scan_word_all: "w \<noteq> [] \<Longrightarrow> \<forall>x\<in>set w. \<not> is_space x \<Longrightarrow> scan_word w = Some (w, [])"
proof -
  assume w: "w \<noteq> []" "\<forall>x\<in>set w. \<not> is_space x"
  have d: "dropWhile is_space w = w" using w by (cases w) auto
  have t: "takeWhile (\<lambda>x. \<not> is_space x) w = w" "dropWhile (\<lambda>x. \<not> is_space x) w = []" using w by auto
  show ?thesis unfolding scan_word_def Let_def d t using w(1) by (cases w) auto
qed

text \<open>
  C22. \<^verbatim>\<open>parse_uri\<close> inverts the composition of an absolute URI: for a host without colon and slash
  and a path that starts with a slash and has no blank, it returns host, port and path of
  \<^verbatim>\<open>http://host:port/path\<close>, and the port 80 if none is given and the path has no colon.
\<close>

theorem parse_uri_roundtrip:
  assumes h: "h \<noteq> []" "CHR '':'' \<notin> set h" "CHR ''/'' \<notin> set h"
    and p: "p \<noteq> []" "CHR ''/'' \<notin> set p" and path: "\<forall>x\<in>set path. \<not> is_space x"
  shows "parse_uri (''http://'' @ h @ '':'' @ p @ ''/'' @ path) = (Some h, Some p, Some (''/'' @ path)) \<and>
    (CHR '':'' \<notin> set path \<longrightarrow> parse_uri (''http://'' @ h @ ''/'' @ path) = (Some h, Some ''80'', Some (''/'' @ path)))"
proof
  have sp: "\<not> is_space (CHR ''/'')" by (simp add: is_space_def)
  have w: "scan_word (CHR ''/'' # path) = Some (CHR ''/'' # path, [])"
    using path sp by (intro scan_word_all) auto
  have s1: "strstr (''http://'' @ x) ''http://'' = Some (''http://'' @ x)" for x
    by (rule strstr_prefix) simp
  have a: "scan_until (CHR '':'') (h @ CHR '':'' # p @ CHR ''/'' # path) = Some (h, CHR '':'' # p @ CHR ''/'' # path)"
    by (rule scan_until_append [OF h(2,1)])
  have b: "scan_until (CHR ''/'') (p @ CHR ''/'' # path) = Some (p, CHR ''/'' # path)"
    by (rule scan_until_append [OF p(2,1)])
  have c: "scan_until (CHR ''/'') (h @ CHR ''/'' # path) = Some (h, CHR ''/'' # path)"
    by (rule scan_until_append [OF h(3,1)])
  show "parse_uri (''http://'' @ h @ '':'' @ p @ ''/'' @ path) = (Some h, Some p, Some (''/'' @ path))"
    using s1 [of "h @ '':'' @ p @ ''/'' @ path"] a b w
    by (simp add: parse_uri_def strstr_char del: strstr.simps)
  show "CHR '':'' \<notin> set path \<longrightarrow> parse_uri (''http://'' @ h @ ''/'' @ path) = (Some h, Some ''80'', Some (''/'' @ path))"
    using s1 [of "h @ ''/'' @ path"] c w h(2)
    by (simp add: parse_uri_def strstr_char del: strstr.simps)
qed

lemma parse_uri_roundtrip_witness:
  "parse_uri ''http://localhost:8080/home.html'' = (Some ''localhost'', Some ''8080'', Some ''/home.html'')"
  using parse_uri_roundtrip [of "''localhost''" "''8080''" "''home.html''"] by (simp add: is_space_def)

text \<open>
  A colon in the path is taken for the one in front of a port: the host name then contains the
  beginning of the path, and the path is not set at all, so that the transaction would go on with
  an uninitialised array.
\<close>

theorem parse_uri_colon_in_path:
  assumes "h \<noteq> []" "CHR '':'' \<notin> set h" "CHR '':'' \<notin> set a" "b \<noteq> []" "CHR ''/'' \<notin> set b"
  shows "parse_uri (''http://'' @ h @ ''/'' @ a @ '':'' @ b) = (Some (h @ ''/'' @ a), Some b, None)"
proof -
  have s1: "strstr (''http://'' @ x) ''http://'' = Some (''http://'' @ x)" for x
    by (rule strstr_prefix) simp
  have n: "CHR '':'' \<notin> set (h @ ''/'' @ a)" "h @ ''/'' @ a \<noteq> []" using assms by auto
  have u: "scan_until (CHR '':'') (h @ CHR ''/'' # a @ CHR '':'' # b) = Some (h @ CHR ''/'' # a, CHR '':'' # b)"
    using scan_until_append [OF n, of b] by simp
  have t: "takeWhile (\<lambda>x. x \<noteq> CHR ''/'') b = b" "dropWhile (\<lambda>x. x \<noteq> CHR ''/'') b = []"
    using assms(5) by (auto simp: takeWhile_eq_all_conv)
  have v: "scan_until (CHR ''/'') b = Some (b, [])"
    unfolding scan_until_def t using assms(4) by (cases b) auto
  show ?thesis using s1 [of "h @ ''/'' @ a @ '':'' @ b"] u v
    by (simp add: parse_uri_def strstr_char scan_word_def del: strstr.simps)
qed

lemma parse_uri_colon_in_path_witness:
  "parse_uri ''http://host/a:b'' = (Some ''host/a'', Some ''b'', None)"
  using parse_uri_colon_in_path [of "''host''" "''a''" "''b''"] by simp

section \<open>The headers\<close>

definition header_name :: "string \<Rightarrow> string" where
  "header_name l = takeWhile (\<lambda>c. c \<noteq> CHR '':'') l"

definition dropped :: "string \<Rightarrow> bool" where
  "dropped l \<longleftrightarrow> list_ex (\<lambda>h. has_prefix (header_name l) h) headers"

lemma check_header_name:
  "check_header l = (if CHR '':'' \<in> set l then Some (dropped l) else None)"
proof (cases "CHR '':'' \<in> set l")
  case True
  have "length l - length (dropWhile (\<lambda>x. x \<noteq> CHR '':'') l) = length (header_name l)"
    using arg_cong [OF takeWhile_dropWhile_id [of "\<lambda>x. x \<noteq> CHR '':''" l], of length]
    unfolding header_name_def length_append by simp
  moreover have "take (length (header_name l)) l = header_name l"
    using takeWhile_eq_take [of "\<lambda>x. x \<noteq> CHR '':''" l] by (simp add: header_name_def)
  ultimately show ?thesis using True
    by (simp add: check_header_def strstr_char dropped_def has_prefix_def Let_def)
qed (simp add: check_header_def strstr_char)

text \<open>
  \<^verbatim>\<open>check_header\<close> recognises a header to be dropped by the first characters of the three names: a
  header whose name is only the beginning of one of them, such as \<^verbatim>\<open>User: x\<close> or \<^verbatim>\<open>C: x\<close>, is
  dropped as well, and a line without a colon makes it dereference a null pointer.
\<close>

theorem check_header_prefix:
  "check_header l = (if CHR '':'' \<in> set l
     then Some (\<exists>h\<in>{''Connection'', ''Proxy-Connection'', ''User-Agent''}. \<exists>r. h = header_name l @ r)
     else None)"
  by (simp add: check_header_name dropped_def headers_def has_prefix_iff)

text \<open>Arrays that were zero and hold a string.\<close>

definition zarr :: "string \<Rightarrow> string" where
  "zarr s = s @ replicate (proxy_MAXLINE - length s) NUL"

lemma zarr_length: "length s < proxy_MAXLINE \<Longrightarrow> length (zarr s) = proxy_MAXLINE"
  by (simp add: zarr_def)

lemma cstr_zarr: "NUL \<notin> set s \<Longrightarrow> length s < proxy_MAXLINE \<Longrightarrow> cstr (zarr s) = s"
proof -
  assume s: "NUL \<notin> set s" "length s < proxy_MAXLINE"
  then obtain k where "proxy_MAXLINE - length s = Suc k" by (metis Suc_diff_Suc)
  then show ?thesis using s by (simp add: zarr_def)
qed

lemma strncat_cstr:
  assumes "NUL \<notin> set d" and "strncat_len a d = Some a'"
  shows "cstr a' = cstr a @ d"
proof -
  have p: "take (length (cstr a)) a = cstr a" using takeWhile_eq_take [of "\<lambda>c. c \<noteq> NUL" a] by (simp add: cstr_def)
  then have "a' = (cstr a @ d) @ NUL # drop (length (cstr a) + Suc (length d)) a"
    using assms by (auto simp: strncat_len_def store_def split: if_splits)
  moreover have "NUL \<notin> set (cstr a @ d)" using assms(1) cstr_set by simp
  ultimately show ?thesis using cstr_append_NUL [of "cstr a @ d"] by simp
qed

text \<open>Appending to an array that has room for it.\<close>

lemma strncat_len_room:
  assumes "length (cstr a) + length d < length a" and "NUL \<notin> set d"
  shows "\<exists>a'. strncat_len a d = Some a' \<and> cstr a' = cstr a @ d \<and> length a' = length a"
proof -
  from assms obtain a' where a: "strncat_len a d = Some a'" "length a' = length a"
    by (auto simp: strncat_len_def store_def)
  then show ?thesis using strncat_cstr [OF assms(2) a(1)] by blast
qed

text \<open>A header line of the client, with the newline at its end.\<close>

definition header_line :: "string \<Rightarrow> bool" where
  "header_line l \<longleftrightarrow> (\<exists>w. l = w @ ''\<newline>'' \<and> CHR ''\<newline>'' \<notin> set w) \<and> NUL \<notin> set l \<and> length l < proxy_MAXLINE \<and>
     \<not> has_prefix CRLF l \<and> CHR '':'' \<in> set l"

definition is_host :: "string \<Rightarrow> bool" where
  "is_host l \<longleftrightarrow> has_prefix ''Host'' l"

text \<open>The array \<^verbatim>\<open>header_host\<close> after these lines: \<^verbatim>\<open>strncpy\<close> with the length of the line does not end the string.\<close>

definition host_array :: "string \<Rightarrow> string list \<Rightarrow> string" where
  "host_array hh ls = (case filter is_host ls of [] \<Rightarrow> hh | l # _ \<Rightarrow> l @ drop (length l) hh)"

lemma next_line:
  assumes "\<forall>l\<in>set ls. header_line l" and "pending rp = hd (ls @ [CRLF]) @ rest"
  shows "\<exists>rp1 n. Rio_readlineb rp proxy_MAXLINE = Inr (rp1, hd (ls @ [CRLF]), n) \<and> pending rp1 = rest \<and>
    line_buf buf (hd (ls @ [CRLF])) n = hd (ls @ [CRLF])"
proof -
  let ?next = "hd (ls @ [CRLF])"
  have "\<exists>w. ?next = w @ ''\<newline>'' \<and> CHR ''\<newline>'' \<notin> set w \<and> NUL \<notin> set ?next \<and> length ?next < proxy_MAXLINE"
  proof (cases ls)
    case Nil
    then show ?thesis by (intro exI [of _ "[CHR 0x0D]"]) (simp add: proxy_MAXLINE_def)
  next
    case (Cons l' ls')
    then show ?thesis using assms(1) by (auto simp: header_line_def)
  qed
  then obtain w where w: "?next = w @ ''\<newline>''" "CHR ''\<newline>'' \<notin> set w" "NUL \<notin> set ?next" "length ?next < proxy_MAXLINE"
    by blast
  have "pending rp = w @ CHR ''\<newline>'' # rest" using assms(2) by (simp add: w(1))
  then obtain rp1 where r: "Rio_readlineb rp proxy_MAXLINE = Inr (rp1, ?next, length w + 1)" "pending rp1 = rest"
    using Rio_readlineb_line [OF _ w(2)] w(1,4) by fastforce
  have "line_buf buf ?next (length w + 1) = ?next" using w(3) by (simp add: line_buf_def)
  then show ?thesis using r by blast
qed

lemma header_loop_lines:
  assumes "\<forall>l\<in>set ls. header_line l" and "pending rp = concat (tl (ls @ [CRLF])) @ rest"
    and "length hh = proxy_MAXLINE" and "length ho = proxy_MAXLINE"
    and "length (cstr ho @ concat (filter (\<lambda>l. \<not> is_host l \<and> \<not> dropped l) ls)) < proxy_MAXLINE"
    and "length (filter is_host ls) \<le> 1"
  shows "\<exists>rp' ho'. header_loop rp (hd (ls @ [CRLF])) hh ho = Some (Inr (rp', host_array hh ls, ho')) \<and>
    cstr ho' = cstr ho @ concat (filter (\<lambda>l. \<not> is_host l \<and> \<not> dropped l) ls) \<and> pending rp' = rest"
  using assms
proof (induction ls arbitrary: rp hh ho)
  case Nil
  then show ?case by (simp add: header_loop.simps [of rp CRLF] has_prefix_def host_array_def)
next
  case (Cons l ls)
  let ?next = "hd (ls @ [CRLF])"
  have l: "header_line l" using Cons.prems(1) by simp
  then have c: "\<not> has_prefix CRLF l" "NUL \<notin> set l" "length l < proxy_MAXLINE" "CHR '':'' \<in> set l"
    by (auto simp: header_line_def)
  have "\<forall>l\<in>set ls. header_line l" "pending rp = ?next @ concat (tl (ls @ [CRLF])) @ rest"
    using Cons.prems(1,2) by (cases ls; simp)+
  from next_line [OF this, of l] obtain rp1 n where r: "Rio_readlineb rp proxy_MAXLINE = Inr (rp1, ?next, n)"
    and p: "pending rp1 = concat (tl (ls @ [CRLF])) @ rest" and buf: "line_buf l ?next n = ?next" by blast
  show ?case
  proof (cases "is_host l")
    case True
    let ?hh = "l @ drop (length l) hh"
    have none: "filter is_host ls = []" using Cons.prems(6) True by simp
    have "strncpy_len hh l = Some ?hh" using c Cons.prems(3) by (simp add: strncpy_len_def store_def)
    then have "header_loop rp l hh ho = header_loop rp1 ?next ?hh ho"
      using c True r buf by (simp add: header_loop.simps [of rp l] is_host_def)
    moreover have "\<exists>rp' ho'. header_loop rp1 ?next ?hh ho = Some (Inr (rp', host_array ?hh ls, ho')) \<and>
        cstr ho' = cstr ho @ concat (filter (\<lambda>l. \<not> is_host l \<and> \<not> dropped l) ls) \<and> pending rp' = rest"
      using Cons.prems True p c by (intro Cons.IH) auto
    ultimately show ?thesis using True none by (simp add: host_array_def)
  next
    case False
    obtain ho1 where ho1: "(if dropped l then ho1 = ho else strncat_len ho l = Some ho1)"
      "cstr ho1 = cstr ho @ (if dropped l then [] else l)" "length ho1 = length ho"
    proof (cases "dropped l")
      case True
      then show ?thesis using that [of ho] by simp
    next
      case keep: False
      have "length (cstr ho) + length l < length ho" using Cons.prems(4,5) False keep by simp
      from strncat_len_room [OF this c(2)] show ?thesis using that keep by auto
    qed
    have "header_loop rp l hh ho = header_loop rp1 ?next hh ho1"
      using c False r buf ho1(1) by (auto simp: header_loop.simps [of rp l] is_host_def check_header_name split: if_splits)
    moreover have "\<exists>rp' ho'. header_loop rp1 ?next hh ho1 = Some (Inr (rp', host_array hh ls, ho')) \<and>
        cstr ho' = cstr ho1 @ concat (filter (\<lambda>l. \<not> is_host l \<and> \<not> dropped l) ls) \<and> pending rp' = rest"
      using Cons.prems False p c ho1 by (intro Cons.IH) (auto split: if_splits)
    ultimately show ?thesis using False ho1(2) by (auto simp: host_array_def split: if_splits)
  qed
qed

definition default_host :: "string \<Rightarrow> string" where
  "default_host h = ''Host: '' @ h @ CRLF"

text \<open>
  What \<^verbatim>\<open>parse_header\<close> builds whatever its uninitialised arrays hold: the bytes of \<^verbatim>\<open>header_other\<close> up to
  the first null character get into the request, and those of \<^verbatim>\<open>header_host\<close> behind the \<^verbatim>\<open>Host\<close> line,
  or instead of one.
\<close>

lemma parse_header_any:
  assumes lines: "\<forall>l\<in>set ls. header_line l" and one: "length (filter is_host ls) \<le> 1"
    and p: "pending rp = concat ls @ CRLF @ rest" and arr: "length hh = proxy_MAXLINE" "length ho = proxy_MAXLINE"
    and req: "req = request_header path @ (if cstr (host_array hh ls) = [] then default_host host else cstr (host_array hh ls)) @
      user_agent_hdr @ conn_hdr @ proxy_conn_hdr @ cstr ho @ concat (filter (\<lambda>l. \<not> is_host l \<and> \<not> dropped l) ls) @ CRLF"
    and len: "length req < proxy_MAXLINE"
  shows "\<exists>rp'. parse_header host path junk hh ho rp = Some (Inr (rp', req)) \<and> pending rp' = rest"
proof -
  let ?first = "hd (ls @ [CRLF])"
  have "pending rp = ?first @ concat (tl (ls @ [CRLF])) @ rest" using p by (cases ls) auto
  from next_line [OF lines this, of junk] obtain rp1 n where r: "Rio_readlineb rp proxy_MAXLINE = Inr (rp1, ?first, n)"
    and p1: "pending rp1 = concat (tl (ls @ [CRLF])) @ rest" and buf: "line_buf junk ?first n = ?first" by blast
  have ol: "length (cstr ho @ concat (filter (\<lambda>l. \<not> is_host l \<and> \<not> dropped l) ls)) < proxy_MAXLINE" using len req by simp
  from header_loop_lines [OF lines p1 arr ol one] obtain rp' ho' where
    h: "header_loop rp1 ?first hh ho = Some (Inr (rp', host_array hh ls, ho'))" "pending rp' = rest"
      "cstr ho' = cstr ho @ concat (filter (\<lambda>l. \<not> is_host l \<and> \<not> dropped l) ls)" by blast
  have "parse_header host path junk hh ho rp = Some (Inr (rp', req))"
    using len unfolding parse_header_def r buf h(1) sum.case prod.case option.case Let_def h(3) req default_host_def append_assoc
    by (simp only: if_True)
  then show ?thesis using h(2) by blast
qed

text \<open>
  The bytes of the arrays that have to be zero: the first one of \<^verbatim>\<open>header_other\<close>, and the one of
  \<^verbatim>\<open>header_host\<close> behind the \<^verbatim>\<open>Host\<close> line of the client (the first one if there is none).
\<close>

definition stack_ok :: "string \<Rightarrow> string \<Rightarrow> string list \<Rightarrow> bool" where
  "stack_ok hh ho ls \<longleftrightarrow> length hh = proxy_MAXLINE \<and> length ho = proxy_MAXLINE \<and>
     hh ! length (concat (filter is_host ls)) = NUL \<and> ho ! 0 = NUL"

lemma cstr_first: "a \<noteq> [] \<Longrightarrow> a ! 0 = NUL \<Longrightarrow> cstr a = []"
  by (cases a) (simp_all add: cstr_def)

lemma stack_ok_host:
  assumes "stack_ok hh ho ls" and "\<forall>l\<in>set ls. header_line l" and "length (filter is_host ls) \<le> 1"
  shows "cstr (host_array hh ls) = concat (filter is_host ls)"
proof (cases "filter is_host ls")
  case Nil
  then show ?thesis using assms(1) by (auto simp: host_array_def stack_ok_def proxy_MAXLINE_def intro: cstr_first)
next
  case (Cons l ms)
  then have m: "ms = []" "l \<in> set ls" using assms(3) by (auto simp: filter_eq_Cons_iff)
  then have l: "NUL \<notin> set l" "length l < proxy_MAXLINE" using assms(2) by (auto simp: header_line_def)
  have "hh ! length l = NUL" "length hh = proxy_MAXLINE" using assms(1) Cons m by (simp_all add: stack_ok_def)
  then have "drop (length l) hh = NUL # drop (Suc (length l)) hh" using l(2) by (metis Cons_nth_drop_Suc)
  then show ?thesis using Cons m cstr_append_NUL [OF l(1)] by (simp add: host_array_def)
qed

text \<open>The first line is read into an array whose content does not matter.\<close>

lemma parse_header_lines:
  assumes lines: "\<forall>l\<in>set ls. header_line l" and one: "length (filter is_host ls) \<le> 1"
    and p: "pending rp = concat ls @ CRLF @ rest"
    and req: "req = request_header path @ (if filter is_host ls = [] then default_host host else concat (filter is_host ls)) @
      user_agent_hdr @ conn_hdr @ proxy_conn_hdr @ concat (filter (\<lambda>l. \<not> is_host l \<and> \<not> dropped l) ls) @ CRLF"
    and len: "length req < proxy_MAXLINE" and ok: "stack_ok hh ho ls"
  shows "\<exists>rp'. parse_header host path junk hh ho rp = Some (Inr (rp', req)) \<and> pending rp' = rest"
proof -
  have o: "cstr ho = []" "length hh = proxy_MAXLINE" "length ho = proxy_MAXLINE"
    using ok by (auto simp: stack_ok_def proxy_MAXLINE_def intro: cstr_first)
  have e: "concat (filter is_host ls) = [] \<longleftrightarrow> filter is_host ls = []"
    using lines by (auto simp: header_line_def filter_empty_conv)
  show ?thesis
    by (rule parse_header_any [OF lines one p o(2,3) _ len])
       (simp add: req o(1) stack_ok_host [OF ok lines one] e del: concat_eq_Nil_conv)
qed

lemma stack_ok_zarr:
  assumes "\<forall>l\<in>set ls. header_line l" and "length (filter is_host ls) \<le> 1"
  shows "stack_ok (zarr []) (zarr []) ls"
proof -
  have "length (concat (filter is_host ls)) < proxy_MAXLINE"
  proof (cases "filter is_host ls")
    case Nil
    then show ?thesis by (simp add: proxy_MAXLINE_def)
  next
    case (Cons l ms)
    then have "ms = []" "l \<in> set ls" using assms(2) by (auto simp: filter_eq_Cons_iff)
    then show ?thesis using Cons assms(1) by (auto simp: header_line_def)
  qed
  then show ?thesis by (simp add: stack_ok_def zarr_def proxy_MAXLINE_def)
qed

text \<open>
  The request that \<^verbatim>\<open>parse_header\<close> builds, if the local arrays happen to be zero: for header
  lines of the client that end with an empty line, with at most one \<^verbatim>\<open>Host\<close> among them, the request
  line for the path, the \<^verbatim>\<open>Host\<close> line of the client or one for the host of the URI, the three fixed
  headers, the lines of the client that are neither \<^verbatim>\<open>Host\<close> nor dropped, in their order, and an
  empty line.  What follows on the connection is not read.
\<close>

theorem parse_header_request:
  assumes lines: "\<forall>l\<in>set ls. header_line l" and one: "length (filter is_host ls) \<le> 1"
    and p: "pending rp = concat ls @ CRLF @ rest"
    and req: "req = request_header path @ (if filter is_host ls = [] then default_host host else concat (filter is_host ls)) @
      user_agent_hdr @ conn_hdr @ proxy_conn_hdr @ concat (filter (\<lambda>l. \<not> is_host l \<and> \<not> dropped l) ls) @ CRLF"
    and len: "length req < proxy_MAXLINE"
  shows "\<exists>rp'. parse_header host path (zarr []) (zarr []) (zarr []) rp = Some (Inr (rp', req)) \<and> pending rp' = rest"
  by (rule parse_header_lines [OF assms stack_ok_zarr [OF lines one]])

lemma parse_header_request_witness:
  "\<exists>rp'. parse_header ''h'' ''/p'' (zarr []) (zarr []) (zarr [])
      (rio_readinitb [Data (''Host: h:1'' @ CRLF @ ''Accept: x'' @ CRLF @ ''User-Agent: y'' @ CRLF @ CRLF)]) =
    Some (Inr (rp', request_header ''/p'' @ ''Host: h:1'' @ CRLF @ user_agent_hdr @ conn_hdr @ proxy_conn_hdr @
      ''Accept: x'' @ CRLF @ CRLF))"
proof -
  let ?a = "''Host: h:1'' @ CRLF" and ?b = "''Accept: x'' @ CRLF" and ?c = "''User-Agent: y'' @ CRLF"
  let ?rp = "rio_readinitb [Data (?a @ ?b @ ?c @ CRLF)]"
  have line: "header_line (w @ CRLF)" if "w \<noteq> []" "hd w \<noteq> CHR 0x0D" "CHR ''\<newline>'' \<notin> set w" "NUL \<notin> set w" "CHR '':'' \<in> set w"
    "length w < 100" for w
    using that unfolding header_line_def
    by (cases w) (auto simp: has_prefix_def proxy_MAXLINE_def intro!: exI [of _ "w @ [CHR 0x0D]"])
  have l: "\<forall>l\<in>set [?a, ?b, ?c]. header_line l" using line [of "''Host: h:1''"] line [of "''Accept: x''"] line [of "''User-Agent: y''"] by simp
  have f: "filter is_host [?a, ?b, ?c] = [?a]" by (simp add: is_host_def has_prefix_def)
  have g: "filter (\<lambda>l. \<not> is_host l \<and> \<not> dropped l) [?a, ?b, ?c] = [?b]"
    by (simp add: is_host_def has_prefix_def dropped_def headers_def header_name_def)
  have p: "pending ?rp = concat [?a, ?b, ?c] @ CRLF @ []" by (simp add: pending_def rio_readinitb_def)
  let ?req = "request_header ''/p'' @ ?a @ user_agent_hdr @ conn_hdr @ proxy_conn_hdr @ ?b @ CRLF"
  have r: "?req = request_header ''/p'' @ (if filter is_host [?a, ?b, ?c] = [] then default_host ''h'' else concat (filter is_host [?a, ?b, ?c])) @
      user_agent_hdr @ conn_hdr @ proxy_conn_hdr @ concat (filter (\<lambda>l. \<not> is_host l \<and> \<not> dropped l) [?a, ?b, ?c]) @ CRLF"
    unfolding f g by simp
  have n: "length ?req < proxy_MAXLINE"
    by (simp add: request_header_def user_agent_hdr_def conn_hdr_def proxy_conn_hdr_def proxy_MAXLINE_def)
  have one: "length (filter is_host [?a, ?b, ?c]) \<le> 1" unfolding f by simp
  from parse_header_request [OF l one p r n] show ?thesis unfolding append_assoc by blast
qed

text \<open>At the end of the file the line buffer keeps the last line.\<close>

definition host_eof :: "rio_t \<Rightarrow> string \<Rightarrow> string \<Rightarrow> bool" where
  "host_eof rp buf hh \<longleftrightarrow> has_prefix ''Host'' buf \<and> length (cstr buf) \<le> length hh \<and>
     pending rp = [] \<and> \<not> fails (rio_fd rp)"

lemma header_loop_host_eof: "host_eof rp buf hh \<Longrightarrow> header_loop rp buf hh ho = None"
proof (rule ccontr)
  assume h: "host_eof rp buf hh" and "header_loop rp buf hh ho \<noteq> None"
  then obtain y where y: "header_loop rp buf hh ho = Some y" by blast
  have "\<not> host_eof rp buf hh"
  proof (rule header_loop.raw_induct [where P = "\<lambda>rp buf hh ho y. \<not> host_eof rp buf hh", OF _ y], goal_cases)
    case (1 hl rp buf hh ho y)
    show ?case
    proof
      assume e: "host_eof rp buf hh"
      obtain rp' where r: "Rio_readlineb rp proxy_MAXLINE = Inr (rp', [], 0)" "pending rp' = []" "\<not> fails (rio_fd rp')"
        using Rio_readlineb_eof e by (auto simp: host_eof_def)
      obtain hh' where hh': "strncpy_len hh buf = Some hh'" "length hh' = length hh"
        using e by (auto simp: host_eof_def strncpy_len_def store_def)
      have nc: "\<not> has_prefix CRLF buf" using e by (auto simp: host_eof_def has_prefix_iff)
      have "hl rp' buf hh' ho = Some y"
        using 1(2) e r(1) hh'(1) nc by (simp add: host_eof_def line_buf_def)
      from 1(1) [OF this] show False using e r hh' by (simp add: host_eof_def)
    qed
  qed
  then show False using h by blast
qed

text \<open>
  A client that closes the connection before the empty line brings a worker down: if it closes
  right after the request line the whole proxy crashes on a null pointer (with a zero line
  buffer), and if the last line it has sent is a \<^verbatim>\<open>Host\<close> line the loop of \<^verbatim>\<open>parse_header\<close> never ends.
\<close>

theorem parse_header_eof:
  assumes "pending rp = []" and "\<not> fails (rio_fd rp)"
    and "header_line l" and "is_host l" and "pending rp2 = l" and "\<not> fails (rio_fd rp2)"
  shows "parse_header host path (zarr []) (zarr []) (zarr []) rp = Some (Inl Null_deref) \<and>
    parse_header host path (zarr []) (zarr []) (zarr []) rp2 = None"
proof
  obtain rp' where r: "Rio_readlineb rp proxy_MAXLINE = Inr (rp', [], 0)" using Rio_readlineb_eof assms by blast
  have z: "zarr [] = NUL # replicate 8191 NUL" by (simp add: zarr_def proxy_MAXLINE_def flip: replicate_Suc)
  have n: "CHR '':'' \<notin> set (zarr [])" by (simp add: zarr_def)
  have "header_loop rp' (zarr []) (zarr []) (zarr []) = Some (Inl Null_deref)"
    using n by (subst header_loop.simps) (simp add: z has_prefix_def check_header_name del: replicate.simps)
  then show "parse_header host path (zarr []) (zarr []) (zarr []) rp = Some (Inl Null_deref)"
    using r by (simp add: parse_header_def line_buf_def)
next
  obtain w where w: "l = w @ ''\<newline>''" "CHR ''\<newline>'' \<notin> set w" "NUL \<notin> set l" "length l < proxy_MAXLINE"
    using assms(3) by (auto simp: header_line_def)
  have m: "1 < proxy_MAXLINE" by (simp add: proxy_MAXLINE_def)
  have p: "pending rp2 = w @ CHR ''\<newline>'' # []" using assms(5) w(1) by simp
  obtain rp' d rc where e: "rio_readlineb rp2 proxy_MAXLINE = (rp', d, rc)" by (metis prod_cases3)
  have d: "d = l" using conjunct1 [OF readlineb_spec [OF e m]] w unfolding p first_line_append [OF w(2)] by simp
  have "rc = int (length d) \<and> pending rp2 = d @ pending rp' \<and> fails (rio_fd rp') = fails (rio_fd rp2)"
    using conjunct1 [OF conjunct2 [OF readlineb_spec [OF e m]]] assms(6) by simp
  then have r: "rc = int (length l)" "pending rp' = []" "\<not> fails (rio_fd rp')" using d assms(5,6) by auto
  have rr: "Rio_readlineb rp2 proxy_MAXLINE = Inr (rp', l, length l)" using e d r(1) by (simp add: Rio_readlineb_def)
  have buf: "line_buf (zarr []) l (length l) = l" using w by (simp add: line_buf_def)
  have "host_eof rp' l (zarr [])"
    using assms(4) w r zarr_length [of "[]"] m by (simp add: host_eof_def is_host_def)
  then show "parse_header host path (zarr []) (zarr []) (zarr []) rp2 = None"
    using rr buf by (simp add: parse_header_def header_loop_host_eof)
qed

lemma parse_header_eof_witness:
  "parse_header ''h'' ''/'' (zarr []) (zarr []) (zarr []) (rio_readinitb [Data ''Host: h\<newline>'']) = None"
proof -
  have l: "header_line ''Host: h\<newline>''"
    unfolding header_line_def by (auto simp: has_prefix_def proxy_MAXLINE_def intro!: exI [of _ "''Host: h''"])
  show ?thesis
    using parse_header_eof [of "rio_readinitb []" "''Host: h\<newline>''" "rio_readinitb [Data ''Host: h\<newline>'']" "''h''" "''/''"] l
    by (simp add: pending_def rio_readinitb_def is_host_def has_prefix_def)
qed

end
