(* ===== verification/ProxyDoit.thy ===== *)
theory ProxyDoit
  imports ProxyTheorems
begin

text \<open>
  A whole transaction of the proxy: the response of the server reaches the client unchanged, and
  the second request for the same URI is answered from the cache with the same bytes.
\<close>

section \<open>Forwarding\<close>

lemma forward_spec:
  "forward ws server obj sz = Inr (out, obj', sz') \<Longrightarrow>
     out = pending server \<and> sz' = sz + length (pending server) \<and>
     (NUL \<notin> set (pending server) \<longrightarrow> sz' < MAX_OBJECT_SIZE \<longrightarrow> cstr obj' = cstr obj @ pending server)"
proof (induction ws server obj sz arbitrary: out rule: forward.induct)
  case (1 ws server obj sz)
  obtain s1 d n where r: "Rio_readlineb server proxy_MAXLINE = Inr (s1, d, n)"
    using 1(2) by (auto simp: forward.simps [of ws server obj sz] split: sum.splits)
  note rd = Rio_readlineb_Inr [OF r]
  show ?case
  proof (cases "n = 0")
    case True
    then show ?thesis using 1(2) r rd(4) by (simp add: forward.simps [of ws server obj sz])
  next
    case False
    obtain ws1 o1 where w: "Rio_writen ws d = Inr (ws1, o1)"
      using 1(2) r False by (auto simp: forward.simps [of ws server obj sz] split: sum.splits)
    obtain obj1 where o: "(if sz + n < MAX_OBJECT_SIZE then strncat_len obj (cstr d) else Some obj) = Some obj1"
      using 1(2) r w False by (auto simp: forward.simps [of ws server obj sz] split: option.splits)
    obtain o2 where f: "forward ws1 s1 obj1 (sz + n) = Inr (o2, obj', sz')" and out: "out = o1 @ o2"
      using 1(2) r w False o by (auto simp: forward.simps [of ws server obj sz] split: sum.splits)
    have ih: "o2 = pending s1 \<and> sz' = sz + n + length (pending s1) \<and>
        (NUL \<notin> set (pending s1) \<longrightarrow> sz' < MAX_OBJECT_SIZE \<longrightarrow> cstr obj' = cstr obj1 @ pending s1)"
      using 1(1) [OF r refl refl False w refl o f] .
    have "o1 = d" by (rule Rio_writen_Inr [OF w])
    moreover have "cstr obj1 = cstr obj @ d" if "NUL \<notin> set (pending server)" "sz' < MAX_OBJECT_SIZE"
    proof -
      have "NUL \<notin> set d" using that(1) rd(1) by simp
      moreover have "sz + n < MAX_OBJECT_SIZE" using that(2) ih by simp
      ultimately show ?thesis using o strncat_cstr [of d obj obj1] by simp
    qed
    ultimately show ?thesis using ih out rd(1,2) by simp
  qed
qed

lemma forward_no_fail:
  "forward ws server obj sz = Inr (out, obj', sz') \<Longrightarrow> \<not> fails (rio_fd server)"
proof (induction ws server obj sz arbitrary: out rule: forward.induct)
  case (1 ws server obj sz)
  obtain s1 d n where r: "Rio_readlineb server proxy_MAXLINE = Inr (s1, d, n)"
    using 1(2) by (auto simp: forward.simps [of ws server obj sz] split: sum.splits)
  show ?case
  proof (cases "n = 0")
    case True
    then show ?thesis using Rio_readlineb_Inr(3) [OF r] by blast
  next
    case False
    obtain ws1 o1 where w: "Rio_writen ws d = Inr (ws1, o1)"
      using 1(2) r False by (auto simp: forward.simps [of ws server obj sz] split: sum.splits)
    obtain obj1 where o: "(if sz + n < MAX_OBJECT_SIZE then strncat_len obj (cstr d) else Some obj) = Some obj1"
      using 1(2) r w False by (auto simp: forward.simps [of ws server obj sz] split: option.splits)
    obtain o2 where f: "forward ws1 s1 obj1 (sz + n) = Inr (o2, obj', sz')"
      using 1(2) r w False o by (auto simp: forward.simps [of ws server obj sz] split: sum.splits)
    show ?thesis using 1(1) [OF r refl refl False w refl o f] Rio_readlineb_Inr(5) [OF r] by simp
  qed
qed

section \<open>Two requests\<close>

lemma scan_word_nonempty: "scan_word s = Some (w, r) \<Longrightarrow> w \<noteq> []"
  by (auto simp: scan_word_def Let_def split: list.splits)

lemma cache_URL_cstr: "cache_URL c now junk u (cstr obj) sz = cache_URL c now junk u obj sz"
proof -
  have "c_strcpy junk (cstr obj) = c_strcpy junk obj" by (simp add: c_strcpy_def)
  then show ?thesis by (simp only: cache_URL_def)
qed

text \<open>What a transaction that opened a connection has done.\<close>

lemma doit_miss:
  assumes "doit env c fd = Some (Inr (c', out, Some req))"
  obtains client d n meth r uri r' host port sfd obj sz c1 where
    "Rio_readlineb (rio_readinitb fd) proxy_MAXLINE = Inr (client, d, n)"
    "scan_word (line_buf (a_buf env) d n) = Some (meth, r)" "strcasecmp_eq meth ''GET''"
    "scan_word r = Some (uri, r')" "check_cache c (clock env) uri = (c1, None)"
    "connect_to env host port = Some sfd"
    "forward (client_writes env) (rio_readinitb sfd) (a_obj env) 0 = Inr (out, obj, sz)"
    "sz < MAX_OBJECT_SIZE \<longrightarrow> cache_URL c1 (clock env) (a_item env) uri obj sz = Inr c'"
proof -
  obtain client d n where 1: "Rio_readlineb (rio_readinitb fd) proxy_MAXLINE = Inr (client, d, n)"
    using assms by (auto simp: doit_def split: sum.splits)
  obtain meth r where 2: "scan_word (line_buf (a_buf env) d n) = Some (meth, r)"
    using assms by (auto simp: doit_def 1 split: option.splits)
  have 3: "strcasecmp_eq meth ''GET''" using assms by (auto simp: doit_def 1 2 split: if_splits)
  obtain uri r' where 4: "scan_word r = Some (uri, r')"
    using assms by (auto simp: doit_def 1 2 3 split: option.splits)
  obtain c1 where 5: "check_cache c (clock env) uri = (c1, None)"
    using assms by (auto simp: doit_def 1 2 3 4 split: prod.splits option.splits)
  obtain host port path where 6: "parse_uri uri = (Some host, Some port, Some path)"
    using assms by (auto simp: doit_def 1 2 3 4 5 split: prod.splits option.splits)
  obtain client' where 7: "parse_header host path (a_hbuf env) (a_host env) (a_other env) client = Some (Inr (client', req))"
    using assms by (auto simp: doit_def 1 2 3 4 5 6 split: option.splits sum.splits if_splits)
  obtain sfd where 8: "connect_to env host port = Some sfd"
    using assms by (auto simp: doit_def 1 2 3 4 5 6 7 split: option.splits)
  obtain obj sz where 9: "forward (client_writes env) (rio_readinitb sfd) (a_obj env) 0 = Inr (out, obj, sz)"
    "sz < MAX_OBJECT_SIZE \<longrightarrow> cache_URL c1 (clock env) (a_item env) uri obj sz = Inr c'"
    using assms by (auto simp: doit_def 1 2 3 4 5 6 7 8 split: sum.splits if_splits)
  show ?thesis by (rule that [OF 1 2 3 4 5 8 9])
qed

text \<open>
  C18. A transaction that misses the cache sends to the client exactly the bytes that the server sent;
  and if they are fewer than \<^verbatim>\<open>MAX_OBJECT_SIZE\<close> and without null characters, the same request is
  answered from the cache afterwards, with the same bytes and without a connection.  The array that
  collects the response has to be empty at the start, which the program does not see to.
\<close>

theorem proxy_forwards_and_replays:
  assumes first: "doit env c fd = Some (Inr (c', out, Some req))"
    and arr: "cstr (a_obj env) = []" and fd: "bytes fd \<noteq> []" and ws: "W_fail \<notin> set (client_writes env2)"
  shows "(\<exists>host port sfd. connect_to env host port = Some sfd \<and> out = bytes sfd \<and> \<not> fails sfd) \<and>
    (length out < MAX_OBJECT_SIZE \<longrightarrow> NUL \<notin> set out \<longrightarrow>
       (\<exists>c''. doit env2 c' fd = Some (Inr (c'', out, None))))"
proof -
  from doit_miss [OF first] obtain client d n meth r uri r' host port sfd obj sz c1 where
    m: "Rio_readlineb (rio_readinitb fd) proxy_MAXLINE = Inr (client, d, n)"
    "scan_word (line_buf (a_buf env) d n) = Some (meth, r)" "strcasecmp_eq meth ''GET''"
    "scan_word r = Some (uri, r')" "check_cache c (clock env) uri = (c1, None)"
    "connect_to env host port = Some sfd"
    "forward (client_writes env) (rio_readinitb sfd) (a_obj env) 0 = Inr (out, obj, sz)"
    "sz < MAX_OBJECT_SIZE \<longrightarrow> cache_URL c1 (clock env) (a_item env) uri obj sz = Inr c'" .
  have p: "pending (rio_readinitb x) = bytes x" "rio_fd (rio_readinitb x) = x" for x
    by (simp_all add: pending_def rio_readinitb_def)
  have f: "out = bytes sfd" "sz = length out"
    "NUL \<notin> set out \<longrightarrow> sz < MAX_OBJECT_SIZE \<longrightarrow> cstr obj = out"
    using forward_spec [OF m(7)] arr by (auto simp: p)
  have nf: "\<not> fails sfd" using forward_no_fail [OF m(7)] by (simp add: p)
  have second: "\<exists>c''. doit env2 c' fd = Some (Inr (c'', out, None))"
    if small: "length out < MAX_OBJECT_SIZE" and nul: "NUL \<notin> set out"
  proof -
    have miss: "found c1 uri = None"
      using check_cache_keeps [of c "clock env" uri uri] check_cache_found [of c "clock env" uri] m(5) by simp
    have "cache_URL c1 (clock env) (a_item env) uri out (length out) = Inr c'"
      using m(8) f small nul cache_URL_cstr [of c1 "clock env" "a_item env" uri obj] by simp
    from cache_URL_found [OF this nul, of uri] have hit: "found c' uri = Some out" using miss by simp
    obtain c'' where cc: "check_cache c' (clock env2) uri = (c'', Some out)"
      using check_cache_found [of c' "clock env2" uri] hit by (metis prod.collapse)
    obtain ws' o' rr where w: "rio_writen (client_writes env2) out = (ws', o', rr)" by (metis prod_cases3)
    have "o' = out" using writen_spec [OF w] ws by auto
    have n: "n \<noteq> 0" using Rio_readlineb_Inr(4) [OF m(1)] fd by (auto simp: p)
    then have "scan_word (line_buf (a_buf env2) d n) = Some (meth, r)" using m(2) by (simp add: line_buf_def)
    then show ?thesis using m(1,3,4) cc w \<open>o' = out\<close> by (simp add: doit_def)
  qed
  show ?thesis using second m(6) f(1) nf by blast
qed

definition sample_env :: environ where
  "sample_env = \<lparr>a_buf = [], a_hbuf = [], a_host = zarr [], a_other = zarr [], a_obj = replicate 8 NUL,
     a_item = replicate 8 NUL, clock = 0, client_writes = [], connect_to = \<lambda>h p. Some [Data ''hi\<newline>'']\<rparr>"

lemma sample_transaction:
  "\<exists>c' req. doit sample_env (cache_init 0) [Data (''GET http://h/p HTTP/1.0'' @ CRLF @ CRLF)] =
     Some (Inr (c', ''hi\<newline>'', Some req))"
proof -
  let ?line = "''GET http://h/p HTTP/1.0'' @ CRLF" and ?fd = "[Data (''GET http://h/p HTTP/1.0'' @ CRLF @ CRLF)]"
  have m: "k < 100 \<Longrightarrow> k < proxy_MAXLINE" for k by (simp add: proxy_MAXLINE_def)
  obtain client where c: "Rio_readlineb (rio_readinitb ?fd) proxy_MAXLINE = Inr (client, ?line, 25)" "pending client = CRLF"
    using Rio_readlineb_line [of "rio_readinitb ?fd" "''GET http://h/p HTTP/1.0'' @ [CHR 0x0D]" CRLF]
    by (auto simp: pending_def rio_readinitb_def m)
  obtain client' where h: "Rio_readlineb client proxy_MAXLINE = Inr (client', CRLF, 2)"
    using Rio_readlineb_line [of client "[CHR 0x0D]" "[]"] c(2) by (auto simp: m)
  obtain server where s: "Rio_readlineb (rio_readinitb [Data ''hi\<newline>'']) proxy_MAXLINE = Inr (server, ''hi\<newline>'', 3)" "pending server = []"
    using Rio_readlineb_line [of "rio_readinitb [Data ''hi\<newline>'']" "''hi''" "[]"]
    by (auto simp: pending_def rio_readinitb_def m)
  have "\<not> fails (rio_fd server)" using Rio_readlineb_Inr(5) [OF s(1)] by (simp add: rio_readinitb_def)
  then obtain server' where e: "Rio_readlineb server proxy_MAXLINE = Inr (server', [], 0)"
    using Rio_readlineb_eof [OF s(2)] by blast
  have l: "line_buf [] ?line 25 = ?line" by (simp add: line_buf_def cstr_def)
  have w: "scan_word ?line = Some (''GET'', '' http://h/p HTTP/1.0'' @ CRLF)"
    "scan_word ('' http://h/p HTTP/1.0'' @ CRLF) = Some (''http://h/p'', '' HTTP/1.0'' @ CRLF)"
    by (simp_all add: scan_word_def is_space_def)
  have u: "parse_uri ''http://h/p'' = (Some ''h'', Some ''80'', Some ''/p'')"
    by (simp add: parse_uri_def has_prefix_def scan_until_def scan_word_def is_space_def)
  have cc: "check_cache (cache_init 0) 0 ''http://h/p'' = (cache_init 0, None)"
    by (simp add: check_cache_def cache_init_def)
  have hb: "line_buf [] CRLF 2 = CRLF" by (simp add: line_buf_def cstr_def)
  have hl: "header_loop client' CRLF (zarr []) (zarr []) = Some (Inr (client', zarr [], zarr []))"
    by (subst header_loop.simps) (simp add: has_prefix_def)
  have z: "cstr (zarr []) = []" by (rule cstr_zarr) (simp_all add: m)
  let ?req = "request_header ''/p'' @ (''Host: '' @ ''h'' @ CRLF) @ user_agent_hdr @ conn_hdr @ proxy_conn_hdr @ [] @ CRLF"
  have len: "length ?req < proxy_MAXLINE"
    by (simp add: request_header_def user_agent_hdr_def conn_hdr_def proxy_conn_hdr_def proxy_MAXLINE_def)
  have ph: "parse_header ''h'' ''/p'' [] (zarr []) (zarr []) client = Some (Inr (client', ?req))"
    unfolding parse_header_def h sum.case prod.case hb hl option.case Let_def z if_True simp_thms using len by (simp only: if_True)
  have app: "strncat_len (replicate 8 NUL) ''hi\<newline>'' = Some (''hi\<newline>'' @ replicate 5 NUL)"
    by (simp add: strncat_len_def store_def cstr_def numeral_eq_Suc)
  have stop: "forward [] server (''hi\<newline>'' @ replicate 5 NUL) 3 = Inr ([], ''hi\<newline>'' @ replicate 5 NUL, 3)"
    using e by (subst forward.simps) simp
  have hi: "Rio_writen [] ''hi\<newline>'' = Inr ([], ''hi\<newline>'')" "cstr ''hi\<newline>'' = ''hi\<newline>''" "(3 :: nat) < MAX_OBJECT_SIZE" "(3 :: nat) \<noteq> 0" "0 + 3 = (3 :: nat)"
    by (simp_all add: Rio_writen_def cstr_def MAX_OBJECT_SIZE_def)
  have fw: "forward [] (rio_readinitb [Data ''hi\<newline>'']) (replicate 8 NUL) 0 =
      Inr (''hi\<newline>'', ''hi\<newline>'' @ replicate 5 NUL, 3)"
    by (subst forward.simps) (simp only: s(1) hi if_True if_False sum.case prod.case option.case app stop append_Nil2)
  have st: "\<exists>c'. cache_URL (cache_init 0) 0 (replicate 8 NUL) ''http://h/p'' (''hi\<newline>'' @ replicate 5 NUL) 3 = Inr c'"
    by (simp add: cache_URL_Inr cache_init_def MAX_CACHE_SIZE_def cstr_def)
  obtain c' where st: "cache_URL (cache_init 0) 0 (replicate 8 NUL) ''http://h/p'' (''hi\<newline>'' @ replicate 5 NUL) 3 = Inr c'"
    using st by blast
  have get: "strcasecmp_eq ''GET'' ''GET''" "3 < MAX_OBJECT_SIZE" by (simp_all add: strcasecmp_eq_def MAX_OBJECT_SIZE_def)
  have env: "a_buf sample_env = []" "a_hbuf sample_env = []" "a_host sample_env = zarr []" "a_other sample_env = zarr []"
    "a_obj sample_env = replicate 8 NUL" "a_item sample_env = replicate 8 NUL" "clock sample_env = 0"
    "client_writes sample_env = []" "connect_to sample_env = (\<lambda>h p. Some [Data ''hi\<newline>''])"
    by (simp_all only: sample_env_def environ.simps)
  have "doit sample_env (cache_init 0) ?fd = Some (Inr (c', ''hi\<newline>'', Some ?req))"
    unfolding doit_def env c(1) sum.case prod.case Let_def l w option.case u cc ph fw st
    by (simp only: get simp_thms if_True if_False option.case prod.case sum.case w u cc ph fw st)
  then show ?thesis by blast
qed

lemma proxy_forwards_and_replays_witness:
  "\<exists>c' c'' req. doit sample_env (cache_init 0) [Data (''GET http://h/p HTTP/1.0'' @ CRLF @ CRLF)] =
       Some (Inr (c', ''hi\<newline>'', Some req)) \<and>
     doit sample_env c' [Data (''GET http://h/p HTTP/1.0'' @ CRLF @ CRLF)] = Some (Inr (c'', ''hi\<newline>'', None))"
proof -
  obtain c' req where d: "doit sample_env (cache_init 0) [Data (''GET http://h/p HTTP/1.0'' @ CRLF @ CRLF)] =
      Some (Inr (c', ''hi\<newline>'', Some req))" using sample_transaction by blast
  have "cstr (a_obj sample_env) = []" "W_fail \<notin> set (client_writes sample_env)"
    by (simp_all add: sample_env_def cstr_def)
  then show ?thesis using proxy_forwards_and_replays [OF d, of sample_env] d by (auto simp: MAX_OBJECT_SIZE_def)
qed

end
