(* ===== verification/Csapp.thy ===== *)
theory Csapp
  imports Prelude
begin

text \<open>
  The wrappers of \<^verbatim>\<open>csapp.c\<close> (\<^verbatim>\<open>sp_06_proxylab/proxylab-handout/csapp.c\<close>) around system calls and
  library functions, and the functions that open connections.

  A wrapper is a function of the result of the call that it wraps: \<open>Inr\<close> is what it returns, \<open>Inl\<close>
  is the end of the program with a message, by one of the error functions, which all exit with
  status 0.  A pointer is an option, \<open>None\<close> being the null pointer (for \<open>Mmap\<close>, \<^verbatim>\<open>MAP_FAILED\<close>).
\<close>

section \<open>Error functions\<close>

datatype app_exit = Unix_error string | Posix_error int string | Gai_error int string
  | App_error string | Dns_error string

definition exit_status :: "app_exit \<Rightarrow> int" where
  "exit_status e = (case e of Unix_error _ \<Rightarrow> 0 | Posix_error _ _ \<Rightarrow> 0 | Gai_error _ _ \<Rightarrow> 0
     | App_error _ \<Rightarrow> 0 | Dns_error _ \<Rightarrow> 0)"

section \<open>Calls that return a number\<close>

definition Fork :: "int \<Rightarrow> app_exit + int" where
  "Fork rc = (if rc < 0 then Inl (Unix_error ''Fork error'') else Inr rc)"

definition Wait :: "int \<Rightarrow> app_exit + int" where
  "Wait rc = (if rc < 0 then Inl (Unix_error ''Wait error'') else Inr rc)"

definition Waitpid :: "int \<Rightarrow> app_exit + int" where
  "Waitpid rc = (if rc < 0 then Inl (Unix_error ''Waitpid error'') else Inr rc)"

definition Sigismember :: "int \<Rightarrow> app_exit + int" where
  "Sigismember rc = (if rc < 0 then Inl (Unix_error ''Sigismember error'') else Inr rc)"

definition Open :: "int \<Rightarrow> app_exit + int" where
  "Open rc = (if rc < 0 then Inl (Unix_error ''Open error'') else Inr rc)"

definition Read :: "int \<Rightarrow> app_exit + int" where
  "Read rc = (if rc < 0 then Inl (Unix_error ''Read error'') else Inr rc)"

definition Write :: "int \<Rightarrow> app_exit + int" where
  "Write rc = (if rc < 0 then Inl (Unix_error ''Write error'') else Inr rc)"

definition Lseek :: "int \<Rightarrow> app_exit + int" where
  "Lseek rc = (if rc < 0 then Inl (Unix_error ''Lseek error'') else Inr rc)"

definition Select :: "int \<Rightarrow> app_exit + int" where
  "Select rc = (if rc < 0 then Inl (Unix_error ''Select error'') else Inr rc)"

definition Dup2 :: "int \<Rightarrow> app_exit + int" where
  "Dup2 rc = (if rc < 0 then Inl (Unix_error ''Dup2 error'') else Inr rc)"

definition Closedir :: "int \<Rightarrow> app_exit + int" where
  "Closedir rc = (if rc < 0 then Inl (Unix_error ''closedir error'') else Inr rc)"

definition Socket :: "int \<Rightarrow> app_exit + int" where
  "Socket rc = (if rc < 0 then Inl (Unix_error ''Socket error'') else Inr rc)"

definition Accept :: "int \<Rightarrow> app_exit + int" where
  "Accept rc = (if rc < 0 then Inl (Unix_error ''Accept error'') else Inr rc)"

section \<open>Calls that return success or failure\<close>

definition Execve :: "int \<Rightarrow> app_exit + unit" where
  "Execve rc = (if rc < 0 then Inl (Unix_error ''Execve error'') else Inr ())"

definition Kill :: "int \<Rightarrow> app_exit + unit" where
  "Kill rc = (if rc < 0 then Inl (Unix_error ''Kill error'') else Inr ())"

definition Setpgid :: "int \<Rightarrow> app_exit + unit" where
  "Setpgid rc = (if rc < 0 then Inl (Unix_error ''Setpgid error'') else Inr ())"

definition Sigprocmask :: "int \<Rightarrow> app_exit + unit" where
  "Sigprocmask rc = (if rc < 0 then Inl (Unix_error ''Sigprocmask error'') else Inr ())"

definition Sigemptyset :: "int \<Rightarrow> app_exit + unit" where
  "Sigemptyset rc = (if rc < 0 then Inl (Unix_error ''Sigemptyset error'') else Inr ())"

definition Sigfillset :: "int \<Rightarrow> app_exit + unit" where
  "Sigfillset rc = (if rc < 0 then Inl (Unix_error ''Sigfillset error'') else Inr ())"

definition Sigaddset :: "int \<Rightarrow> app_exit + unit" where
  "Sigaddset rc = (if rc < 0 then Inl (Unix_error ''Sigaddset error'') else Inr ())"

definition Sigdelset :: "int \<Rightarrow> app_exit + unit" where
  "Sigdelset rc = (if rc < 0 then Inl (Unix_error ''Sigdelset error'') else Inr ())"

definition Close :: "int \<Rightarrow> app_exit + unit" where
  "Close rc = (if rc < 0 then Inl (Unix_error ''Close error'') else Inr ())"

definition Stat :: "int \<Rightarrow> app_exit + unit" where
  "Stat rc = (if rc < 0 then Inl (Unix_error ''Stat error'') else Inr ())"

definition Fstat :: "int \<Rightarrow> app_exit + unit" where
  "Fstat rc = (if rc < 0 then Inl (Unix_error ''Fstat error'') else Inr ())"

definition Munmap :: "int \<Rightarrow> app_exit + unit" where
  "Munmap rc = (if rc < 0 then Inl (Unix_error ''munmap error'') else Inr ())"

definition P_sem :: "int \<Rightarrow> app_exit + unit" where
  "P_sem rc = (if rc < 0 then Inl (Unix_error ''P error'') else Inr ())"

definition V_sem :: "int \<Rightarrow> app_exit + unit" where
  "V_sem rc = (if rc < 0 then Inl (Unix_error ''V error'') else Inr ())"

text \<open>\<^verbatim>\<open>Signal\<close> returns the handler that was installed before.\<close>

definition Signal :: "int \<Rightarrow> 'h \<Rightarrow> app_exit + 'h" where
  "Signal rc old_handler = (if rc < 0 then Inl (Unix_error ''Signal error'') else Inr old_handler)"

definition Rio_readn :: "int \<Rightarrow> app_exit + int" where
  "Rio_readn n = (if n < 0 then Inl (Unix_error ''Rio_readn error'') else Inr n)"

definition Rio_readnb :: "int \<Rightarrow> app_exit + int" where
  "Rio_readnb rc = (if rc < 0 then Inl (Unix_error ''Rio_readnb error'') else Inr rc)"

definition Setsockopt :: "int \<Rightarrow> app_exit + unit" where
  "Setsockopt rc = (if rc < 0 then Inl (Unix_error ''Setsockopt error'') else Inr ())"

definition Bind :: "int \<Rightarrow> app_exit + unit" where
  "Bind rc = (if rc < 0 then Inl (Unix_error ''Bind error'') else Inr ())"

definition Listen :: "int \<Rightarrow> app_exit + unit" where
  "Listen rc = (if rc < 0 then Inl (Unix_error ''Listen error'') else Inr ())"

definition Connect :: "int \<Rightarrow> app_exit + unit" where
  "Connect rc = (if rc < 0 then Inl (Unix_error ''Connect error'') else Inr ())"

definition Sem_init :: "int \<Rightarrow> app_exit + unit" where
  "Sem_init rc = (if rc < 0 then Inl (Unix_error ''Sem_init error'') else Inr ())"

section \<open>Calls that return a pointer\<close>

definition Opendir :: "'p option \<Rightarrow> app_exit + 'p" where
  "Opendir p = (case p of None \<Rightarrow> Inl (Unix_error ''opendir error'') | Some p \<Rightarrow> Inr p)"

definition Malloc :: "'p option \<Rightarrow> app_exit + 'p" where
  "Malloc p = (case p of None \<Rightarrow> Inl (Unix_error ''Malloc error'') | Some p \<Rightarrow> Inr p)"

definition Realloc :: "'p option \<Rightarrow> app_exit + 'p" where
  "Realloc p = (case p of None \<Rightarrow> Inl (Unix_error ''Realloc error'') | Some p \<Rightarrow> Inr p)"

definition Calloc :: "'p option \<Rightarrow> app_exit + 'p" where
  "Calloc p = (case p of None \<Rightarrow> Inl (Unix_error ''Calloc error'') | Some p \<Rightarrow> Inr p)"

definition Fdopen :: "'p option \<Rightarrow> app_exit + 'p" where
  "Fdopen p = (case p of None \<Rightarrow> Inl (Unix_error ''Fdopen error'') | Some p \<Rightarrow> Inr p)"

definition Fopen :: "'p option \<Rightarrow> app_exit + 'p" where
  "Fopen p = (case p of None \<Rightarrow> Inl (Unix_error ''Fopen error'') | Some p \<Rightarrow> Inr p)"

definition Mmap :: "'p option \<Rightarrow> app_exit + 'p" where
  "Mmap p = (case p of None \<Rightarrow> Inl (Unix_error ''mmap error'') | Some p \<Rightarrow> Inr p)"

section \<open>Threads and addresses\<close>

definition Pthread_create :: "int \<Rightarrow> app_exit + unit" where
  "Pthread_create rc = (if rc \<noteq> 0 then Inl (Posix_error rc ''Pthread_create error'') else Inr ())"

definition Pthread_cancel :: "int \<Rightarrow> app_exit + unit" where
  "Pthread_cancel rc = (if rc \<noteq> 0 then Inl (Posix_error rc ''Pthread_cancel error'') else Inr ())"

definition Pthread_join :: "int \<Rightarrow> app_exit + unit" where
  "Pthread_join rc = (if rc \<noteq> 0 then Inl (Posix_error rc ''Pthread_join error'') else Inr ())"

definition Pthread_detach :: "int \<Rightarrow> app_exit + unit" where
  "Pthread_detach rc = (if rc \<noteq> 0 then Inl (Posix_error rc ''Pthread_detach error'') else Inr ())"

definition Getaddrinfo :: "int \<Rightarrow> app_exit + unit" where
  "Getaddrinfo rc = (if rc \<noteq> 0 then Inl (Gai_error rc ''Getaddrinfo error'') else Inr ())"

definition Getnameinfo :: "int \<Rightarrow> app_exit + unit" where
  "Getnameinfo rc = (if rc \<noteq> 0 then Inl (Gai_error rc ''Getnameinfo error'') else Inr ())"

definition Inet_pton :: "int \<Rightarrow> app_exit + unit" where
  "Inet_pton rc =
     (if rc = 0 then Inl (App_error ''inet_pton error: invalid dotted-decimal address'')
      else if rc < 0 then Inl (Unix_error ''Inet_pton error'') else Inr ())"

definition Inet_ntop :: "'p option \<Rightarrow> app_exit + unit" where
  "Inet_ntop p = (case p of None \<Rightarrow> Inl (Unix_error ''Inet_ntop error'') | Some _ \<Rightarrow> Inr ())"

definition Gethostbyname :: "'p option \<Rightarrow> app_exit + 'p" where
  "Gethostbyname p = (case p of None \<Rightarrow> Inl (Dns_error ''Gethostbyname error'') | Some p \<Rightarrow> Inr p)"

definition Gethostbyaddr :: "'p option \<Rightarrow> app_exit + 'p" where
  "Gethostbyaddr p = (case p of None \<Rightarrow> Inl (Dns_error ''Gethostbyaddr error'') | Some p \<Rightarrow> Inr p)"

section \<open>Calls with a second condition\<close>

text \<open>\<^verbatim>\<open>sleep\<close> returns an unsigned number, of which the test asks whether it is negative.\<close>

definition Sleep :: "u32 \<Rightarrow> app_exit + u32" where
  "Sleep rc = (if rc < 0 then Inl (Unix_error ''Sleep error'') else Inr rc)"

definition Sigsuspend :: "bool \<Rightarrow> int \<Rightarrow> app_exit + int" where
  "Sigsuspend errno_EINTR rc = (if \<not> errno_EINTR then Inl (Unix_error ''Sigsuspend error'') else Inr rc)"

definition Readdir :: "int \<Rightarrow> 'p option \<Rightarrow> app_exit + 'p option" where
  "Readdir errno dep = (if dep = None \<and> errno \<noteq> 0 then Inl (Unix_error ''readdir error'') else Inr dep)"

definition Fclose :: "int \<Rightarrow> app_exit + unit" where
  "Fclose rc = (if rc \<noteq> 0 then Inl (Unix_error ''Fclose error'') else Inr ())"

definition Fgets :: "bool \<Rightarrow> 'p option \<Rightarrow> app_exit + 'p option" where
  "Fgets ferror rptr = (if rptr = None \<and> ferror then Inl (App_error ''Fgets error'') else Inr rptr)"

definition Fputs :: "int \<Rightarrow> app_exit + unit" where
  "Fputs rc = (if rc = -1 then Inl (Unix_error ''Fputs error'') else Inr ())"

definition Fread :: "bool \<Rightarrow> nat \<Rightarrow> nat \<Rightarrow> app_exit + nat" where
  "Fread ferror nmemb n = (if n < nmemb \<and> ferror then Inl (Unix_error ''Fread error'') else Inr n)"

definition Fwrite :: "nat \<Rightarrow> nat \<Rightarrow> app_exit + unit" where
  "Fwrite nmemb n = (if n < nmemb then Inl (Unix_error ''Fwrite error'') else Inr ())"

section \<open>Opening connections\<close>

text \<open>
  The descriptors of the process that are open, each with the address it is connected (or bound) to,
  if any.  A new descriptor is the lowest number that is not open, so that a number is used again
  after it was closed.
\<close>

type_synonym fd_table = "(nat \<times> string option) list"

definition lowest :: "fd_table \<Rightarrow> nat" where
  "lowest t = hd (filter (\<lambda>n. n \<notin> fst ` set t) [0..<Suc (length t)])"

definition close_fd :: "nat \<Rightarrow> fd_table \<Rightarrow> fd_table" where
  "close_fd fd t = filter (\<lambda>e. fst e \<noteq> fd) t"

text \<open>
  What the kernel answers for an address of the list of \<^verbatim>\<open>getaddrinfo\<close>: whether \<^verbatim>\<open>socket\<close> succeeds,
  whether \<^verbatim>\<open>connect\<close> (or \<^verbatim>\<open>bind\<close>) does, and whether \<^verbatim>\<open>close\<close> succeeds if it does not (\<^verbatim>\<open>close\<close>
  releases the descriptor also when it fails, as on Linux).
\<close>

record addr =
  ai_addr :: string
  ai_socket :: bool
  ai_ok :: bool
  ai_close_ok :: bool

text \<open>The loop over the addresses: \<open>Inr\<close> is the descriptor it breaks with, if any; \<open>Inl\<close> an early return of -1.\<close>

fun walk :: "fd_table \<Rightarrow> addr list \<Rightarrow> (unit + nat option) \<times> fd_table" where
  "walk t [] = (Inr None, t)"
| "walk t (p # ps) =
     (if \<not> ai_socket p then walk t ps
      else let fd = lowest t in
        if ai_ok p then (Inr (Some fd), (fd, Some (ai_addr p)) # t)
        else let t = close_fd fd ((fd, None) # t)
          in if \<not> ai_close_ok p then (Inl (), t) else walk t ps)"

definition open_clientfd :: "fd_table \<Rightarrow> addr list option \<Rightarrow> int \<times> fd_table" where
  "open_clientfd t listp = (case listp of
     None \<Rightarrow> (-2, t)
   | Some ps \<Rightarrow>
       case walk t ps of
         (Inl _, t) \<Rightarrow> (-1, t)
       | (Inr None, t) \<Rightarrow> (-1, t)
       | (Inr (Some fd), t) \<Rightarrow> (int fd, t))"

definition open_listenfd :: "fd_table \<Rightarrow> addr list option \<Rightarrow> bool \<Rightarrow> int \<times> fd_table" where
  "open_listenfd t listp listen_ok = (case listp of
     None \<Rightarrow> (-2, t)
   | Some ps \<Rightarrow>
       case walk t ps of
         (Inl _, t) \<Rightarrow> (-1, t)
       | (Inr None, t) \<Rightarrow> (-1, t)
       | (Inr (Some fd), t) \<Rightarrow> if listen_ok then (int fd, t) else (-1, close_fd fd t))"

definition Open_clientfd :: "fd_table \<Rightarrow> addr list option \<Rightarrow> (app_exit + int) \<times> fd_table" where
  "Open_clientfd t listp = (case open_clientfd t listp of (rc, t) \<Rightarrow>
     (if rc < 0 then Inl (Unix_error ''Open_clientfd error'') else Inr rc, t))"

definition Open_listenfd :: "fd_table \<Rightarrow> addr list option \<Rightarrow> bool \<Rightarrow> (app_exit + int) \<times> fd_table" where
  "Open_listenfd t listp listen_ok = (case open_listenfd t listp listen_ok of (rc, t) \<Rightarrow>
     (if rc < 0 then Inl (Unix_error ''Open_listenfd error'') else Inr rc, t))"

section \<open>Properties\<close>

lemma lowest_free: "lowest t \<notin> fst ` set t"
proof -
  let ?xs = "filter (\<lambda>n. n \<notin> fst ` set t) [0..<Suc (length t)]"
  have "?xs \<noteq> []"
  proof
    assume "?xs = []"
    then have "{0..<Suc (length t)} \<subseteq> fst ` set t" by (auto simp: filter_empty_conv simp del: upt_Suc)
    from card_mono [OF _ this] have "Suc (length t) \<le> card (fst ` set t)" by simp
    also have "\<dots> \<le> length t" by (metis card_length length_map set_map)
    finally show False by simp
  qed
  from hd_in_set [OF this] show ?thesis by (simp add: lowest_def del: upt_Suc)
qed

lemma close_lowest: "close_fd (lowest t) ((lowest t, a) # t) = t"
  using lowest_free [of t] by (force simp: close_fd_def filter_id_conv)

text \<open>The address that the loop breaks at: the first that works, unless a \<^verbatim>\<open>close\<close> failed before it.\<close>

fun works_at :: "addr list \<Rightarrow> addr option" where
  "works_at [] = None"
| "works_at (p # ps) = (if ai_socket p \<and> ai_ok p then Some p
     else if ai_socket p \<and> \<not> ai_close_ok p then None else works_at ps)"

lemma walk_open:
  "(case works_at ps of Some p \<Rightarrow> walk t ps = (Inr (Some (lowest t)), (lowest t, Some (ai_addr p)) # t)
     | None \<Rightarrow> walk t ps = (Inr None, t) \<or> walk t ps = (Inl (), t))"
  by (induction ps) (auto simp: Let_def close_lowest split: option.splits)

lemma works_at_first:
  "list_all ai_close_ok ps \<Longrightarrow> works_at ps = (case filter (\<lambda>p. ai_socket p \<and> ai_ok p) ps of [] \<Rightarrow> None | p # _ \<Rightarrow> Some p)"
  by (induction ps) auto

text \<open>
  C24. \<^verbatim>\<open>open_clientfd\<close> and \<^verbatim>\<open>open_listenfd\<close> return a descriptor exactly if some address works before a
  \<^verbatim>\<open>close\<close> fails, and then it was not open before, is connected (bound) to the first such address and
  is the only descriptor opened; if they fail, exactly the descriptors that were open before are
  open.  So it is after every combination of failures of \<^verbatim>\<open>getaddrinfo\<close>, \<^verbatim>\<open>socket\<close>, \<^verbatim>\<open>connect\<close>,
  \<^verbatim>\<open>bind\<close>, \<^verbatim>\<open>listen\<close> and \<^verbatim>\<open>close\<close>, with every table of open descriptors.
\<close>

theorem open_fds_no_leak:
  "lowest t \<notin> fst ` set t \<and>
    open_clientfd t (Some ps) = (case works_at ps of None \<Rightarrow> (-1, t) | Some p \<Rightarrow> (int (lowest t), (lowest t, Some (ai_addr p)) # t)) \<and>
    open_listenfd t (Some ps) ok = (case works_at ps of
      Some p \<Rightarrow> if ok then (int (lowest t), (lowest t, Some (ai_addr p)) # t) else (-1, t) | None \<Rightarrow> (-1, t)) \<and>
    open_clientfd t None = (-2, t) \<and> open_listenfd t None ok = (-2, t) \<and>
    (list_all ai_close_ok ps \<longrightarrow>
      works_at ps = (case filter (\<lambda>p. ai_socket p \<and> ai_ok p) ps of [] \<Rightarrow> None | p # _ \<Rightarrow> Some p))"
  using walk_open [where ps = ps and t = t] lowest_free [of t] works_at_first [of ps]
  by (auto simp: open_clientfd_def open_listenfd_def close_lowest split: option.splits)

text \<open>The number 2 is used again for the second address, after it was closed.\<close>

lemma open_fds_no_leak_witness:
  "let t = [(0, None), (1, None), (3, None)];
     ps = [\<lparr>ai_addr = ''::1'', ai_socket = False, ai_ok = True, ai_close_ok = True\<rparr>,
       \<lparr>ai_addr = ''10.0.0.1'', ai_socket = True, ai_ok = False, ai_close_ok = True\<rparr>,
       \<lparr>ai_addr = ''10.0.0.2'', ai_socket = True, ai_ok = True, ai_close_ok = True\<rparr>]
   in open_clientfd t (Some ps) = (2, (2, Some ''10.0.0.2'') # t)"
proof -
  let ?t = "[(0, None), (1, None), (3, None)]"
  let ?ps = "[\<lparr>ai_addr = ''::1'', ai_socket = False, ai_ok = True, ai_close_ok = True\<rparr>,
       \<lparr>ai_addr = ''10.0.0.1'', ai_socket = True, ai_ok = False, ai_close_ok = True\<rparr>,
       \<lparr>ai_addr = ''10.0.0.2'', ai_socket = True, ai_ok = True, ai_close_ok = True\<rparr>]"
  have l: "lowest ?t = 2" by (simp add: lowest_def upt_rec)
  show ?thesis using open_fds_no_leak [of ?t ?ps True] unfolding l by simp
qed

end
