(* ===== verification/ProxyServer.thy ===== *)
theory ProxyServer
  imports Sbuf ProxyDoit Csapp "HOL-Library.Multiset"
begin

text \<open>
  The proxy as a whole (\<^verbatim>\<open>main\<close> and \<^verbatim>\<open>thread\<close> of \<^verbatim>\<open>sp_06_proxylab/proxylab-handout/proxy.c\<close>): the main thread
  accepts connections and inserts their descriptors into the bounded buffer, four worker threads
  remove them, serve them with \<^verbatim>\<open>doit\<close> and close them.

  The threads share the buffer of \<^verbatim>\<open>sbuf.c\<close> and execute its statements in any order; the service
  of a connection by \<^verbatim>\<open>doit\<close> is one step of its worker, on a cache that is left open here (the locks of the
  cache are the subject of \<open>ProxyLock\<close>), and a service that does not end is a worker that stays
  where it is.
\<close>

definition NTHREADS :: nat where "NTHREADS = 4"
definition SBUFSIZE :: nat where "SBUFSIZE = 16"

text \<open>
  A worker has not yet detached itself, is in \<^verbatim>\<open>sbuf_remove\<close> (or about to call it), in \<^verbatim>\<open>doit\<close>, or about to
  close the descriptor.
\<close>

datatype worker = Starting | Calls at | Serving int | Closing int

text \<open>
  The main thread is at a statement of \<^verbatim>\<open>sbuf_insert\<close>, or at \<^verbatim>\<open>Accept\<close> (\<open>Out\<close>).  The last four components are
  histories that the program does not have: the descriptors that were accepted, put into the buffer,
  taken from it and closed.
\<close>

record server =
  srv_sbuf :: sbuf_t
  srv_main :: at
  srv_workers :: "worker list"
  srv_accepted :: "int list"
  srv_put :: "int list"
  srv_taken :: "int list"
  srv_closed :: "int list"

text \<open>The loop that creates the threads, for the results of \<^verbatim>\<open>pthread_create\<close>.\<close>

fun create_threads :: "int list \<Rightarrow> app_exit + worker list" where
  "create_threads [] = Inr []"
| "create_threads (rc # rcs) =
     (case Pthread_create rc of
        Inl e \<Rightarrow> Inl e
      | Inr _ \<Rightarrow> (case create_threads rcs of Inl e \<Rightarrow> Inl e | Inr ts \<Rightarrow> Inr (Starting # ts)))"

text \<open>
  \<^verbatim>\<open>main\<close> up to its loop.  \<open>listens\<close> is the result of \<^verbatim>\<open>Open_listenfd\<close> and \<open>creates\<close> are those of \<^verbatim>\<open>pthread_create\<close>;
  \<open>None\<close> is the exit with status 1 after the usage line.
\<close>

definition server_start :: "nat \<Rightarrow> app_exit + int \<Rightarrow> (nat \<Rightarrow> int) \<Rightarrow> (app_exit + server) option" where
  "server_start argc listens creates =
     (if argc \<noteq> 2 then None
      else case listens of
        Inl e \<Rightarrow> Some (Inl e)
      | Inr listenfd \<Rightarrow>
          case create_threads (map creates [0..<NTHREADS]) of
            Inl e \<Rightarrow> Some (Inl e)
          | Inr ts \<Rightarrow>
              Some (Inr \<lparr>srv_sbuf = sbuf_init SBUFSIZE, srv_main = Out, srv_workers = ts,
                srv_accepted = [], srv_put = [], srv_taken = [], srv_closed = []\<rparr>))"

text \<open>
  The steps.  A call that fails ends the process, so that it has no step: \<^verbatim>\<open>Accept\<close>, \<^verbatim>\<open>Getnameinfo\<close>,
  \<^verbatim>\<open>Pthread_detach\<close>, \<^verbatim>\<open>Close\<close>, or a call in \<^verbatim>\<open>doit\<close>.
\<close>

inductive srv_step :: "server \<Rightarrow> server \<Rightarrow> bool" where
  accept: "srv_main s = Out \<Longrightarrow> Accept rc = Inr connfd \<Longrightarrow> Getnameinfo rc' = Inr () \<Longrightarrow>
    srv_step s (s\<lparr>srv_main := Ins_P_slots connfd, srv_accepted := srv_accepted s @ [connfd]\<rparr>)"
| insert: "exec (srv_sbuf s) (srv_main s) = Some (sp', a) \<Longrightarrow>
    srv_step s (s\<lparr>srv_sbuf := sp', srv_main := a, srv_put := note_put (srv_main s) (srv_put s)\<rparr>)"
| detach: "i < length (srv_workers s) \<Longrightarrow> srv_workers s ! i = Starting \<Longrightarrow> Pthread_detach rc = Inr () \<Longrightarrow>
    srv_step s (s\<lparr>srv_workers := (srv_workers s)[i := Calls Rem_P_items]\<rparr>)"
| remove: "i < length (srv_workers s) \<Longrightarrow> srv_workers s ! i = Calls w \<Longrightarrow> exec (srv_sbuf s) w = Some (sp', a) \<Longrightarrow>
    srv_step s (s\<lparr>srv_sbuf := sp', srv_workers := (srv_workers s)[i := (case w of Rem_V_slots x \<Rightarrow> Serving x | _ \<Rightarrow> Calls a)],
      srv_taken := (if w = Rem_take then note_taken a (srv_taken s) else srv_taken s)\<rparr>)"
| serve: "i < length (srv_workers s) \<Longrightarrow> srv_workers s ! i = Serving x \<Longrightarrow> doit env c events = Some (Inr r) \<Longrightarrow>
    srv_step s (s\<lparr>srv_workers := (srv_workers s)[i := Closing x]\<rparr>)"
| close: "i < length (srv_workers s) \<Longrightarrow> srv_workers s ! i = Closing x \<Longrightarrow> Close rc = Inr () \<Longrightarrow>
    srv_step s (s\<lparr>srv_workers := (srv_workers s)[i := Calls Rem_P_items], srv_closed := srv_closed s @ [x]\<rparr>)"

inductive srv_reach :: "server \<Rightarrow> bool" where
  start: "server_start argc listens creates = Some (Inr s) \<Longrightarrow> srv_reach s"
| run: "srv_reach s \<Longrightarrow> srv_step s s' \<Longrightarrow> srv_reach s'"

section \<open>The server uses the buffer as it may\<close>

text \<open>
  Seen from the buffer, a worker that starts, serves or closes is outside of its functions.
\<close>

definition seen :: "worker \<Rightarrow> at" where
  "seen w = (case w of Calls a \<Rightarrow> a | _ \<Rightarrow> Out)"

definition buffer_view :: "server \<Rightarrow> sys" where
  "buffer_view s = \<lparr>sp = srv_sbuf s, ths = srv_main s # map seen (srv_workers s), put = srv_put s, taken = srv_taken s\<rparr>"

text \<open>A worker only removes, the main thread only inserts.\<close>

definition worker_at :: "worker \<Rightarrow> bool" where
  "worker_at w \<longleftrightarrow> (case w of Calls a \<Rightarrow> (case a of Rem_P_items \<Rightarrow> True | Rem_P_mutex \<Rightarrow> True | Rem_take \<Rightarrow> True
     | Rem_V_mutex _ \<Rightarrow> True | Rem_V_slots _ \<Rightarrow> True | _ \<Rightarrow> False) | _ \<Rightarrow> True)"

definition main_at :: "at \<Rightarrow> bool" where
  "main_at a \<longleftrightarrow> (case a of Out \<Rightarrow> True | Ins_P_slots _ \<Rightarrow> True | Ins_P_mutex _ \<Rightarrow> True | Ins_put _ \<Rightarrow> True
     | Ins_V_mutex \<Rightarrow> True | Ins_V_items \<Rightarrow> True | _ \<Rightarrow> False)"

text \<open>The descriptor that a thread has in hand.\<close>

definition in_hand :: "worker \<Rightarrow> int list" where
  "in_hand w = (case w of Serving x \<Rightarrow> [x] | Closing x \<Rightarrow> [x] | Calls (Rem_V_mutex x) \<Rightarrow> [x]
     | Calls (Rem_V_slots x) \<Rightarrow> [x] | _ \<Rightarrow> [])"

definition to_insert :: "at \<Rightarrow> int list" where
  "to_insert a = (case a of Ins_P_slots x \<Rightarrow> [x] | Ins_P_mutex x \<Rightarrow> [x] | Ins_put x \<Rightarrow> [x] | _ \<Rightarrow> [])"

lemmas srv_at = worker_at_def main_at_def in_hand_def to_insert_def

definition srv_inv :: "server \<Rightarrow> bool" where
  "srv_inv s \<longleftrightarrow> sys_reach SBUFSIZE (NTHREADS + 1) (buffer_view s) \<and> length (srv_workers s) = NTHREADS \<and>
     main_at (srv_main s) \<and> (\<forall>w\<in>set (srv_workers s). worker_at w) \<and>
     srv_accepted s = srv_put s @ to_insert (srv_main s) \<and>
     mset (srv_taken s) = mset (srv_closed s) + mset (concat (map in_hand (srv_workers s)))"

lemma create_threads_Inr: "create_threads rcs = Inr ts \<Longrightarrow> ts = replicate (length rcs) Starting"
  by (induction rcs arbitrary: ts) (auto split: sum.splits)

lemma replicate_seen: "map seen (replicate n Starting) = replicate n Out"
  by (simp add: seen_def)

lemma srv_start_inv: "server_start argc listens creates = Some (Inr s) \<Longrightarrow> srv_inv s"
  using sys_reach.start [of SBUFSIZE "NTHREADS + 1"]
  by (auto simp: server_start_def srv_inv_def buffer_view_def replicate_seen main_at_def worker_at_def
      seen_def to_insert_def in_hand_def map_replicate_const split: if_splits sum.splits dest!: create_threads_Inr)

text \<open>Replacing one worker changes what the workers have in hand by what it has.\<close>

lemma hand_update:
  assumes "i < length ws"
  shows "mset (concat (map in_hand (ws[i := w]))) + mset (in_hand (ws ! i)) = mset (concat (map in_hand ws)) + mset (in_hand w)"
  using assms
proof (induction ws arbitrary: i)
  case (Cons v ws)
  then show ?case by (cases i) (auto simp: algebra_simps)
qed simp

text \<open>Every step is a step of the buffer or leaves it alone.\<close>

lemma buffer_view_step:
  assumes "srv_step s s'" and m: "main_at (srv_main s)" and ws: "\<forall>w\<in>set (srv_workers s). worker_at w"
  shows "sys_step (buffer_view s) (buffer_view s') \<or> buffer_view s' = buffer_view s"
  using assms(1)
proof cases
  case (accept rc connfd rc')
  then have "sys_step (buffer_view s) ((buffer_view s)\<lparr>ths := (ths (buffer_view s))[0 := Ins_P_slots connfd]\<rparr>)"
    by (intro call_insert) (simp_all add: buffer_view_def)
  then show ?thesis unfolding accept(1) by (simp add: buffer_view_def)
next
  case (insert sp' a)
  let ?v = "buffer_view s"
  have e: "exec (sp ?v) (ths ?v ! 0) = Some (sp', a)" using insert(2) by (simp add: buffer_view_def)
  have "srv_main s \<noteq> Rem_take" using m by (auto simp: main_at_def)
  then show ?thesis using statement [OF move.move [OF _ e]] unfolding insert(1) by (simp add: buffer_view_def)
next
  case (detach i rc)
  then have "sys_step (buffer_view s) ((buffer_view s)\<lparr>ths := (ths (buffer_view s))[Suc i := Rem_P_items]\<rparr>)"
    by (intro call_remove) (simp_all add: buffer_view_def seen_def)
  then show ?thesis unfolding detach(1) by (simp add: buffer_view_def map_update seen_def)
next
  case (remove i w sp' a)
  let ?v = "buffer_view s"
  have e: "exec (sp ?v) (ths ?v ! Suc i) = Some (sp', a)" and l: "Suc i < length (ths ?v)" and w: "ths ?v ! Suc i = w"
    using remove(2-4) by (simp_all add: buffer_view_def seen_def)
  have ok: "worker_at (Calls w)" using ws remove(2,3) nth_mem by metis
  then have "note_put w h = h" for h by (cases w) (auto simp: worker_at_def note_put_def)
  moreover have "seen (case w of Rem_V_slots x \<Rightarrow> Serving x | _ \<Rightarrow> Calls a) = a"
    using remove(4) by (cases w) (auto simp: seen_def)
  ultimately show ?thesis using statement [OF move.move [OF l e]] unfolding remove(1) w
    by (cases "w = Rem_take") (simp_all add: buffer_view_def map_update)
next
  case (serve i x env c events r)
  have "(map seen (srv_workers s))[i := Out] = map seen (srv_workers s)"
    using serve by (intro list_update_same_conv [THEN iffD2]) (simp_all add: seen_def)
  then show ?thesis unfolding serve(1) by (simp add: buffer_view_def map_update seen_def)
next
  case (close i x rc)
  then have "sys_step (buffer_view s) ((buffer_view s)\<lparr>ths := (ths (buffer_view s))[Suc i := Rem_P_items]\<rparr>)"
    by (intro call_remove) (simp_all add: buffer_view_def seen_def)
  then show ?thesis unfolding close(1) by (simp add: buffer_view_def map_update seen_def)
qed

lemma worker_step:
  assumes "exec b w = Some (sp', a)" and "worker_at (Calls w)"
  defines "w' \<equiv> (case w of Rem_V_slots x \<Rightarrow> Serving x | _ \<Rightarrow> Calls a)"
  shows "worker_at w'" "w \<noteq> Rem_take \<Longrightarrow> in_hand w' = in_hand (Calls w)"
    "w = Rem_take \<Longrightarrow> note_taken a h = h @ in_hand w'" "w = Rem_take \<Longrightarrow> in_hand (Calls w) = []"
  using assms by (cases w; auto simp: worker_at_def in_hand_def note_taken_def take_item_def Let_def split: if_splits)+

lemma main_step:
  assumes "exec b m = Some (sp', a)" and "main_at m"
  shows "main_at a" "note_put m h @ to_insert a = h @ to_insert m"
  using assms by (cases m; auto simp: main_at_def to_insert_def note_put_def split: if_splits)+

lemma set_update_ok: "\<forall>x\<in>set xs. P x \<Longrightarrow> P y \<Longrightarrow> \<forall>x\<in>set (xs[i := y]). P x"
  using set_update_subset_insert [of xs i y] by blast

lemma srv_inv_worker:
  assumes inv: "srv_inv s" and i: "i < length (srv_workers s)" and w: "worker_at w"
    and v: "sys_reach SBUFSIZE (NTHREADS + 1) (buffer_view s')"
    and s': "s' = s\<lparr>srv_sbuf := b, srv_workers := (srv_workers s)[i := w], srv_taken := t, srv_closed := c\<rparr>"
    and books: "mset t + mset (in_hand (srv_workers s ! i)) + mset (srv_closed s) = mset (srv_taken s) + mset (in_hand w) + mset c"
  shows "srv_inv s'"
proof -
  let ?ws = "(srv_workers s)[i := w]"
  have "\<forall>w\<in>set ?ws. worker_at w" using inv w by (intro set_update_ok) (simp_all add: srv_inv_def)
  moreover have "mset t = mset c + mset (concat (map in_hand ?ws))"
  proof -
    have "mset t + mset (in_hand (srv_workers s ! i)) + mset (srv_closed s) =
        mset (srv_closed s) + mset (concat (map in_hand (srv_workers s))) + mset (in_hand w) + mset c"
      using inv books by (simp add: srv_inv_def)
    also have "\<dots> = mset (srv_closed s) + (mset (concat (map in_hand ?ws)) + mset (in_hand (srv_workers s ! i))) + mset c"
      using hand_update [OF i, of w] by (simp add: ac_simps)
    finally have "mset t + (mset (in_hand (srv_workers s ! i)) + mset (srv_closed s)) =
        mset c + mset (concat (map in_hand ?ws)) + (mset (in_hand (srv_workers s ! i)) + mset (srv_closed s))"
      by (simp add: ac_simps)
    then show ?thesis by (simp only: add_right_cancel)
  qed
  ultimately show ?thesis using inv v unfolding s' srv_inv_def by simp
qed

lemma srv_step_inv:
  assumes "srv_step s s'" and inv: "srv_inv s"
  shows "srv_inv s'"
proof -
  have I: "sys_reach SBUFSIZE (NTHREADS + 1) (buffer_view s)" "main_at (srv_main s)"
    "\<forall>w\<in>set (srv_workers s). worker_at w" "srv_accepted s = srv_put s @ to_insert (srv_main s)"
    using inv by (simp_all add: srv_inv_def)
  have v: "sys_reach SBUFSIZE (NTHREADS + 1) (buffer_view s')"
    using buffer_view_step [OF assms(1) I(2,3)] I(1) sys_reach.run by auto
  show ?thesis
    using assms(1)
  proof cases
    case (accept rc connfd rc')
    then show ?thesis using v inv by (simp add: srv_inv_def main_at_def to_insert_def)
  next
    case (insert sp' a)
    show ?thesis using v inv main_step [OF insert(2) I(2)] unfolding insert(1) by (simp add: srv_inv_def)
  next
    case (detach i rc)
    show ?thesis
      by (rule srv_inv_worker [OF inv detach(2) _ v, where w = "Calls Rem_P_items" and b = "srv_sbuf s" and t = "srv_taken s" and c = "srv_closed s"])
        (use detach in \<open>simp_all add: worker_at_def in_hand_def\<close>)
  next
    case (remove i w sp' a)
    have ok: "worker_at (Calls w)" using I(3) remove(2,3) nth_mem by metis
    define w' where "w' = (case w of Rem_V_slots x \<Rightarrow> Serving x | _ \<Rightarrow> Calls a)"
    note W = worker_step [OF remove(4) ok, folded w'_def]
    define t where "t = (if w = Rem_take then note_taken a (srv_taken s) else srv_taken s)"
    show ?thesis
    proof (rule srv_inv_worker [OF inv remove(2) W(1) v])
      show "s' = s\<lparr>srv_sbuf := sp', srv_workers := (srv_workers s)[i := w'], srv_taken := t, srv_closed := srv_closed s\<rparr>"
        unfolding remove(1) w'_def t_def by simp
      show "mset t + mset (in_hand (srv_workers s ! i)) + mset (srv_closed s) = mset (srv_taken s) + mset (in_hand w') + mset (srv_closed s)"
        unfolding t_def remove(3) using W(2-4) by (cases "w = Rem_take") simp_all
    qed
  next
    case (serve i x env c events r)
    show ?thesis
      by (rule srv_inv_worker [OF inv serve(2) _ v, where w = "Closing x" and b = "srv_sbuf s" and t = "srv_taken s" and c = "srv_closed s"])
        (use serve in \<open>simp_all add: worker_at_def in_hand_def\<close>)
  next
    case (close i x rc)
    show ?thesis
      by (rule srv_inv_worker [OF inv close(2) _ v, where w = "Calls Rem_P_items" and b = "srv_sbuf s" and t = "srv_taken s" and c = "srv_closed s @ [x]"])
        (use close in \<open>simp_all add: worker_at_def in_hand_def\<close>)
  qed
qed

lemma srv_reach_inv: "srv_reach s \<Longrightarrow> srv_inv s"
  by (induction rule: srv_reach.induct) (auto intro: srv_start_inv srv_step_inv)

section \<open>Properties\<close>

text \<open>What is in the buffer, in the order in which it will be taken.\<close>

definition queued :: "sbuf_t \<Rightarrow> int list" where
  "queued b = map (\<lambda>i. buf b ! ((i + 1) mod n_buf b)) [front b..<rear b]"

text \<open>
  C34. In every interleaving of the main thread and the workers of the proxy, and whatever \<^verbatim>\<open>doit\<close> does,
  every accepted connection is handed to exactly one worker, in the order of the acceptance, and is closed
  once: the accepted descriptors are those that workers took, then those in the buffer, then
  the one that the main thread is inserting; and those that were taken are the closed ones and the ones
  that workers have in hand.  So at most 21 connections are open at a time: 16 in the buffer, one with each of
  the four workers and one with the main thread.
\<close>

theorem proxy_serves_in_order:
  assumes "srv_reach s"
  shows "srv_accepted s = srv_taken s @ queued (srv_sbuf s) @ to_insert (srv_main s) \<and>
    mset (srv_taken s) = mset (srv_closed s) + mset (concat (map in_hand (srv_workers s))) \<and>
    length (srv_accepted s) \<le> length (srv_closed s) + (SBUFSIZE + NTHREADS + 1)"
proof -
  have I: "srv_inv s" by (rule srv_reach_inv [OF assms])
  then have r: "sys_reach SBUFSIZE (NTHREADS + 1) (buffer_view s)" by (simp add: srv_inv_def)
  have "n_buf (srv_sbuf s) = SBUFSIZE" using reach_inv [OF r] by (simp add: buffer_view_def)
  then have put: "srv_put s = srv_taken s @ queued (srv_sbuf s)" "length (srv_put s) \<le> length (srv_taken s) + SBUFSIZE"
    using reach_fifo [OF r, THEN conjunct1] reach_fifo [OF r, THEN conjunct2, THEN conjunct1]
    by (simp_all add: buffer_view_def queued_def)
  have m: "mset (srv_taken s) = mset (srv_closed s) + mset (concat (map in_hand (srv_workers s)))"
    and a: "srv_accepted s = srv_put s @ to_insert (srv_main s)" and l: "length (srv_workers s) = NTHREADS"
    using I by (simp_all add: srv_inv_def)
  have one: "length (in_hand w) \<le> 1" for w by (simp add: in_hand_def split: worker.splits at.splits)
  have "length (concat (map in_hand ws)) \<le> length ws" for ws
  proof (induction ws)
    case (Cons w ws)
    then show ?case using one [of w] by simp
  qed simp
  from this [of "srv_workers s"] have "length (concat (map in_hand (srv_workers s))) \<le> NTHREADS" using l by simp
  moreover have "length (srv_taken s) = length (srv_closed s) + length (concat (map in_hand (srv_workers s)))"
    using m by (metis size_mset size_union)
  moreover have "length (to_insert (srv_main s)) \<le> 1" by (simp add: to_insert_def split: at.splits)
  ultimately show ?thesis using put m a by simp
qed

lemma started:
  "srv_reach \<lparr>srv_sbuf = sbuf_init SBUFSIZE, srv_main = Out, srv_workers = replicate 4 Starting,
     srv_accepted = [], srv_put = [], srv_taken = [], srv_closed = []\<rparr>"
  by (rule srv_reach.start [of 2 "Inr 3" "\<lambda>_. 0"])
    (simp add: server_start_def NTHREADS_def Pthread_create_def upt_rec numeral_eq_Suc)

theorem proxy_serves_in_order_witness:
  "\<exists>s. srv_reach s \<and> srv_accepted s = [7] \<and> srv_main s = Ins_P_slots 7 \<and> length (srv_accepted s) \<le> 21"
proof -
  have "srv_reach \<lparr>srv_sbuf = sbuf_init SBUFSIZE, srv_main = Ins_P_slots 7, srv_workers = replicate 4 Starting,
     srv_accepted = [7], srv_put = [], srv_taken = [], srv_closed = []\<rparr>" (is "srv_reach ?s")
    using srv_reach.run [OF started srv_step.accept [of _ 7 7 0]] by (simp add: Accept_def Getnameinfo_def)
  note r = this
  have "length (srv_accepted ?s) \<le> length (srv_closed ?s) + (SBUFSIZE + NTHREADS + 1)"
    using proxy_serves_in_order [OF r] by blast
  then show ?thesis using r by (intro exI [of _ ?s]) (simp add: SBUFSIZE_def NTHREADS_def)
qed

text \<open>
  The proxy is at rest: the main thread waits for a client or for a slot, and no worker starts, serves,
  closes, or can go on in \<^verbatim>\<open>sbuf_remove\<close>.
\<close>

definition at_rest :: "server \<Rightarrow> bool" where
  "at_rest s \<longleftrightarrow> (srv_main s = Out \<or> exec (srv_sbuf s) (srv_main s) = None) \<and>
     (\<forall>w\<in>set (srv_workers s). case w of Calls a \<Rightarrow> exec (srv_sbuf s) a = None | _ \<Rightarrow> False)"

text \<open>
  C35. The proxy leaves no connection behind: when it is at rest, the main thread waits for
  a client, all workers wait for a connection, and every connection that was ever accepted has been closed.
\<close>

theorem proxy_rests_when_served:
  assumes "srv_reach s" and "at_rest s"
  shows "srv_main s = Out \<and> (\<forall>w\<in>set (srv_workers s). w = Calls Rem_P_items) \<and> mset (srv_closed s) = mset (srv_accepted s)"
proof -
  have I: "srv_inv s" by (rule srv_reach_inv [OF assms(1)])
  then have r: "sys_reach SBUFSIZE (NTHREADS + 1) (buffer_view s)" and l: "length (srv_workers s) = 4"
    and ws: "\<forall>w\<in>set (srv_workers s). worker_at w" and m: "main_at (srv_main s)"
    by (simp_all add: srv_inv_def NTHREADS_def)
  have "\<forall>a\<in>set (ths (buffer_view s)). exec (sp (buffer_view s)) a = None"
  proof
    fix a assume "a \<in> set (ths (buffer_view s))"
    then consider "a = srv_main s" | w where "w \<in> set (srv_workers s)" "a = seen w" by (auto simp: buffer_view_def)
    then show "exec (sp (buffer_view s)) a = None"
    proof cases
      case 1
      then show ?thesis using assms(2) by (auto simp: at_rest_def buffer_view_def)
    next
      case (2 w)
      then have "case w of Calls a \<Rightarrow> exec (srv_sbuf s) a = None | _ \<Rightarrow> False"
        using assms(2) unfolding at_rest_def by blast
      then show ?thesis using 2(2) by (cases w) (simp_all add: buffer_view_def seen_def)
    qed
  qed
  then have "\<forall>i<length (ths (buffer_view s)). exec (sp (buffer_view s)) (ths (buffer_view s) ! i) = None"
    using nth_mem by blast
  note waits = sbuf_waits [OF r _ this, THEN conjunct1]
  have stuck: "a = Out \<or> (\<exists>x. a = Ins_P_slots x) \<and> rear (srv_sbuf s) = front (srv_sbuf s) + SBUFSIZE \<or>
      a = Rem_P_items \<and> rear (srv_sbuf s) = front (srv_sbuf s)" if a: "a \<in> set (ths (buffer_view s))" for a
  proof -
    obtain i where i: "i < length (ths (buffer_view s))" "a = ths (buffer_view s) ! i" using a by (auto simp: in_set_conv_nth)
    have sp: "sp (buffer_view s) = srv_sbuf s" by (simp add: buffer_view_def)
    have "0 < SBUFSIZE" by (simp add: SBUFSIZE_def)
    from waits [OF this, rule_format, OF i(1)] show ?thesis unfolding i(2) sp .
  qed
  have each: "w = Calls Rem_P_items \<and> rear (srv_sbuf s) = front (srv_sbuf s)" if w: "w \<in> set (srv_workers s)" for w
  proof -
    have "case w of Calls a \<Rightarrow> exec (srv_sbuf s) a = None | _ \<Rightarrow> False" using assms(2) w unfolding at_rest_def by blast
    then obtain a where a: "w = Calls a" by (cases w) simp_all
    then have "a \<in> set (ths (buffer_view s))" using w by (force simp: buffer_view_def seen_def)
    moreover have "worker_at (Calls a)" using ws w a by blast
    ultimately show ?thesis using stuck [of a] a by (cases a rule: at.exhaust) (simp_all add: worker_at_def)
  qed
  then have e: "rear (srv_sbuf s) = front (srv_sbuf s)" using l by (metis length_0_conv list.set_intros(1) neq_Nil_conv zero_neq_numeral)
  have main: "srv_main s = Out" using stuck [of "srv_main s"] m e by (auto simp: buffer_view_def main_at_def SBUFSIZE_def)
  have "concat (map in_hand (srv_workers s)) = []" using each by (force simp: in_hand_def)
  then have "mset (srv_taken s) = mset (srv_closed s)" using I by (simp add: srv_inv_def)
  moreover have "srv_accepted s = srv_taken s"
    using I reach_fifo [OF r] main e by (simp add: srv_inv_def to_insert_def buffer_view_def)
  ultimately show ?thesis using main each by auto
qed

theorem proxy_rests_when_served_witness:
  "\<exists>s. srv_reach s \<and> at_rest s \<and> srv_workers s = replicate 4 (Calls Rem_P_items) \<and> mset (srv_closed s) = mset (srv_accepted s)"
proof -
  define s where "s ws = \<lparr>srv_sbuf = sbuf_init SBUFSIZE, srv_main = Out, srv_workers = ws,
     srv_accepted = [], srv_put = [], srv_taken = [], srv_closed = []\<rparr>" for ws
  have next_s: "srv_reach (s (ws[i := Calls Rem_P_items]))" if "srv_reach (s ws)" "i < length ws" "ws ! i = Starting" for ws i
    using srv_reach.run [OF that(1) detach [of i _ 0]] that by (simp add: s_def Pthread_detach_def)
  have "srv_reach (s (replicate 4 Starting))" unfolding s_def by (rule started)
  from next_s [OF next_s [OF next_s [OF next_s [OF this, of 0], of 1], of 2], of 3]
  have r: "srv_reach (s (replicate 4 (Calls Rem_P_items)))" by (simp add: numeral_eq_Suc)
  moreover have a: "at_rest (s (replicate 4 (Calls Rem_P_items)))"
    by (simp add: at_rest_def s_def sbuf_init_def)
  ultimately have "mset (srv_closed (s (replicate 4 (Calls Rem_P_items)))) = mset (srv_accepted (s (replicate 4 (Calls Rem_P_items))))"
    using proxy_rests_when_served by blast
  then show ?thesis using r a by (intro exI [of _ "s (replicate 4 (Calls Rem_P_items))"]) (simp add: s_def)
qed

end
