(* ===== verification/ProxyLock.thy ===== *)
theory ProxyLock
  imports Prelude
begin

text \<open>
  The locks of the cache of the proxy (\<^verbatim>\<open>sp_06_proxylab/proxylab-handout/proxy.c\<close>): the readers and
  writers protocol of \<^verbatim>\<open>check_cache\<close> and \<^verbatim>\<open>cache_URL\<close> with \<^verbatim>\<open>r_mutex\<close>, \<^verbatim>\<open>w_mutex\<close> and \<^verbatim>\<open>u_mutex\<close>.

  A thread is the statement it is about to execute; a step executes one statement of one thread, in
  any order of the threads.  Whether \<^verbatim>\<open>find\<close> has a hit is not determined here.
\<close>

datatype stmt = Idle
  | C_P_r | C_inc | C_P_w | C_V_r | C_find | C_P_u | C_send | C_touch | C_V_u | C_V_u_again
  | C_P_r_end | C_dec | C_V_w | C_V_r_end
  | U_P_w | U_body | U_V_w

record locks =
  read_cnt :: nat
  r_mutex :: nat
  w_mutex :: nat
  u_mutex :: nat

definition locks_init :: locks where
  "locks_init = \<lparr>read_cnt = 0, r_mutex = 1, w_mutex = 1, u_mutex = 1\<rparr>"

text \<open>One statement; \<open>hit\<close> is the result of \<^verbatim>\<open>find\<close>, \<open>None\<close> means that the thread has to wait.\<close>

fun lock_exec :: "bool \<Rightarrow> locks \<Rightarrow> stmt \<Rightarrow> (locks \<times> stmt) option" where
  "lock_exec hit l Idle = None"
| "lock_exec hit l C_P_r = (if r_mutex l = 0 then None else Some (l\<lparr>r_mutex := r_mutex l - 1\<rparr>, C_inc))"
| "lock_exec hit l C_inc =
     Some (l\<lparr>read_cnt := read_cnt l + 1\<rparr>, if read_cnt l + 1 = 1 then C_P_w else C_V_r)"
| "lock_exec hit l C_P_w = (if w_mutex l = 0 then None else Some (l\<lparr>w_mutex := w_mutex l - 1\<rparr>, C_V_r))"
| "lock_exec hit l C_V_r = Some (l\<lparr>r_mutex := r_mutex l + 1\<rparr>, C_find)"
| "lock_exec hit l C_find = Some (l, if hit then C_P_u else C_P_r_end)"
| "lock_exec hit l C_P_u = (if u_mutex l = 0 then None else Some (l\<lparr>u_mutex := u_mutex l - 1\<rparr>, C_send))"
| "lock_exec hit l C_send = Some (l, C_touch)"
| "lock_exec hit l C_touch = Some (l, C_V_u)"
| "lock_exec hit l C_V_u = Some (l\<lparr>u_mutex := u_mutex l + 1\<rparr>, C_V_u_again)"
| "lock_exec hit l C_V_u_again = Some (l\<lparr>u_mutex := u_mutex l + 1\<rparr>, C_P_r_end)"
| "lock_exec hit l C_P_r_end = (if r_mutex l = 0 then None else Some (l\<lparr>r_mutex := r_mutex l - 1\<rparr>, C_dec))"
| "lock_exec hit l C_dec =
     Some (l\<lparr>read_cnt := read_cnt l - 1\<rparr>, if read_cnt l - 1 = 0 then C_V_w else C_V_r_end)"
| "lock_exec hit l C_V_w = Some (l\<lparr>w_mutex := w_mutex l + 1\<rparr>, C_V_r_end)"
| "lock_exec hit l C_V_r_end = Some (l\<lparr>r_mutex := r_mutex l + 1\<rparr>, Idle)"
| "lock_exec hit l U_P_w = (if w_mutex l = 0 then None else Some (l\<lparr>w_mutex := w_mutex l - 1\<rparr>, U_body))"
| "lock_exec hit l U_body = Some (l, U_V_w)"
| "lock_exec hit l U_V_w = Some (l\<lparr>w_mutex := w_mutex l + 1\<rparr>, Idle)"

inductive lock_step :: "locks \<times> stmt list \<Rightarrow> locks \<times> stmt list \<Rightarrow> bool" where
  stmt: "i < length ts \<Longrightarrow> lock_exec hit l (ts ! i) = Some (l', a) \<Longrightarrow> lock_step (l, ts) (l', ts[i := a])"
| call: "i < length ts \<Longrightarrow> ts ! i = Idle \<Longrightarrow> a = C_P_r \<or> a = U_P_w \<Longrightarrow> lock_step (l, ts) (l, ts[i := a])"

inductive lock_reach :: "nat \<Rightarrow> locks \<times> stmt list \<Rightarrow> bool" for n where
  start: "lock_reach n (locks_init, replicate n Idle)"
| run: "lock_reach n c \<Longrightarrow> lock_step c c' \<Longrightarrow> lock_reach n c'"

text \<open>
  The shared variables: the counter of the readers, the links, names, objects and sizes of the items
  with \<^verbatim>\<open>list\<close> and \<^verbatim>\<open>cache_size\<close>, and the access times.  \<^verbatim>\<open>evict\<close> reads the access times within
  \<^verbatim>\<open>cache_URL\<close>; a reader with a hit writes the access time of its item.
\<close>

datatype shared = Read_cnt | Items | Access_times

fun reads :: "stmt \<Rightarrow> shared list" where
  "reads C_inc = [Read_cnt]"
| "reads C_dec = [Read_cnt]"
| "reads C_find = [Items]"
| "reads C_send = [Items]"
| "reads U_body = [Items, Access_times]"
| "reads _ = []"

fun writes :: "stmt \<Rightarrow> shared list" where
  "writes C_inc = [Read_cnt]"
| "writes C_dec = [Read_cnt]"
| "writes C_touch = [Access_times]"
| "writes U_body = [Items, Access_times]"
| "writes _ = []"

text \<open>Two statements that may not be executed at the same time: both use a variable, one writes it.\<close>

definition races :: "stmt \<Rightarrow> stmt \<Rightarrow> shared \<Rightarrow> bool" where
  "races a b x \<longleftrightarrow> x \<in> set (writes a) \<and> x \<in> set (reads b @ writes b) \<or> x \<in> set (writes b) \<and> x \<in> set (reads a)"

section \<open>The invariant\<close>

definition in_r :: "stmt \<Rightarrow> bool" where
  "in_r a \<longleftrightarrow> a \<in> {C_inc, C_P_w, C_V_r, C_dec, C_V_w, C_V_r_end}"

definition counted :: "stmt \<Rightarrow> bool" where
  "counted a \<longleftrightarrow> a \<in> {C_P_w, C_V_r, C_find, C_P_u, C_send, C_touch, C_V_u, C_V_u_again, C_P_r_end, C_dec}"

text \<open>The readers that are in the list of cached items, or hold a pointer into it.\<close>

definition reading :: "stmt \<Rightarrow> bool" where
  "reading a \<longleftrightarrow> a \<in> {C_find, C_P_u, C_send, C_touch, C_V_u, C_V_u_again}"

definition writing :: "stmt \<Rightarrow> bool" where
  "writing a \<longleftrightarrow> a \<in> {U_body, U_V_w}"

lemmas stmt_kinds = in_r_def counted_def writing_def

text \<open>The readers together hold the lock of the writers.\<close>

definition readers_hold :: "locks \<times> stmt list \<Rightarrow> bool" where
  "readers_hold c \<longleftrightarrow> (case c of (l, ts) \<Rightarrow>
     0 < read_cnt l \<and> count (\<lambda>a. a = C_P_w) ts = 0 \<or> 0 < count (\<lambda>a. a = C_V_w) ts)"

definition locks_ok :: "locks \<times> stmt list \<Rightarrow> bool" where
  "locks_ok c \<longleftrightarrow> (case c of (l, ts) \<Rightarrow>
     r_mutex l + count in_r ts = 1 \<and> read_cnt l = count counted ts \<and>
     w_mutex l + count writing ts + (if readers_hold c then 1 else 0) = 1 \<and>
     (0 < count (\<lambda>a. a = C_P_w) ts \<longrightarrow> read_cnt l = 1) \<and>
     (0 < count (\<lambda>a. a = C_V_w) ts \<longrightarrow> read_cnt l = 0))"

lemma count_mono: "(\<And>a. P a \<Longrightarrow> Q a) \<Longrightarrow> count P ts \<le> count Q ts"
  by (induction ts) (auto simp: count_def)

lemma count_disj: "(\<And>a. \<not> (P a \<and> Q a)) \<Longrightarrow> count (\<lambda>a. P a \<or> Q a) ts = count P ts + count Q ts"
  by (induction ts) (auto simp: count_def)

text \<open>Threads inside of the part that \<^verbatim>\<open>r_mutex\<close> protects exclude each other.\<close>

lemma in_r_alone:
  assumes "locks_ok (l, ts)" and "i < length ts" and "in_r (ts ! i)" and "in_r a" and "a \<noteq> ts ! i"
  shows "count (\<lambda>x. x = a) ts = 0"
proof -
  let ?b = "ts ! i"
  have "0 < count (\<lambda>x. x = ?b) ts" using assms(2) by (intro count_pos [of i]) auto
  moreover have "count (\<lambda>x. x = ?b) ts + count (\<lambda>x. x = a) ts = count (\<lambda>x. x = ?b \<or> x = a) ts"
    using assms(5) by (intro count_disj [symmetric]) auto
  moreover have "count (\<lambda>x. x = ?b \<or> x = a) ts \<le> count in_r ts"
    using assms(3,4) by (intro count_mono) auto
  ultimately show ?thesis using assms(1) by (auto simp: locks_ok_def)
qed

lemma lock_step_ok:
  assumes ok: "locks_ok (l, ts)" and i: "i < length ts" and e: "lock_exec hit l (ts ! i) = Some (l', a)"
  shows "locks_ok (l', ts[i := a])"
proof -
  note c = count_update [OF i, of in_r a] count_update [OF i, of counted a] count_update [OF i, of writing a]
    count_update [OF i, of "\<lambda>a. a = C_P_w" a] count_update [OF i, of "\<lambda>a. a = C_V_w" a]
  have pw: "in_r (ts ! i) \<Longrightarrow> ts ! i \<noteq> C_P_w \<Longrightarrow> count (\<lambda>a. a = C_P_w) ts = 0"
    using in_r_alone [OF ok i, of C_P_w] by (auto simp: in_r_def)
  have vw: "in_r (ts ! i) \<Longrightarrow> ts ! i \<noteq> C_V_w \<Longrightarrow> count (\<lambda>a. a = C_V_w) ts = 0"
    using in_r_alone [OF ok i, of C_V_w] by (auto simp: in_r_def)
  have pw_r: "count (\<lambda>a. a = C_P_w) ts \<le> count in_r ts" "count (\<lambda>a. a = C_V_w) ts \<le> count in_r ts"
    by (rule count_mono, simp add: in_r_def)+
  have cnt: "counted (ts ! i) \<Longrightarrow> 0 < count counted ts" using count_pos [OF i] .
  have same: "ts ! i = C_P_w \<Longrightarrow> 0 < count (\<lambda>a. a = C_P_w) ts" "ts ! i = C_V_w \<Longrightarrow> 0 < count (\<lambda>a. a = C_V_w) ts"
    by (rule count_pos [OF i], assumption)+
  note facts = ok e c pw vw pw_r cnt same
  show ?thesis
    by (cases "ts ! i"; insert facts; clarsimp simp: locks_ok_def readers_hold_def stmt_kinds split: if_splits; linarith?)
qed

lemma lock_call_ok:
  assumes ok: "locks_ok (l, ts)" and i: "i < length ts" "ts ! i = Idle" and a: "a = C_P_r \<or> a = U_P_w"
  shows "locks_ok (l, ts[i := a])"
proof -
  have same: "count P (ts[i := a]) = count P ts" if "P Idle = P a" for P :: "stmt \<Rightarrow> bool"
    using count_update [OF i(1), of P a] i(2) that by (simp split: if_splits)
  have "count in_r (ts[i := a]) = count in_r ts" "count counted (ts[i := a]) = count counted ts"
    "count writing (ts[i := a]) = count writing ts"
    "count (\<lambda>a. a = C_P_w) (ts[i := a]) = count (\<lambda>a. a = C_P_w) ts"
    "count (\<lambda>a. a = C_V_w) (ts[i := a]) = count (\<lambda>a. a = C_V_w) ts"
    using a by (auto intro!: same simp: stmt_kinds)
  note same = this
  show ?thesis using ok unfolding locks_ok_def readers_hold_def prod.case same .
qed

lemma lock_reach_ok: "lock_reach n c \<Longrightarrow> locks_ok c"
proof (induction rule: lock_reach.induct)
  case start
  show ?case by (simp add: locks_ok_def readers_hold_def locks_init_def count_def stmt_kinds)
next
  case (run c c')
  show ?case using run(2,3)
  proof cases
    case (stmt i ts hit l l' a)
    then show ?thesis using run lock_step_ok by blast
  next
    case (call i ts a l)
    then show ?thesis using run lock_call_ok by blast
  qed
qed

section \<open>Properties\<close>

lemma count_two:
  assumes "i < length ts" and "j < length ts" and "i \<noteq> j" and "P (ts ! i)" and "P (ts ! j)"
  shows "1 < count P ts"
proof (cases "\<exists>a. \<not> P a")
  case True
  then obtain a where a: "\<not> P a" by blast
  have "count P (ts[i := a]) + 1 = count P ts" using count_update [OF assms(1), of P a] assms(4) a by simp
  moreover have "0 < count P (ts[i := a])" using assms by (intro count_pos [of j]) auto
  ultimately show ?thesis by simp
next
  case False
  then have "count P ts = length ts" by (simp add: count_def)
  then show ?thesis using assms(1-3) by linarith
qed

text \<open>While a thread is in the body of \<^verbatim>\<open>cache_URL\<close>, no other one is in it or reads.\<close>

lemma writer_alone:
  assumes ok: "locks_ok (l, ts)" and i: "i < length ts" "ts ! i = U_body" and j: "j < length ts" "i \<noteq> j"
  shows "ts ! j \<noteq> U_body \<and> \<not> reading (ts ! j)"
proof -
  have w: "count writing ts = 1" "\<not> readers_hold (l, ts)"
    using ok count_pos [OF i(1), of writing] i(2) by (auto simp: locks_ok_def stmt_kinds split: if_splits)
  have "ts ! j \<noteq> U_body"
    using count_two [OF i(1) j, of writing] i(2) w(1) by (auto simp: stmt_kinds)
  moreover have "\<not> reading (ts ! j)"
  proof
    assume r: "reading (ts ! j)"
    then have c: "counted (ts ! j)" by (auto simp: reading_def counted_def)
    then have "0 < read_cnt l" using ok count_pos [OF j(1)] by (auto simp: locks_ok_def)
    then have pw: "0 < count (\<lambda>a. a = C_P_w) ts" using w(2) by (auto simp: readers_hold_def)
    then have "read_cnt l = 1" using ok by (simp add: locks_ok_def)
    then have one: "count counted ts = 1" using ok by (simp add: locks_ok_def)
    have "count (\<lambda>a. a = C_P_w \<or> a = ts ! j) ts = count (\<lambda>a. a = C_P_w) ts + count (\<lambda>a. a = ts ! j) ts"
      using r by (intro count_disj) (auto simp: reading_def)
    moreover have "0 < count (\<lambda>a. a = ts ! j) ts" using j(1) by (rule count_pos) simp
    moreover have "count (\<lambda>a. a = C_P_w \<or> a = ts ! j) ts \<le> count counted ts"
      using c by (intro count_mono) (auto simp: counted_def)
    ultimately show False using pw one by simp
  qed
  ultimately show ?thesis by simp
qed

text \<open>Two threads are never at the counter of the readers.\<close>

lemma counter_alone:
  assumes "locks_ok (l, ts)" and "i < length ts" and "j < length ts" and "i \<noteq> j"
  shows "\<not> (in_r (ts ! i) \<and> in_r (ts ! j))"
  using count_two [OF assms(2-4), of in_r] assms(1) by (auto simp: locks_ok_def)

text \<open>Which pairs of statements race.\<close>

lemma races_cases:
  assumes "races a b x"
  shows "in_r a \<and> in_r b \<or> a = U_body \<and> (b = U_body \<or> reading b) \<or> b = U_body \<and> reading a \<or>
    x = Access_times \<and> a = C_touch \<and> b = C_touch"
  using assms by (cases a; cases b) (auto simp: races_def in_r_def reading_def)

text \<open>
  C19. The readers and writers protocol of the cache: in every interleaving of \<^verbatim>\<open>check_cache\<close> and
  \<^verbatim>\<open>cache_URL\<close>, while a thread is in the body of \<^verbatim>\<open>cache_URL\<close> (the only code that changes the list),
  no other thread is in this body, and none is between \<^verbatim>\<open>find\<close> and the end of its hit.  The only
  statement that two threads can execute at the same time on a variable that it changes is the
  update of an access time after a hit: \<^verbatim>\<open>read_cnt\<close> and the list are free of races, also with the
  reading of the access times in \<^verbatim>\<open>evict\<close>.  (The updates of the access times do race, because
  \<^verbatim>\<open>u_mutex\<close> is released twice: \<^verbatim>\<open>hit_breaks_u_mutex\<close>.)
\<close>

theorem cache_lock_exclusion:
  assumes reach: "lock_reach n (l, ts)" and ij: "i < length ts" "j < length ts" "i \<noteq> j"
  shows "(ts ! i = U_body \<longrightarrow> ts ! j \<noteq> U_body \<and> \<not> reading (ts ! j)) \<and>
    (\<forall>x. races (ts ! i) (ts ! j) x \<longrightarrow> x = Access_times \<and> ts ! i = C_touch \<and> ts ! j = C_touch)"
proof -
  have ok: "locks_ok (l, ts)" by (rule lock_reach_ok [OF reach])
  show ?thesis
    using races_cases [of "ts ! i" "ts ! j"] counter_alone [OF ok ij] writer_alone [OF ok ij(1) _ ij(2,3)]
      writer_alone [OF ok ij(2) _ ij(1) ij(3) [symmetric]] by blast
qed

text \<open>A schedule with hits only: the numbers of the threads that execute the next statement.\<close>

fun lock_run :: "locks \<times> stmt list \<Rightarrow> (nat \<times> stmt) list \<Rightarrow> (locks \<times> stmt list) option" where
  "lock_run c [] = Some c"
| "lock_run (l, ts) ((i, a) # is) =
     (if length ts \<le> i then None
      else if ts ! i = Idle then (if a = C_P_r \<or> a = U_P_w then lock_run (l, ts[i := a]) is else None)
      else case lock_exec True l (ts ! i) of
        None \<Rightarrow> None
      | Some (l', a') \<Rightarrow> lock_run (l', ts[i := a']) is)"

lemma lock_run_reach: "lock_reach n c \<Longrightarrow> lock_run c is = Some c' \<Longrightarrow> lock_reach n c'"
proof (induction c "is" rule: lock_run.induct)
  case (2 l ts i a "is")
  have i: "i < length ts" using 2(4) by (auto split: if_splits)
  show ?case
  proof (cases "ts ! i = Idle")
    case True
    then have "a = C_P_r \<or> a = U_P_w" using 2(4) i by (auto split: if_splits)
    then show ?thesis using 2 True i lock_reach.run lock_step.call by (auto split: if_splits)
  next
    case False
    then obtain l' a' where "lock_exec True l (ts ! i) = Some (l', a')" "lock_run (l', ts[i := a']) is = Some c'"
      using 2(4) i by (auto split: option.splits)
    then show ?thesis using 2 False i lock_reach.run lock_step.stmt by auto
  qed
qed simp

lemma cache_lock_exclusion_witness:
  "\<exists>l. lock_reach 2 (l, [U_body, C_inc]) \<and> \<not> reading C_inc \<and> \<not> races U_body C_inc Read_cnt"
proof -
  have "lock_run (locks_init, replicate 2 Idle) [(0, U_P_w), (0, Idle), (1, C_P_r), (1, Idle)] =
      Some (locks_init\<lparr>w_mutex := 0, r_mutex := 0\<rparr>, [U_body, C_inc])"
    by (simp add: locks_init_def numeral_2_eq_2)
  from lock_run_reach [OF lock_reach.start this]
  have r: "lock_reach 2 (locks_init\<lparr>w_mutex := 0, r_mutex := 0\<rparr>, [U_body, C_inc])" .
  show ?thesis using cache_lock_exclusion [OF r, of 0 1] r by auto
qed

text \<open>
  The second V of \<^verbatim>\<open>u_mutex\<close> after a hit breaks the lock around sending a cached object and
  updating its access time: after a single hit two threads can be inside at the same time, and
  write the access time of one item.
\<close>

theorem hit_breaks_u_mutex:
  "\<exists>l. lock_reach 2 (l, [C_touch, C_touch]) \<and> races C_touch C_touch Access_times"
proof -
  let ?read = "[(0, C_P_r), (0, Idle), (0, Idle), (0, Idle), (0, Idle), (0, Idle), (0, Idle), (0, Idle), (0, Idle),
    (0, Idle), (0, Idle), (0, Idle), (0, Idle), (0, Idle), (0, Idle)]"
  let ?two = "[(0, C_P_r), (0, Idle), (0, Idle), (0, Idle), (0, Idle), (0, Idle), (0, Idle), (0, Idle),
    (1, C_P_r), (1, Idle), (1, Idle), (1, Idle), (1, Idle), (1, Idle), (1, Idle)]"
  have "lock_run (locks_init, replicate 2 Idle) (?read @ ?two) =
      Some (\<lparr>read_cnt = 2, r_mutex = 1, w_mutex = 0, u_mutex = 0\<rparr>, [C_touch, C_touch])"
    by (simp add: locks_init_def numeral_2_eq_2)
  from lock_run_reach [OF lock_reach.start this] show ?thesis by (auto simp: races_def)
qed

end
