(* ===== verification/Tiny.thy ===== *)
theory Tiny
  imports RioWrap Sio
begin

text \<open>
  The web server of the proxy lab (\<^verbatim>\<open>sp_06_proxylab/proxylab-handout/tiny/tiny.c\<close>) and its CGI program
  (\<^verbatim>\<open>tiny/cgi-bin/adder.c\<close>).

  The result of a function is what it has written to the client and, if it ended the program, the
  fault.  The kernel is a parameter: what arrives on the connection, how much every write accepts,
  the files, and the results of the calls that create a process.  The calls of \<^verbatim>\<open>sprintf\<close> whose source is their own target are
  taken to append, as the C library that the program runs with does.
\<close>

section \<open>Files and processes\<close>

record tiny_file =
  is_regular :: bool
  usr_read :: bool
  usr_exec :: bool
  can_open :: bool
  contents :: string

text \<open>
  \<open>cgi name args\<close> is what a program writes to its standard output, \<open>None\<close> if it cannot be executed.
\<close>

record kernel =
  files :: "string \<Rightarrow> tiny_file option"
  cgi :: "string \<Rightarrow> string \<Rightarrow> string option"
  fork_ok :: bool
  wait_ok :: bool

definition MAXBUF :: nat where "MAXBUF = 8192"

text \<open>A sequence of calls of \<^verbatim>\<open>Rio_writen\<close>, the first that fails ending the program.\<close>

fun send_all :: "wevent list \<Rightarrow> string list \<Rightarrow> string \<times> (wevent list, fault) sum" where
  "send_all ws [] = ([], Inl ws)"
| "send_all ws (d # ds) =
     (case rio_writen ws d of (ws, out, r) \<Rightarrow>
        if r \<noteq> int (length d) then (out, Inr (Exit0 ''Rio_writen error''))
        else case send_all ws ds of (out', e) \<Rightarrow> (out @ out', e))"

type_synonym reply = "string \<times> (wevent list, fault) sum"

section \<open>Errors\<close>

definition tiny_body :: "string \<Rightarrow> string \<Rightarrow> string \<Rightarrow> string \<Rightarrow> string" where
  "tiny_body cause errnum shortmsg longmsg =
     ''<html><title>Tiny Error</title>'' @ ''<body bgcolor=ffffff>'' @ CRLF @
     errnum @ '': '' @ shortmsg @ CRLF @ ''<p>'' @ longmsg @ '': '' @ cause @ CRLF @
     ''<hr><em>The Tiny Web server</em>'' @ CRLF"

definition clienterror :: "wevent list \<Rightarrow> string \<Rightarrow> string \<Rightarrow> string \<Rightarrow> string \<Rightarrow> reply" where
  "clienterror ws cause errnum shortmsg longmsg =
     (let body = tiny_body cause errnum shortmsg longmsg in
      if length body < MAXBUF then
        send_all ws [''HTTP/1.0 '' @ errnum @ '' '' @ shortmsg @ CRLF,
          ''Content-type: text/html'' @ CRLF,
          ''Content-length: '' @ fmt_d (length body) @ CRLF @ CRLF,
          body]
      else ([], Inr Overflow))"

section \<open>Reading the request\<close>

text \<open>The loop of \<^verbatim>\<open>read_requesthdrs\<close>, which may run forever.\<close>

partial_function (option) requesthdrs_loop :: "rio_t \<Rightarrow> string \<Rightarrow> (fault + rio_t) option" where
  "requesthdrs_loop rp buf =
     (if buf = CRLF then Some (Inr rp)
      else case Rio_readlineb rp proxy_MAXLINE of
        Inl f \<Rightarrow> Some (Inl f)
      | Inr (rp, d, n) \<Rightarrow> requesthdrs_loop rp (line_buf buf d n))"

definition read_requesthdrs :: "rio_t \<Rightarrow> string \<Rightarrow> (fault + rio_t) option" where
  "read_requesthdrs rp junk =
     (case Rio_readlineb rp proxy_MAXLINE of
        Inl f \<Rightarrow> Some (Inl f)
      | Inr (rp, d, n) \<Rightarrow> requesthdrs_loop rp (line_buf junk d n))"

text \<open>
  \<^verbatim>\<open>parse_uri\<close>: whether the content is static, the name of the file and the arguments of the program.
  The array of the file name has \<^verbatim>\<open>MAXLINE\<close> characters.
\<close>

definition tiny_parse_uri :: "string \<Rightarrow> fault + bool \<times> string \<times> string" where
  "tiny_parse_uri uri =
     (if strstr uri ''cgi-bin'' = None then
        (let filename = ''.'' @ uri @ (if uri \<noteq> [] \<and> last uri = CHR ''/'' then ''home.html'' else [])
         in if length filename < proxy_MAXLINE then Inr (True, filename, []) else Inl Overflow)
      else
        (let (uri, cgiargs) = (if CHR ''?'' \<in> set uri
             then (takeWhile (\<lambda>c. c \<noteq> CHR ''?'') uri, tl (dropWhile (\<lambda>c. c \<noteq> CHR ''?'') uri)) else (uri, []));
             filename = ''.'' @ uri
         in if length filename < proxy_MAXLINE then Inr (False, filename, cgiargs) else Inl Overflow))"

section \<open>Serving\<close>

definition get_filetype :: "string \<Rightarrow> string" where
  "get_filetype filename =
     (if strstr filename ''.html'' \<noteq> None then ''text/html''
      else if strstr filename ''.gif'' \<noteq> None then ''image/gif''
      else if strstr filename ''.png'' \<noteq> None then ''image/png''
      else if strstr filename ''.jpg'' \<noteq> None then ''image/jpeg''
      else ''text/plain'')"

text \<open>A size that is passed as an \<^verbatim>\<open>int\<close> keeps its lower 32 bits.\<close>

definition int_arg :: "nat \<Rightarrow> int" where
  "int_arg n = (int n + 2 ^ 31) mod 2 ^ 32 - 2 ^ 31"

definition static_header :: "int \<Rightarrow> string \<Rightarrow> string" where
  "static_header filesize filetype =
     ''HTTP/1.0 200 OK'' @ CRLF @ ''Server: Tiny Web Server'' @ CRLF @ ''Connection: close'' @ CRLF @
     ''Content-length: '' @ fmt_int filesize @ CRLF @ ''Content-type: '' @ filetype @ CRLF @ CRLF"

text \<open>
  The size of the file comes from \<^verbatim>\<open>stat\<close> and is passed as an \<^verbatim>\<open>int\<close>.  \<^verbatim>\<open>mmap\<close> fails on a length of zero, and
  on a negative one, which it takes for a number near \<open>2 ^ 64\<close>.
\<close>

definition serve_static :: "wevent list \<Rightarrow> string \<Rightarrow> tiny_file \<Rightarrow> reply" where
  "serve_static ws filename f =
     (let filesize = int_arg (length (contents f)) in
      case send_all ws [static_header filesize (get_filetype filename)] of
        (out, Inr e) \<Rightarrow> (out, Inr e)
      | (out, Inl ws) \<Rightarrow>
          if \<not> can_open f then (out, Inr (Exit0 ''Open error''))
          else if filesize \<le> 0 then (out, Inr (Exit0 ''mmap error''))
          else (case send_all ws [take (nat filesize) (contents f)] of (out', e) \<Rightarrow> (out @ out', e)))"

text \<open>If the program cannot be executed, the child ends and the server waits for it as usual.\<close>

definition serve_dynamic :: "kernel \<Rightarrow> wevent list \<Rightarrow> string \<Rightarrow> string \<Rightarrow> reply" where
  "serve_dynamic k ws filename cgiargs =
     (case send_all ws [''HTTP/1.0 200 OK'' @ CRLF, ''Server: Tiny Web Server'' @ CRLF] of
        (out, Inr e) \<Rightarrow> (out, Inr e)
      | (out, Inl ws) \<Rightarrow>
          if \<not> fork_ok k then (out, Inr (Exit0 ''Fork error''))
          else
            let out = out @ (case cgi k filename cgiargs of None \<Rightarrow> [] | Some o' \<Rightarrow> o') in
            if \<not> wait_ok k then (out, Inr (Exit0 ''Wait error'')) else (out, Inl ws))"

section \<open>A transaction\<close>

text \<open>\<open>junk\<close> is the content of the arrays that are not initialised; \<open>None\<close>: the server never comes back.\<close>

definition tiny_doit :: "kernel \<Rightarrow> wevent list \<Rightarrow> string \<Rightarrow> event list \<Rightarrow> reply option" where
  "tiny_doit k ws junk fd =
     (case Rio_readlineb (rio_readinitb fd) proxy_MAXLINE of
        Inl f \<Rightarrow> Some ([], Inr f)
      | Inr (rio, d, n) \<Rightarrow>
          if n = 0 then Some ([], Inl ws)
          else case scan_word (cstr d) of
            None \<Rightarrow> Some ([], Inr Uninit)
          | Some (meth, r) \<Rightarrow>
              if \<not> strcasecmp_eq meth ''GET'' then
                Some (clienterror ws meth ''501'' ''Not Implemented'' ''Tiny does not implement this method'')
              else case read_requesthdrs rio junk of
                None \<Rightarrow> None
              | Some (Inl f) \<Rightarrow> Some ([], Inr f)
              | Some (Inr rio) \<Rightarrow>
                  case scan_word r of
                    None \<Rightarrow> Some ([], Inr Uninit)
                  | Some (uri, _) \<Rightarrow>
                      case tiny_parse_uri uri of
                        Inl f \<Rightarrow> Some ([], Inr f)
                      | Inr (is_static, filename, cgiargs) \<Rightarrow>
                          case files k filename of
                            None \<Rightarrow> Some (clienterror ws filename ''404'' ''Not found'' ''Tiny couldn't find this file'')
                          | Some f \<Rightarrow>
                              if is_static then
                                (if \<not> is_regular f \<or> \<not> usr_read f
                                 then Some (clienterror ws filename ''403'' ''Forbidden'' ''Tiny couldn't read the file'')
                                 else Some (serve_static ws filename f))
                              else
                                (if \<not> is_regular f \<or> \<not> usr_exec f
                                 then Some (clienterror ws filename ''403'' ''Forbidden'' ''Tiny couldn't run the CGI program'')
                                 else Some (serve_dynamic k ws filename cgiargs)))"

text \<open>
  The loop of \<^verbatim>\<open>main\<close> over the connections that arrive: the replies, and how the server ended.
  A transaction that does not come back ends the list of the replies.
\<close>

datatype server_end = Waiting | Ended fault | Hangs

fun tiny_main :: "kernel \<Rightarrow> string \<Rightarrow> (event list \<times> wevent list) list \<Rightarrow> string list \<times> server_end" where
  "tiny_main k junk [] = ([], Waiting)"
| "tiny_main k junk ((fd, ws) # conns) =
     (case tiny_doit k ws junk fd of
        None \<Rightarrow> ([], Hangs)
      | Some (out, Inr f) \<Rightarrow> ([out], Ended f)
      | Some (out, Inl _) \<Rightarrow> (case tiny_main k junk conns of (outs, e) \<Rightarrow> (out # outs, e)))"

section \<open>The adder\<close>

text \<open>The sum of two \<^verbatim>\<open>int\<close>s, which wraps around.\<close>

definition add_int :: "int \<Rightarrow> int \<Rightarrow> int" where
  "add_int a b = (a + b + 2 ^ 31) mod 2 ^ 32 - 2 ^ 31"

definition adder_content :: "int \<Rightarrow> int \<Rightarrow> string" where
  "adder_content n1 n2 =
     ''Welcome to add.com: '' @ ''THE Internet addition portal.'' @ CRLF @ ''<p>'' @
     ''The answer is: '' @ fmt_int n1 @ '' + '' @ fmt_int n2 @ '' = '' @ fmt_int (add_int n1 n2) @ CRLF @ ''<p>'' @
     ''Thanks for visiting!'' @ CRLF"

text \<open>The argument is the variable \<^verbatim>\<open>QUERY_STRING\<close>, if it is set.\<close>

definition adder_main :: "string option \<Rightarrow> fault + string" where
  "adder_main query =
     (let args = (case query of
          None \<Rightarrow> Inr (0, 0)
        | Some buf \<Rightarrow>
            if CHR ''&'' \<notin> set buf then Inl Null_deref
            else let a1 = takeWhile (\<lambda>c. c \<noteq> CHR ''&'') buf; a2 = tl (dropWhile (\<lambda>c. c \<noteq> CHR ''&'') buf) in
              if length a1 < proxy_MAXLINE \<and> length a2 < proxy_MAXLINE then Inr (atoi a1, atoi a2) else Inl Overflow)
      in case args of
          Inl f \<Rightarrow> Inl f
        | Inr (n1, n2) \<Rightarrow>
            let content = adder_content n1 n2 in
            Inr (''Connection: close'' @ CRLF @ ''Content-length: '' @ fmt_d (length content) @ CRLF @
              ''Content-type: text/html'' @ CRLF @ CRLF @ content))"

end
