(* ===== verification/TinyCorrect.thy ===== *)
theory TinyCorrect
  imports Tiny
begin

text \<open>
  What the web server answers: a static file byte for byte, the output of a program, or an error page, each with the length
  that it announces; and the request that it never comes back from.
\<close>

section \<open>Numbers and writes\<close>

lemma fmt_d_not_amp: "CHR ''&'' \<notin> set (fmt_d n)"
  using fmt_d_digits(1) [of n] by (auto simp: list_all_iff is_digit_def)

lemma send_out: "send_all ws ds = (out, Inl ws') \<Longrightarrow> out = concat ds"
proof (induction ws ds arbitrary: out rule: send_all.induct)
  case (2 ws d ds)
  obtain ws1 o1 r where w: "rio_writen ws d = (ws1, o1, r)" by (metis prod_cases3)
  show ?case using 2 w writen_spec [OF w] by (auto split: if_splits prod.splits)
qed simp

lemma rio_writen_rest: "rio_writen ws d = (ws', out, r) \<Longrightarrow> W_fail \<notin> set ws \<Longrightarrow> W_fail \<notin> set ws'"
  by (induction ws d arbitrary: out r rule: rio_writen.induct) (auto split: prod.splits)

lemma send_ok: "W_fail \<notin> set ws \<Longrightarrow> \<exists>ws'. send_all ws ds = (concat ds, Inl ws') \<and> W_fail \<notin> set ws'"
proof (induction ds arbitrary: ws)
  case (Cons d ds)
  obtain ws1 o1 r where w: "rio_writen ws d = (ws1, o1, r)" by (metis prod_cases3)
  have "r = int (length d)" "o1 = d" using writen_spec [OF w] Cons.prems by auto
  moreover obtain ws2 where "send_all ws1 ds = (concat ds, Inl ws2)" "W_fail \<notin> set ws2"
    using Cons.IH [OF rio_writen_rest [OF w Cons.prems]] by blast
  ultimately show ?case using w by simp
qed simp

lemma int_arg_small [simp]: "n < 2 ^ 31 \<Longrightarrow> int_arg n = int n"
  by (simp add: int_arg_def)

lemma int_arg_bound: "int_arg n < 2 ^ 31" "int_arg n \<le> int n"
proof -
  have "(int n + 2 ^ 31) mod 2 ^ 32 < 2 ^ 32" by simp
  then show "int_arg n < 2 ^ 31" by (simp add: int_arg_def)
  have "(int n + 2 ^ 31) mod 2 ^ 32 \<le> int n + 2 ^ 31" by (rule zmod_le_nonneg_dividend) simp
  then show "int_arg n \<le> int n" by (simp add: int_arg_def)
qed

section \<open>Reading a request\<close>

definition text_line :: "string \<Rightarrow> bool" where
  "text_line l \<longleftrightarrow> l \<noteq> CRLF \<and> (\<exists>w. l = w @ ''\<newline>'' \<and> CHR ''\<newline>'' \<notin> set w) \<and> NUL \<notin> set l \<and> length l < proxy_MAXLINE"

lemma read_line:
  assumes "pending rp = l @ rest" and "l = w @ ''\<newline>''" "CHR ''\<newline>'' \<notin> set w" "length l < proxy_MAXLINE"
  shows "\<exists>rp'. Rio_readlineb rp proxy_MAXLINE = Inr (rp', l, length l) \<and> pending rp' = rest \<and>
    fails (rio_fd rp') = fails (rio_fd rp)"
proof -
  have p: "pending rp = w @ CHR ''\<newline>'' # rest" and n: "length w + 1 < proxy_MAXLINE" using assms by simp_all
  obtain rp' where "Rio_readlineb rp proxy_MAXLINE = Inr (rp', l, length l)" "pending rp' = rest"
    using Rio_readlineb_line [OF p assms(3) n] assms(2) by auto
  then show ?thesis using Rio_readlineb_Inr(5) by blast
qed

lemma requesthdrs_loop_read: "buf \<noteq> CRLF \<Longrightarrow> requesthdrs_loop rp buf = read_requesthdrs rp buf"
  by (subst requesthdrs_loop.simps) (simp add: read_requesthdrs_def)

lemma read_requesthdrs_lines:
  "\<forall>l\<in>set ls. text_line l \<Longrightarrow> pending rp = concat ls @ CRLF @ rest \<Longrightarrow>
     \<exists>rp'. read_requesthdrs rp junk = Some (Inr rp') \<and> pending rp' = rest"
proof (induction ls arbitrary: rp junk)
  case Nil
  obtain rp' where r: "Rio_readlineb rp proxy_MAXLINE = Inr (rp', CRLF, length CRLF)" "pending rp' = rest"
  proof -
    have "pending rp = CRLF @ rest" "CRLF = [CHR 0x0D] @ ''\<newline>''" "CHR ''\<newline>'' \<notin> set [CHR 0x0D]" "length CRLF < proxy_MAXLINE"
      using Nil by (simp_all add: proxy_MAXLINE_def)
    from read_line [OF this] show thesis using that by blast
  qed
  have "line_buf junk CRLF (length CRLF) = CRLF" by (simp add: line_buf_def cstr_def)
  then have "read_requesthdrs rp junk = requesthdrs_loop rp' CRLF" using r(1) by (simp only: read_requesthdrs_def sum.case prod.case)
  then show ?case using r(2) by (subst (asm) requesthdrs_loop.simps) simp
next
  case (Cons l ls)
  have l: "text_line l" using Cons.prems by simp
  then obtain w where w: "l = w @ ''\<newline>''" "CHR ''\<newline>'' \<notin> set w" "length l < proxy_MAXLINE" "NUL \<notin> set l" "l \<noteq> CRLF"
    by (auto simp: text_line_def)
  have p: "pending rp = l @ (concat ls @ CRLF @ rest)" using Cons.prems by simp
  obtain rp' where r: "Rio_readlineb rp proxy_MAXLINE = Inr (rp', l, length l)" "pending rp' = concat ls @ CRLF @ rest"
    using read_line [OF p w(1-3)] by blast
  have "line_buf junk l (length l) = l" using w by (simp add: line_buf_def)
  then have "read_requesthdrs rp junk = read_requesthdrs rp' l"
    using r(1) requesthdrs_loop_read [OF w(5), of rp'] by (simp only: read_requesthdrs_def [of rp] sum.case prod.case)
  then show ?case using Cons.IH [OF _ r(2)] Cons.prems(1) by simp
qed

text \<open>Without the empty line the loop does not end.\<close>

definition no_end :: "rio_t \<Rightarrow> string \<Rightarrow> bool" where
  "no_end rp buf \<longleftrightarrow> buf \<noteq> CRLF \<and> \<not> fails (rio_fd rp) \<and> (\<exists>ls. (\<forall>l\<in>set ls. text_line l) \<and> pending rp = concat ls)"

lemma no_end_read:
  assumes "no_end rp buf"
  shows "\<exists>rp' d n. Rio_readlineb rp proxy_MAXLINE = Inr (rp', d, n) \<and> no_end rp' (line_buf buf d n)"
proof -
  obtain ls where ls: "\<forall>l\<in>set ls. text_line l" "pending rp = concat ls" using assms by (auto simp: no_end_def)
  have f: "\<not> fails (rio_fd rp)" "buf \<noteq> CRLF" using assms by (auto simp: no_end_def)
  show ?thesis
  proof (cases ls)
    case Nil
    then obtain rp' where "Rio_readlineb rp proxy_MAXLINE = Inr (rp', [], 0)" "pending rp' = []" "\<not> fails (rio_fd rp')"
      using Rio_readlineb_eof [of rp] ls f by auto
    then show ?thesis using f by (auto simp: no_end_def line_buf_def intro!: exI [of _ "[]"])
  next
    case (Cons l ms)
    obtain w where w: "l = w @ ''\<newline>''" "CHR ''\<newline>'' \<notin> set w" "length l < proxy_MAXLINE" "NUL \<notin> set l" "l \<noteq> CRLF"
      using ls(1) Cons by (auto simp: text_line_def)
    have p: "pending rp = l @ concat ms" using ls(2) Cons by simp
    obtain rp' where "Rio_readlineb rp proxy_MAXLINE = Inr (rp', l, length l)" "pending rp' = concat ms" "\<not> fails (rio_fd rp')"
      using read_line [OF p w(1-3)] f by auto
    moreover have "line_buf buf l (length l) = l" using w by (simp add: line_buf_def)
    ultimately show ?thesis using w ls(1) Cons by (auto simp: no_end_def intro!: exI [of _ ms])
  qed
qed

lemma requesthdrs_loop_no_end: "no_end rp buf \<Longrightarrow> requesthdrs_loop rp buf = None"
proof (rule ccontr)
  assume h: "no_end rp buf" and "requesthdrs_loop rp buf \<noteq> None"
  then obtain y where y: "requesthdrs_loop rp buf = Some y" by blast
  have "\<not> no_end rp buf"
  proof (rule requesthdrs_loop.raw_induct [where P = "\<lambda>rp buf y. \<not> no_end rp buf", OF _ y], goal_cases)
    case (1 hl rp buf y)
    show ?case
    proof
      assume e: "no_end rp buf"
      from no_end_read [OF e] obtain rp' d n where
        r: "Rio_readlineb rp proxy_MAXLINE = Inr (rp', d, n)" "no_end rp' (line_buf buf d n)" by blast
      have "hl rp' (line_buf buf d n) = Some y" using 1(2) e r(1) by (simp add: no_end_def)
      from 1(1) [OF this] show False using r(2) by simp
    qed
  qed
  then show False using h by blast
qed

lemma read_requesthdrs_no_end: "no_end rp junk \<Longrightarrow> read_requesthdrs rp junk = None"
  using no_end_read [of rp junk] requesthdrs_loop_no_end by (auto simp: read_requesthdrs_def)

section \<open>A request\<close>

definition get_line :: "string \<Rightarrow> string" where
  "get_line uri = ''GET '' @ uri @ '' HTTP/1.0'' @ CRLF"

definition uri_ok :: "string \<Rightarrow> bool" where
  "uri_ok uri \<longleftrightarrow> uri \<noteq> [] \<and> list_all (\<lambda>c. \<not> is_space c \<and> c \<noteq> NUL) uri \<and> length uri < 8000"

lemma takeWhile_sep: "list_all P w \<Longrightarrow> \<not> P c \<Longrightarrow> takeWhile P (w @ c # s) = w \<and> dropWhile P (w @ c # s) = c # s"
  by (induction w) auto

lemma scan_word_sep:
  assumes "w \<noteq> []" and "list_all (\<lambda>c. \<not> is_space c) w" and "is_space c"
  shows "scan_word (w @ c # s) = Some (w, c # s)" "is_space b \<Longrightarrow> scan_word (b # w @ c # s) = Some (w, c # s)"
proof -
  have "dropWhile is_space (w @ c # s) = w @ c # s" using assms(1,2) by (cases w) auto
  then show "scan_word (w @ c # s) = Some (w, c # s)" "is_space b \<Longrightarrow> scan_word (b # w @ c # s) = Some (w, c # s)"
    using takeWhile_sep [OF assms(2), of c s] assms(1,3) by (auto simp: scan_word_def Let_def split: list.splits)
qed

lemma get_line_words:
  assumes "uri_ok uri"
  shows "scan_word (cstr (get_line uri)) = Some (''GET'', '' '' @ uri @ '' HTTP/1.0'' @ CRLF)"
    and "scan_word ('' '' @ uri @ '' HTTP/1.0'' @ CRLF) = Some (uri, '' HTTP/1.0'' @ CRLF)"
proof -
  have "NUL \<notin> set (get_line uri)" using assms by (auto simp: get_line_def uri_ok_def list_all_iff)
  then have "cstr (get_line uri) = get_line uri" by (rule cstr_no_NUL)
  then have "cstr (get_line uri) = ''GET'' @ CHR '' '' # (uri @ '' HTTP/1.0'' @ CRLF)" by (simp add: get_line_def)
  moreover have "scan_word (''GET'' @ CHR '' '' # (uri @ '' HTTP/1.0'' @ CRLF)) = Some (''GET'', CHR '' '' # (uri @ '' HTTP/1.0'' @ CRLF))"
    by (rule scan_word_sep(1)) (simp_all add: is_space_def)
  ultimately show "scan_word (cstr (get_line uri)) = Some (''GET'', '' '' @ uri @ '' HTTP/1.0'' @ CRLF)" by simp
  have u: "list_all (\<lambda>c. \<not> is_space c) uri" "uri \<noteq> []" using assms by (auto simp: uri_ok_def list_all_iff)
  show "scan_word ('' '' @ uri @ '' HTTP/1.0'' @ CRLF) = Some (uri, '' HTTP/1.0'' @ CRLF)"
    using scan_word_sep(2) [OF u(2,1), of "CHR '' ''" "CHR '' ''" "''HTTP/1.0'' @ CRLF"] by (simp add: is_space_def)
qed

lemma get_line_read:
  assumes "uri_ok uri" and "pending rp = get_line uri @ rest"
  shows "\<exists>rp'. Rio_readlineb rp proxy_MAXLINE = Inr (rp', get_line uri, length (get_line uri)) \<and> pending rp' = rest \<and>
    fails (rio_fd rp') = fails (rio_fd rp) \<and> length (get_line uri) \<noteq> 0"
proof -
  let ?w = "''GET '' @ uri @ '' HTTP/1.0'' @ [CHR 0x0D]"
  have w: "get_line uri = ?w @ ''\<newline>''" by (simp add: get_line_def)
  have "is_space (CHR ''\<newline>'')" by (simp add: is_space_def)
  then have "CHR ''\<newline>'' \<notin> set uri" using assms(1) unfolding uri_ok_def list_all_iff by blast
  then have n: "CHR ''\<newline>'' \<notin> set ?w" by simp
  have "length (get_line uri) = 15 + length uri" by (simp add: get_line_def)
  then have "length (get_line uri) < proxy_MAXLINE" using assms(1) by (simp add: uri_ok_def proxy_MAXLINE_def)
  from read_line [OF assms(2) w n this] have "\<exists>rp'. Rio_readlineb rp proxy_MAXLINE = Inr (rp', get_line uri, length (get_line uri)) \<and>
      pending rp' = rest \<and> fails (rio_fd rp') = fails (rio_fd rp)" .
  moreover have "length (get_line uri) \<noteq> 0" by (simp add: w)
  ultimately show ?thesis by blast
qed

text \<open>The answer to a complete request, whatever the file.\<close>

lemma tiny_doit_get:
  assumes u: "uri_ok uri" and b: "bytes fd = get_line uri @ concat ls @ CRLF @ rest" and ls: "\<forall>l\<in>set ls. text_line l"
    and p: "tiny_parse_uri uri = Inr (st, fn, args)" and f: "files k fn = Some f" and reg: "is_regular f"
    and mode: "if st then usr_read f else usr_exec f"
  shows "tiny_doit k ws junk fd = Some (if st then serve_static ws fn f else serve_dynamic k ws fn args)"
proof -
  have "pending (rio_readinitb fd) = get_line uri @ (concat ls @ CRLF @ rest)" using b by (simp add: pending_def rio_readinitb_def)
  from get_line_read [OF u this] obtain rp1 where r1:
    "Rio_readlineb (rio_readinitb fd) proxy_MAXLINE = Inr (rp1, get_line uri, length (get_line uri))"
    "pending rp1 = concat ls @ CRLF @ rest" "length (get_line uri) \<noteq> 0" by blast
  obtain rp2 where r2: "read_requesthdrs rp1 junk = Some (Inr rp2)" using read_requesthdrs_lines [OF ls r1(2)] by blast
  have g: "strcasecmp_eq ''GET'' ''GET''" by (simp add: strcasecmp_eq_def)
  show ?thesis using reg mode f r1(3)
    by (simp add: tiny_doit_def r1(1) r2 get_line_words [OF u, simplified] g p)
qed

text \<open>The answer for a file.\<close>

lemma tiny_static_answer:
  assumes "uri_ok uri" and "bytes fd = get_line uri @ concat ls @ CRLF @ rest" and "\<forall>l\<in>set ls. text_line l"
    and "tiny_parse_uri uri = Inr (True, fn, args)" and "files k fn = Some f"
    and "is_regular f" and "usr_read f" and "can_open f" and "contents f \<noteq> []" and "length (contents f) < 2 ^ 31"
    and "W_fail \<notin> set ws"
  shows "\<exists>ws' len. tiny_doit k ws junk fd = Some (
      ''HTTP/1.0 200 OK'' @ CRLF @ ''Server: Tiny Web Server'' @ CRLF @ ''Connection: close'' @ CRLF @
      ''Content-length: '' @ len @ CRLF @ ''Content-type: '' @ get_filetype fn @ CRLF @ CRLF @ contents f, Inl ws') \<and>
    atoi len = int (length (contents f))"
proof -
  have d: "tiny_doit k ws junk fd = Some (serve_static ws fn f)"
    using tiny_doit_get [OF assms(1-6)] assms(7) by simp
  let ?n = "length (contents f)"
  have n: "int_arg ?n = int ?n" "\<not> int ?n \<le> 0" using assms(9,10) by simp_all
  obtain ws1 where 1: "send_all ws [static_header (int ?n) (get_filetype fn)] =
      (concat [static_header (int ?n) (get_filetype fn)], Inl ws1)" "W_fail \<notin> set ws1"
    using send_ok [OF assms(11)] by blast
  obtain ws2 where 2: "send_all ws1 [contents f] = (concat [contents f], Inl ws2)" using send_ok [OF 1(2)] by blast
  have "serve_static ws fn f = (static_header (int ?n) (get_filetype fn) @ contents f, Inl ws2)"
    using assms(8) n by (simp add: serve_static_def 1(1) 2 del: send_all.simps)
  then show ?thesis
    using d by (intro exI [of _ ws2] exI [of _ "fmt_d ?n"]) (simp add: static_header_def)
qed

section \<open>Properties\<close>

text \<open>
  C27. The web server answers a GET request for a readable file that is not empty and has less than
  \<open>2 ^ 31\<close> bytes (\<^verbatim>\<open>serve_static\<close> takes the size as an \<^verbatim>\<open>int\<close>: see \<^verbatim>\<open>tiny_big_file\<close>) with the header, whose
  \<^verbatim>\<open>Content-length\<close> reads back as the length of the file, and then exactly the bytes of the file; for every way
  in which the bytes of the request arrive and the kernel accepts the answer, and whatever the header lines are.
\<close>

theorem tiny_serves_file:
  assumes "uri_ok uri" and "bytes fd = get_line uri @ concat ls @ CRLF @ rest" and "\<forall>l\<in>set ls. text_line l"
    and "tiny_parse_uri uri = Inr (True, fn, args)" and "files k fn = Some f"
    and "is_regular f" and "usr_read f" and "can_open f" and "contents f \<noteq> []" and "length (contents f) < 2 ^ 31"
    and "W_fail \<notin> set ws"
  shows "\<exists>ws' len. tiny_doit k ws junk fd = Some (
      ''HTTP/1.0 200 OK'' @ CRLF @ ''Server: Tiny Web Server'' @ CRLF @ ''Connection: close'' @ CRLF @
      ''Content-length: '' @ len @ CRLF @ ''Content-type: '' @ get_filetype fn @ CRLF @ CRLF @ contents f, Inl ws') \<and>
    atoi len = int (length (contents f))"
  by (rule tiny_static_answer [OF assms])

lemma tiny_serves_file_witness:
  "\<exists>ws' len. tiny_doit \<lparr>files = (\<lambda>_. Some \<lparr>is_regular = True, usr_read = True, usr_exec = False, can_open = True, contents = ''hi''\<rparr>),
      cgi = (\<lambda>_ _. None), fork_ok = True, wait_ok = True\<rparr> [Accept 3] []
      [Data ''GET /a.ht'', Intr, Data (''ml HTTP/1.0'' @ CRLF @ ''Host: h'' @ CRLF @ CRLF)] =
    Some (''HTTP/1.0 200 OK'' @ CRLF @ ''Server: Tiny Web Server'' @ CRLF @ ''Connection: close'' @ CRLF @
      ''Content-length: '' @ len @ CRLF @ ''Content-type: '' @ ''text/html'' @ CRLF @ CRLF @ ''hi'', Inl ws') \<and> atoi len = 2"
proof -
  let ?k = "\<lparr>files = (\<lambda>_. Some \<lparr>is_regular = True, usr_read = True, usr_exec = False, can_open = True, contents = ''hi''\<rparr>),
      cgi = (\<lambda>_ _. None), fork_ok = True, wait_ok = True\<rparr> :: kernel"
  let ?fd = "[Data ''GET /a.ht'', Intr, Data (''ml HTTP/1.0'' @ CRLF @ ''Host: h'' @ CRLF @ CRLF)]"
  have u: "uri_ok ''/a.html''" by (simp add: uri_ok_def is_space_def)
  have b: "bytes ?fd = get_line ''/a.html'' @ concat [''Host: h'' @ CRLF] @ CRLF @ []" by (simp add: get_line_def)
  have l: "\<forall>l\<in>set [''Host: h'' @ CRLF]. text_line l"
    by (auto simp: text_line_def proxy_MAXLINE_def intro!: exI [of _ "''Host: h'' @ [CHR 0x0D]"])
  have p: "tiny_parse_uri ''/a.html'' = Inr (True, ''./a.html'', [])"
    by (simp add: tiny_parse_uri_def has_prefix_def proxy_MAXLINE_def)
  have t: "get_filetype ''./a.html'' = ''text/html''" by (simp add: get_filetype_def has_prefix_def)
  show ?thesis
    using tiny_serves_file [OF u b l p, where k = ?k and f = "\<lparr>is_regular = True, usr_read = True, usr_exec = False, can_open = True, contents = ''hi''\<rparr>"
        and ws = "[Accept 3]" and junk = "[]"] unfolding t by simp
qed

text \<open>
  An answer of lines without an empty one, then the empty line, then the body; exactly one of the lines
  announces a length, and it is the number of the bytes of the body.
\<close>

definition framed :: "string \<Rightarrow> bool" where
  "framed out \<longleftrightarrow> (\<exists>hs len body. out = concat (map (\<lambda>l. l @ CRLF) hs) @ CRLF @ body \<and>
     (\<forall>l\<in>set hs. l \<noteq> [] \<and> CHR ''\<newline>'' \<notin> set l) \<and>
     filter (has_prefix ''Content-length: '') hs = [''Content-length: '' @ len] \<and> atoi len = int (length body))"

lemma fmt_d_no_newline: "CHR ''\<newline>'' \<notin> set (fmt_d n)"
  using fmt_d_digits(1) [of n] by (auto simp: list_all_iff is_digit_def)

lemma framedI:
  assumes "\<forall>l\<in>set (hs @ ts). l \<noteq> [] \<and> CHR ''\<newline>'' \<notin> set l \<and> \<not> has_prefix ''Content-length: '' l"
  shows "framed (concat (map (\<lambda>l. l @ CRLF) hs) @ ''Content-length: '' @ fmt_d (length body) @ CRLF @
    concat (map (\<lambda>l. l @ CRLF) ts) @ CRLF @ body)"
  unfolding framed_def
  by (rule exI [of _ "hs @ [''Content-length: '' @ fmt_d (length body)] @ ts"], rule exI [of _ "fmt_d (length body)"], rule exI [of _ body])
     (use assms fmt_d_no_newline [of "length body"] in \<open>auto simp: filter_empty_conv has_prefix_def\<close>)

lemma clienterror_framed:
  assumes a: "clienterror ws c e s l = (out, Inl ws')" and c: "CHR ''\<newline>'' \<notin> set (e @ s)"
  shows "framed out"
proof -
  let ?b = "tiny_body c e s l"
  have "out = concat [''HTTP/1.0 '' @ e @ '' '' @ s @ CRLF, ''Content-type: text/html'' @ CRLF,
      ''Content-length: '' @ fmt_d (length ?b) @ CRLF @ CRLF, ?b]"
    by (rule send_out) (use a in \<open>simp add: clienterror_def Let_def del: send_all.simps split: if_splits\<close>)
  then have "out = concat (map (\<lambda>l. l @ CRLF) [''HTTP/1.0 '' @ e @ '' '' @ s, ''Content-type: text/html'']) @
      ''Content-length: '' @ fmt_d (length ?b) @ CRLF @ concat (map (\<lambda>l. l @ CRLF) []) @ CRLF @ ?b" by simp
  moreover have "framed \<dots>" by (rule framedI) (use c in \<open>auto simp: has_prefix_def\<close>)
  ultimately show ?thesis by simp
qed

lemma get_filetype_line: "CHR ''\<newline>'' \<notin> set (get_filetype fn)"
  by (simp add: get_filetype_def)

lemma serve_static_framed: "serve_static ws fn f = (out, Inl ws') \<Longrightarrow> framed out"
proof -
  assume a: "serve_static ws fn f = (out, Inl ws')"
  let ?n = "int_arg (length (contents f))" and ?ty = "get_filetype fn"
  let ?h = "static_header ?n ?ty" and ?b = "take (nat ?n) (contents f)"
  obtain o1 e where s: "send_all ws [?h] = (o1, e)" by (cases "send_all ws [?h]")
  note b = a [unfolded serve_static_def Let_def s prod.case]
  then obtain ws1 where e: "e = Inl ws1" by (cases e) simp_all
  obtain o2 e2 where s2: "send_all ws1 [?b] = (o2, e2)" by (cases "send_all ws1 [?b]")
  have o: "out = o1 @ o2" "e2 = Inl ws'" "\<not> ?n \<le> 0" using b [unfolded e sum.case s2 prod.case] by (simp_all split: if_splits)
  have l: "?n = int (length ?b)" using o(3) int_arg_bound(2) [of "length (contents f)"] by simp
  have "out = ?h @ ?b" using send_out [OF s [unfolded e]] send_out [OF s2 [unfolded o]] o(1) by simp
  also have "?h = static_header (int (length ?b)) ?ty" using l by simp
  finally have "out = concat (map (\<lambda>l. l @ CRLF) [''HTTP/1.0 200 OK'', ''Server: Tiny Web Server'', ''Connection: close'']) @
      ''Content-length: '' @ fmt_d (length ?b) @ CRLF @ concat (map (\<lambda>l. l @ CRLF) [''Content-type: '' @ ?ty]) @ CRLF @ ?b"
    by (simp only: static_header_def fmt_int_nat) simp
  moreover have "framed \<dots>" by (rule framedI) (auto simp: has_prefix_def get_filetype_line)
  ultimately show ?thesis by simp
qed

lemma serve_dynamic_out:
  "serve_dynamic k ws fn args = (out, Inl ws') \<Longrightarrow> out = ''HTTP/1.0 200 OK'' @ CRLF @ ''Server: Tiny Web Server'' @ CRLF @
     (case cgi k fn args of None \<Rightarrow> [] | Some o' \<Rightarrow> o')"
proof -
  assume a: "serve_dynamic k ws fn args = (out, Inl ws')"
  let ?h = "[''HTTP/1.0 200 OK'' @ CRLF, ''Server: Tiny Web Server'' @ CRLF]"
  obtain o1 e where s: "send_all ws ?h = (o1, e)" by (cases "send_all ws ?h")
  note b = a [unfolded serve_dynamic_def s prod.case Let_def]
  then obtain ws1 where e: "e = Inl ws1" by (cases e) simp_all
  have "out = o1 @ (case cgi k fn args of None \<Rightarrow> [] | Some o' \<Rightarrow> o')" using b by (simp add: e split: if_splits)
  then show ?thesis using send_out [OF s [unfolded e]] by simp
qed

text \<open>
  C29. Whatever the client sends and whatever files there are: the web server completes an answer that is empty only if the
  client has sent nothing; every other one is a header of lines that ends with an empty line and
  announces in \<^verbatim>\<open>Content-length\<close>, once, exactly the number of bytes after the empty line, or is the start of a response
  followed by the unchanged output of a program that the request names and that the file mode allows to execute.
\<close>

theorem tiny_replies:
  assumes "tiny_doit k ws junk fd = Some (out, Inl ws')"
  shows "out = [] \<and> bytes fd = [] \<or> framed out \<or>
    (\<exists>line rest meth r uri r' fn args f. bytes fd = line @ rest \<and> scan_word (cstr line) = Some (meth, r) \<and>
    scan_word r = Some (uri, r') \<and> tiny_parse_uri uri = Inr (False, fn, args) \<and> files k fn = Some f \<and> is_regular f \<and> usr_exec f \<and>
    out = ''HTTP/1.0 200 OK'' @ CRLF @ ''Server: Tiny Web Server'' @ CRLF @
      (case cgi k fn args of None \<Rightarrow> [] | Some o' \<Rightarrow> o'))"
proof -
  note d = assms [unfolded tiny_doit_def]
  obtain rio d0 n where 1: "Rio_readlineb (rio_readinitb fd) proxy_MAXLINE = Inr (rio, d0, n)"
    using d by (cases "Rio_readlineb (rio_readinitb fd) proxy_MAXLINE") auto
  note d = d [unfolded 1 sum.case prod.case]
  show ?thesis
  proof (cases "n = 0")
    case True
    then show ?thesis using d Rio_readlineb_Inr(4) [OF 1] by (simp add: pending_def rio_readinitb_def)
  next
    case n: False
    note d = d [unfolded if_not_P [OF n]]
    obtain meth r where 2: "scan_word (cstr d0) = Some (meth, r)" using d by (cases "scan_word (cstr d0)") auto
    note d = d [unfolded 2 option.case prod.case]
    show ?thesis
    proof (cases "strcasecmp_eq meth ''GET''")
      case False
      then show ?thesis using d clienterror_framed by auto
    next
      case get: True
      obtain rio2 where 3: "read_requesthdrs rio junk = Some (Inr rio2)"
        using d get by (auto split: option.splits sum.splits)
      obtain uri r2 where 4: "scan_word r = Some (uri, r2)" using d get by (auto simp: 3 split: option.splits)
      obtain st fn args where 5: "tiny_parse_uri uri = Inr (st, fn, args)"
        using d get by (auto simp: 3 4 split: sum.splits)
      show ?thesis
      proof (cases "files k fn")
        case None
        then show ?thesis using d get clienterror_framed by (auto simp: 3 4 5)
      next
        case (Some f)
        show ?thesis
        proof (cases "is_regular f \<and> (if st then usr_read f else usr_exec f)")
          case False
          then show ?thesis using d get Some clienterror_framed by (auto simp: 3 4 5 split: if_splits)
        next
          case mode: True
          show ?thesis
          proof (cases st)
            case True
            then show ?thesis using d get Some mode serve_static_framed by (simp add: 3 4 5)
          next
            case False
            have "bytes fd = d0 @ pending rio" using Rio_readlineb_Inr(1) [OF 1] by (simp add: pending_def rio_readinitb_def)
            moreover have "out = ''HTTP/1.0 200 OK'' @ CRLF @ ''Server: Tiny Web Server'' @ CRLF @
                (case cgi k fn args of None \<Rightarrow> [] | Some o' \<Rightarrow> o')"
              by (rule serve_dynamic_out) (use d get Some mode False in \<open>simp add: 3 4 5\<close>)
            ultimately show ?thesis using 2 4 5 Some mode False by (simp only: if_False) blast
          qed
        qed
      qed
    qed
  qed
qed

lemma tiny_replies_witness:
  "\<exists>out ws'. tiny_doit \<lparr>files = (\<lambda>_. Some \<lparr>is_regular = True, usr_read = True, usr_exec = False, can_open = True, contents = ''hi''\<rparr>),
      cgi = (\<lambda>_ _. None), fork_ok = True, wait_ok = True\<rparr> [] [] [Data (get_line ''/a.html'' @ CRLF)] = Some (out, Inl ws') \<and>
     framed out"
proof -
  let ?f = "\<lparr>is_regular = True, usr_read = True, usr_exec = False, can_open = True, contents = ''hi''\<rparr>"
  let ?k = "\<lparr>files = (\<lambda>_. Some ?f), cgi = (\<lambda>_ _. None), fork_ok = True, wait_ok = True\<rparr> :: kernel"
  let ?fd = "[Data (get_line ''/a.html'' @ CRLF)]"
  have u: "uri_ok ''/a.html''" by (simp add: uri_ok_def is_space_def)
  have b: "bytes ?fd = get_line ''/a.html'' @ concat [] @ CRLF @ []" "bytes ?fd \<noteq> []" by (simp_all add: get_line_def)
  have p: "tiny_parse_uri ''/a.html'' = Inr (True, ''./a.html'', [])"
    by (simp add: tiny_parse_uri_def has_prefix_def proxy_MAXLINE_def)
  obtain out ws' where d: "tiny_doit ?k [] [] ?fd = Some (out, Inl ws')"
    using tiny_static_answer [OF u b(1) _ p, of ?k ?f "[]" "[]"] by fastforce
  have "framed out" using tiny_replies [OF d] b(2) by auto
  then show ?thesis using d by blast
qed

text \<open>
  A file whose size does not fit an \<^verbatim>\<open>int\<close> is announced with a negative length, and then ends the server.
\<close>

lemma tiny_big_file:
  assumes "2 ^ 31 \<le> length (contents f)" and "length (contents f) < 2 ^ 32" and "can_open f" and "W_fail \<notin> set ws"
  shows "\<exists>n. 0 < n \<and> serve_static ws fn f = (''HTTP/1.0 200 OK'' @ CRLF @ ''Server: Tiny Web Server'' @ CRLF @
    ''Connection: close'' @ CRLF @ ''Content-length: -'' @ fmt_d n @ CRLF @ ''Content-type: '' @ get_filetype fn @ CRLF @ CRLF,
    Inr (Exit0 ''mmap error''))"
proof -
  let ?n = "length (contents f)"
  have "int ?n + 2 ^ 31 = (int ?n - 2 ^ 31) + 2 ^ 32" by simp
  then have "(int ?n + 2 ^ 31) mod 2 ^ 32 = (int ?n - 2 ^ 31) mod 2 ^ 32" by (simp only: mod_add_self2)
  then have "int_arg ?n = int ?n - 2 ^ 32" using assms(1,2) by (simp add: int_arg_def)
  then have n: "int_arg ?n = - int (2 ^ 32 - ?n)" "0 < 2 ^ 32 - ?n" using assms(1,2) by (simp_all add: of_nat_diff)
  obtain ws1 where "send_all ws [static_header (int_arg ?n) (get_filetype fn)] =
      (concat [static_header (int_arg ?n) (get_filetype fn)], Inl ws1)" using send_ok [OF assms(4)] by blast
  then have "serve_static ws fn f = (static_header (int_arg ?n) (get_filetype fn), Inr (Exit0 ''mmap error''))"
    using n assms(3) by (simp add: serve_static_def del: send_all.simps)
  then show ?thesis using n(2) by (intro exI [of _ "2 ^ 32 - ?n"]) (simp add: static_header_def n(1) fmt_int_def del: of_nat_diff)
qed

text \<open>
  A client that closes the connection before the empty line takes the web server down: at the end of the
  file the line buffer keeps the last line, the loop of \<^verbatim>\<open>read_requesthdrs\<close> does not end, and the server, which serves one
  connection after the other, answers none of the following connections.
\<close>

theorem tiny_early_close_hangs:
  assumes "uri_ok uri" and "bytes fd = get_line uri @ concat ls" and "\<forall>l\<in>set ls. text_line l"
    and "\<not> fails fd" and "junk \<noteq> CRLF"
  shows "tiny_doit k ws junk fd = None \<and> tiny_main k junk ((fd, ws) # conns) = ([], Hangs)"
proof -
  have "pending (rio_readinitb fd) = get_line uri @ concat ls" using assms(2) by (simp add: pending_def rio_readinitb_def)
  from get_line_read [OF assms(1) this] obtain rp1 where r1:
    "Rio_readlineb (rio_readinitb fd) proxy_MAXLINE = Inr (rp1, get_line uri, length (get_line uri))"
    "pending rp1 = concat ls" "length (get_line uri) \<noteq> 0" "fails (rio_fd rp1) = fails (rio_fd (rio_readinitb fd))" by blast
  have "no_end rp1 junk" using r1(2,4) assms(3-5) by (auto simp: no_end_def rio_readinitb_def)
  then have "read_requesthdrs rp1 junk = None" by (rule read_requesthdrs_no_end)
  moreover have "strcasecmp_eq ''GET'' ''GET''" by (simp add: strcasecmp_eq_def)
  ultimately have "tiny_doit k ws junk fd = None"
    using r1(3) by (simp add: tiny_doit_def r1(1) get_line_words [OF assms(1), simplified])
  then show ?thesis by simp
qed

lemma tiny_early_close_hangs_witness:
  "tiny_main \<lparr>files = (\<lambda>_. None), cgi = (\<lambda>_ _. None), fork_ok = True, wait_ok = True\<rparr> []
     [([Data ''GET / HTTP/1.0'', Data CRLF], []), ([], [])] = ([], Hangs)"
proof -
  have "uri_ok ''/''" by (simp add: uri_ok_def is_space_def)
  moreover have "bytes [Data ''GET / HTTP/1.0'', Data CRLF] = get_line ''/'' @ concat []" by (simp add: get_line_def)
  ultimately show ?thesis
    using tiny_early_close_hangs [of "''/''" "[Data ''GET / HTTP/1.0'', Data CRLF]" "[]"] by simp
qed

section \<open>The adder\<close>

lemma fmt_d_length: "n < 2 ^ 31 \<Longrightarrow> length (fmt_d n) \<le> 10"
  unfolding fmt_d_def length_rev by (rule rdigits_length) simp_all

lemma adder_main_args:
  assumes "a < 2 ^ 31" and "b < 2 ^ 31"
  shows "adder_main (Some (fmt_d a @ ''&'' @ fmt_d b)) =
    Inr (''Connection: close'' @ CRLF @ ''Content-length: '' @ fmt_d (length (adder_content (int a) (int b))) @ CRLF @
      ''Content-type: text/html'' @ CRLF @ CRLF @ adder_content (int a) (int b))"
proof -
  have t: "list_all (\<lambda>c. c \<noteq> CHR ''&'') (fmt_d a)" using fmt_d_not_amp [of a] by (auto simp: list_all_iff)
  have "takeWhile (\<lambda>c. c \<noteq> CHR ''&'') (fmt_d a @ CHR ''&'' # fmt_d b) = fmt_d a"
    "dropWhile (\<lambda>c. c \<noteq> CHR ''&'') (fmt_d a @ CHR ''&'' # fmt_d b) = CHR ''&'' # fmt_d b"
    using takeWhile_sep [OF t, of "CHR ''&''" "fmt_d b"] by simp_all
  then show ?thesis using fmt_d_length [OF assms(1)] fmt_d_length [OF assms(2)]
    by (simp add: adder_main_def Let_def proxy_MAXLINE_def)
qed

lemma adder_no_ampersand: "CHR ''&'' \<notin> set q \<Longrightarrow> adder_main (Some q) = Inl Null_deref"
  by (simp add: adder_main_def)

text \<open>What the adder writes, as a program that the server runs: nothing if it crashes.\<close>

definition adder_output :: "string \<Rightarrow> string option" where
  "adder_output args = (case adder_main (Some args) of Inl _ \<Rightarrow> Some [] | Inr o' \<Rightarrow> Some o')"

definition adder_uri :: "nat \<Rightarrow> nat \<Rightarrow> string" where
  "adder_uri a b = ''/cgi-bin/adder?'' @ fmt_d a @ ''&'' @ fmt_d b"

lemma adder_uri_ok: "a < 2 ^ 31 \<Longrightarrow> b < 2 ^ 31 \<Longrightarrow> uri_ok (adder_uri a b)"
proof -
  assume "a < 2 ^ 31" "b < 2 ^ 31"
  from fmt_d_length [OF this(1)] fmt_d_length [OF this(2)] have "length (adder_uri a b) < 8000" by (simp add: adder_uri_def)
  moreover have "\<not> is_space c \<and> c \<noteq> NUL" if "is_digit c" for c using that by (auto simp: is_digit_def is_space_def)
  then have "list_all (\<lambda>c. \<not> is_space c \<and> c \<noteq> NUL) (fmt_d n)" for n using fmt_d_digits(1) [of n] by (simp add: list_all_iff)
  ultimately show ?thesis by (simp add: uri_ok_def adder_uri_def is_space_def)
qed

lemma adder_uri_parse:
  assumes "a < 2 ^ 31" and "b < 2 ^ 31"
  shows "tiny_parse_uri (adder_uri a b) = Inr (False, ''./cgi-bin/adder'', fmt_d a @ ''&'' @ fmt_d b)"
proof -
  let ?q = "CHR ''?'' # fmt_d a @ ''&'' @ fmt_d b"
  have u: "adder_uri a b = ''/cgi-bin/adder'' @ ?q" by (simp add: adder_uri_def)
  have s: "strstr (adder_uri a b) ''cgi-bin'' \<noteq> None" by (simp add: adder_uri_def has_prefix_def)
  have "takeWhile (\<lambda>c. c \<noteq> CHR ''?'') (adder_uri a b) = ''/cgi-bin/adder''"
    "tl (dropWhile (\<lambda>c. c \<noteq> CHR ''?'') (adder_uri a b)) = fmt_d a @ ''&'' @ fmt_d b" "CHR ''?'' \<in> set (adder_uri a b)"
    unfolding u by simp_all
  then show ?thesis using s by (simp add: tiny_parse_uri_def proxy_MAXLINE_def)
qed

text \<open>
  C28. The web server and its CGI program together: the request for \<^verbatim>\<open>/cgi-bin/adder?a&b\<close> is answered with the page of the
  adder, which states the sum of the two numbers if it fits an \<^verbatim>\<open>int\<close>, behind a \<^verbatim>\<open>Content-length\<close> that reads back as the
  length of the page.
\<close>

theorem tiny_adder:
  assumes "a + b < 2 ^ 31" and "bytes fd = get_line (adder_uri a b) @ concat ls @ CRLF @ rest" and "\<forall>l\<in>set ls. text_line l"
    and "files k ''./cgi-bin/adder'' = Some f" and "is_regular f" and "usr_exec f" and "fork_ok k" and "wait_ok k"
    and "cgi k ''./cgi-bin/adder'' = adder_output" and "W_fail \<notin> set ws"
  shows "\<exists>ws' len body body1 body2. tiny_doit k ws junk fd = Some (
      ''HTTP/1.0 200 OK'' @ CRLF @ ''Server: Tiny Web Server'' @ CRLF @ ''Connection: close'' @ CRLF @
      ''Content-length: '' @ len @ CRLF @ ''Content-type: text/html'' @ CRLF @ CRLF @ body, Inl ws') \<and>
    atoi len = int (length body) \<and>
    body = body1 @ ''The answer is: '' @ fmt_d a @ '' + '' @ fmt_d b @ '' = '' @ fmt_d (a + b) @ body2"
proof -
  have n: "a < 2 ^ 31" "b < 2 ^ 31" using assms(1) by auto
  let ?b = "adder_content (int a) (int b)"
  have d: "tiny_doit k ws junk fd = Some (serve_dynamic k ws ''./cgi-bin/adder'' (fmt_d a @ ''&'' @ fmt_d b))"
    using tiny_doit_get [OF adder_uri_ok [OF n] assms(2,3) adder_uri_parse [OF n] assms(4,5)] assms(6) by simp
  let ?h = "[''HTTP/1.0 200 OK'' @ CRLF, ''Server: Tiny Web Server'' @ CRLF]"
  obtain ws1 where s: "send_all ws ?h = (concat ?h, Inl ws1)" using send_ok [OF assms(10)] by blast
  have sd: "serve_dynamic k ws ''./cgi-bin/adder'' (fmt_d a @ ''&'' @ fmt_d b) =
    (concat ?h @ ''Connection: close'' @ CRLF @ ''Content-length: '' @ fmt_d (length ?b) @ CRLF @
      ''Content-type: text/html'' @ CRLF @ CRLF @ ?b, Inl ws1)"
    unfolding serve_dynamic_def s prod.case sum.case using assms(7-9) adder_main_args [OF n]
    by (simp add: adder_output_def)
  have "int (a + b) < 2 ^ 31" using assms(1) by (simp flip: of_nat_less_iff)
  then have "add_int (int a) (int b) = int (a + b)" by (simp add: add_int_def)
  then have "?b = (''Welcome to add.com: '' @ ''THE Internet addition portal.'' @ CRLF @ ''<p>'') @
      ''The answer is: '' @ fmt_d a @ '' + '' @ fmt_d b @ '' = '' @ fmt_d (a + b) @ (CRLF @ ''<p>'' @ ''Thanks for visiting!'' @ CRLF)"
    unfolding adder_content_def by (simp del: of_nat_add)
  moreover have "atoi (fmt_d (length ?b)) = int (length ?b)" by simp
  ultimately show ?thesis using d sd by (intro exI conjI) (simp_all only:, simp)
qed

lemma tiny_adder_witness:
  "\<exists>ws' len body body1 body2. tiny_doit \<lparr>files = (\<lambda>_. Some \<lparr>is_regular = True, usr_read = True, usr_exec = True, can_open = True, contents = []\<rparr>),
      cgi = (\<lambda>_. adder_output), fork_ok = True, wait_ok = True\<rparr> [] [] [Data (get_line (adder_uri 15000 213) @ CRLF)] = Some (
      ''HTTP/1.0 200 OK'' @ CRLF @ ''Server: Tiny Web Server'' @ CRLF @ ''Connection: close'' @ CRLF @
      ''Content-length: '' @ len @ CRLF @ ''Content-type: text/html'' @ CRLF @ CRLF @ body, Inl ws') \<and>
    atoi len = int (length body) \<and>
    body = body1 @ ''The answer is: '' @ fmt_d 15000 @ '' + '' @ fmt_d 213 @ '' = '' @ fmt_d (15000 + 213) @ body2"
  by (rule tiny_adder [where ls = "[]" and rest = "[]" and
      f = "\<lparr>is_regular = True, usr_read = True, usr_exec = True, can_open = True, contents = []\<rparr>"]) simp_all

section \<open>Requests that end the server\<close>

text \<open>A request for an empty file, or a file that the server may not open, ends the program after the header has been sent.\<close>

lemma tiny_empty_file:
  assumes "contents f = []" and "W_fail \<notin> set ws"
  shows "\<exists>out e. serve_static ws fn f = (out, Inr (Exit0 e))"
proof -
  obtain ws' where s: "send_all ws [static_header 0 (get_filetype fn)] = (concat [static_header 0 (get_filetype fn)], Inl ws')"
    using send_ok [OF assms(2)] by blast
  then show ?thesis using assms(1) int_arg_small [of 0] by (simp add: serve_static_def del: send_all.simps)
qed

text \<open>The path is not confined to the directory of the server.\<close>

lemma tiny_leaves_directory: "tiny_parse_uri ''/../secret'' = Inr (True, ''./../secret'', [])"
  by (simp add: tiny_parse_uri_def has_prefix_def proxy_MAXLINE_def)

text \<open>The name of a directory can be longer than the array that it is copied to.\<close>

lemma tiny_long_uri:
  assumes "list_all (\<lambda>c. c = CHR ''/'') uri" and "8182 \<le> length uri"
  shows "tiny_parse_uri uri = Inl Overflow"
proof -
  have ne: "uri \<noteq> []" using assms(2) by (cases uri) simp_all
  then have u: "uri \<noteq> []" "last uri = CHR ''/''" using assms(1) last_in_set [OF ne] unfolding list_all_iff by blast+
  have "CHR ''c'' \<notin> set uri" using assms(1) by (auto simp: list_all_iff)
  then have "strstr uri (CHR ''c'' # ''gi-bin'') = None" by (rule strstr_absent)
  moreover have "\<not> length (''.'' @ uri @ ''home.html'') < proxy_MAXLINE" using assms(2) by (simp add: proxy_MAXLINE_def)
  ultimately show ?thesis using u by (simp only: tiny_parse_uri_def Let_def simp_thms if_True if_False)
qed

end
