(* ===== verification/ProxyTiny.thy ===== *)
theory ProxyTiny
  imports ProxyDoit TinyCorrect
begin

text \<open>
  The proxy in front of the web server: a transaction of \<^verbatim>\<open>proxy.c\<close> on a well-formed request always comes to its
  end, and a client that asks it for a file of the server \<^verbatim>\<open>tiny.c\<close> gets the bytes of the file.
\<close>

section \<open>Forwarding succeeds\<close>

lemma Rio_readlineb_total:
  assumes "\<not> fails (rio_fd rp)"
  shows "\<exists>rp' d. Rio_readlineb rp proxy_MAXLINE = Inr (rp', d, length d)"
proof -
  obtain rp' d r where e: "rio_readlineb rp proxy_MAXLINE = (rp', d, r)" by (metis prod_cases3)
  have m: "1 < proxy_MAXLINE" by (simp add: proxy_MAXLINE_def)
  have "r = int (length d)" using conjunct1 [OF conjunct2 [OF readlineb_spec [OF e m]]] assms by (simp only: simp_thms if_True)
  then show ?thesis using e by (simp add: Rio_readlineb_def)
qed

lemma Rio_writen_total:
  assumes "W_fail \<notin> set ws"
  shows "\<exists>ws'. Rio_writen ws d = Inr (ws', d) \<and> W_fail \<notin> set ws'"
proof -
  obtain ws' out r where e: "rio_writen ws d = (ws', out, r)" by (metis prod_cases3)
  have "r = int (length d)" "out = d" using writen_spec [OF e] assms by blast+
  then show ?thesis using rio_writen_rest [OF e assms] e by (simp add: Rio_writen_def)
qed

lemma cstr_length: "length (cstr d) \<le> length d"
  by (simp add: cstr_def length_takeWhile_le)

lemma forward_ok:
  assumes "W_fail \<notin> set ws" and "\<not> fails (rio_fd server)" and "length (cstr obj) \<le> sz" and "length obj = MAX_OBJECT_SIZE"
  shows "\<exists>obj'. forward ws server obj sz = Inr (pending server, obj', sz + length (pending server)) \<and>
    length (cstr obj') \<le> sz + length (pending server)"
  using assms
proof (induction "rio_measure server" arbitrary: ws server obj sz rule: less_induct)
  case less
  obtain s1 d where r: "Rio_readlineb server proxy_MAXLINE = Inr (s1, d, length d)"
    using Rio_readlineb_total less.prems(2) by blast
  note R = Rio_readlineb_Inr [OF r]
  show ?case
  proof (cases "length d = 0")
    case True
    then show ?thesis using r R(4) less.prems(3) by (subst forward.simps) simp
  next
    case False
    obtain ws1 where w: "Rio_writen ws d = Inr (ws1, d)" "W_fail \<notin> set ws1" using Rio_writen_total less.prems(1) by blast
    obtain obj1 where o: "(if sz + length d < MAX_OBJECT_SIZE then strncat_len obj (cstr d) else Some obj) = Some obj1"
      "length (cstr obj1) \<le> sz + length d" "length obj1 = MAX_OBJECT_SIZE"
    proof (cases "sz + length d < MAX_OBJECT_SIZE")
      case True
      have l: "length (cstr d) \<le> length d" by (rule cstr_length)
      have room: "length (cstr obj) + length (cstr d) < length obj" using True l less.prems(3,4) by linarith
      obtain a' where "strncat_len obj (cstr d) = Some a'" "cstr a' = cstr obj @ cstr d" "length a' = length obj"
        using strncat_len_room [OF room cstr_set] by blast
      then show ?thesis using that [of a'] True l less.prems(3,4) by simp
    next
      case False
      then show ?thesis using that [of obj] less.prems(3,4) by simp
    qed
    have lt: "rio_measure s1 < rio_measure server" using Rio_readlineb_measure [OF r False] .
    have nf: "\<not> fails (rio_fd s1)" using R(5) less.prems(2) by simp
    obtain obj' where f: "forward ws1 s1 obj1 (sz + length d) = Inr (pending s1, obj', sz + length d + length (pending s1))"
      "length (cstr obj') \<le> sz + length d + length (pending s1)"
      using less.hyps [OF lt w(2) nf o(2,3)] by blast
    have "forward ws server obj sz = Inr (d @ pending s1, obj', sz + length d + length (pending s1))"
      using r w(1) o(1) f(1) False by (subst forward.simps) simp
    then show ?thesis using R(1) f(2) by (simp add: add.assoc)
  qed
qed

section \<open>The parts of a URI\<close>

lemma strstr_set: "strstr s p = Some r \<Longrightarrow> set r \<subseteq> set s \<and> length r \<le> length s"
  by (induction s) (auto split: if_splits)

lemma scan_until_set: "scan_until c s = Some (w, r) \<Longrightarrow> set w \<subseteq> set s \<and> set r \<subseteq> set s \<and> length w \<le> length s \<and> length r \<le> length s \<and> w \<noteq> []"
  by (auto simp: scan_until_def length_takeWhile_le length_dropWhile_le dest: set_takeWhileD set_dropWhileD split: list.splits)

lemma scan_word_set: "scan_word s = Some (w, r) \<Longrightarrow> set w \<subseteq> set s \<and> length w \<le> length s \<and> w \<noteq> []"
proof -
  assume a: "scan_word s = Some (w, r)"
  let ?t = "dropWhile is_space s"
  have w: "w = takeWhile (\<lambda>x. \<not> is_space x) ?t" "w \<noteq> []" using a by (auto simp: scan_word_def Let_def split: list.splits)
  have "length w \<le> length ?t" unfolding w(1) by (rule length_takeWhile_le)
  then show ?thesis using w length_dropWhile_le [of is_space s] by (auto dest!: set_takeWhileD set_dropWhileD)
qed

lemma uri_ok_part: "uri_ok u \<Longrightarrow> set w \<subseteq> set u \<Longrightarrow> length w \<le> length u \<Longrightarrow> w \<noteq> [] \<Longrightarrow> uri_ok w"
  by (auto simp: uri_ok_def list_all_iff)

text \<open>A part of another text.\<close>

definition part :: "string \<Rightarrow> string \<Rightarrow> bool" where
  "part w s \<longleftrightarrow> set w \<subseteq> set s \<and> length w \<le> length s"

lemma part_trans: "part v w \<Longrightarrow> part w s \<Longrightarrow> part v s"
  by (auto simp: part_def)

lemma part_steps:
  "strstr s p = Some r \<Longrightarrow> part (drop k r) s" "part s s" "part (tl s) s"
  "scan_until c s = Some (w, r) \<Longrightarrow> part w s \<and> part r s \<and> w \<noteq> []"
  "scan_word s = Some (w, r) \<Longrightarrow> part w s \<and> w \<noteq> []"
  using strstr_set [of s p r] scan_until_set [of c s w r] scan_word_set [of s w r] set_drop_subset [of k r]
  by (auto simp: part_def dest: in_set_dropD list.set_sel(2)) (cases s; auto)+

lemma parse_uri_parts:
  assumes "parse_uri uri = (Some h, Some p, Some path)"
  shows "part h uri \<and> h \<noteq> [] \<and> part path uri \<and> path \<noteq> []"
proof -
  define start where "start = (case strstr uri ''http://'' of Some s \<Rightarrow> drop 7 s | None \<Rightarrow> uri)"
  have st: "part start uri" by (auto simp: start_def part_steps split: option.splits)
  have e: "parse_uri uri = (if strstr start '':'' \<noteq> None then
        (case scan_until (CHR '':'') start of
           None \<Rightarrow> (None, None, None)
         | Some (host, r) \<Rightarrow>
             case scan_until (CHR ''/'') (tl r) of
               None \<Rightarrow> (Some host, None, None)
             | Some (port, r) \<Rightarrow> (Some host, Some port, map_option fst (scan_word r)))
      else
        (case scan_until (CHR ''/'') start of
           None \<Rightarrow> (None, Some ''80'', None)
         | Some (host, r) \<Rightarrow> (Some host, Some ''80'', map_option fst (scan_word r))))"
    unfolding parse_uri_def start_def Let_def ..
  show ?thesis
  proof (cases "strstr start '':'' \<noteq> None")
    case True
    then obtain r1 r2 r3 where s: "scan_until (CHR '':'') start = Some (h, r1)" "scan_until (CHR ''/'') (tl r1) = Some (p, r2)"
      "scan_word r2 = Some (path, r3)"
      using assms unfolding e by (auto split: option.splits)
    show ?thesis using part_steps(4) [OF s(1)] part_steps(4) [OF s(2)] part_steps(5) [OF s(3)] part_steps(3) [of r1] st part_trans by meson
  next
    case False
    then obtain r1 r2 where s: "scan_until (CHR ''/'') start = Some (h, r1)" "scan_word r1 = Some (path, r2)"
      using assms unfolding e by (auto split: option.splits)
    show ?thesis using part_steps(4) [OF s(1)] part_steps(5) [OF s(2)] st part_trans by meson
  qed
qed

lemma uri_ok_parse:
  assumes "uri_ok uri" and "parse_uri uri = (Some h, Some p, Some path)"
  shows "uri_ok h" "uri_ok path"
  using parse_uri_parts [OF assms(2)] uri_ok_part [OF assms(1)] by (auto simp: part_def)

section \<open>The request that the proxy sends\<close>

definition proxy_lines :: "string \<Rightarrow> string list \<Rightarrow> string list" where
  "proxy_lines host ls = (if filter is_host ls = [] then [default_host host] else filter is_host ls) @
     [user_agent_hdr, conn_hdr, proxy_conn_hdr] @ filter (\<lambda>l. \<not> is_host l \<and> \<not> dropped l) ls"

definition proxy_request :: "string \<Rightarrow> string \<Rightarrow> string list \<Rightarrow> string" where
  "proxy_request host path ls = request_header path @ concat (proxy_lines host ls) @ CRLF"

lemma proxy_request_parts:
  "proxy_request host path ls = request_header path @ (if filter is_host ls = [] then default_host host else concat (filter is_host ls)) @
     user_agent_hdr @ conn_hdr @ proxy_conn_hdr @ concat (filter (\<lambda>l. \<not> is_host l \<and> \<not> dropped l) ls) @ CRLF"
  by (simp add: proxy_request_def proxy_lines_def)

lemma proxy_request_get: "proxy_request host path ls = get_line path @ concat (proxy_lines host ls) @ CRLF @ []"
  by (simp add: proxy_request_def request_header_def get_line_def)

lemma header_line_text: "header_line l \<Longrightarrow> text_line l"
  by (auto simp: header_line_def text_line_def has_prefix_def)

lemma text_lineI:
  "l = w @ CRLF \<Longrightarrow> w \<noteq> [] \<Longrightarrow> CHR ''\<newline>'' \<notin> set w \<Longrightarrow> NUL \<notin> set w \<Longrightarrow> length w + 2 < proxy_MAXLINE \<Longrightarrow> text_line l"
  unfolding text_line_def by (auto intro!: exI [of _ "w @ [CHR 0x0D]"])

lemma fixed_lines: "text_line user_agent_hdr" "text_line conn_hdr" "text_line proxy_conn_hdr"
  by (rule text_lineI, simp add: user_agent_hdr_def conn_hdr_def proxy_conn_hdr_def, simp_all add: proxy_MAXLINE_def)+

lemma default_host_line:
  assumes "uri_ok h"
  shows "text_line (default_host h)"
proof -
  have s: "is_space (CHR ''\<newline>'')" by (simp add: is_space_def)
  have n: "CHR ''\<newline>'' \<notin> set h" "NUL \<notin> set h" using assms s by (auto simp: uri_ok_def list_all_iff)
  show ?thesis using assms n
    by (intro text_lineI [of _ "''Host: '' @ h"]) (auto simp: default_host_def uri_ok_def proxy_MAXLINE_def)
qed

lemma proxy_lines_text: "uri_ok h \<Longrightarrow> \<forall>l\<in>set ls. header_line l \<Longrightarrow> \<forall>l\<in>set (proxy_lines h ls). text_line l"
  by (auto simp: proxy_lines_def fixed_lines default_host_line header_line_text)

section \<open>A transaction comes to its end\<close>

text \<open>
  What a transaction needs of the memory that it starts on: the arrays have their sizes, and three bytes
  that the program never sets are zero: the first one of \<^verbatim>\<open>obj_buf\<close> and of \<^verbatim>\<open>header_other\<close>, which strings are appended
  to, and the one of \<^verbatim>\<open>header_host\<close> behind the \<^verbatim>\<open>Host\<close> line that is copied there.
\<close>

definition fresh_arrays :: "environ \<Rightarrow> string list \<Rightarrow> bool" where
  "fresh_arrays env ls \<longleftrightarrow> stack_ok (a_host env) (a_other env) ls \<and> a_obj env ! 0 = NUL \<and>
     length (a_obj env) = MAX_OBJECT_SIZE \<and> length (a_item env) = MAX_OBJECT_SIZE"

lemma doit_request:
  assumes u: "uri_ok uri" and b: "bytes fd = get_line uri @ concat ls @ CRLF @ rest"
    and ls: "\<forall>l\<in>set ls. header_line l" "length (filter is_host ls) \<le> 1"
    and p: "parse_uri uri = (Some host, Some port, Some path)" and len: "length (proxy_request host path ls) < proxy_MAXLINE"
    and a: "stack_ok (a_host env) (a_other env) ls" and miss: "found c uri = None" and con: "connect_to env host port = Some sfd"
  shows "doit env c fd = (case forward (client_writes env) (rio_readinitb sfd) (a_obj env) 0 of
      Inl f \<Rightarrow> Some (Inl f)
    | Inr (out, obj, sz) \<Rightarrow>
        if sz < MAX_OBJECT_SIZE then
          (case cache_URL (fst (check_cache c (clock env) uri)) (clock env) (a_item env) uri obj sz of
             Inl f \<Rightarrow> Some (Inl f)
           | Inr c \<Rightarrow> Some (Inr (c, out, Some (proxy_request host path ls))))
        else Some (Inr (fst (check_cache c (clock env) uri), out, Some (proxy_request host path ls))))"
proof -
  have "pending (rio_readinitb fd) = get_line uri @ (concat ls @ CRLF @ rest)" using b by (simp add: pending_def rio_readinitb_def)
  from get_line_read [OF u this] obtain rp1 where r1:
    "Rio_readlineb (rio_readinitb fd) proxy_MAXLINE = Inr (rp1, get_line uri, length (get_line uri))"
    "pending rp1 = concat ls @ CRLF @ rest" "length (get_line uri) \<noteq> 0" by blast
  have buf: "line_buf (a_buf env) (get_line uri) (length (get_line uri)) = cstr (get_line uri)" using r1(3) by (simp add: line_buf_def)
  have g: "strcasecmp_eq ''GET'' ''GET''" by (simp add: strcasecmp_eq_def)
  have cc: "check_cache c (clock env) uri = (fst (check_cache c (clock env) uri), None)"
    using check_cache_found [of c "clock env" uri] miss by (metis prod.collapse)
  obtain rp2 where r2: "parse_header host path (a_hbuf env) (a_host env) (a_other env) rp1 = Some (Inr (rp2, proxy_request host path ls))"
    using parse_header_lines [OF ls r1(2) proxy_request_parts len a] by blast
  note w = get_line_words [OF u]
  show ?thesis unfolding doit_def r1(1) sum.case prod.case Let_def buf w(1) option.case w(2)
    by (subst cc) (simp only: g p r2 con simp_thms if_False option.case prod.case sum.case)
qed

lemma doit_get_ok:
  assumes u: "uri_ok uri" and b: "bytes fd = get_line uri @ concat ls @ CRLF @ rest"
    and ls: "\<forall>l\<in>set ls. header_line l" "length (filter is_host ls) \<le> 1"
    and p: "parse_uri uri = (Some host, Some port, Some path)" and len: "length (proxy_request host path ls) < proxy_MAXLINE"
    and env: "fresh_arrays env ls" "W_fail \<notin> set (client_writes env)" and miss: "found c uri = None"
    and con: "connect_to env host port = Some sfd" "\<not> fails sfd"
    and room: "cache_size c + length (bytes sfd) \<le> MAX_CACHE_SIZE"
  shows "\<exists>c'. doit env c fd = Some (Inr (c', bytes sfd, Some (proxy_request host path ls))) \<and>
    (length (bytes sfd) < MAX_OBJECT_SIZE \<longrightarrow> NUL \<notin> set (bytes sfd) \<longrightarrow> found c' uri = Some (bytes sfd))"
proof -
  let ?c = "fst (check_cache c (clock env) uri)" and ?n = "length (bytes sfd)"
  have a: "stack_ok (a_host env) (a_other env) ls" "a_obj env ! 0 = NUL"
    "length (a_obj env) = MAX_OBJECT_SIZE" "length (a_item env) = MAX_OBJECT_SIZE" using env(1) by (auto simp: fresh_arrays_def)
  have o: "cstr (a_obj env) = []" using a(2,3) by (auto simp: MAX_OBJECT_SIZE_def intro: cstr_first)
  note d = doit_request [OF u b ls p len a(1) miss con(1)]
  have s: "pending (rio_readinitb sfd) = bytes sfd" "rio_fd (rio_readinitb sfd) = sfd" by (simp_all add: pending_def rio_readinitb_def)
  obtain obj where f: "forward (client_writes env) (rio_readinitb sfd) (a_obj env) 0 = Inr (bytes sfd, obj, ?n)"
    "length (cstr obj) \<le> ?n"
    using forward_ok [OF env(2), of "rio_readinitb sfd" "a_obj env" 0] a(3) o con(2) by (auto simp: s)
  show ?thesis
  proof (cases "?n < MAX_OBJECT_SIZE")
    case False
    then show ?thesis using d by (simp add: f)
  next
    case True
    have "cache_size ?c = cache_size c" by (rule check_cache_fields(4))
    then obtain c' where c': "cache_URL ?c (clock env) (a_item env) uri obj ?n = Inr c'"
      using room f(2) True a(4) by (simp add: cache_URL_Inr)
    have "found c' uri = Some (bytes sfd)" if n: "NUL \<notin> set (bytes sfd)"
    proof -
      have "cstr obj = bytes sfd" using forward_spec [OF f(1)] n True o by (simp add: s)
      then have "cache_URL ?c (clock env) (a_item env) uri (bytes sfd) ?n = Inr c'"
        using c' cache_URL_cstr [of ?c "clock env" "a_item env" uri obj ?n] by simp
      from cache_URL_found [OF this n, of uri] show ?thesis using check_cache_keeps [of c] miss by simp
    qed
    then show ?thesis using d True by (simp add: f c')
  qed
qed

section \<open>The proxy and the web server together\<close>

text \<open>
  C38. A client asks the proxy for a file of the web server.  Suppose that its request is well formed (any header
  lines with a colon, at most one \<^verbatim>\<open>Host\<close>, and the request that the proxy makes of them shorter than its array), that
  the URI is not in the cache and the cache has room for the answer, that the file is readable, not empty and has less than \<open>2 ^ 31\<close>
  bytes, and that three bytes of the stack which the program never sets happen to be zero (\<open>fresh_arrays\<close>: as on zero pages of a
  stack that has not been used; a later transaction of the worker may find there what the one before has left, and
  then sends it, \<open>parse_header_any\<close>).  Then the transaction of the proxy comes to its end and the client gets the header of the
  server, whose \<^verbatim>\<open>Content-length\<close> reads back as the length of the file, and exactly the bytes of the file.  The connection
  to the server carries what the proxy writes, in any pieces, and back what the server answers to it.  An answer of
  fewer than \<^verbatim>\<open>MAX_OBJECT_SIZE\<close> bytes without null characters is in the cache afterwards.
\<close>

theorem proxy_serves_tiny:
  assumes client: "uri_ok uri" "bytes fd = get_line uri @ concat ls @ CRLF @ rest" "\<forall>l\<in>set ls. header_line l"
      "length (filter is_host ls) \<le> 1" "parse_uri uri = (Some host, Some port, Some path)"
    and proxy: "length (proxy_request host path ls) < proxy_MAXLINE" "fresh_arrays env ls" "W_fail \<notin> set (client_writes env)"
      "found c uri = None" "cache_size c + length (bytes sfd) \<le> MAX_CACHE_SIZE"
    and server: "tiny_parse_uri path = Inr (True, fn, args)" "files k fn = Some f" "is_regular f" "usr_read f" "can_open f"
      "contents f \<noteq> []" "length (contents f) < 2 ^ 31" "W_fail \<notin> set tws"
    and net: "connect_to env host port = Some sfd" "\<not> fails sfd" "bytes tfd = proxy_request host path ls"
      "tiny_doit k tws junk tfd = Some (bytes sfd, Inl tws')"
  shows "\<exists>c' len ans. doit env c fd = Some (Inr (c', ans, Some (bytes tfd))) \<and>
    ans = ''HTTP/1.0 200 OK'' @ CRLF @ ''Server: Tiny Web Server'' @ CRLF @ ''Connection: close'' @ CRLF @
      ''Content-length: '' @ len @ CRLF @ ''Content-type: '' @ get_filetype fn @ CRLF @ CRLF @ contents f \<and>
    atoi len = int (length (contents f)) \<and>
    (length ans < MAX_OBJECT_SIZE \<longrightarrow> NUL \<notin> set ans \<longrightarrow> snd (check_cache c' now uri) = Some ans)"
proof -
  note ok = uri_ok_parse [OF client(1,5)]
  obtain c' where c': "doit env c fd = Some (Inr (c', bytes sfd, Some (bytes tfd)))"
    "length (bytes sfd) < MAX_OBJECT_SIZE \<longrightarrow> NUL \<notin> set (bytes sfd) \<longrightarrow> found c' uri = Some (bytes sfd)"
    using doit_get_ok [OF client proxy(1-4) net(1,2) proxy(5)] net(3) by auto
  have t: "bytes tfd = get_line path @ concat (proxy_lines host ls) @ CRLF @ []" using net(3) proxy_request_get by simp
  obtain len where "bytes sfd = ''HTTP/1.0 200 OK'' @ CRLF @ ''Server: Tiny Web Server'' @ CRLF @ ''Connection: close'' @ CRLF @
      ''Content-length: '' @ len @ CRLF @ ''Content-type: '' @ get_filetype fn @ CRLF @ CRLF @ contents f"
    "atoi len = int (length (contents f))"
    using tiny_static_answer [OF ok(2) t proxy_lines_text [OF ok(1) client(3)] server, of junk] net(4) by auto
  then show ?thesis using c' check_cache_found by (intro exI [of _ c'] exI [of _ len] exI [of _ "bytes sfd"]) auto
qed

definition sample_file :: tiny_file where
  "sample_file = \<lparr>is_regular = True, usr_read = True, usr_exec = False, can_open = True, contents = ''hi''\<rparr>"

definition sample_kernel :: kernel where
  "sample_kernel = \<lparr>files = (\<lambda>_. Some sample_file), cgi = (\<lambda>_ _. None), fork_ok = True, wait_ok = True\<rparr>"

definition sample_answer :: string where
  "sample_answer = static_header 2 ''text/html'' @ ''hi''"

definition sample_proxy :: environ where
  "sample_proxy = \<lparr>a_buf = [], a_hbuf = [], a_host = NUL # replicate 8191 (CHR ''x''),
     a_other = NUL # replicate 8191 (CHR ''x''), a_obj = NUL # replicate 102399 (CHR ''x''), a_item = replicate MAX_OBJECT_SIZE NUL, clock = 0, client_writes = [Accept 5], connect_to = \<lambda>h p. Some [Data sample_answer]\<rparr>"

lemma proxy_serves_tiny_witness:
  "\<exists>c' req. doit sample_proxy (cache_init 0) [Data (get_line ''http://h/a.html'' @ ''Accept: x'' @ CRLF @ CRLF)] =
      Some (Inr (c', sample_answer, Some req)) \<and> snd (check_cache c' 7 ''http://h/a.html'') = Some sample_answer"
proof -
  let ?ls = "[''Accept: x'' @ CRLF]" and ?req = "proxy_request ''h'' ''/a.html'' [''Accept: x'' @ CRLF]"
  have u: "uri_ok ''http://h/a.html''" "uri_ok ''/a.html''" "uri_ok ''h''" by (simp_all add: uri_ok_def is_space_def)
  have b: "bytes [Data (get_line ''http://h/a.html'' @ ''Accept: x'' @ CRLF @ CRLF)] = get_line ''http://h/a.html'' @ concat ?ls @ CRLF @ []" by simp
  have l: "\<forall>l\<in>set ?ls. header_line l" "length (filter is_host ?ls) \<le> 1" "\<not> is_host (''Accept: x'' @ CRLF)"
    by (auto simp: header_line_def has_prefix_def proxy_MAXLINE_def is_host_def intro!: exI [of _ "''Accept: x'' @ [CHR 0x0D]"])
  have p: "parse_uri ''http://h/a.html'' = (Some ''h'', Some ''80'', Some ''/a.html'')"
    by (simp add: parse_uri_def has_prefix_def scan_until_def scan_word_def is_space_def)
  have len: "length ?req < proxy_MAXLINE"
    by (simp add: proxy_request_parts request_header_def default_host_def user_agent_hdr_def conn_hdr_def proxy_conn_hdr_def proxy_MAXLINE_def is_host_def has_prefix_def)
  have e: "fresh_arrays sample_proxy ?ls" "W_fail \<notin> set (client_writes sample_proxy)"
    "connect_to sample_proxy ''h'' ''80'' = Some [Data sample_answer]"
    using l(3) by (simp_all add: fresh_arrays_def stack_ok_def sample_proxy_def proxy_MAXLINE_def MAX_OBJECT_SIZE_def)
  have m: "found (cache_init 0) ''http://h/a.html'' = None" by (simp add: found_def cache_init_def)
  have two: "fmt_d 2 = ''2''" by code_simp
  have short: "length sample_answer < 200" "NUL \<notin> set sample_answer" by (simp_all add: sample_answer_def static_header_def fmt_int_def two)
  have room: "cache_size (cache_init 0) + length (bytes [Data sample_answer]) \<le> MAX_CACHE_SIZE"
    using short by (simp add: cache_init_def MAX_CACHE_SIZE_def)
  have t: "tiny_parse_uri ''/a.html'' = Inr (True, ''./a.html'', [])" by (simp add: tiny_parse_uri_def has_prefix_def proxy_MAXLINE_def)
  have f: "files sample_kernel ''./a.html'' = Some sample_file" "is_regular sample_file" "usr_read sample_file" "can_open sample_file"
    "contents sample_file \<noteq> []" "length (contents sample_file) < 2 ^ 31" by (simp_all add: sample_kernel_def sample_file_def)
  have ty: "get_filetype ''./a.html'' = ''text/html''" by (simp add: get_filetype_def has_prefix_def)
  have req: "bytes [Data ?req] = get_line ''/a.html'' @ concat (proxy_lines ''h'' ?ls) @ CRLF @ []"
    using proxy_request_get by simp
  have "tiny_doit sample_kernel [] [] [Data ?req] = Some (serve_static [] ''./a.html'' sample_file)"
    using tiny_doit_get [OF u(2) req proxy_lines_text [OF u(3) l(1)] t f(1,2)] f(3) by simp
  also have "serve_static [] ''./a.html'' sample_file = (sample_answer, Inl [])"
  proof -
    have w: "rio_writen [] d = ([], d, int (length d))" for d by (cases d) auto
    have sf: "can_open sample_file" "contents sample_file = ''hi''" "length ''hi'' = 2" by (simp_all add: sample_file_def)
    have ia: "int_arg 2 = 2" using int_arg_small [of 2] by simp
    show ?thesis unfolding serve_static_def Let_def sf(2,3) ia ty send_all.simps w prod.case sample_answer_def by (simp add: sf(1))
  qed
  finally have tiny: "tiny_doit sample_kernel [] [] [Data ?req] = Some (bytes [Data sample_answer], Inl [])" by simp
  have "W_fail \<notin> set []" "\<not> fails [Data sample_answer]" "bytes [Data ?req] = ?req" by simp_all
  from proxy_serves_tiny [OF u(1) b l(1,2) p len e(1,2) m room t f this(1) e(3) this(2,3) tiny, of 7]
  obtain c' n ans where r: "doit sample_proxy (cache_init 0) [Data (get_line ''http://h/a.html'' @ ''Accept: x'' @ CRLF @ CRLF)] =
      Some (Inr (c', ans, Some (bytes [Data ?req])))"
    "length ans < MAX_OBJECT_SIZE \<longrightarrow> NUL \<notin> set ans \<longrightarrow> snd (check_cache c' 7 ''http://h/a.html'') = Some ans" by blast
  have "ans = sample_answer"
    using doit_get_ok [OF u(1) b l(1,2) p len e(1,2) m e(3) _ room] r(1) by auto
  then show ?thesis using r short by (auto simp: MAX_OBJECT_SIZE_def)
qed

end
