(* ===== verification/KernelLab.thy ===== *)
theory KernelLab
  imports CString Sio
begin

text \<open>
  The two kernel modules of the kernel lab (\<^verbatim>\<open>sp_05_kernallab/kernellab-handout\<close>): \<^verbatim>\<open>ptree/dbfs_ptree.c\<close>, which
  writes the ancestors of a process to a file, and \<^verbatim>\<open>paddr/dbfs_paddr.c\<close>, which translates a virtual address, with its
  test program \<^verbatim>\<open>paddr/app.c\<close>.

  The functions of the kernel are parameters: the table of the tasks by their addresses, the task of a process id, and
  the page frame of a virtual address.  \<open>Inl Bad_access\<close> is an access through a null pointer or beyond an array, in the
  kernel.  Allocations are taken to succeed.
\<close>

unbundle bit_operations_syntax

datatype kfault = Bad_access

section \<open>The process tree\<close>

record task =
  pid :: nat
  comm :: string
  parent :: nat

record ptree_node =
  node_task :: task
  node_size :: nat

text \<open>The list \<^verbatim>\<open>ptree_list\<close> and the blob that user programs read.\<close>

record ptree_state =
  ptree_list :: "ptree_node list"
  blob_size :: nat
  blob_data :: string

text \<open>The format \<^verbatim>\<open>"%s (%u)\n"\<close>.\<close>

definition task_line :: "task \<Rightarrow> string" where
  "task_line t = comm t @ '' ('' @ fmt_d (pid t) @ '')'' @ ''\<newline>''"

text \<open>
  The loop from a task to the task with the number 0; the temporary buffer has 1024 characters.  \<open>None\<close>: it does not end.
\<close>

partial_function (option) trace_tasks :: "(nat \<Rightarrow> task option) \<Rightarrow> nat \<Rightarrow> ptree_node list \<Rightarrow> nat
    \<Rightarrow> (kfault + ptree_node list \<times> nat) option" where
  "trace_tasks tasks a ns total_size =
     (case tasks a of
        None \<Rightarrow> Some (Inl Bad_access)
      | Some t \<Rightarrow>
          if pid t = 0 then Some (Inr (ns, total_size))
          else if 1024 \<le> length (task_line t) then Some (Inl Bad_access)
          else let sz = length (task_line t) + 1
               in trace_tasks tasks (parent t) (\<lparr>node_task = t, node_size = sz\<rparr> # ns) (total_size + sz))"

text \<open>The loop that prints the nodes into the buffer and deletes them from the list.\<close>

fun print_nodes :: "ptree_node list \<Rightarrow> string \<Rightarrow> nat \<Rightarrow> string option" where
  "print_nodes [] buf prev_size = Some buf"
| "print_nodes (n # ns) buf prev_size = do {
     buf \<leftarrow> store buf prev_size (task_line (node_task n) @ [NUL]);
     print_nodes ns buf (prev_size + node_size n) }"

text \<open>
  \<^verbatim>\<open>write_pid_to_input\<close>: \<open>input\<close> is the number that \<^verbatim>\<open>sscanf\<close> finds, \<open>find_task\<close> the address of the task with that
  number, \<open>alloc n\<close> the content of a new buffer of \<open>n\<close> characters.
\<close>

definition write_pid_to_input :: "(nat \<Rightarrow> task option) \<Rightarrow> (nat \<Rightarrow> nat option) \<Rightarrow> (nat \<Rightarrow> string) \<Rightarrow> nat
    \<Rightarrow> ptree_state \<Rightarrow> (kfault + ptree_state) option" where
  "write_pid_to_input tasks find_task alloc input st =
     (case find_task input of
        None \<Rightarrow> Some (Inl Bad_access)
      | Some cur \<Rightarrow>
          case trace_tasks tasks cur (ptree_list st) 0 of
            None \<Rightarrow> None
          | Some (Inl e) \<Rightarrow> Some (Inl e)
          | Some (Inr (ns, total_size)) \<Rightarrow>
              case print_nodes ns (alloc (total_size + 1)) 0 of
                None \<Rightarrow> Some (Inl Bad_access)
              | Some buf \<Rightarrow> Some (Inr (st\<lparr>ptree_list := [], blob_size := total_size, blob_data := buf\<rparr>)))"

text \<open>What a program reads from the file \<^verbatim>\<open>ptree\<close>.\<close>

definition read_blob :: "ptree_state \<Rightarrow> string" where
  "read_blob st = take (blob_size st) (blob_data st)"

section \<open>Loading and unloading\<close>

text \<open>The directories and files of the debug file system, newest first; \<open>None\<close>: a directory cannot be created.\<close>

definition ptree_module_init :: "bool \<Rightarrow> string list \<Rightarrow> int \<times> string list" where
  "ptree_module_init ok fs = (if \<not> ok then (-1, fs) else (0, ''ptree/ptree'' # ''ptree/input'' # ''ptree'' # fs))"

definition ptree_module_exit :: "string list \<Rightarrow> string list" where
  "ptree_module_exit fs = filter (\<lambda>f. f \<noteq> ''ptree'' \<and> \<not> has_prefix ''ptree/'' f) fs"

definition paddr_module_init :: "bool \<Rightarrow> string list \<Rightarrow> int \<times> string list" where
  "paddr_module_init ok fs = (if \<not> ok then (-1, fs) else (0, ''paddr/output'' # ''paddr'' # fs))"

definition paddr_module_exit :: "string list \<Rightarrow> string list" where
  "paddr_module_exit fs = fs"

section \<open>Physical addresses\<close>

definition PAGE_SHIFT :: nat where "PAGE_SHIFT = 12"

definition PAGE_MASK :: u64 where "PAGE_MASK = NOT (2 ^ PAGE_SHIFT - 1)"

record packet =
  p_pid :: nat
  vaddr :: u64
  paddr :: u64

text \<open>
  \<^verbatim>\<open>read_output\<close>: \<open>find_mm\<close> is the address space of the task with a number, \<open>pfn\<close> the page frame that its page
  tables give for an address.  The result is written into the packet of the caller.
\<close>

definition read_output :: "(nat \<Rightarrow> 'mm option) \<Rightarrow> ('mm \<Rightarrow> u64 \<Rightarrow> u64) \<Rightarrow> packet \<Rightarrow> kfault + packet" where
  "read_output find_mm pfn p =
     (case find_mm (p_pid p) of
        None \<Rightarrow> Inl Bad_access
      | Some mm \<Rightarrow>
          let ppn = push_bit PAGE_SHIFT (pfn mm (vaddr p));
              ppo = vaddr p AND NOT PAGE_MASK;
              pa = ppn OR ppo
          in Inr (p\<lparr>paddr := pa\<rparr>))"

definition PADDR :: u64 where "PADDR = 0xff000"

datatype app_end = App_exit int | Assert_failed | App_pass

text \<open>
  \<^verbatim>\<open>main\<close> of the test program: \<open>mypid\<close> and \<open>va\<close> are the results of \<^verbatim>\<open>getpid\<close> and \<^verbatim>\<open>mmap\<close>, \<open>dev\<close> is a read of the file of the
  module, \<open>None\<close> an error.
\<close>

definition app_main :: "nat \<Rightarrow> u64 \<Rightarrow> bool \<Rightarrow> (packet \<Rightarrow> packet option) \<Rightarrow> app_end" where
  "app_main mypid va opened dev =
     (if \<not> opened then App_exit (-1)
      else case dev \<lparr>p_pid = mypid, vaddr = va, paddr = 0\<rparr> of
        None \<Rightarrow> App_exit (-1)
      | Some p \<Rightarrow> if paddr p = PADDR then App_pass else Assert_failed)"

section \<open>The ancestors of a process\<close>

text \<open>The tasks from an address up to the task with the number 0, without it.\<close>

fun ancestors :: "(nat \<Rightarrow> task option) \<Rightarrow> nat \<Rightarrow> task list \<Rightarrow> bool" where
  "ancestors tasks a [] \<longleftrightarrow> (\<exists>t. tasks a = Some t \<and> pid t = 0)"
| "ancestors tasks a (t # ts) \<longleftrightarrow> tasks a = Some t \<and> pid t \<noteq> 0 \<and> ancestors tasks (parent t) ts"

definition node_of :: "task \<Rightarrow> ptree_node" where
  "node_of t = \<lparr>node_task = t, node_size = length (task_line t) + 1\<rparr>"

definition tree_text :: "task list \<Rightarrow> string" where
  "tree_text ts = concat (map (\<lambda>t. task_line t @ [NUL]) ts)"

lemma trace_tasks_ancestors:
  "ancestors tasks a ts \<Longrightarrow> \<forall>t\<in>set ts. length (task_line t) < 1024 \<Longrightarrow>
     trace_tasks tasks a ns total_size = Some (Inr (rev (map node_of ts) @ ns, total_size + length (tree_text ts)))"
proof (induction ts arbitrary: a ns total_size)
  case Nil
  then show ?case by (subst trace_tasks.simps) (auto simp: tree_text_def)
next
  case (Cons t ts)
  then have "trace_tasks tasks a ns total_size = trace_tasks tasks (parent t) (node_of t # ns) (total_size + (length (task_line t) + 1))"
    by (subst trace_tasks.simps) (simp add: node_of_def Let_def)
  then show ?case using Cons by (simp add: tree_text_def)
qed

lemma print_nodes_text:
  "prev + length (tree_text ts) \<le> length buf \<Longrightarrow>
     print_nodes (map node_of ts) buf prev = Some (take prev buf @ tree_text ts @ drop (prev + length (tree_text ts)) buf)"
proof (induction ts arbitrary: buf prev)
  case (Cons t ts)
  let ?l = "task_line t @ [NUL]" and ?b = "take prev buf @ task_line t @ NUL # drop (prev + length (task_line t) + 1) buf"
  have le: "prev + length ?l \<le> length buf" "prev \<le> length buf" using Cons.prems by (simp_all add: tree_text_def)
  then have s: "store buf prev ?l = Some ?b" by (simp add: store_def)
  have n: "node_size (node_of t) = length ?l" "node_task (node_of t) = t" by (simp_all add: node_of_def)
  have tk: "take (prev + length ?l) ?b = take prev buf @ ?l" using le by simp
  have "print_nodes (map node_of ts) ?b (prev + length ?l) =
      Some (take (prev + length ?l) ?b @ tree_text ts @ drop (prev + length ?l + length (tree_text ts)) ?b)"
    using Cons.prems le by (intro Cons.IH) (simp add: tree_text_def)
  also have "drop (prev + length ?l + length (tree_text ts)) ?b = drop (prev + length (tree_text (t # ts))) buf"
    using le by (simp add: tree_text_def add_ac)
  finally show ?case unfolding tk using s n by (simp add: tree_text_def)
qed (simp add: tree_text_def)

section \<open>Properties\<close>

text \<open>
  C31. Writing the number of a process to the input file makes the module report exactly the process and its ancestors, from the first
  process (the one whose parent has the number 0) down to it, each line followed by a null character; the buffer is
  never overrun, the list of the module is empty again, so that the next write works the same way, and the loop ends.
\<close>

theorem ptree_reports_ancestors:
  assumes "find_task input = Some a" and "ancestors tasks a ts" and "\<forall>t\<in>set ts. length (task_line t) < 1024"
    and "\<And>n. length (alloc n) = n" and "ptree_list st = []"
  shows "\<exists>st'. write_pid_to_input tasks find_task alloc input st = Some (Inr st') \<and>
    read_blob st' = concat (map (\<lambda>t. task_line t @ [NUL]) (rev ts)) \<and> ptree_list st' = []"
proof -
  have "length (tree_text ts) = length (tree_text (rev ts))" by (simp add: tree_text_def rev_map [symmetric] sum_list_rev length_concat)
  then have tr: "trace_tasks tasks a [] 0 = Some (Inr (map node_of (rev ts), length (tree_text (rev ts))))"
    using trace_tasks_ancestors [OF assms(2,3), of "[]" 0] by (simp add: rev_map)
  let ?n = "length (tree_text (rev ts))"
  have "print_nodes (map node_of (rev ts)) (alloc (?n + 1)) 0 = Some (tree_text (rev ts) @ drop ?n (alloc (?n + 1)))"
    using print_nodes_text [of 0 "rev ts" "alloc (?n + 1)"] assms(4) by simp
  then show ?thesis using assms(1,5) tr by (simp add: write_pid_to_input_def read_blob_def tree_text_def)
qed

lemma ptree_reports_ancestors_witness:
  "\<exists>st'. write_pid_to_input
      [1 \<mapsto> \<lparr>pid = 0, comm = ''swapper'', parent = 1\<rparr>, 2 \<mapsto> \<lparr>pid = 1, comm = ''init'', parent = 1\<rparr>, 3 \<mapsto> \<lparr>pid = 42, comm = ''bash'', parent = 2\<rparr>]
      [42 \<mapsto> 3] (\<lambda>n. replicate n NUL) 42 \<lparr>ptree_list = [], blob_size = 0, blob_data = []\<rparr> = Some (Inr st') \<and>
    read_blob st' = (''init ('' @ fmt_d 1 @ '')'' @ ''\<newline>'' @ [NUL]) @ (''bash ('' @ fmt_d 42 @ '')'' @ ''\<newline>'' @ [NUL])"
proof -
  let ?T = "[1 \<mapsto> \<lparr>pid = 0, comm = ''swapper'', parent = 1\<rparr>, 2 \<mapsto> \<lparr>pid = 1, comm = ''init'', parent = 1\<rparr>, 3 \<mapsto> \<lparr>pid = 42, comm = ''bash'', parent = 2\<rparr>] :: nat \<Rightarrow> task option"
  let ?ts = "[\<lparr>pid = 42, comm = ''bash'', parent = 2\<rparr>, \<lparr>pid = 1, comm = ''init'', parent = 1\<rparr>]"
  have "ancestors ?T 3 ?ts" by simp
  moreover have "length (fmt_d 1) \<le> 2" "length (fmt_d 42) \<le> 2" unfolding fmt_d_def length_rev by (rule rdigits_length; simp)+
  then have "\<forall>t\<in>set ?ts. length (task_line t) < 1024" by (simp add: task_line_def)
  ultimately show ?thesis
    using ptree_reports_ancestors [of "[42 \<mapsto> 3]" 42 3 ?T ?ts "\<lambda>n. replicate n NUL" "\<lparr>ptree_list = [], blob_size = 0, blob_data = []\<rparr>"]
    by (auto simp: task_line_def)
qed

text \<open>A number that no process has is an access through a null pointer in the kernel.\<close>

lemma ptree_unknown_pid: "find_task input = None \<Longrightarrow> write_pid_to_input tasks find_task alloc input st = Some (Inl Bad_access)"
  by (simp add: write_pid_to_input_def)

lemma paddr_unknown_pid: "find_mm (p_pid p) = None \<Longrightarrow> read_output find_mm pfn p = Inl Bad_access"
  by (simp add: read_output_def)

text \<open>Unloading the second module leaves its files behind.\<close>

lemma module_exit_files:
  "ptree_module_exit (snd (ptree_module_init True [])) = []" "paddr_module_exit (snd (paddr_module_init True [])) \<noteq> []"
  by (simp_all add: ptree_module_exit_def ptree_module_init_def paddr_module_exit_def paddr_module_init_def has_prefix_def)

lemma page_offset: "unat (va AND NOT PAGE_MASK) = unat va mod 4096" "NOT PAGE_MASK = mask 12"
proof -
  show m: "NOT PAGE_MASK = mask 12" by (simp add: PAGE_MASK_def PAGE_SHIFT_def mask_eq_exp_minus_1)
  show "unat (va AND NOT PAGE_MASK) = unat va mod 4096"
    unfolding m by (simp add: unsigned_take_bit_eq flip: take_bit_eq_mask) (simp add: take_bit_eq_mod)
qed

lemma page_frame:
  "unat f < 2 ^ 52 \<Longrightarrow> unat (push_bit 12 f OR (va AND NOT PAGE_MASK)) = unat (f :: u64) * 4096 + unat va mod 4096"
proof -
  assume f: "unat f < 2 ^ 52"
  have "unat (push_bit 12 f OR (va AND NOT PAGE_MASK)) = unat (push_bit 12 f) OR unat (va AND NOT PAGE_MASK)"
    by (simp add: unsigned_or_eq)
  also have "unat (push_bit 12 f) = push_bit 12 (unat f)"
  proof -
    have "unat (push_bit 12 f) = take_bit LENGTH(64) (push_bit 12 (unat f))" by (rule unsigned_push_bit_eq)
    then show ?thesis using f unfolding take_bit_eq_mod push_bit_eq_mult by simp
  qed
  also have "unat (va AND NOT PAGE_MASK) = take_bit 12 (unat va)" by (simp only: page_offset(1) take_bit_eq_mod) simp
  also have "push_bit 12 (unat f) OR take_bit 12 (unat va) = push_bit 12 (unat f) + take_bit 12 (unat va)"
    by (rule disjunctive_add [symmetric]) (auto simp: bit_push_bit_iff bit_take_bit_iff)
  finally show ?thesis by (simp add: push_bit_eq_mult take_bit_eq_mod)
qed

text \<open>
  C32. The address that the module returns has the page frame of the page tables and the offset within the page of the virtual
  address, for every frame below 2 to the power of 52; the number of the process and the virtual address in the packet are unchanged; and
  the test program passes whenever its mapping starts at a page boundary and is backed by the frame of the physical address that it asked for.
\<close>

theorem paddr_translates:
  assumes "find_mm (p_pid p) = Some mm" and "unat (pfn mm (vaddr p)) < 2 ^ 52"
    and "find_mm mypid = Some mm'" and "unat va mod 4096 = 0" and "unat (pfn mm' va) = unat PADDR div 4096"
  shows "(\<exists>q. read_output find_mm pfn p = Inr q \<and> unat (paddr q) div 4096 = unat (pfn mm (vaddr p)) \<and>
      unat (paddr q) mod 4096 = unat (vaddr p) mod 4096 \<and> p_pid q = p_pid p \<and> vaddr q = vaddr p) \<and>
    app_main mypid va True (\<lambda>p. case read_output find_mm pfn p of Inl _ \<Rightarrow> None | Inr q \<Rightarrow> Some q) = App_pass"
proof
  show "\<exists>q. read_output find_mm pfn p = Inr q \<and> unat (paddr q) div 4096 = unat (pfn mm (vaddr p)) \<and>
      unat (paddr q) mod 4096 = unat (vaddr p) mod 4096 \<and> p_pid q = p_pid p \<and> vaddr q = vaddr p"
    using assms(1) page_frame [OF assms(2)] by (simp add: read_output_def PAGE_SHIFT_def)
  have "unat (pfn mm' va) < 2 ^ 52" using assms(5) by (simp add: PADDR_def)
  then have "unat (push_bit 12 (pfn mm' va) OR (va AND NOT PAGE_MASK)) = unat PADDR"
    using assms(4,5) by (simp only: page_frame) (simp add: PADDR_def)
  then have "push_bit 12 (pfn mm' va) OR (va AND NOT PAGE_MASK) = PADDR" by (simp only: word_unat_eq_iff)
  then show "app_main mypid va True (\<lambda>p. case read_output find_mm pfn p of Inl _ \<Rightarrow> None | Inr q \<Rightarrow> Some q) = App_pass"
    using assms(3) by (simp add: app_main_def read_output_def PAGE_SHIFT_def)
qed

lemma paddr_translates_witness:
  "app_main 7 0x7f000 True (\<lambda>p. case read_output (\<lambda>_. Some ()) (\<lambda>_ _. 0xff) p of Inl _ \<Rightarrow> None | Inr q \<Rightarrow> Some q) = App_pass"
  using paddr_translates [of "\<lambda>_. Some ()" "\<lparr>p_pid = 7, vaddr = 0x1234, paddr = 0\<rparr>" "()" "\<lambda>_ _. 0xff" 7 "()" "0x7f000"]
  by (simp add: PADDR_def)

end
