(* ===== verification/Lab5Mm.thy ===== *)
theory Lab5Mm
  imports Memlib Blocks "HOL-Library.Monad_Syntax"
begin

unbundle bit_operations_syntax

text \<open>
  The starter allocator of the older lab (\<^verbatim>\<open>sp_03_malloclab/lab5/mm.c\<close>), its garbage collector (\<^verbatim>\<open>mm-gc.c\<close>) and the
  driver of the collector (\<^verbatim>\<open>GarbageCollectorDriver.c\<close>), on a machine of 64 bits.

  Memory is the word at every multiple of eight; an access to another address or outside of the storage is \<open>None\<close>, and so is a
  loop that does not end.  A pointer \<open>0\<close> is NULL.  \<^verbatim>\<open>mm_malloc\<close>, \<^verbatim>\<open>mm_free\<close>, \<^verbatim>\<open>mark\<close> and \<^verbatim>\<open>sweep\<close> are left to the students in the
  source, and are modelled as they are.
\<close>

section \<open>Memory and tags\<close>

record mm5 =
  lib5 :: memlib
  words :: "nat \<Rightarrow> nat"

definition valid5 :: "mm5 \<Rightarrow> nat \<Rightarrow> bool" where
  "valid5 s p \<longleftrightarrow> 8 dvd p \<and> mem_start_brk (lib5 s) \<le> p \<and> p + 8 \<le> mem_max_addr (lib5 s)"

definition rd :: "mm5 \<Rightarrow> nat \<Rightarrow> nat option" where
  "rd s p = (if valid5 s p then Some (words s p) else None)"

definition wr :: "mm5 \<Rightarrow> nat \<Rightarrow> nat \<Rightarrow> mm5 option" where
  "wr s p v = (if valid5 s p then Some (s\<lparr>words := (words s)(p := v mod 2 ^ 64)\<rparr>) else None)"

definition WORD_SIZE :: nat where "WORD_SIZE = 8"
definition MIN_BLOCK_SIZE :: nat where "MIN_BLOCK_SIZE = 24 + WORD_SIZE"
definition TAG_USED :: nat where "TAG_USED = 1"
definition TAG_PRECEDING_USED :: nat where "TAG_PRECEDING_USED = 2"

definition SIZE :: "nat \<Rightarrow> nat" where
  "SIZE x = x AND (2 ^ 64 - 8)"

text \<open>The fields \<^verbatim>\<open>sizeAndTags\<close>, \<^verbatim>\<open>next\<close> and \<^verbatim>\<open>prev\<close> of a \<^verbatim>\<open>BlockInfo\<close> are its first three words.\<close>

definition next_of :: "nat \<Rightarrow> nat" where "next_of b = b + WORD_SIZE"
definition prev_of :: "nat \<Rightarrow> nat" where "prev_of b = b + 2 * WORD_SIZE"

definition FREE_LIST_HEAD :: "mm5 \<Rightarrow> nat" where
  "FREE_LIST_HEAD s = mem_heap_lo (lib5 s)"

section \<open>The free list\<close>

partial_function (option) searchFreeList_from :: "mm5 \<Rightarrow> nat \<Rightarrow> nat \<Rightarrow> nat option" where
  "searchFreeList_from s reqSize freeBlock =
     (if freeBlock \<noteq> 0 then do {
        h \<leftarrow> rd s freeBlock;
        if SIZE h \<ge> reqSize then Some freeBlock
        else do { n \<leftarrow> rd s (next_of freeBlock); searchFreeList_from s reqSize n } }
      else Some 0)"

definition searchFreeList :: "mm5 \<Rightarrow> nat \<Rightarrow> nat option" where
  "searchFreeList s reqSize = do { b \<leftarrow> rd s (FREE_LIST_HEAD s); searchFreeList_from s reqSize b }"

definition insertFreeBlock :: "mm5 \<Rightarrow> nat \<Rightarrow> mm5 option" where
  "insertFreeBlock s freeBlock = do {
     oldHead \<leftarrow> rd s (FREE_LIST_HEAD s);
     s \<leftarrow> wr s (next_of freeBlock) oldHead;
     s \<leftarrow> (if oldHead \<noteq> 0 then wr s (prev_of oldHead) freeBlock else Some s);
     s \<leftarrow> wr s (prev_of freeBlock) 0;
     wr s (FREE_LIST_HEAD s) freeBlock }"

definition removeFreeBlock :: "mm5 \<Rightarrow> nat \<Rightarrow> mm5 option" where
  "removeFreeBlock s freeBlock = do {
     nextFree \<leftarrow> rd s (next_of freeBlock);
     prevFree \<leftarrow> rd s (prev_of freeBlock);
     s \<leftarrow> (if nextFree \<noteq> 0 then wr s (prev_of nextFree) prevFree else Some s);
     hd' \<leftarrow> rd s (FREE_LIST_HEAD s);
     if freeBlock = hd' then wr s (FREE_LIST_HEAD s) nextFree
     else wr s (next_of prevFree) nextFree }"

section \<open>Coalescing\<close>

text \<open>The loop over the free blocks before a block: the first of them and the sum of the sizes.\<close>

partial_function (option) coalesce_back :: "mm5 \<Rightarrow> nat \<Rightarrow> nat \<Rightarrow> (mm5 \<times> nat \<times> nat) option" where
  "coalesce_back s blockCursor newSize = do {
     h \<leftarrow> rd s blockCursor;
     if h AND TAG_PRECEDING_USED = 0 then do {
       f \<leftarrow> rd s (blockCursor - WORD_SIZE);
       let size' = SIZE f;
       let freeBlock = blockCursor - size';
       s \<leftarrow> removeFreeBlock s freeBlock;
       coalesce_back s freeBlock (newSize + size') }
     else Some (s, blockCursor, newSize) }"

text \<open>The loop over the free blocks behind a block.\<close>

partial_function (option) coalesce_forward :: "mm5 \<Rightarrow> nat \<Rightarrow> nat \<Rightarrow> (mm5 \<times> nat \<times> nat) option" where
  "coalesce_forward s blockCursor newSize = do {
     h \<leftarrow> rd s blockCursor;
     if h AND TAG_USED = 0 then do {
       let size' = SIZE h;
       s \<leftarrow> removeFreeBlock s blockCursor;
       coalesce_forward s (blockCursor + size') (newSize + size') }
     else Some (s, blockCursor, newSize) }"

definition coalesceFreeBlock :: "mm5 \<Rightarrow> nat \<Rightarrow> mm5 option" where
  "coalesceFreeBlock s oldBlock = do {
     h \<leftarrow> rd s oldBlock;
     let oldSize = SIZE h;
     (s, newBlock, newSize) \<leftarrow> coalesce_back s oldBlock oldSize;
     (s, blockCursor, newSize) \<leftarrow> coalesce_forward s (oldBlock + oldSize) newSize;
     if newSize \<noteq> oldSize then do {
       s \<leftarrow> removeFreeBlock s oldBlock;
       s \<leftarrow> wr s newBlock (newSize OR TAG_PRECEDING_USED);
       s \<leftarrow> wr s (blockCursor - WORD_SIZE) (newSize OR TAG_PRECEDING_USED);
       insertFreeBlock s newBlock }
     else Some s }"

section \<open>Growing the heap\<close>

text \<open>\<open>Inl\<close> is the end of the program with a status.\<close>

definition requestMoreSpace :: "nat \<Rightarrow> mm5 \<Rightarrow> nat \<Rightarrow> (int + mm5) option" where
  "requestMoreSpace pagesize s reqSize =
     (let numPages = ((reqSize + pagesize - 1) mod 2 ^ 64) div pagesize;
          totalSize = (numPages * pagesize) mod 2 ^ 64
      in case mem_sbrk5 (lib5 s) (of_nat totalSize) of
        (l, None) \<Rightarrow> Some (Inl 0)
      | (l, Some r) \<Rightarrow> do {
          let s = s\<lparr>lib5 := l\<rparr>;
          let newBlock = r - WORD_SIZE;
          h \<leftarrow> rd s newBlock;
          let prevLastWordMask = h AND TAG_PRECEDING_USED;
          s \<leftarrow> wr s newBlock (totalSize OR prevLastWordMask);
          s \<leftarrow> wr s (newBlock + (totalSize - WORD_SIZE)) (totalSize OR prevLastWordMask);
          s \<leftarrow> wr s (newBlock + totalSize) TAG_USED;
          s \<leftarrow> insertFreeBlock s newBlock;
          s \<leftarrow> coalesceFreeBlock s newBlock;
          Some (Inr s) })"

definition heap_footer :: "mm5 \<Rightarrow> nat" where
  "heap_footer s = nat (mem_heap_hi (lib5 s) - (int WORD_SIZE - 1))"

definition mm5_init :: "mm5 \<Rightarrow> (int + mm5) option" where
  "mm5_init s =
     (let initSize = WORD_SIZE + MIN_BLOCK_SIZE + WORD_SIZE in
      case mem_sbrk5 (lib5 s) (of_nat initSize) of
        (l, None) \<Rightarrow> Some (Inl 1)
      | (l, Some _) \<Rightarrow> do {
          let s = s\<lparr>lib5 := l\<rparr>;
          let firstFreeBlock = mem_heap_lo l + WORD_SIZE;
          let totalSize = initSize - WORD_SIZE - WORD_SIZE;
          s \<leftarrow> wr s firstFreeBlock (totalSize OR TAG_PRECEDING_USED);
          s \<leftarrow> wr s (next_of firstFreeBlock) 0;
          s \<leftarrow> wr s (prev_of firstFreeBlock) 0;
          s \<leftarrow> wr s (firstFreeBlock + (totalSize - WORD_SIZE)) (totalSize OR TAG_PRECEDING_USED);
          s \<leftarrow> wr s (heap_footer s) TAG_USED;
          s \<leftarrow> wr s (FREE_LIST_HEAD s) firstFreeBlock;
          Some (Inr s) })"

section \<open>Printing the heap\<close>

text \<open>
  What \<^verbatim>\<open>examine_heap\<close> prints of a block: its address, size and tags, and the two links when it is free.
\<close>

datatype heap_line =
  ALLOCATED nat nat nat nat
| FREE nat nat nat nat nat nat

partial_function (option) examine_from :: "mm5 \<Rightarrow> nat \<Rightarrow> heap_line list option" where
  "examine_from s block = do {
     h \<leftarrow> rd s block;
     if SIZE h \<noteq> 0 \<and> int block < mem_heap_hi (lib5 s) then do {
       line \<leftarrow> (if h AND TAG_USED \<noteq> 0 then Some (ALLOCATED block (SIZE h) (h AND TAG_PRECEDING_USED) (h AND TAG_USED))
                else do { n \<leftarrow> rd s (next_of block); p \<leftarrow> rd s (prev_of block);
                          Some (FREE block (SIZE h) (h AND TAG_PRECEDING_USED) (h AND TAG_USED) n p) });
       lines \<leftarrow> examine_from s (block + SIZE h);
       Some (line # lines) }
     else Some [] }"

definition examine_heap :: "mm5 \<Rightarrow> (nat \<times> heap_line list) option" where
  "examine_heap s = do {
     h \<leftarrow> rd s (FREE_LIST_HEAD s);
     lines \<leftarrow> examine_from s (mem_heap_lo (lib5 s) + WORD_SIZE);
     Some (h, lines) }"

section \<open>The functions that are left to the students\<close>

text \<open>The size that \<^verbatim>\<open>mm_malloc\<close> computes; nothing uses it.\<close>

definition mm5_reqSize :: "nat \<Rightarrow> nat" where
  "mm5_reqSize sz =
     (let sz = (sz + WORD_SIZE) mod 2 ^ 64 in
      if sz \<le> MIN_BLOCK_SIZE then MIN_BLOCK_SIZE else 8 * (((sz + 8 - 1) mod 2 ^ 64) div 8))"

definition mm5_malloc :: "mm5 \<Rightarrow> nat \<Rightarrow> mm5 \<times> nat" where
  "mm5_malloc s sz = (if sz = 0 then (s, 0) else let reqSize = mm5_reqSize sz in (s, 0))"

definition mm5_free :: "mm5 \<Rightarrow> nat \<Rightarrow> mm5" where
  "mm5_free s ptr = s"

definition mm5_check :: "mm5 \<Rightarrow> int" where
  "mm5_check s = 0"

definition mm5_realloc :: "mm5 \<Rightarrow> nat \<Rightarrow> nat \<Rightarrow> mm5 \<times> nat" where
  "mm5_realloc s ptr sz = (s, 0)"

section \<open>The garbage collector\<close>

partial_function (option) is_pointer_from :: "mm5 \<Rightarrow> nat \<Rightarrow> nat \<Rightarrow> bool option" where
  "is_pointer_from s ptr curBlock =
     (if curBlock < heap_footer s then do {
        sizeAndTags \<leftarrow> rd s curBlock;
        let payloadPtr = curBlock + WORD_SIZE;
        let allocated = sizeAndTags AND TAG_USED;
        if payloadPtr = ptr \<and> allocated \<noteq> 0 then Some True
        else is_pointer_from s ptr (curBlock + SIZE sizeAndTags) }
      else Some False)"

definition is_pointer :: "mm5 \<Rightarrow> nat \<Rightarrow> bool option" where
  "is_pointer s ptr = is_pointer_from s ptr (mem_heap_lo (lib5 s) + WORD_SIZE)"

definition mark :: "mm5 \<Rightarrow> nat \<Rightarrow> mm5" where
  "mark s ptr = s"

definition sweep :: "mm5 \<Rightarrow> mm5" where
  "sweep s = s"

definition mm_garbage_collect :: "mm5 \<Rightarrow> nat list \<Rightarrow> mm5" where
  "mm_garbage_collect s rootPtrs = sweep (fold (\<lambda>root s. mark s root) rootPtrs s)"

section \<open>The driver of the garbage collector\<close>

definition is_free :: "mm5 \<Rightarrow> nat \<Rightarrow> bool option" where
  "is_free s payloadPtr = do { sizeAndTags \<leftarrow> rd s (payloadPtr - WORD_SIZE); Some (sizeAndTags AND TAG_USED = 0) }"

text \<open>A store of an \<^verbatim>\<open>int\<close> changes the low half of its word.\<close>

definition wr_int :: "mm5 \<Rightarrow> nat \<Rightarrow> nat \<Rightarrow> mm5 option" where
  "wr_int s p v = do { w \<leftarrow> rd s p; wr s p (w - w mod 2 ^ 32 + v mod 2 ^ 32) }"

text \<open>The representation of the \<^verbatim>\<open>double\<close> nearest to 1.1.\<close>

definition double_1_1 :: nat where
  "double_1_1 = 4607632778762754458"

text \<open>The pointers to the blocks of the driver, and its roots.\<close>

record gc_blocks =
  block1 :: nat block2 :: nat block3 :: nat block4 :: nat block5 :: nat
  block6 :: nat block7 :: nat block8 :: nat block9 :: nat block10 :: nat
  roots :: "nat list"

text \<open>
  \<^verbatim>\<open>initialize_blocks\<close> with any allocator.  An \<^verbatim>\<open>obj_1\<close> has three pointers, an \<^verbatim>\<open>obj_2\<close> has five words
  and an \<^verbatim>\<open>obj_3\<close> one.
\<close>

definition initialize_blocks :: "(mm5 \<Rightarrow> nat \<Rightarrow> mm5 \<times> nat) \<Rightarrow> mm5 \<Rightarrow> (mm5 \<times> gc_blocks) option" where
  "initialize_blocks mm_malloc s = do {
     let (s, block1) = mm_malloc s 24;
     let (s, block2) = mm_malloc s 40;
     let (s, block3) = mm_malloc s 8;
     s \<leftarrow> wr s block1 block2;
     s \<leftarrow> wr s (block1 + 8) block3;
     s \<leftarrow> wr s (block1 + 16) 1;
     s \<leftarrow> wr_int s block2 1;
     s \<leftarrow> wr s (block2 + 8) 2;
     s \<leftarrow> wr_int s (block2 + 16) 999999999;
     s \<leftarrow> wr s (block2 + 24) double_1_1;
     s \<leftarrow> wr s (block2 + 32) 0;
     s \<leftarrow> wr s block3 0;
     let (s, block4) = mm_malloc s 8;
     s \<leftarrow> wr s block4 0;
     let (s, block7) = mm_malloc s 8;
     let (s, block8) = mm_malloc s 8;
     let (s, block9) = mm_malloc s 8;
     s \<leftarrow> wr s block7 block8;
     s \<leftarrow> wr s block8 block9;
     s \<leftarrow> wr s block9 block7;
     let (s, block10) = mm_malloc s 24;
     s \<leftarrow> wr s block10 0;
     s \<leftarrow> wr s (block10 + 8) block10;
     s \<leftarrow> wr s (block10 + 16) 0;
     let (s, block5) = mm_malloc s 40;
     let (s, block6) = mm_malloc s 24;
     s \<leftarrow> wr_int s block5 1393294;
     s \<leftarrow> wr s (block5 + 8) 333;
     s \<leftarrow> wr_int s (block5 + 16) 5;
     s \<leftarrow> wr s (block5 + 24) double_1_1;
     s \<leftarrow> wr s (block5 + 32) block6;
     s \<leftarrow> wr s block6 0;
     s \<leftarrow> wr s (block6 + 8) 7777;
     s \<leftarrow> wr s (block6 + 16) 0;
     Some (s, \<lparr>block1 = block1, block2 = block2, block3 = block3, block4 = block4, block5 = block5,
               block6 = block6, block7 = block7, block8 = block8, block9 = block9, block10 = block10,
               roots = [block1, block4, block5]\<rparr>) }"

text \<open>The tests of a disjunction stop at the first that holds.\<close>

fun any_free :: "mm5 \<Rightarrow> nat list \<Rightarrow> bool option" where
  "any_free s [] = Some False"
| "any_free s (p # ps) = do { f \<leftarrow> is_free s p; if f then Some True else any_free s ps }"

fun any_used :: "mm5 \<Rightarrow> nat list \<Rightarrow> bool option" where
  "any_used s [] = Some False"
| "any_used s (p # ps) = do { f \<leftarrow> is_free s p; if \<not> f then Some True else any_used s ps }"

datatype gc_message = Reachable_freed | Unreachable_not_freed | Passed

definition validate_garbage_collect :: "mm5 \<Rightarrow> gc_blocks \<Rightarrow> gc_message list option" where
  "validate_garbage_collect s b = do {
     f \<leftarrow> any_free s [block1 b, block2 b, block3 b, block4 b, block5 b, block6 b];
     u \<leftarrow> any_used s [block7 b, block8 b, block9 b, block10 b];
     Some ((if f then [Reachable_freed] else []) @ (if u then [Unreachable_not_freed] else []) @
           (if \<not> f \<and> \<not> u then [Passed] else [])) }"

text \<open>The driver over an allocator and a collector; \<open>Inl\<close> is an early end with a status.\<close>

definition gc_driver_with ::
  "(mm5 \<Rightarrow> nat \<Rightarrow> mm5 \<times> nat) \<Rightarrow> (mm5 \<Rightarrow> nat list \<Rightarrow> mm5) \<Rightarrow> nat \<Rightarrow> (nat \<Rightarrow> nat) \<Rightarrow> (int + gc_message list) option" where
  "gc_driver_with mm_malloc collect storage junk =
     (case mem_init storage of
        None \<Rightarrow> Some (Inl 1)
      | Some l \<Rightarrow>
          case mm5_init \<lparr>lib5 = mem_reset_brk l, words = junk\<rparr> of
            None \<Rightarrow> None
          | Some (Inl e) \<Rightarrow> Some (Inl e)
          | Some (Inr s) \<Rightarrow> do {
              (s, b) \<leftarrow> initialize_blocks mm_malloc s;
              msgs \<leftarrow> validate_garbage_collect (collect s (roots b)) b;
              Some (Inr msgs) })"

definition gc_driver_main :: "nat \<Rightarrow> (nat \<Rightarrow> nat) \<Rightarrow> (int + gc_message list) option" where
  "gc_driver_main = gc_driver_with mm5_malloc mm_garbage_collect"

end
