(* ===== verification/Lab5List.thy ===== *)
theory Lab5List
  imports Lab5Mm
begin

text \<open>
  The heap of the starter allocator: the tags of its blocks and its doubly linked free list, on which
  inserting and removing are the operations of a list.
\<close>

section \<open>Tags\<close>

definition tw :: "nat \<Rightarrow> bool \<Rightarrow> bool \<Rightarrow> nat" where
  "tw z pu u = z + 2 * of_bool pu + of_bool u"

lemma and_push_mask: "v AND push_bit n (mask k) = push_bit n (drop_bit n v AND mask k)" for v :: nat
  by (rule bit_eqI) (auto simp: bit_and_iff bit_push_bit_iff bit_drop_bit_eq)

lemma SIZE_eq: "x < 2 ^ 64 \<Longrightarrow> SIZE x = 8 * (x div 8)"
proof -
  assume v: "x < 2 ^ 64"
  have k: "(2 ^ 64 - 8 :: nat) = push_bit 3 (mask 61)"
    by (simp add: mask_eq_exp_minus_1 push_bit_eq_mult)
  have "drop_bit 3 x AND mask 61 = x div 8"
    using v by (simp add: drop_bit_eq_div take_bit_eq_mask [symmetric] take_bit_eq_mod)
  then show ?thesis unfolding SIZE_def k and_push_mask by (simp add: push_bit_eq_mult)
qed

lemma SIZE_add: "8 dvd z \<Longrightarrow> t < 8 \<Longrightarrow> z + t < 2 ^ 64 \<Longrightarrow> SIZE (z + t) = z"
  by (subst SIZE_eq) (auto elim!: dvdE)

lemma SIZE_tw: "8 dvd z \<Longrightarrow> z < 2 ^ 64 - 8 \<Longrightarrow> SIZE (tw z pu u) = z"
proof -
  assume a: "8 dvd z" "z < 2 ^ 64 - 8"
  have "(2 * of_bool pu + of_bool u :: nat) < 8" by (cases pu; cases u) auto
  moreover have "tw z pu u = z + (2 * of_bool pu + of_bool u)" by (simp add: tw_def)
  ultimately show ?thesis using a SIZE_add by simp
qed

lemma and_2: "v AND 2 = 2 * (v div 2 mod 2)" for v :: nat
proof -
  have k: "(2 :: nat) = push_bit 1 (mask 1)" by (simp add: mask_eq_exp_minus_1 push_bit_eq_mult)
  have "v AND 2 = push_bit 1 (drop_bit 1 v AND mask 1)" by (subst k) (rule and_push_mask)
  then show ?thesis by (simp add: push_bit_eq_mult drop_bit_eq_div take_bit_eq_mask [symmetric] take_bit_eq_mod)
qed

lemma tw_preceding: "8 dvd z \<Longrightarrow> tw z pu u AND TAG_PRECEDING_USED = 2 * of_bool pu"
  unfolding TAG_PRECEDING_USED_def and_2 tw_def by (cases pu; cases u; elim dvdE; simp; presburger)

lemma tw_used: "8 dvd z \<Longrightarrow> tw z pu u AND TAG_USED = of_bool u"
  unfolding TAG_USED_def and_one_eq tw_def by (cases pu; cases u; elim dvdE; simp; presburger)

lemma or_preceding: "8 dvd z \<Longrightarrow> z OR (2 * of_bool pu) = tw z pu False" for z :: nat
proof -
  assume "8 dvd z"
  then obtain k where k: "z = push_bit 3 k" by (auto elim!: dvdE simp: push_bit_eq_mult mult.commute)
  have "z OR (2 * of_bool pu) = z + 2 * of_bool pu"
  proof (rule disjunctive_add [symmetric])
    fix n
    have "\<not> bit z n" if "n < 3" using that by (simp add: k bit_push_bit_iff)
    moreover have "\<not> bit (2 * of_bool pu :: nat) n" if "3 \<le> n"
    proof -
      have "(2 :: nat) ^ 3 \<le> 2 ^ n" using that by (rule power_increasing) simp
      then have "2 * of_bool pu < (2 :: nat) ^ n" by (cases pu) simp_all
      then show ?thesis by (simp add: bit_iff_odd)
    qed
    ultimately show "\<not> bit z n \<or> \<not> bit (2 * of_bool pu :: nat) n" by (cases "n < 3") auto
  qed
  then show ?thesis by (simp add: tw_def)
qed

section \<open>Headers and footers\<close>

fun hdrs :: "(nat \<Rightarrow> nat) \<Rightarrow> nat \<Rightarrow> bool \<Rightarrow> block list \<Rightarrow> bool" where
  "hdrs W a pu [] \<longleftrightarrow> True"
| "hdrs W a pu ((z, u) # bs) \<longleftrightarrow> W a = tw z pu u \<and> (\<not> u \<longrightarrow> SIZE (W (a + z - 8)) = z) \<and> hdrs W (a + z) u bs"

definition lastu :: "bool \<Rightarrow> block list \<Rightarrow> bool" where
  "lastu pu bs = (if bs = [] then pu else snd (last bs))"

lemma lastu_simps [simp]: "lastu pu [] = pu" "lastu pu (bs @ [(z, u)]) = u" "lastu pu ((z, u) # bs) = lastu u bs"
  by (auto simp: lastu_def)

lemma lastu_append [simp]: "lastu pu (xs @ ys) = lastu (lastu pu xs) ys"
  by (simp add: lastu_def)

lemma hdrs_append [simp]: "hdrs W a pu (xs @ ys) \<longleftrightarrow> hdrs W a pu xs \<and> hdrs W (a + tot xs) (lastu pu xs) ys"
  by (induction W a pu xs rule: hdrs.induct) (auto simp: add.assoc)

definition wf5 :: "block list \<Rightarrow> bool" where
  "wf5 bs \<longleftrightarrow> (\<forall>(z, u) \<in> set bs. 32 \<le> z \<and> 8 dvd z)"

lemma wf5_simps [simp]:
  "wf5 []" "wf5 ((z, u) # bs) \<longleftrightarrow> 32 \<le> z \<and> 8 dvd z \<and> wf5 bs" "wf5 (xs @ ys) \<longleftrightarrow> wf5 xs \<and> wf5 ys"
  by (auto simp: wf5_def)

lemma wf5_wfb: "wf5 bs \<Longrightarrow> wfb bs"
  by (induction bs) auto

lemma block_apart:
  "(x, z, u) \<in> set (blks a bs) \<Longrightarrow> f \<in> starts a bs \<Longrightarrow> wf5 bs \<Longrightarrow> 8 dvd a \<Longrightarrow> f = x \<or> f + 32 \<le> x \<or> x + z \<le> f"
proof (induction a bs rule: blks.induct)
  case (2 a w bl bs)
  have wf: "wfb bs" "8 dvd a + w" using 2 wf5_wfb by auto
  show ?case
    using 2 starts_bounds [of f "a + w" bs] blks_bounds [of x z u "a + w" bs] wf by auto
qed simp

lemma block_size: "(x, z, u) \<in> set (blks a bs) \<Longrightarrow> wf5 bs \<Longrightarrow> 32 \<le> z"
  by (induction a bs rule: blks.induct) auto

text \<open>The words that the operations on the free list change.\<close>

definition links :: "nat \<Rightarrow> nat set \<Rightarrow> (nat \<Rightarrow> nat) \<Rightarrow> (nat \<Rightarrow> nat) \<Rightarrow> bool" where
  "links lo F W W' \<longleftrightarrow> (\<forall>q. W' q \<noteq> W q \<longrightarrow> q = lo \<or> (\<exists>f\<in>F. q = f + 8 \<or> q = f + 16))"

lemma links_update:
  "links lo F W W" "links lo F W W' \<Longrightarrow> links lo F W (W'(lo := v))"
  "links lo F W W' \<Longrightarrow> f \<in> F \<Longrightarrow> links lo F W (W'(f + 8 := v))"
  "links lo F W W' \<Longrightarrow> f \<in> F \<Longrightarrow> links lo F W (W'(f + 16 := v))"
  unfolding links_def by auto

lemma links_trans: "links lo F W W' \<Longrightarrow> links lo F W' W'' \<Longrightarrow> links lo F W W''"
  unfolding links_def by metis

lemma hdrs_cong:
  "(\<And>x z u. (x, z, u) \<in> set (blks a bs) \<Longrightarrow> W' x = W x \<and> W' (x + z - 8) = W (x + z - 8)) \<Longrightarrow> hdrs W' a pu bs = hdrs W a pu bs"
proof (induction W a pu bs rule: hdrs.induct)
  case (2 W a pu z u bs)
  have "W' a = W a \<and> W' (a + z - 8) = W (a + z - 8)" using 2(2) [of a z u] by simp
  moreover have "hdrs W' (a + z) u bs = hdrs W (a + z) u bs" 
  proof (rule 2(1))
    fix x za ua assume "(x, za, ua) \<in> set (blks (a + z) bs)"
    then show "W' x = W x \<and> W' (x + za - 8) = W (x + za - 8)" using 2(2) [of x za ua] by simp
  qed
  ultimately show ?case by simp
qed simp

lemma hdrs_links:
  assumes "links lo F W W'" and "F \<subseteq> starts a bs" and "wf5 bs" and "8 dvd a" and "lo + 8 \<le> a"
  shows "hdrs W' a pu bs = hdrs W a pu bs" "W' (a + tot bs) = W (a + tot bs)"
proof -
  have wf: "wfb bs" using assms(3) by (rule wf5_wfb)
  have same: "W' q = W q" if "q \<noteq> lo" "\<And>f. f \<in> F \<Longrightarrow> q \<noteq> f + 8 \<and> q \<noteq> f + 16" for q
    using assms(1) that unfolding links_def by blast
  show "hdrs W' a pu bs = hdrs W a pu bs"
  proof (rule hdrs_cong)
    fix x z u assume b: "(x, z, u) \<in> set (blks a bs)"
    have bd: "a \<le> x" "32 \<le> z" using blks_bounds [OF b wf assms(4)] block_size [OF b assms(3)] by auto
    have ne: "q \<noteq> f + 8 \<and> q \<noteq> f + 16" if "q = x \<or> q = x + z - 8" "f \<in> F" for q f
    proof -
      have "f \<in> starts a bs" using that(2) assms(2) by blast
      from block_apart [OF b this assms(3,4)] show ?thesis using that(1) bd by auto
    qed
    show "W' x = W x \<and> W' (x + z - 8) = W (x + z - 8)"
      using ne bd assms(5) by (intro conjI same) auto
  qed
  have "a + tot bs \<noteq> f + 8 \<and> a + tot bs \<noteq> f + 16" if "f \<in> F" for f
  proof -
    have "f \<in> starts a bs" using that assms(2) by blast
    then obtain z u where b: "(f, z, u) \<in> set (blks a bs)" unfolding starts_def by blast
    show ?thesis using blks_bounds [OF b wf assms(4)] block_size [OF b assms(3)] by auto
  qed
  then show "W' (a + tot bs) = W (a + tot bs)" using assms(5) by (intro same) auto
qed

section \<open>The free list\<close>

text \<open>The list from the pointer \<open>n\<close> on, whose first block has the predecessor \<open>p\<close>.\<close>

fun flist :: "(nat \<Rightarrow> nat) \<Rightarrow> nat \<Rightarrow> nat \<Rightarrow> nat list \<Rightarrow> bool" where
  "flist W n p [] \<longleftrightarrow> n = 0"
| "flist W n p (f # fs) \<longleftrightarrow> n = f \<and> f \<noteq> 0 \<and> W (f + 16) = p \<and> flist W (W (f + 8)) f fs"

definition hd0 :: "nat list \<Rightarrow> nat" where
  "hd0 fs = (case fs of [] \<Rightarrow> 0 | f # _ \<Rightarrow> f)"

lemma hd0_simps [simp]: "hd0 [] = 0" "hd0 (f # fs) = f"
  by (simp_all add: hd0_def)

lemma flist_cong:
  "(\<And>f. f \<in> set fs \<Longrightarrow> W' (f + 8) = W (f + 8) \<and> W' (f + 16) = W (f + 16)) \<Longrightarrow> flist W' n p fs = flist W n p fs"
  by (induction W n p fs rule: flist.induct) auto

lemma flist_hd: "flist W n p fs \<Longrightarrow> n = hd0 fs"
  by (cases fs) auto

lemma flist_mid:
  "flist W n p (us @ b # vs) \<Longrightarrow> b \<noteq> 0 \<and> W (b + 8) = hd0 vs \<and> W (b + 16) = last (p # us)"
proof (induction us arbitrary: n p)
  case Nil
  then have "b \<noteq> 0" "W (b + 16) = p" "flist W (W (b + 8)) b vs" by auto
  then show ?case using flist_hd [of W "W (b + 8)" b vs] by simp
next
  case (Cons u us)
  then have "flist W (W (u + 8)) u (us @ b # vs)" by simp
  from Cons.IH [OF this] show ?case by simp
qed

text \<open>Blocks that do not overlap.\<close>

definition apart :: "nat set \<Rightarrow> bool" where
  "apart F \<longleftrightarrow> (\<forall>f\<in>F. \<forall>g\<in>F. f = g \<or> f + 32 \<le> g \<or> g + 32 \<le> f)"

lemma apart5_mono: "apart F \<Longrightarrow> G \<subseteq> F \<Longrightarrow> apart G"
  by (auto simp: apart_def)

lemma apart_ne:
  "apart F \<Longrightarrow> f \<in> F \<Longrightarrow> g \<in> F \<Longrightarrow> f + 8 \<noteq> g + 16 \<and> g + 8 \<noteq> f + 16 \<and> (f \<noteq> g \<longrightarrow> f + 8 \<noteq> g + 8 \<and> f + 16 \<noteq> g + 16)"
proof -
  assume "apart F" "f \<in> F" "g \<in> F"
  then have "f = g \<or> f + 32 \<le> g \<or> g + 32 \<le> f" unfolding apart_def by blast
  then show ?thesis by auto
qed

definition unlink :: "(nat \<Rightarrow> nat) \<Rightarrow> nat list \<Rightarrow> nat list \<Rightarrow> nat \<Rightarrow> nat \<Rightarrow> nat" where
  "unlink W us vs p =
     (let W = (if vs = [] then W else W(hd vs + 16 := last (p # us)))
      in if us = [] then W else W(last us + 8 := hd0 vs))"

lemma unlink_front [simp]: "unlink W [] [] p = W" "unlink W [] (v # ws) p = W(v + 16 := p)"
  by (simp_all add: unlink_def)

lemma unlink_flist:
  assumes "flist W n p (us @ b # vs)" and "apart (set (us @ b # vs))" and "distinct (us @ b # vs)"
  shows "flist (unlink W us vs p) (if us = [] then hd0 vs else n) p (us @ vs)"
  using assms
proof (induction us arbitrary: n p)
  case Nil
  show ?case
  proof (cases vs)
    case (Cons v ws)
    have c: "flist (W(v + 16 := p)) (W (v + 8)) v ws = flist W (W (v + 8)) v ws"
    proof (rule flist_cong)
      fix f assume f: "f \<in> set ws"
      then have "f \<noteq> v" "f \<in> set ([] @ b # vs)" "v \<in> set ([] @ b # vs)" using Nil.prems(3) Cons by auto
      then show "(W(v + 16 := p)) (f + 8) = W (f + 8) \<and> (W(v + 16 := p)) (f + 16) = W (f + 16)"
        using apart_ne [OF Nil.prems(2), of f v] by simp
    qed
    have l: "v \<noteq> 0" "flist W (W (v + 8)) v ws" using Nil.prems(1) Cons by simp_all
    have "flist (W(v + 16 := p)) v p (v # ws)" using l c by simp
    then show ?thesis by (simp only: Cons unlink_front hd0_simps append_Nil simp_thms if_True)
  qed simp
next
  case (Cons u us)
  let ?W = "unlink W (u # us) vs p"
  have n: "n = u" "u \<noteq> 0" "W (u + 16) = p" "flist W (W (u + 8)) u (us @ b # vs)" using Cons.prems by auto
  have ap: "apart (set (us @ b # vs))" "distinct (us @ b # vs)"
    using Cons.prems by (auto intro: apart5_mono)
  note ne = apart_ne [OF Cons.prems(2)]
  let ?l = "last (u # us)"
  have l: "?l \<in> set (u # us)" by (rule last_in_set) simp
  have W: "?W = (if vs = [] then W else W(hd vs + 16 := ?l))(?l + 8 := hd0 vs)"
    unfolding unlink_def Let_def by simp
  have v: "vs \<noteq> [] \<Longrightarrow> hd vs \<in> set ((u # us) @ b # vs) \<and> hd vs \<notin> set (u # us)"
    using Cons.prems(3) hd_in_set [of vs] by auto
  have ul: "u \<in> set ((u # us) @ b # vs)" "?l \<in> set ((u # us) @ b # vs)" using l by auto
  have u16: "?W (u + 16) = p"
  proof (cases "vs = []")
    case True
    show ?thesis using n(3) ne [OF ul] True unfolding W by auto
  next
    case False
    then have "hd vs \<noteq> u" using v by auto
    then show ?thesis using n(3) ne [OF ul] False unfolding W by auto
  qed
  show ?case
  proof (cases us)
    case Nil
    have "flist (unlink W [] vs u) (hd0 vs) u vs" using Cons.IH [OF n(4) ap] Nil by simp
    moreover have "unlink W (u # us) vs p = (unlink W [] vs u)(u + 8 := hd0 vs)"
      using Nil by (simp add: unlink_def Let_def)
    moreover have "flist ((unlink W [] vs u)(u + 8 := hd0 vs)) (hd0 vs) u vs = flist (unlink W [] vs u) (hd0 vs) u vs"
      using Cons.prems ne [of _ u] by (intro flist_cong) auto
    ultimately have "flist ?W (hd0 vs) u vs" by simp
    moreover have "?W (u + 8) = hd0 vs" using Nil unfolding W by simp
    ultimately show ?thesis using n(1,2) u16 Nil by (simp del: fun_upd_apply)
  next
    case (Cons w ws)
    have "?l \<in> set us" using Cons by (auto intro!: last_in_set)
    then have ul': "?l \<noteq> u" using Cons.prems(3) by auto
    then have ul': "?l + 8 \<noteq> u + 8" by simp
    have "flist (unlink W us vs u) (W (u + 8)) u (us @ vs)" using Cons.IH [OF n(4) ap] Cons by simp
    moreover have "?W = unlink W us vs u" using Cons by (simp add: unlink_def Let_def)
    moreover have "unlink W (u # us) vs p (u + 8) = W (u + 8)"
    proof (cases "vs = []")
      case True
      show ?thesis using ul' True unfolding W by auto
    next
      case False
      then show ?thesis using ul' v ne [OF ul(1), of "hd vs"] unfolding W by auto
    qed
    ultimately have "flist ?W (?W (u + 8)) u (us @ vs)" by simp
    then show ?thesis using n(1,2) u16 by (simp del: fun_upd_apply)
  qed
qed


section \<open>Inserting and removing\<close>

abbreviation lo5 :: "mm5 \<Rightarrow> nat" where "lo5 s \<equiv> mem_start_brk (lib5 s)"
abbreviation max5 :: "mm5 \<Rightarrow> nat" where "max5 s \<equiv> mem_max_addr (lib5 s)"

text \<open>The free list holds the blocks \<open>fl\<close>, which are among the blocks \<open>F\<close> of the storage.\<close>

definition list5 :: "mm5 \<Rightarrow> nat set \<Rightarrow> nat list \<Rightarrow> bool" where
  "list5 s F fl \<longleftrightarrow> 8 dvd lo5 s \<and> 0 < lo5 s \<and> max5 s \<le> 2 ^ 63 \<and> lo5 s + 8 \<le> max5 s \<and>
     (\<forall>f\<in>F. lo5 s + 8 \<le> f \<and> f + 32 \<le> max5 s \<and> 8 dvd f) \<and> apart F \<and>
     set fl \<subseteq> F \<and> distinct fl \<and> flist (words s) (words s (lo5 s)) 0 fl"

definition at5 :: "mm5 \<Rightarrow> nat \<Rightarrow> bool" where
  "at5 s p \<longleftrightarrow> 8 dvd p \<and> lo5 s \<le> p \<and> p + 8 \<le> max5 s"

lemma rd_at [simp]: "at5 s p \<Longrightarrow> rd s p = Some (words s p)"
  by (simp add: rd_def valid5_def at5_def)

lemma wr_at [simp]: "at5 s p \<Longrightarrow> v < 2 ^ 64 \<Longrightarrow> wr s p v = Some (s\<lparr>words := (words s)(p := v)\<rparr>)"
  by (simp add: wr_def valid5_def at5_def)

lemma at5_words [simp]: "at5 (s\<lparr>words := W\<rparr>) p = at5 s p"
  by (simp add: at5_def)

lemma list5_at:
  assumes "list5 s F fl"
  shows "at5 s (lo5 s)" "f \<in> F \<Longrightarrow> at5 s f \<and> at5 s (f + 8) \<and> at5 s (f + 16) \<and> f < 2 ^ 64 \<and> f \<noteq> 0 \<and> f + 8 \<noteq> lo5 s \<and> f + 16 \<noteq> lo5 s"
proof -
  show "at5 s (lo5 s)" using assms by (simp add: list5_def at5_def)
  assume "f \<in> F"
  then have f: "lo5 s + 8 \<le> f" "f + 32 \<le> max5 s" "8 dvd f" "0 < lo5 s" "max5 s \<le> 2 ^ 63"
    using assms unfolding list5_def by auto
  have "8 dvd f + 8" "8 dvd f + 16" using f(3) by (auto intro!: dvd_add)
  then show "at5 s f \<and> at5 s (f + 8) \<and> at5 s (f + 16) \<and> f < 2 ^ 64 \<and> f \<noteq> 0 \<and> f + 8 \<noteq> lo5 s \<and> f + 16 \<noteq> lo5 s"
    using f by (simp add: at5_def)
qed

lemmas fields5 = FREE_LIST_HEAD_def mem_heap_lo_def next_of_def prev_of_def WORD_SIZE_def

lemma insert_ok:
  assumes l: "list5 s F fl" and b: "b \<in> F" "b \<notin> set fl"
  shows "\<exists>W. insertFreeBlock s b = Some (s\<lparr>words := W\<rparr>) \<and> list5 (s\<lparr>words := W\<rparr>) F (b # fl) \<and>
           links (lo5 s) F (words s) W"
proof -
  let ?lo = "lo5 s"
  note at = list5_at [OF l]
  have fl: "flist (words s) (words s ?lo) 0 fl" "distinct fl" "set fl \<subseteq> F" "apart F" using l by (auto simp: list5_def)
  have h: "words s ?lo = hd0 fl" using flist_hd [OF fl(1)] .
  show ?thesis
  proof (cases fl)
    case Nil
    define W where "W = (words s)(b + 8 := 0, b + 16 := 0, ?lo := b)"
    have "insertFreeBlock s b = Some (s\<lparr>words := W\<rparr>)"
      using at(1) at(2) [OF b(1)] h Nil unfolding insertFreeBlock_def fields5 W_def by simp
    moreover have "flist W (W ?lo) 0 (b # fl)" using at(2) [OF b(1)] Nil by (simp add: W_def)
    moreover have "links ?lo F (words s) W" using b(1) unfolding W_def by (intro links_update)
    ultimately show ?thesis using l b unfolding list5_def by auto
  next
    case (Cons f fs)
    define W where "W = (words s)(b + 8 := f, f + 16 := b, b + 16 := 0, ?lo := b)"
    have f: "f \<in> F" "f \<noteq> b" using Cons fl b by auto
    have ne: "\<And>g. g \<in> F \<Longrightarrow> g + 8 \<noteq> ?lo \<and> g + 16 \<noteq> ?lo" using at(2) by blast
    have "insertFreeBlock s b = Some (s\<lparr>words := W\<rparr>)"
      using at(1) at(2) [OF b(1)] at(2) [OF f(1)] h Cons unfolding insertFreeBlock_def fields5 W_def by simp
    moreover have "flist W (W ?lo) 0 (b # fl)"
    proof -
      have "flist W (words s (f + 8)) f fs = flist (words s) (words s (f + 8)) f fs"
      proof (rule flist_cong)
        fix g assume g: "g \<in> set fs"
        then have "g \<in> F" "g \<noteq> f" "g \<noteq> b" using Cons fl b by auto
        then show "W (g + 8) = words s (g + 8) \<and> W (g + 16) = words s (g + 16)"
          using apart_ne [OF fl(4) _ f(1), of g] apart_ne [OF fl(4) _ b(1), of g] ne [of g] by (simp add: W_def)
      qed
      moreover have "W (f + 8) = words s (f + 8)" "W (f + 16) = b" "W (b + 8) = f" "W (b + 16) = 0" "W ?lo = b"
        using apart_ne [OF fl(4) b(1) f(1)] f(2) ne [OF f(1)] ne [OF b(1)] by (auto simp: W_def)
      ultimately show ?thesis using at(2) [OF b(1)] fl(1) h Cons by simp
    qed
    moreover have "links ?lo F (words s) W" using b(1) f(1) unfolding W_def by (intro links_update)
    ultimately show ?thesis using l b unfolding list5_def by auto
  qed
qed

lemma remove_ok:
  assumes l: "list5 s F (us @ b # vs)"
  shows "\<exists>W. removeFreeBlock s b = Some (s\<lparr>words := W\<rparr>) \<and> list5 (s\<lparr>words := W\<rparr>) F (us @ vs) \<and>
           links (lo5 s) F (words s) W"
proof -
  let ?lo = "lo5 s" and ?W = "words s"
  note at = list5_at [OF l]
  have fl: "flist ?W (?W ?lo) 0 (us @ b # vs)" "distinct (us @ b # vs)" "set (us @ b # vs) \<subseteq> F" "apart F"
    using l by (auto simp: list5_def)
  have bF: "b \<in> F" using fl(3) by auto
  have ap: "apart (set (us @ b # vs))" using fl(3,4) by (rule apart5_mono [rotated])
  note mid = flist_mid [OF fl(1)] and un = unlink_flist [OF fl(1) ap fl(2)]
  have h: "?W ?lo = hd0 (us @ b # vs)" using flist_hd [OF fl(1)] .
  have ne: "\<And>g. g \<in> F \<Longrightarrow> g + 8 \<noteq> ?lo \<and> g + 16 \<noteq> ?lo" using at(2) by blast
  have head: "\<And>W. W ?lo = ?W ?lo \<Longrightarrow> b = W ?lo \<longleftrightarrow> us = []" using h fl(2) by (cases us) auto
  define W where "W = (if us = [] then (unlink ?W us vs 0)(?lo := hd0 vs) else unlink ?W us vs 0)"
  have vsF: "vs \<noteq> [] \<Longrightarrow> hd0 vs \<in> F \<and> hd0 vs = hd vs" using fl(3) by (cases vs) auto
  have usF: "us \<noteq> [] \<Longrightarrow> last us \<in> F \<and> last (0 # us) = last us" using fl(3) last_in_set [of us] by auto
  have "removeFreeBlock s b = Some (s\<lparr>words := W\<rparr>)"
  proof (cases "us = []")
    case True
    then show ?thesis 
      using at(1) at(2) [OF bF] at(2) [of "hd vs"] mid head [of "?W(hd vs + 16 := 0)"] head [of ?W] vsF ne [of "hd vs"]
      by (cases vs) (simp_all add: removeFreeBlock_def fields5 W_def)
  next
    case False
    then show ?thesis 
      using at(1) at(2) [OF bF] at(2) [of "hd vs"] at(2) [of "last us"] mid usF head [of "?W(hd vs + 16 := last us)"] head [of ?W] vsF ne [of "hd vs"]
      by (cases vs) (simp_all add: removeFreeBlock_def fields5 W_def unlink_def)
  qed
  moreover have "flist W (W ?lo) 0 (us @ vs)"
  proof (cases "us = []")
    case True
    have "flist W (hd0 vs) 0 (us @ vs) = flist (unlink ?W us vs 0) (hd0 vs) 0 (us @ vs)"
      using ne fl(3) True by (intro flist_cong) (auto simp: W_def)
    then show ?thesis using un True by (simp add: W_def)
  next
    case False
    then have "unlink ?W us vs 0 ?lo = ?W ?lo"
      using ne [of "hd vs"] ne [of "last us"] usF vsF by (auto simp: unlink_def Let_def)
    then show ?thesis using un False by (simp add: W_def)
  qed
  moreover have "links ?lo F ?W W"
    using usF vsF unfolding W_def unlink_def Let_def by (auto intro!: links_update)
  ultimately show ?thesis using l unfolding list5_def by auto
qed

end
