(* ===== verification/Lab5Heap.thy ===== *)
theory Lab5Heap
  imports Lab5List
begin

text \<open>
  The invariant of the heap of the starter allocator, and what coalescing and growing the heap do to
  the sequence of its blocks.
\<close>

section \<open>The invariant\<close>

abbreviation first5 :: "mm5 \<Rightarrow> nat" where "first5 s \<equiv> lo5 s + 8"

text \<open>
  The head of the free list, the blocks \<open>bs\<close> and the word that ends the heap fill the storage up to the
  break; \<open>fl\<close> is the free list.
\<close>

definition core5 :: "mm5 \<Rightarrow> block list \<Rightarrow> nat list \<Rightarrow> bool" where
  "core5 s bs fl \<longleftrightarrow> 8 dvd lo5 s \<and> 0 < lo5 s \<and> max5 s \<le> 2 ^ 63 \<and> mem_brk (lib5 s) = lo5 s + 16 + tot bs \<and>
     mem_brk (lib5 s) \<le> max5 s \<and> wf5 bs \<and> hdrs (words s) (first5 s) True bs \<and>
     words s (first5 s + tot bs) = tw 0 (lastu True bs) True \<and>
     set fl \<subseteq> frees (first5 s) bs \<and> distinct fl \<and> flist (words s) (words s (lo5 s)) 0 fl"

definition heap5 :: "mm5 \<Rightarrow> block list \<Rightarrow> nat list \<Rightarrow> bool" where
  "heap5 s bs fl \<longleftrightarrow> core5 s bs fl \<and> set fl = frees (first5 s) bs"

lemma wf5_apart: "wf5 bs \<Longrightarrow> 8 dvd a \<Longrightarrow> apart (starts a bs)"
  unfolding apart_def
proof (intro ballI)
  fix f g assume wf: "wf5 bs" "8 dvd a" and f: "f \<in> starts a bs" and g: "g \<in> starts a bs"
  obtain z u where "(g, z, u) \<in> set (blks a bs)" using g unfolding starts_def by blast
  from block_apart [OF this f wf] block_size [OF this wf(1)] show "f = g \<or> f + 32 \<le> g \<or> g + 32 \<le> f" by auto
qed

lemma starts5_bounds:
  assumes "x \<in> starts a bs" and "wf5 bs" and "8 dvd a"
  shows "a \<le> x \<and> x + 32 \<le> a + tot bs \<and> 8 dvd x"
proof -
  obtain z u where "(x, z, u) \<in> set (blks a bs)" using assms(1) unfolding starts_def by blast
  from blks_bounds [OF this wf5_wfb [OF assms(2)] assms(3)] block_size [OF this assms(2)] show ?thesis by auto
qed

lemma core5_list5: "core5 s bs fl \<Longrightarrow> list5 s (starts (first5 s) bs) fl"
proof -
  assume c: "core5 s bs fl"
  then have d: "8 dvd first5 s" "wf5 bs" by (auto simp: core5_def intro: dvd_add)
  have "\<forall>f\<in>starts (first5 s) bs. first5 s \<le> f \<and> f + 32 \<le> max5 s \<and> 8 dvd f"
    using starts5_bounds [OF _ d(2,1)] c unfolding core5_def by fastforce
  then show ?thesis
    using c wf5_apart [OF d(2,1)] frees_starts [of "first5 s" bs] unfolding list5_def core5_def by auto
qed

text \<open>The changes of the list operations keep the blocks.\<close>

lemma core5_links:
  assumes c: "core5 s bs fl" and l: "links (lo5 s) (starts (first5 s) bs) (words s) W"
    and l5: "list5 (s\<lparr>words := W\<rparr>) F fl'" and fl: "set fl' \<subseteq> frees (first5 s) bs"
  shows "core5 (s\<lparr>words := W\<rparr>) bs fl'"
proof -
  have d: "8 dvd first5 s" "wf5 bs" using c by (auto simp: core5_def intro: dvd_add)
  show ?thesis
    using c hdrs_links [OF l order_refl d(2,1)] l5 fl unfolding core5_def list5_def by simp
qed

lemma core5_remove:
  assumes "core5 s bs (us @ b # vs)"
  shows "\<exists>W. removeFreeBlock s b = Some (s\<lparr>words := W\<rparr>) \<and> core5 (s\<lparr>words := W\<rparr>) bs (us @ vs)"
proof -
  obtain W where W: "removeFreeBlock s b = Some (s\<lparr>words := W\<rparr>)"
      "list5 (s\<lparr>words := W\<rparr>) (starts (first5 s) bs) (us @ vs)" "links (lo5 s) (starts (first5 s) bs) (words s) W"
    using remove_ok [OF core5_list5 [OF assms]] by blast
  moreover have "set (us @ vs) \<subseteq> frees (first5 s) bs" using assms by (auto simp: core5_def)
  ultimately show ?thesis using core5_links [OF assms W(3,2)] by blast
qed

lemma core5_delete:
  assumes "core5 s bs fl" and "b \<in> set fl"
  shows "\<exists>W fl'. removeFreeBlock s b = Some (s\<lparr>words := W\<rparr>) \<and> core5 (s\<lparr>words := W\<rparr>) bs fl' \<and>
           set fl' = set fl - {b}"
proof -
  obtain us vs where fl: "fl = us @ b # vs" using assms(2) by (meson split_list)
  have "distinct fl" using assms(1) by (simp add: core5_def)
  then have "set (us @ vs) = set fl - {b}" unfolding fl by auto
  with core5_remove [OF assms(1) [unfolded fl]] show ?thesis by blast
qed

lemma core5_insert:
  assumes c: "core5 s bs fl" and b: "b \<in> frees (first5 s) bs" "b \<notin> set fl"
  shows "\<exists>W. insertFreeBlock s b = Some (s\<lparr>words := W\<rparr>) \<and> core5 (s\<lparr>words := W\<rparr>) bs (b # fl)"
proof -
  have "b \<in> starts (first5 s) bs" using b(1) frees_starts by blast
  then obtain W where W: "insertFreeBlock s b = Some (s\<lparr>words := W\<rparr>)"
      "list5 (s\<lparr>words := W\<rparr>) (starts (first5 s) bs) (b # fl)" "links (lo5 s) (starts (first5 s) bs) (words s) W"
    using insert_ok [OF core5_list5 [OF c] _ b(2)] by blast
  moreover have "set (b # fl) \<subseteq> frees (first5 s) bs" using c b(1) by (simp add: core5_def)
  ultimately show ?thesis using core5_links [OF c W(3,2)] by blast
qed

text \<open>What the header of a block, or the word that ends the heap, says.\<close>

lemma core5_header:
  assumes c: "core5 s (xs @ ys) fl"
  shows "\<exists>h. rd s (first5 s + tot xs) = Some h \<and> h AND TAG_PRECEDING_USED = 2 * of_bool (lastu True xs) \<and>
           (case ys of [] \<Rightarrow> h AND TAG_USED = 1 | (z, u) # _ \<Rightarrow> SIZE h = z \<and> h AND TAG_USED = of_bool u)"
proof -
  have at: "at5 s (first5 s + tot xs)"
    using c tot_dvd [of xs] wf5_wfb unfolding core5_def at5_def by (auto intro!: dvd_add)
  show ?thesis
  proof (cases ys)
    case Nil
    then have "words s (first5 s + tot xs) = tw 0 (lastu True xs) True" using c by (simp add: core5_def)
    then show ?thesis using at Nil tw_preceding [of 0] tw_used [of 0] by simp
  next
    case (Cons y ys')
    obtain z u where y: "y = (z, u)" by (cases y)
    have "words s (first5 s + tot xs) = tw z (lastu True xs) u" "8 dvd z" "z < 2 ^ 64 - 8"
      using c Cons y unfolding core5_def by auto
    then show ?thesis using at Cons y SIZE_tw tw_preceding tw_used by simp
  qed
qed

lemma core5_footer:
  assumes c: "core5 s (xs @ (z, False) # ys) fl"
  shows "\<exists>f. rd s (first5 s + tot xs + z - 8) = Some f \<and> SIZE f = z"
proof -
  have z: "32 \<le> z" "8 dvd z" "8 dvd first5 s + tot xs" "SIZE (words s (first5 s + tot xs + z - 8)) = z"
    using c tot_dvd [of xs] wf5_wfb unfolding core5_def by (auto intro!: dvd_add)
  have "8 dvd first5 s + tot xs + z - 8" using z(2,3) by (intro dvd_diff_nat dvd_add [of _ "first5 s + tot xs" z]) auto
  then have "at5 s (first5 s + tot xs + z - 8)" using c z(1) unfolding core5_def at5_def by auto
  then show ?thesis using z by simp
qed


section \<open>The loops of the coalescing\<close>

definition all_free :: "block list \<Rightarrow> bool" where
  "all_free bs \<longleftrightarrow> (\<forall>b\<in>set bs. \<not> snd b)"

lemma all_free_simps [simp]:
  "all_free []" "all_free ((z, u) # bs) \<longleftrightarrow> \<not> u \<and> all_free bs" "all_free (xs @ ys) \<longleftrightarrow> all_free xs \<and> all_free ys"
  by (auto simp: all_free_def)

lemma all_free_frees: "all_free bs \<Longrightarrow> starts a bs = frees a bs"
  by (induction a bs rule: blks.induct) auto

lemma all_free_lastu: "all_free bs \<Longrightarrow> bs \<noteq> [] \<Longrightarrow> \<not> lastu pu bs"
  by (simp add: lastu_def all_free_def)

lemma coalesce_back_run:
  assumes "core5 s (xs @ fs @ gs) fl" and "lastu True xs" and "all_free fs"
    and "starts (first5 s + tot xs) fs \<subseteq> set fl"
  shows "\<exists>W fl'. coalesce_back s (first5 s + tot xs + tot fs) n = Some (s\<lparr>words := W\<rparr>, first5 s + tot xs, n + tot fs) \<and>
           core5 (s\<lparr>words := W\<rparr>) (xs @ fs @ gs) fl' \<and> set fl' = set fl - starts (first5 s + tot xs) fs"
  using assms
proof (induction fs arbitrary: s gs fl n rule: rev_induct)
  case Nil
  obtain h where h: "rd s (first5 s + tot xs) = Some h" "h AND TAG_PRECEDING_USED \<noteq> 0"
    using core5_header [of s xs gs fl] Nil.prems by auto
  have "coalesce_back s (first5 s + tot xs + tot []) n = Some (s\<lparr>words := words s\<rparr>, first5 s + tot xs, n + tot [])"
    by (subst coalesce_back.simps) (simp add: h)
  moreover have "core5 (s\<lparr>words := words s\<rparr>) (xs @ [] @ gs) fl" using Nil.prems(1) by simp
  ultimately show ?case by (metis Diff_empty starts_simps(1))
next
  case (snoc b fs)
  obtain z where b: "b = (z, False)" using snoc.prems(3) by (cases b) auto
  let ?c = "first5 s + tot xs + tot fs"
  have z: "32 \<le> z" using snoc.prems(1) b by (simp add: core5_def)
  obtain h where h: "rd s (?c + z) = Some h" "h AND TAG_PRECEDING_USED = 0"
    using core5_header [of s "xs @ fs @ [b]" gs fl] snoc.prems(1) by (auto simp: b add.assoc)
  obtain f where f: "rd s (?c + z - 8) = Some f" "SIZE f = z"
    using core5_footer [of s "xs @ fs" z gs fl] snoc.prems(1) by (auto simp: b add.assoc)
  have cfl: "?c \<in> set fl" using snoc.prems(4) by (simp add: b)
  obtain W fl' where W: "removeFreeBlock s ?c = Some (s\<lparr>words := W\<rparr>)"
      "core5 (s\<lparr>words := W\<rparr>) (xs @ (fs @ [b]) @ gs) fl'" "set fl' = set fl - {?c}"
    using core5_delete [OF snoc.prems(1) cfl] by blast
  have c: "core5 (s\<lparr>words := W\<rparr>) (xs @ fs @ b # gs) fl'" using W(2) by simp
  have wf: "wf5 fs" "8 dvd first5 s + tot xs"
    using snoc.prems(1) tot_dvd [of xs] wf5_wfb unfolding core5_def by (auto intro!: dvd_add)
  have nin: "?c \<notin> starts (first5 s + tot xs) fs" using starts5_bounds [OF _ wf, of ?c] by auto
  have st: "starts (first5 (s\<lparr>words := W\<rparr>) + tot xs) fs \<subseteq> set fl'" using snoc.prems(4) nin W(3) by auto
  have af: "all_free fs" using snoc.prems(3) by simp
  have "\<exists>W' fl''. coalesce_back (s\<lparr>words := W\<rparr>) ?c (n + z) = Some (s\<lparr>words := W'\<rparr>, first5 s + tot xs, n + z + tot fs) \<and>
      core5 (s\<lparr>words := W'\<rparr>) (xs @ fs @ b # gs) fl'' \<and> set fl'' = set fl' - starts (first5 s + tot xs) fs"
    using snoc.IH [OF c snoc.prems(2) af st, of "n + z"] by simp
  then obtain W' fl'' where W': "coalesce_back (s\<lparr>words := W\<rparr>) ?c (n + z) = Some (s\<lparr>words := W'\<rparr>, first5 s + tot xs, n + z + tot fs)"
      "core5 (s\<lparr>words := W'\<rparr>) (xs @ fs @ b # gs) fl''" "set fl'' = set fl' - starts (first5 s + tot xs) fs"
    by blast
  have "coalesce_back s (?c + z) n = Some (s\<lparr>words := W'\<rparr>, first5 s + tot xs, n + z + tot fs)"
    by (subst coalesce_back.simps) (simp only: h(1) h(2) f WORD_SIZE_def Let_def W(1) W'(1) if_True refl add_diff_cancel_right' Option.bind.simps)
  moreover have "set fl'' = set fl - starts (first5 s + tot xs) (fs @ [b])" using W'(3) W(3) by (auto simp: b)
  ultimately show ?case using W'(2) by (auto simp: b add.assoc)
qed

lemma coalesce_forward_run:
  assumes "core5 s (xs @ fs @ gs) fl" and "gs = [] \<or> snd (hd gs)" and "all_free fs"
    and "starts (first5 s + tot xs) fs \<subseteq> set fl"
  shows "\<exists>W fl'. coalesce_forward s (first5 s + tot xs) n =
             Some (s\<lparr>words := W\<rparr>, first5 s + tot xs + tot fs, n + tot fs) \<and>
           core5 (s\<lparr>words := W\<rparr>) (xs @ fs @ gs) fl' \<and> set fl' = set fl - starts (first5 s + tot xs) fs"
  using assms
proof (induction fs arbitrary: s xs fl n)
  case Nil
  obtain h where h: "rd s (first5 s + tot xs) = Some h" "h AND TAG_USED \<noteq> 0"
    using core5_header [of s xs gs fl] Nil.prems by (cases gs) auto
  have "coalesce_forward s (first5 s + tot xs) n = Some (s\<lparr>words := words s\<rparr>, first5 s + tot xs + tot [], n + tot [])"
    by (subst coalesce_forward.simps) (simp add: h)
  moreover have "core5 (s\<lparr>words := words s\<rparr>) (xs @ [] @ gs) fl" using Nil.prems(1) by simp
  ultimately show ?case by (metis Diff_empty starts_simps(1))
next
  case (Cons b fs)
  obtain z where b: "b = (z, False)" using Cons.prems(3) by (cases b) auto
  let ?c = "first5 s + tot xs"
  have z: "32 \<le> z" using Cons.prems(1) b by (simp add: core5_def)
  obtain h where h: "rd s ?c = Some h" "SIZE h = z" "h AND TAG_USED = 0"
    using core5_header [of s xs "b # fs @ gs" fl] Cons.prems(1) by (auto simp: b)
  have cfl: "?c \<in> set fl" using Cons.prems(4) by (simp add: b)
  obtain W fl' where W: "removeFreeBlock s ?c = Some (s\<lparr>words := W\<rparr>)"
      "core5 (s\<lparr>words := W\<rparr>) (xs @ (b # fs) @ gs) fl'" "set fl' = set fl - {?c}"
    using core5_delete [OF Cons.prems(1) cfl] by blast
  have c: "core5 (s\<lparr>words := W\<rparr>) ((xs @ [b]) @ fs @ gs) fl'" using W(2) by simp
  have wf: "wf5 fs" "8 dvd ?c + z"
    using Cons.prems(1) tot_dvd [of xs] wf5_wfb unfolding core5_def b by (auto intro!: dvd_add)
  have nin: "?c \<notin> starts (?c + z) fs" using starts5_bounds [OF _ wf, of ?c] z by auto
  have st: "starts (first5 (s\<lparr>words := W\<rparr>) + tot (xs @ [b])) fs \<subseteq> set fl'"
    using Cons.prems(4) nin W(3) by (auto simp: b add.assoc)
  have af: "all_free fs" using Cons.prems(3) by (simp add: b)
  have "\<exists>W' fl''. coalesce_forward (s\<lparr>words := W\<rparr>) (?c + z) (n + z) = Some (s\<lparr>words := W'\<rparr>, ?c + z + tot fs, n + z + tot fs) \<and>
      core5 (s\<lparr>words := W'\<rparr>) (xs @ b # fs @ gs) fl'' \<and> set fl'' = set fl' - starts (?c + z) fs"
    using Cons.IH [OF c Cons.prems(2) af st, of "n + z"] by (simp add: b add.assoc)
  then obtain W' fl'' where W': "coalesce_forward (s\<lparr>words := W\<rparr>) (?c + z) (n + z) = Some (s\<lparr>words := W'\<rparr>, ?c + z + tot fs, n + z + tot fs)"
      "core5 (s\<lparr>words := W'\<rparr>) (xs @ b # fs @ gs) fl''" "set fl'' = set fl' - starts (?c + z) fs"
    by blast
  have "coalesce_forward s ?c n = Some (s\<lparr>words := W'\<rparr>, ?c + tot (b # fs), n + tot (b # fs))"
    using h W(1) W'(1) by (subst coalesce_forward.simps) (simp add: b add.assoc)
  moreover have "set fl'' = set fl - starts ?c (b # fs)" using W'(3) W(3) by (auto simp: b)
  ultimately show ?case using W'(2) by auto
qed

end
