(* ===== verification/Lab5Grow.thy ===== *)
theory Lab5Grow
  imports Lab5Heap
begin

text \<open>
  What coalescing a block and growing the heap do to the sequence of its blocks, and what the search of
  the free list and the collector's test for pointers answer about it.
\<close>

section \<open>Merging\<close>

lemma hdrs_outside:
  assumes "\<And>q. W' q \<noteq> W q \<Longrightarrow> q < a \<or> a + tot bs \<le> q" and "wf5 bs" and "8 dvd a"
  shows "hdrs W' a pu bs = hdrs W a pu bs"
proof (rule hdrs_cong)
  fix x z u assume b: "(x, z, u) \<in> set (blks a bs)"
  have "a \<le> x" "x + z \<le> a + tot bs" "32 \<le> z"
    using blks_bounds [OF b wf5_wfb [OF assms(2)] assms(3)] block_size [OF b assms(2)] by auto
  then show "W' x = W x \<and> W' (x + z - 8) = W (x + z - 8)" using assms(1) by fastforce
qed

text \<open>The sizes of a run of free blocks become the size of one block that starts where the run does.\<close>

lemma core5_merge:
  assumes c: "core5 s (xs @ fs @ ys) fl" and fs: "all_free fs" "fs \<noteq> []" and p: "lastu True xs"
    and fl: "set fl \<inter> starts (first5 s + tot xs) fs = {}"
    and W: "W = (words s)(first5 s + tot xs := tw (tot fs) True False, first5 s + tot xs + tot fs - 8 := tw (tot fs) True False)"
  shows "core5 (s\<lparr>words := W\<rparr>) (xs @ (tot fs, False) # ys) fl"
proof -
  let ?a = "first5 s + tot xs" and ?Z = "tot fs"
  have d: "8 dvd first5 s" "wf5 xs" "wf5 fs" "wf5 ys" "8 dvd ?Z" "8 dvd ?a" "8 dvd ?a + ?Z"
    using c tot_dvd [of xs] tot_dvd [of fs] wf5_wfb unfolding core5_def by (auto intro!: dvd_add)
  have Z: "32 \<le> ?Z" using fs(2) d(3) by (cases fs) auto
  have lt: "?Z < 2 ^ 64 - 8" using c unfolding core5_def by auto
  have in1: "W q = words s q" if "q < ?a \<or> ?a + ?Z \<le> q" for q using that Z unfolding W by auto
  have h: "hdrs (words s) (first5 s) True xs" "hdrs (words s) (?a + ?Z) False ys"
    using c all_free_lastu [OF fs] unfolding core5_def by simp_all
  have xs: "hdrs W (first5 s) True xs"
  proof (subst hdrs_outside)
    show "q < first5 s \<or> first5 s + tot xs \<le> q" if "W q \<noteq> words s q" for q using in1 [of q] that by linarith
  qed (use d h in auto)
  have ys: "hdrs W (?a + ?Z) False ys"
  proof (subst hdrs_outside)
    show "q < ?a + ?Z \<or> ?a + ?Z + tot ys \<le> q" if "W q \<noteq> words s q" for q using in1 [of q] that by linarith
  qed (use d h in auto)
  have flW: "flist W (W (lo5 s)) 0 fl = flist (words s) (words s (lo5 s)) 0 fl"
  proof -
    have "W (lo5 s) = words s (lo5 s)" by (rule in1) simp
    moreover have "flist W n p fl = flist (words s) n p fl" for n p
    proof (rule flist_cong)
      fix f assume f: "f \<in> set fl"
      then have "f \<in> starts (first5 s) (xs @ fs @ ys)" "f \<notin> starts ?a fs"
        using c fl frees_starts [of "first5 s" "xs @ fs @ ys"] unfolding core5_def by auto
      then have "f \<in> starts (first5 s) xs \<or> f \<in> starts (?a + ?Z) ys" by (auto simp: add.assoc)
      then have "f + 32 \<le> ?a \<or> ?a + ?Z \<le> f"
        using starts5_bounds [of f "first5 s" xs] starts5_bounds [of f "?a + ?Z" ys] d by auto
      then show "W (f + 8) = words s (f + 8) \<and> W (f + 16) = words s (f + 16)" by (intro conjI in1) auto
    qed
    ultimately show ?thesis by simp
  qed
  have fr: "set fl \<subseteq> frees (first5 s) (xs @ (?Z, False) # ys)"
    using c fl all_free_frees [OF fs(1)] unfolding core5_def by (auto simp: add.assoc)
  have "W ?a = tw ?Z True False" "W (?a + ?Z - 8) = tw ?Z True False" using Z unfolding W by auto
  moreover have "SIZE (tw ?Z True False) = ?Z" using SIZE_tw d(5) lt by blast
  moreover have "W (first5 s + tot (xs @ (?Z, False) # ys)) = words s (first5 s + tot (xs @ (?Z, False) # ys))"
    by (rule in1) simp
  moreover have "lastu True (xs @ (?Z, False) # ys) = lastu True (xs @ fs @ ys)"
    using all_free_lastu [OF fs] by simp
  moreover have "tot (xs @ (?Z, False) # ys) = tot (xs @ fs @ ys)" by simp
  ultimately show ?thesis
    using c xs ys flW fr Z d p unfolding core5_def by (simp del: tot_simps(3))
qed


section \<open>Coalescing\<close>

lemma or_preceding_used: "8 dvd z \<Longrightarrow> z OR TAG_PRECEDING_USED = tw z True False"
  using or_preceding [of z True] by (simp add: TAG_PRECEDING_USED_def)

lemma disjoint_starts:
  assumes "wf5 (xs @ fs @ ys)" and "8 dvd a"
  shows "starts a xs \<inter> starts (a + tot xs) fs = {}" "starts (a + tot xs) fs \<inter> starts (a + tot xs + tot fs) ys = {}"
    "starts a xs \<inter> starts (a + tot xs + tot fs) ys = {}"
proof -
  have w: "wf5 xs" "wf5 fs" "wf5 ys" using assms(1) by auto
  have "wfb xs" "wfb fs" using w wf5_wfb by auto
  then have d: "8 dvd a + tot xs" "8 dvd a + tot xs + tot fs" using assms(2) tot_dvd by (auto intro!: dvd_add)
  show "starts a xs \<inter> starts (a + tot xs) fs = {}" "starts (a + tot xs) fs \<inter> starts (a + tot xs + tot fs) ys = {}"
    "starts a xs \<inter> starts (a + tot xs + tot fs) ys = {}"
    using starts5_bounds [OF _ w(1) assms(2)] starts5_bounds [OF _ w(2) d(1)] starts5_bounds [OF _ w(3) d(2)]
    by (auto, fastforce+)
qed

text \<open>
  \<^verbatim>\<open>coalesceFreeBlock\<close> merges a free block with all the free blocks around it.
\<close>

lemma coalesceFreeBlock_ok:
  assumes h: "heap5 s (xs @ fs @ (z, False) # gs @ ys) fl" and p: "lastu True xs"
    and f: "all_free fs" "all_free gs" and e: "ys = [] \<or> snd (hd ys)"
  shows "\<exists>W fl'. coalesceFreeBlock s (first5 s + tot xs + tot fs) = Some (s\<lparr>words := W\<rparr>) \<and>
           heap5 (s\<lparr>words := W\<rparr>) (xs @ (tot fs + z + tot gs, False) # ys) fl'"
proof -
  let ?bs = "xs @ fs @ (z, False) # gs @ ys" and ?a = "first5 s + tot xs" and ?run = "fs @ (z, False) # gs"
  let ?b = "?a + tot fs" and ?Z = "tot fs + z + tot gs"
  have c: "core5 s ?bs fl" and sfl: "set fl = frees (first5 s) ?bs" using h by (auto simp: heap5_def)
  have d: "8 dvd first5 s" "wf5 ?bs" "wf5 (xs @ ?run @ ys)" using c by (auto simp: core5_def intro: dvd_add)
  have z: "32 \<le> z" "8 dvd z" using d by auto
  have run: "all_free ?run" using f by simp
  note dj = disjoint_starts [OF d(3,1)]
  have rfree: "starts ?a ?run = frees ?a ?run" by (rule all_free_frees [OF run])
  have dj2: "starts ?a fs \<inter> starts (?b + z) gs = {}" "?b \<notin> starts ?a fs" "?b \<notin> starts (?b + z) gs"
    using disjoint_starts [of fs "[(z, False)]" gs ?a] d z tot_dvd [of xs] wf5_wfb by (auto intro!: dvd_add)
  have sub: "starts ?a fs \<subseteq> set fl" "starts (?b + z) gs \<subseteq> set fl" "?b \<in> set fl"
    using rfree sfl by (auto simp: add.assoc)
  obtain hd where hd: "rd s ?b = Some hd" "SIZE hd = z"
    using core5_header [of s "xs @ fs" "(z, False) # gs @ ys" fl] c by (auto simp: add.assoc)
  have "\<exists>W1 fl1. coalesce_back s ?b z = Some (s\<lparr>words := W1\<rparr>, ?a, z + tot fs) \<and>
      core5 (s\<lparr>words := W1\<rparr>) ?bs fl1 \<and> set fl1 = set fl - starts ?a fs"
    by (rule coalesce_back_run [OF c p f(1) sub(1)])
  then obtain W1 fl1 where 1: "coalesce_back s ?b z = Some (s\<lparr>words := W1\<rparr>, ?a, z + tot fs)"
      "core5 (s\<lparr>words := W1\<rparr>) ((xs @ fs @ [(z, False)]) @ gs @ ys) fl1" "set fl1 = set fl - starts ?a fs" by auto
  have sub1: "starts (first5 (s\<lparr>words := W1\<rparr>) + tot (xs @ fs @ [(z, False)])) gs \<subseteq> set fl1"
    using sub(2) 1(3) dj2(1) by (auto simp: add.assoc)
  have "\<exists>W2 fl2. coalesce_forward (s\<lparr>words := W1\<rparr>) (?b + z) (z + tot fs) =
        Some (s\<lparr>words := W2\<rparr>, ?b + z + tot gs, z + tot fs + tot gs) \<and>
      core5 (s\<lparr>words := W2\<rparr>) ?bs fl2 \<and> set fl2 = set fl1 - starts (?b + z) gs"
    using coalesce_forward_run [OF 1(2) e f(2) sub1, of "z + tot fs"] by (simp add: add.assoc)
  then obtain W2 fl2 where 2: "coalesce_forward (s\<lparr>words := W1\<rparr>) (?b + z) (z + tot fs) =
        Some (s\<lparr>words := W2\<rparr>, ?b + z + tot gs, z + tot fs + tot gs)"
      "core5 (s\<lparr>words := W2\<rparr>) ?bs fl2" "set fl2 = set fl1 - starts (?b + z) gs" by blast
  show ?thesis
  proof (cases "tot fs + tot gs = 0")
    case True
    have "fs = []" "gs = []" using True d by (auto, (case_tac fs; auto), (case_tac gs; auto))
    then have "heap5 (s\<lparr>words := W2\<rparr>) (xs @ (?Z, False) # ys) fl2"
      using 1(3) 2(2,3) sfl by (simp add: heap5_def)
    moreover have "coalesceFreeBlock s ?b = Some (s\<lparr>words := W2\<rparr>)"
      unfolding coalesceFreeBlock_def using hd 1(1) 2(1) True by (simp add: add.assoc)
    ultimately show ?thesis by blast
  next
    case False
    have "?b \<in> set fl2" using sub(3) dj2(2,3) 1(3) 2(3) by auto
    then obtain W3 fl3 where 3: "removeFreeBlock (s\<lparr>words := W2\<rparr>) ?b = Some (s\<lparr>words := W3\<rparr>)"
        "core5 (s\<lparr>words := W3\<rparr>) ?bs fl3" "set fl3 = set fl2 - {?b}"
      using core5_delete [OF 2(2), of ?b] by (simp, blast)
    have fl3: "set fl3 = set fl - starts ?a ?run" using 1(3) 2(3) 3(3) by (auto simp: add.assoc)
    define W4 where "W4 = W3(?a := tw ?Z True False, ?a + ?Z - 8 := tw ?Z True False)"
    have 4: "core5 (s\<lparr>words := W4\<rparr>) (xs @ (?Z, False) # ys) fl3"
    proof -
      have "set fl3 \<inter> starts ?a ?run = {}" using fl3 by blast
      then show ?thesis
        using core5_merge [of "s\<lparr>words := W3\<rparr>" xs ?run ys fl3 W4] 3(2) run p by (simp add: W4_def add.assoc)
    qed
    have Z: "8 dvd ?Z" "?Z < 2 ^ 63" using d tot_dvd [of fs] tot_dvd [of gs] wf5_wfb c by (auto simp: core5_def)
    have tw: "tw ?Z True False < 2 ^ 64" using Z(2) by (simp add: tw_def)
    have fr: "frees (first5 s) (xs @ (?Z, False) # ys) = insert ?a (set fl3)"
    proof -
      have tr: "tot ?run = ?Z" by simp
      have "frees (first5 s) ?bs = frees (first5 s) xs \<union> (starts ?a ?run \<union> frees (?a + ?Z) ys)"
        unfolding rfree tr [symmetric] frees_simps(3) [symmetric] by simp
      moreover have "frees (first5 s) xs \<inter> starts ?a ?run = {}" "frees (?a + ?Z) ys \<inter> starts ?a ?run = {}"
        using dj(1,2) frees_starts unfolding tr by blast+
      ultimately have "set fl3 = frees (first5 s) xs \<union> frees (?a + ?Z) ys" using fl3 sfl by blast
      then show ?thesis by auto
    qed
    have nin: "?a \<notin> set fl3"
      using fl3 sfl by (cases fs) (auto simp: add.assoc)
    have da: "8 dvd ?a" "8 dvd ?a + ?Z - 8"
    proof -
      show "8 dvd ?a" using d tot_dvd [of xs] wf5_wfb by (auto intro!: dvd_add)
      from dvd_add [OF this Z(1)] show "8 dvd ?a + ?Z - 8" by (rule dvd_diff_nat) simp
    qed
    have at: "at5 s ?a" "at5 s (?a + ?Z - 8)" using c z(1) da unfolding core5_def at5_def by simp_all
    obtain W5 where 5: "insertFreeBlock (s\<lparr>words := W4\<rparr>) ?a = Some (s\<lparr>words := W5\<rparr>)"
        "core5 (s\<lparr>words := W5\<rparr>) (xs @ (?Z, False) # ys) (?a # fl3)"
      using core5_insert [OF 4, of ?a] fr nin by auto
    have n: "z + tot fs + tot gs = ?Z" "?b + z + tot gs - WORD_SIZE = ?a + ?Z - 8" "(?Z \<noteq> z) = True"
      using False by (simp_all add: WORD_SIZE_def)
    have w: "wr (s\<lparr>words := W3\<rparr>) ?a (tw ?Z True False) = Some (s\<lparr>words := W3(?a := tw ?Z True False)\<rparr>)"
      "wr (s\<lparr>words := W3(?a := tw ?Z True False)\<rparr>) (?a + ?Z - 8) (tw ?Z True False) = Some (s\<lparr>words := W4\<rparr>)"
      using at tw by (simp_all add: W4_def)
    have "coalesceFreeBlock s ?b = Some (s\<lparr>words := W5\<rparr>)"
      unfolding coalesceFreeBlock_def
      by (simp only: hd 1(1) 2(1) 3(1) 5(1) n w or_preceding_used [OF Z(1)] Let_def Option.bind.simps prod.case if_True)
    moreover have "heap5 (s\<lparr>words := W5\<rparr>) (xs @ (?Z, False) # ys) (?a # fl3)"
      using 5(2) fr by (simp add: heap5_def)
    ultimately show ?thesis by blast
  qed
qed

end
