(* ===== verification/Lab5Theorems.thy ===== *)
theory Lab5Theorems
  imports Lab5Grow
begin

text \<open>
  What the starter allocator promises: a heap that is initialised and grown keeps its invariant, growing
  finds room for the request, and the collector recognises exactly the payloads of the used blocks.
\<close>

section \<open>The end of the heap\<close>

definition used_part :: "block list \<Rightarrow> block list" where
  "used_part bs = rev (dropWhile (\<lambda>b. \<not> snd b) (rev bs))"

definition free_part :: "block list \<Rightarrow> block list" where
  "free_part bs = rev (takeWhile (\<lambda>b. \<not> snd b) (rev bs))"

lemma used_free_parts: "used_part bs @ free_part bs = bs"
  unfolding used_part_def free_part_def rev_append [symmetric] by simp

lemma free_part_free: "all_free (free_part bs)"
  unfolding all_free_def free_part_def by (auto dest: set_takeWhileD)

lemma used_part_lastu: "lastu True (used_part bs)"
proof (cases "dropWhile (\<lambda>b. \<not> snd b) (rev bs) = []")
  case False
  have "snd (hd (dropWhile (\<lambda>b. \<not> snd b) (rev bs)))" using hd_dropWhile [OF False] by simp
  then show ?thesis by (simp only: used_part_def lastu_def rev_is_Nil_conv False last_rev if_False)
next
  case True
  show ?thesis by (simp only: used_part_def True lastu_def rev.simps if_True refl)
qed

section \<open>Initialising\<close>

lemma mm5_init_ok:
  assumes lo: "8 dvd lo" "0 < lo" and mx: "lo + 48 \<le> mx" "mx \<le> 2 ^ 63"
  shows "\<exists>s. mm5_init \<lparr>lib5 = \<lparr>mem_start_brk = lo, mem_brk = lo, mem_max_addr = mx\<rparr>, words = junk\<rparr> = Some (Inr s) \<and>
           heap5 s [(32, False)] [lo + 8] \<and> lo5 s = lo \<and> max5 s = mx"
proof -
  define l where "l = \<lparr>mem_start_brk = lo, mem_brk = lo + 48, mem_max_addr = mx\<rparr>"
  define W where "W = junk(lo + 8 := 34, lo + 16 := 0, lo + 24 := 0, lo + 32 := 34, lo + 40 := 1, lo := lo + 8)"
  have sb: "mem_sbrk5 \<lparr>mem_start_brk = lo, mem_brk = lo, mem_max_addr = mx\<rparr> (of_nat 48) = (l, Some lo)"
    using mx by (simp add: mem_sbrk5_def l_def)
  have d: "8 dvd lo + 8" "8 dvd lo + 16" "8 dvd lo + 24" "8 dvd lo + 32" "8 dvd lo + 40" using lo(1) by (auto intro!: dvd_add)
  have at: "at5 \<lparr>lib5 = l, words = V\<rparr> p" if "p \<in> {lo, lo + 8, lo + 16, lo + 24, lo + 32, lo + 40}" for p V
    using that lo mx d by (auto simp: at5_def l_def)
  have o: "(32 :: nat) OR TAG_PRECEDING_USED = 34" by (simp add: TAG_PRECEDING_USED_def)
  have hl: "mem_heap_lo l = lo" "mem_heap_hi l = int lo + 47" by (simp_all add: mem_heap_lo_def mem_heap_hi_def l_def)
  have hf: "heap_footer \<lparr>lib5 = l, words = V\<rparr> = lo + 40" for V by (simp add: heap_footer_def hl WORD_SIZE_def)
  have fh: "FREE_LIST_HEAD \<lparr>lib5 = l, words = V\<rparr> = lo" for V by (simp add: FREE_LIST_HEAD_def hl)
  have w: "wr \<lparr>lib5 = l, words = V\<rparr> p v = Some \<lparr>lib5 = l, words = V(p := v)\<rparr>"
    if "p \<in> {lo, lo + 8, lo + 16, lo + 24, lo + 32, lo + 40}" "v < 2 ^ 64" for p v V
    using wr_at [OF at [OF that(1)] that(2)] by simp
  have "lo + 8 < 2 ^ 64" using mx by simp
  then have "mm5_init \<lparr>lib5 = \<lparr>mem_start_brk = lo, mem_brk = lo, mem_max_addr = mx\<rparr>, words = junk\<rparr> =
      Some (Inr \<lparr>lib5 = l, words = W\<rparr>)"
    unfolding mm5_init_def W_def
    by (simp add: add.commute [of _ lo] Let_def WORD_SIZE_def MIN_BLOCK_SIZE_def sb [simplified] hl o w hf fh next_of_def prev_of_def TAG_USED_def)
  moreover have "heap5 \<lparr>lib5 = l, words = W\<rparr> [(32, False)] [lo + 8]"
    using lo mx SIZE_tw [of 32 True False] by (simp add: heap5_def core5_def l_def W_def tw_def)
  ultimately show ?thesis by (auto simp: l_def)
qed

section \<open>Searching\<close>

lemma searchFreeList_from_ok:
  assumes c: "core5 s bs fl" and "fl = us @ vs"
  shows "searchFreeList_from s n (hd0 vs) =
           Some (case dropWhile (\<lambda>b. SIZE (words s b) < n) vs of [] \<Rightarrow> 0 | b # _ \<Rightarrow> b)"
  using assms(2)
proof (induction vs arbitrary: us)
  case Nil
  then show ?case by (simp add: searchFreeList_from.simps)
next
  case (Cons v vs)
  have l: "list5 s (starts (first5 s) bs) fl" by (rule core5_list5 [OF c])
  then have "v \<in> starts (first5 s) bs" using Cons.prems by (auto simp: list5_def)
  note at = list5_at(2) [OF l this]
  have "words s (v + 8) = hd0 vs" using c Cons.prems flist_mid [of "words s" "words s (lo5 s)" 0 us v vs] by (simp add: core5_def)
  moreover have "searchFreeList_from s n (hd0 vs) =
      Some (case dropWhile (\<lambda>b. SIZE (words s b) < n) vs of [] \<Rightarrow> 0 | b # _ \<Rightarrow> b)"
    using Cons.IH [of "us @ [v]"] Cons.prems by simp
  ultimately show ?case using at by (subst searchFreeList_from.simps) (simp add: fields5)
qed

text \<open>\<^verbatim>\<open>searchFreeList\<close> is first fit: it returns the first block of the free list that is large enough.\<close>

lemma searchFreeList_ok:
  "core5 s bs fl \<Longrightarrow>
   searchFreeList s n = Some (case dropWhile (\<lambda>b. SIZE (words s b) < n) fl of [] \<Rightarrow> 0 | b # _ \<Rightarrow> b)"
proof -
  assume c: "core5 s bs fl"
  have "words s (lo5 s) = hd0 fl" using c flist_hd by (auto simp: core5_def)
  moreover have "at5 s (lo5 s)" by (rule list5_at(1) [OF core5_list5 [OF c]])
  ultimately show ?thesis using searchFreeList_from_ok [OF c, of "[]" fl n] by (simp add: searchFreeList_def fields5)
qed

lemma frees_block: "f \<in> frees a bs \<Longrightarrow> \<exists>z. (f, z, False) \<in> set (blks a bs)"
  by (auto simp: frees_def)

lemma free_header:
  assumes c: "core5 s bs fl" and b: "(f, z, u) \<in> set (blks (first5 s) bs)"
  shows "SIZE (words s f) = z \<and> words s f AND TAG_USED = of_bool u"
proof -
  have "hdrs W a pu bs \<Longrightarrow> (f, z, u) \<in> set (blks a bs) \<Longrightarrow> \<exists>p. W f = tw z p u" for W a pu
    by (induction W a pu bs rule: hdrs.induct) auto
  then obtain p where "words s f = tw z p u" using c b unfolding core5_def by blast
  moreover have "8 dvd first5 s" using c by (auto simp: core5_def intro: dvd_add)
  then have "8 dvd z" "f + z \<le> first5 s + tot bs"
    using blks_bounds [OF b] c wf5_wfb unfolding core5_def by auto
  ultimately show ?thesis using c SIZE_tw tw_used unfolding core5_def by simp
qed

lemma searchFreeList_finds:
  assumes h: "heap5 s bs fl" and b: "(f, z, False) \<in> set (blks (first5 s) bs)" "n \<le> z"
  shows "\<exists>g w. searchFreeList s n = Some g \<and> (g, w, False) \<in> set (blks (first5 s) bs) \<and> n \<le> w"
proof -
  have c: "core5 s bs fl" "set fl = frees (first5 s) bs" using h by (auto simp: heap5_def)
  have "f \<in> set fl" "\<not> SIZE (words s f) < n" using b c free_header [OF c(1) b(1)] by (auto simp: frees_def)
  then have ne: "dropWhile (\<lambda>b. SIZE (words s b) < n) fl \<noteq> []" by (auto simp: dropWhile_eq_Nil_conv)
  then obtain g gs where g: "dropWhile (\<lambda>b. SIZE (words s b) < n) fl = g # gs" by (cases "dropWhile (\<lambda>b. SIZE (words s b) < n) fl") auto
  then have "g \<in> set fl" "\<not> SIZE (words s g) < n"
    using set_dropWhileD [of g "\<lambda>b. SIZE (words s b) < n" fl] hd_dropWhile [OF ne] by auto
  then show ?thesis using c frees_block [of g "first5 s" bs] free_header [OF c(1)] searchFreeList_ok [OF c(1), of n] g by force
qed


section \<open>Growing\<close>

text \<open>The whole pages that a request of some bytes asks for.\<close>

definition pages :: "nat \<Rightarrow> nat \<Rightarrow> nat" where
  "pages pagesize n = (n + pagesize - 1) div pagesize * pagesize"

lemma pages_bounds: "0 < pagesize \<Longrightarrow> n \<le> pages pagesize n \<and> pages pagesize n < n + pagesize"
proof -
  assume p: "0 < pagesize"
  have "(n + pagesize - 1) mod pagesize < pagesize" using p by simp
  moreover have "pages pagesize n + (n + pagesize - 1) mod pagesize = n + pagesize - 1" by (simp add: pages_def)
  ultimately show ?thesis using p by linarith
qed

text \<open>The break moves, and the new storage becomes a free block that is not in the free list yet.\<close>

lemma core5_extend:
  assumes h: "heap5 s bs fl" and T: "8 dvd T" "32 \<le> T" and room: "mem_brk (lib5 s) + T \<le> max5 s"
    and W: "W = (words s)(first5 s + tot bs := tw T (lastu True bs) False,
                  first5 s + tot bs + T - 8 := tw T (lastu True bs) False, first5 s + tot bs + T := 1)"
    and l: "l = (lib5 s)\<lparr>mem_brk := mem_brk (lib5 s) + T\<rparr>"
  shows "core5 (s\<lparr>lib5 := l, words := W\<rparr>) (bs @ [(T, False)]) fl"
proof -
  let ?a = "first5 s + tot bs"
  have c: "core5 s bs fl" using h by (simp add: heap5_def)
  have d: "8 dvd first5 s" "wf5 bs" using c by (auto simp: core5_def intro: dvd_add)
  have out: "W q = words s q" if "q < ?a" for q using that T(2) unfolding W by auto
  have "hdrs W (first5 s) True bs"
  proof (subst hdrs_outside)
    show "q < first5 s \<or> first5 s + tot bs \<le> q" if "W q \<noteq> words s q" for q using out [of q] that by linarith
  qed (use c d in \<open>auto simp: core5_def\<close>)
  moreover have "flist W (W (lo5 s)) 0 fl"
  proof -
    have "flist W n p fl = flist (words s) n p fl" for n p
    proof (rule flist_cong)
      fix f assume "f \<in> set fl"
      then have "f \<in> starts (first5 s) bs" using c frees_starts unfolding core5_def by blast
      from starts5_bounds [OF this d(2,1)] show "W (f + 8) = words s (f + 8) \<and> W (f + 16) = words s (f + 16)"
        by (intro conjI out) auto
    qed
    moreover have "W (lo5 s) = words s (lo5 s)" by (rule out) simp
    ultimately show ?thesis using c by (simp add: core5_def)
  qed
  moreover have "W ?a = tw T (lastu True bs) False" "W (?a + T - 8) = tw T (lastu True bs) False" "W (?a + T) = 1"
    using T(2) unfolding W by auto
  moreover have "SIZE (tw T (lastu True bs) False) = T" using room c by (intro SIZE_tw T(1)) (simp add: core5_def)
  moreover have "tw 0 False True = 1" by (simp add: tw_def)
  moreover have "set fl \<subseteq> frees (first5 s) (bs @ [(T, False)])" using c by (auto simp: core5_def)
  ultimately show ?thesis using c T room by (simp add: core5_def l add.assoc)
qed

lemma requestMoreSpace_grows:
  assumes h: "heap5 s bs fl" and T: "T = pages pagesize n" "8 dvd T" "32 \<le> T" "n + pagesize \<le> 2 ^ 63" "0 < pagesize"
    and room: "mem_brk (lib5 s) + T \<le> max5 s"
  shows "\<exists>s' fl'. requestMoreSpace pagesize s n = Some (Inr s') \<and> lo5 s' = lo5 s \<and> max5 s' = max5 s \<and>
           heap5 s' (used_part bs @ [(tot (free_part bs) + T, False)]) fl'"
proof -
  let ?a = "first5 s + tot bs" and ?p = "lastu True bs"
  have c: "core5 s bs fl" "set fl = frees (first5 s) bs" using h by (auto simp: heap5_def)
  have "T < n + pagesize" using pages_bounds [OF T(5)] T(1) by simp
  then have lt: "n + pagesize - 1 < 2 ^ 64" "T < 2 ^ 63" using T(4) by auto
  define l where "l = (lib5 s)\<lparr>mem_brk := mem_brk (lib5 s) + T\<rparr>"
  have brk: "mem_brk (lib5 s) = ?a + 8" "mem_brk (lib5 s) + T \<le> 2 ^ 63" using c room by (auto simp: core5_def)
  have sb: "mem_sbrk5 (lib5 s) (of_nat T) = (l, Some (?a + 8))"
  proof -
    have "unat (of_nat T :: u64) = T" using lt(2) by (simp add: unat_of_nat)
    then show ?thesis using room brk by (simp add: mem_sbrk5_def l_def)
  qed
  have tot: "((n + pagesize - 1) mod 2 ^ 64) div pagesize * pagesize mod 2 ^ 64 = T"
    using lt T(1) by (simp add: pages_def)
  let ?t = "tw T ?p False"
  have da: "8 dvd ?a" "8 dvd ?a + T - 8" "8 dvd ?a + T"
  proof -
    show a: "8 dvd ?a" using c tot_dvd [of bs] wf5_wfb unfolding core5_def by (auto intro!: dvd_add)
    show "8 dvd ?a + T" using dvd_add [OF a T(2)] .
    then show "8 dvd ?a + T - 8" by (rule dvd_diff_nat) simp
  qed
  have at: "at5 (s\<lparr>lib5 := l, words := V\<rparr>) q" if "q \<in> {?a, ?a + T - 8, ?a + T}" for q V
    using that da T(3) brk room by (auto simp: at5_def l_def)
  have tb: "?t < 2 ^ 64" using lt(2) by (simp add: tw_def)
  define W where "W = (words s)(?a := ?t, ?a + T - 8 := ?t, ?a + T := 1)"
  define s2 where "s2 = s\<lparr>lib5 := l, words := W\<rparr>"
  have at1: "at5 (s\<lparr>lib5 := l\<rparr>) ?a" using at [of ?a "words s"] by simp
  have rd: "rd (s\<lparr>lib5 := l\<rparr>) ?a = Some (words s ?a)" using at1 by simp
  have pm: "words s ?a AND TAG_PRECEDING_USED = 2 * of_bool ?p" using c tw_preceding [of 0] by (simp add: core5_def)
  have w: "wr (s\<lparr>lib5 := l\<rparr>) ?a ?t = Some (s\<lparr>lib5 := l, words := (words s)(?a := ?t)\<rparr>)"
    "wr (s\<lparr>lib5 := l, words := (words s)(?a := ?t)\<rparr>) (?a + T - 8) ?t = Some (s\<lparr>lib5 := l, words := (words s)(?a := ?t, ?a + T - 8 := ?t)\<rparr>)"
    "wr (s\<lparr>lib5 := l, words := (words s)(?a := ?t, ?a + T - 8 := ?t)\<rparr>) (?a + T) TAG_USED = Some s2"
    using at at1 tb by (simp_all add: s2_def W_def TAG_USED_def)
  have c2: "core5 s2 (bs @ [(T, False)]) fl"
    unfolding s2_def by (rule core5_extend [OF h T(2,3) room W_def l_def])
  have lo: "lo5 s2 = lo5 s" "max5 s2 = max5 s" by (simp_all add: s2_def l_def)
  have nin: "?a \<notin> set fl"
  proof
    assume "?a \<in> set fl"
    then have "?a \<in> starts (first5 s) bs" using c frees_starts by blast
    from starts5_bounds [OF this] c show False by (auto simp: core5_def intro: dvd_add)
  qed
  then obtain W3 where 3: "insertFreeBlock s2 ?a = Some (s2\<lparr>words := W3\<rparr>)" "core5 (s2\<lparr>words := W3\<rparr>) (bs @ [(T, False)]) (?a # fl)"
    using core5_insert [OF c2, of ?a] lo by auto
  have h3: "heap5 (s2\<lparr>words := W3\<rparr>) (used_part bs @ free_part bs @ (T, False) # [] @ []) (?a # fl)"
    using 3(2) c(2) lo used_free_parts [of bs] by (simp add: heap5_def flip: append_assoc)
  have ta: "tot (used_part bs) + tot (free_part bs) = tot bs" by (metis tot_simps(3) used_free_parts)
  obtain W4 fl' where 4: "coalesceFreeBlock (s2\<lparr>words := W3\<rparr>) ?a = Some (s2\<lparr>words := W4\<rparr>)"
      "heap5 (s2\<lparr>words := W4\<rparr>) (used_part bs @ [(tot (free_part bs) + T, False)]) fl'"
    using coalesceFreeBlock_ok [OF h3 used_part_lastu free_part_free all_free_simps(1)] lo ta by (auto simp: add.assoc)
  have adr: "?a + 8 - WORD_SIZE = ?a" "?a + (T - WORD_SIZE) = ?a + T - 8" using T(3) by (simp_all add: WORD_SIZE_def)
  have "requestMoreSpace pagesize s n = Some (Inr (s2\<lparr>words := W4\<rparr>))"
    by (simp only: requestMoreSpace_def Let_def tot sb prod.case option.case rd pm w or_preceding [OF T(2)] 3(1) 4(1)
        adr Option.bind.simps)
  moreover have "lo5 (s2\<lparr>words := W4\<rparr>) = lo5 s \<and> max5 (s2\<lparr>words := W4\<rparr>) = max5 s" using lo by simp
  ultimately show ?thesis using 4(2) by blast
qed


lemma requestMoreSpace_fails:
  assumes c: "core5 s bs fl" and T: "T = pages pagesize n" "n + pagesize \<le> 2 ^ 63" "0 < pagesize"
    and room: "max5 s < mem_brk (lib5 s) + T"
  shows "requestMoreSpace pagesize s n = Some (Inl 0)"
proof -
  have "T < n + pagesize" using pages_bounds [OF T(3)] T(1) by simp
  then have lt: "n + pagesize - 1 < 2 ^ 64" "T < 2 ^ 63" using T(2) by auto
  have "((n + pagesize - 1) mod 2 ^ 64) div pagesize * pagesize mod 2 ^ 64 = T"
    using lt T(1) by (simp add: pages_def)
  moreover have "mem_sbrk5 (lib5 s) (of_nat T) = (lib5 s, None)"
  proof -
    have "unat (of_nat T :: u64) = T" using lt(2) by (simp add: unat_of_nat)
    moreover have "mem_brk (lib5 s) \<le> 2 ^ 63" using c by (simp add: core5_def)
    ultimately show ?thesis using room lt by (simp add: mem_sbrk5_def)
  qed
  ultimately show ?thesis by (simp only: requestMoreSpace_def Let_def prod.case option.case)
qed

text \<open>
  C33. \<^verbatim>\<open>requestMoreSpace\<close> refines the growth of a sequence of blocks.  On every heap that satisfies the
  invariant it asks for the least number of whole pages that hold the request; when they fit into
  the storage, the result is a heap that satisfies the invariant, in which the free blocks at the end of the old
  heap and the new pages have become one free block, all other blocks are as before, and first fit finds
  a free block for the request; when they do not fit, the program ends.
\<close>

theorem lab5_requestMoreSpace:
  assumes "heap5 s bs fl" and "8 dvd pagesize" and "32 \<le> pagesize" and "0 < n" and "n + pagesize \<le> 2 ^ 63"
  shows "if mem_brk (lib5 s) + pages pagesize n \<le> mem_max_addr (lib5 s)
         then \<exists>s' fl' b z. requestMoreSpace pagesize s n = Some (Inr s') \<and>
           heap5 s' (used_part bs @ [(tot (free_part bs) + pages pagesize n, False)]) fl' \<and>
           searchFreeList s' n = Some b \<and> n \<le> z \<and>
           (b, z, False) \<in> set (blks (first5 s') (used_part bs @ [(tot (free_part bs) + pages pagesize n, False)]))
         else requestMoreSpace pagesize s n = Some (Inl 0)"
proof (cases "mem_brk (lib5 s) + pages pagesize n \<le> mem_max_addr (lib5 s)")
  case True
  let ?T = "pages pagesize n" and ?bs = "used_part bs @ [(tot (free_part bs) + pages pagesize n, False)]"
  have p: "0 < pagesize" using assms(3) by simp
  have d: "8 dvd ?T" using assms(2) by (simp add: pages_def)
  have "1 \<le> (n + pagesize - 1) div pagesize" using assms(4) p by (simp add: Suc_leI div_greater_zero_iff)
  then have "pagesize \<le> ?T" by (simp add: pages_def)
  then have T: "32 \<le> ?T" using assms(3) by simp
  obtain s' fl' where s': "requestMoreSpace pagesize s n = Some (Inr s')" "heap5 s' ?bs fl'"
    using requestMoreSpace_grows [OF assms(1) refl d T assms(5) p True] by blast
  have "(first5 s' + tot (used_part bs), tot (free_part bs) + ?T, False) \<in> set (blks (first5 s') ?bs)" by simp
  then show ?thesis using searchFreeList_finds [OF s'(2)] s' True pages_bounds [OF p, of n] by (metis trans_le_add2)
next
  case False
  then show ?thesis using requestMoreSpace_fails [of s bs fl] assms by (simp add: heap5_def)
qed

theorem lab5_requestMoreSpace_witness:
  "\<exists>s s' fl' b z. mm5_init \<lparr>lib5 = \<lparr>mem_start_brk = 4096, mem_brk = 4096, mem_max_addr = 20480\<rparr>, words = \<lambda>_. 7\<rparr> = Some (Inr s) \<and>
     requestMoreSpace 4096 s 5000 = Some (Inr s') \<and> heap5 s' [(8224, False)] fl' \<and>
     searchFreeList s' 5000 = Some b \<and> 5000 \<le> z \<and> (b, z, False) \<in> set (blks (first5 s') [(8224, False)])"
proof -
  obtain s where s: "mm5_init \<lparr>lib5 = \<lparr>mem_start_brk = 4096, mem_brk = 4096, mem_max_addr = 20480\<rparr>, words = \<lambda>_. 7\<rparr> = Some (Inr s)"
      "heap5 s [(32, False)] [4104]" "lo5 s = 4096" "max5 s = 20480"
    using mm5_init_ok [of 4096 20480 "\<lambda>_. 7"] by auto
  have brk: "mem_brk (lib5 s) = 4144" using s by (simp add: heap5_def core5_def)
  have p: "pages 4096 5000 = 8192" by (simp add: pages_def)
  have q: "used_part [(32, False)] = []" "free_part [(32, False)] = [(32, False)]" by (simp_all add: used_part_def free_part_def)
  show ?thesis using lab5_requestMoreSpace [OF s(2), of 4096 5000] s(1,4) brk by (simp add: p q del: blks.simps)
qed

section \<open>The collector\<close>

lemma is_pointer_from_ok:
  assumes c: "core5 s (xs @ ys) fl"
  shows "is_pointer_from s p (first5 s + tot xs) = Some (\<exists>x z. (x, z, True) \<in> set (blks (first5 s + tot xs) ys) \<and> p = x + 8)"
  using c
proof (induction ys arbitrary: xs)
  case Nil
  then have "heap_footer s = first5 s + tot xs"
    by (simp add: heap_footer_def mem_heap_hi_def WORD_SIZE_def core5_def)
  then show ?case by (simp add: is_pointer_from.simps)
next
  case (Cons y ys)
  obtain z u where y: "y = (z, u)" by (cases y)
  let ?a = "first5 s + tot xs"
  have z: "32 \<le> z" using Cons.prems y by (simp add: core5_def)
  have lt: "?a < heap_footer s"
    using Cons.prems y z by (simp add: heap_footer_def mem_heap_hi_def WORD_SIZE_def core5_def)
  obtain h where h: "rd s ?a = Some h" "SIZE h = z" "h AND TAG_USED = of_bool u"
    using core5_header [OF Cons.prems] y by auto
  have IH: "is_pointer_from s p (?a + z) = Some (\<exists>x w. (x, w, True) \<in> set (blks (?a + z) ys) \<and> p = x + 8)"
    using Cons.IH [of "xs @ [y]"] Cons.prems y by (simp add: add.assoc)
  show ?case
  proof (cases "?a + 8 = p \<and> u")
    case True
    then show ?thesis using lt h y by (subst is_pointer_from.simps) (auto simp: WORD_SIZE_def)
  next
    case False
    then have "is_pointer_from s p ?a = is_pointer_from s p (?a + z)"
      using lt h by (subst is_pointer_from.simps) (auto simp: WORD_SIZE_def)
    then show ?thesis using IH False y by auto
  qed
qed

text \<open>
  The collector's test for pointers: on every heap that satisfies the invariant \<^verbatim>\<open>is_pointer\<close> ends, reads only
  headers of blocks, and answers yes exactly for the addresses of the payloads of the used blocks:
  a pointer into the middle of a payload or to a free block is not a pointer.
\<close>

theorem lab5_is_pointer:
  assumes "heap5 s bs fl"
  shows "is_pointer s p = Some (\<exists>x z. (x, z, True) \<in> set (blks (first5 s) bs) \<and> p = x + WORD_SIZE)"
  using is_pointer_from_ok [of s "[]" bs fl p] assms
  by (simp add: is_pointer_def mem_heap_lo_def WORD_SIZE_def heap5_def)

theorem lab5_is_pointer_witness:
  "let s = \<lparr>lib5 = \<lparr>mem_start_brk = 4096, mem_brk = 4144, mem_max_addr = 20480\<rparr>, words = (\<lambda>_. 0)(4104 := 35, 4136 := 3)\<rparr>
   in heap5 s [(32, True)] [] \<and> is_pointer s 4112 = Some True \<and> is_pointer s 4120 = Some False"
proof -
  let ?s = "\<lparr>lib5 = \<lparr>mem_start_brk = 4096, mem_brk = 4144, mem_max_addr = 20480\<rparr>, words = (\<lambda>_. 0)(4104 := 35, 4136 := 3)\<rparr>"
  have h: "heap5 ?s [(32, True)] []" by (simp add: heap5_def core5_def tw_def)
  show ?thesis using h lab5_is_pointer [OF h, of 4112] lab5_is_pointer [OF h, of 4120] by (simp add: Let_def WORD_SIZE_def)
qed

section \<open>Printing the heap\<close>

text \<open>What \<^verbatim>\<open>examine_heap\<close> has to say of a block.\<close>

fun line_of :: "(nat \<Rightarrow> nat) \<Rightarrow> bool \<Rightarrow> nat \<times> nat \<times> bool \<Rightarrow> heap_line" where
  "line_of W pu (x, z, u) =
     (if u then ALLOCATED x z (2 * of_bool pu) 1 else FREE x z (2 * of_bool pu) 0 (W (x + 8)) (W (x + 16)))"

fun lines_of :: "(nat \<Rightarrow> nat) \<Rightarrow> bool \<Rightarrow> (nat \<times> nat \<times> bool) list \<Rightarrow> heap_line list" where
  "lines_of W pu [] = []"
| "lines_of W pu (b # bs) = line_of W pu b # lines_of W (snd (snd b)) bs"

lemma examine_from_ok:
  assumes "core5 s (xs @ ys) fl"
  shows "examine_from s (first5 s + tot xs) = Some (lines_of (words s) (lastu True xs) (blks (first5 s + tot xs) ys))"
  using assms
proof (induction ys arbitrary: xs)
  case Nil
  then have "words s (first5 s + tot xs) = tw 0 (lastu True xs) True" by (simp add: core5_def)
  moreover obtain h where "rd s (first5 s + tot xs) = Some h" using core5_header [OF Nil.prems] by auto
  moreover have "SIZE (tw 0 (lastu True xs) True) = 0" by (rule SIZE_tw) auto
  ultimately show ?case by (subst examine_from.simps) (simp add: rd_def split: if_splits)
next
  case (Cons y ys)
  obtain z u where y: "y = (z, u)" by (cases y)
  let ?a = "first5 s + tot xs"
  have z: "32 \<le> z" using Cons.prems y by (simp add: core5_def)
  have lt: "int ?a < mem_heap_hi (lib5 s)" using Cons.prems y z by (simp add: mem_heap_hi_def core5_def)
  obtain h where h: "rd s ?a = Some h" "SIZE h = z" "h AND TAG_USED = of_bool u" "h AND TAG_PRECEDING_USED = 2 * of_bool (lastu True xs)"
    using core5_header [OF Cons.prems] y by auto
  have at: "rd s (?a + 8) = Some (words s (?a + 8))" "rd s (?a + 16) = Some (words s (?a + 16))"
    using list5_at(2) [OF core5_list5 [OF Cons.prems], of ?a] y by simp_all
  have "examine_from s (?a + z) = Some (lines_of (words s) u (blks (?a + z) ys))"
    using Cons.IH [of "xs @ [y]"] Cons.prems y by (simp add: add.assoc)
  then show ?case using h at lt z y by (subst examine_from.simps) (auto simp: fields5)
qed

lemma examine_heap_ok:
  "core5 s bs fl \<Longrightarrow> examine_heap s = Some (hd0 fl, lines_of (words s) True (blks (first5 s) bs))"
proof -
  assume c: "core5 s bs fl"
  have "words s (lo5 s) = hd0 fl" using c flist_hd by (auto simp: core5_def)
  moreover have "at5 s (lo5 s)" by (rule list5_at(1) [OF core5_list5 [OF c]])
  ultimately show ?thesis using examine_from_ok [of s "[]" bs fl] c by (simp add: examine_heap_def fields5)
qed

section \<open>The driver of the collector\<close>

text \<open>
  \<^verbatim>\<open>mm_malloc\<close> of the handout returns NULL for every request, and \<^verbatim>\<open>initialize_blocks\<close> stores through the result
  without a test: the driver of the collector faults.
\<close>

lemma gc_driver_faults:
  assumes "8 dvd storage" and "0 < storage" and "storage + MAX_HEAP \<le> 2 ^ 63"
  shows "gc_driver_main storage junk = None"
proof -
  let ?l = "\<lparr>mem_start_brk = storage, mem_brk = storage, mem_max_addr = storage + MAX_HEAP\<rparr>"
  obtain s where s: "mm5_init \<lparr>lib5 = ?l, words = junk\<rparr> = Some (Inr s)" "lo5 s = storage"
    using mm5_init_ok [OF assms(1,2) _ assms(3), of junk] by (auto simp: MAX_HEAP_def)
  then have "initialize_blocks mm5_malloc s = None"
    using assms(2) by (simp add: initialize_blocks_def mm5_malloc_def wr_def valid5_def)
  then show ?thesis using s assms(2) by (simp add: gc_driver_main_def gc_driver_with_def mem_init_def mem_reset_brk_def)
qed

end
