(* ===== verification/Lab5Driver.thy ===== *)
theory Lab5Driver
  imports Lab5Theorems MdriverMain
begin

text \<open>
  The drivers of the older lab (\<^verbatim>\<open>sp_03_malloclab/lab5/mdriver.c\<close> and \<^verbatim>\<open>mdriver-realloc.c\<close>), at 64 bits.  The code that
  they have in the same words as the driver of \<open>Mdriver\<close> and \<open>MdriverMain\<close> is taken from there: the loop over the ranges, the options, the loop
  over the traces and the tables.

  An evaluation stops early (\<open>stop5\<close>) when the package ends the program, with \<^verbatim>\<open>app_error\<close>, with \<^verbatim>\<open>malloc_error\<close> for a
  request, or with a failed assertion.
\<close>

section \<open>The package under test\<close>

datatype stop5 = Quit int | App drv_error | Complaint nat drv_error mm5 | Assertion

record pkg5 =
  p5_init :: "mm5 \<Rightarrow> (stop5 + mm5 \<times> int) option"
  p5_malloc :: "mm5 \<Rightarrow> nat \<Rightarrow> (stop5 + mm5 \<times> nat) option"
  p5_free :: "mm5 \<Rightarrow> nat \<Rightarrow> (stop5 + mm5) option"
  p5_realloc :: "mm5 \<Rightarrow> nat \<Rightarrow> nat \<Rightarrow> (stop5 + mm5 \<times> nat) option"

text \<open>What follows a step that may stop.\<close>

definition seq :: "('e + 'a) option \<Rightarrow> ('a \<Rightarrow> ('e + 'b) option) \<Rightarrow> ('e + 'b) option" where
  "seq m f = (case m of None \<Rightarrow> None | Some (Inl e) \<Rightarrow> Some (Inl e) | Some (Inr x) \<Rightarrow> f x)"

lemma seq_simps [simp]: "seq None f = None" "seq (Some (Inl e)) f = Some (Inl e)" "seq (Some (Inr x)) f = f x"
  by (simp_all add: seq_def)

text \<open>The allocator of \<^verbatim>\<open>mm.c\<close> and \<^verbatim>\<open>mm-realloc.c\<close> as it is handed out.\<close>

definition handout :: pkg5 where
  "handout = \<lparr>
     p5_init = (\<lambda>s. case mm5_init s of None \<Rightarrow> None | Some (Inl st) \<Rightarrow> Some (Inl (Quit st)) | Some (Inr s) \<Rightarrow> Some (Inr (s, 0))),
     p5_malloc = (\<lambda>s n. Some (Inr (mm5_malloc s n))),
     p5_free = (\<lambda>s p. Some (Inr (mm5_free s p))),
     p5_realloc = (\<lambda>s p n. Some (Inr (mm5_realloc s p n)))\<rparr>"

section \<open>Bytes of the storage\<close>

definition byte5 :: "mm5 \<Rightarrow> nat \<Rightarrow> nat" where
  "byte5 s a = words s (a - a mod 8) div 256 ^ (a mod 8) mod 256"

text \<open>The word at \<open>w\<close> whose bytes from \<open>p\<close> up to \<open>p + n\<close> have been set to \<open>b\<close>.\<close>

definition fill_word :: "mm5 \<Rightarrow> nat \<Rightarrow> nat \<Rightarrow> nat \<Rightarrow> nat \<Rightarrow> nat" where
  "fill_word s p b n w =
     sum_list (map (\<lambda>k. (if p \<le> w + k \<and> w + k < p + n then b else byte5 s (w + k)) * 256 ^ k) [0..<8])"

definition memset5 :: "mm5 \<Rightarrow> nat \<Rightarrow> nat \<Rightarrow> nat \<Rightarrow> mm5 option" where
  "memset5 s p b n =
     (if n = 0 \<or> mem_start_brk (lib5 s) \<le> p \<and> p + n \<le> mem_max_addr (lib5 s)
      then Some (s\<lparr>words := (\<lambda>w. if 8 dvd w \<and> p < w + 8 \<and> w < p + n then fill_word s p b n w else words s w)\<rparr>)
      else None)"

definition data_kept5 :: "mm5 \<Rightarrow> nat \<Rightarrow> nat \<Rightarrow> nat \<Rightarrow> bool" where
  "data_kept5 s newp index oldsize \<longleftrightarrow>
     (\<forall>j\<in>set [0..<oldsize]. let c = byte5 s (newp + j) in (if c < 128 then int c else int c - 256) = int (index mod 256))"

section \<open>The range list and the trace\<close>

definition IS_ALIGNED5 :: "nat \<Rightarrow> bool" where
  "IS_ALIGNED5 p \<longleftrightarrow> p mod 2 ^ 64 mod ALIGNMENT = 0"

definition add_range5 :: "range list \<Rightarrow> memlib \<Rightarrow> nat \<Rightarrow> nat \<Rightarrow> drv_error + range list" where
  "add_range5 ranges l lo n =
     (let hi = lo + n - 1 in
      if \<not> n > 0 then Inl Assert_failed
      else if \<not> IS_ALIGNED5 lo then Inl Not_aligned
      else if lo < mem_heap_lo l \<or> int lo > mem_heap_hi l \<or> hi < mem_heap_lo l \<or> int hi > mem_heap_hi l
      then Inl Outside_heap
      else if range_overlap ranges lo hi then Inl Overlaps
      else Inr ((lo, hi) # ranges))"

text \<open>
  The next \<open>k\<close> words read as numbers: whether all of them are there, or \<open>None\<close> for a word that the conversions of
  \<^verbatim>\<open>fscanf\<close> would cut in two, or that begins with a sign.
\<close>

definition number :: "string \<Rightarrow> bool" where
  "number w \<longleftrightarrow> w \<noteq> [] \<and> list_all is_digit w"

definition no_number :: "string \<Rightarrow> bool" where
  "no_number w \<longleftrightarrow> \<not> list_ex (\<lambda>c. is_digit c \<or> c = CHR ''-'' \<or> c = CHR ''+'') (take 1 w)"

definition num_args :: "nat \<Rightarrow> string list \<Rightarrow> bool option" where
  "num_args k ws =
     (if list_all (\<lambda>w. number w \<or> no_number w) (take k ws) then Some (k \<le> length ws \<and> list_all number (take k ws)) else None)"

text \<open>
  The requests of \<^verbatim>\<open>mdriver.c\<close>: there is no reallocation.  A request without its numbers leaves the variables as they were, which is
  not modelled (\<open>None\<close>).
\<close>

fun read_ops5 :: "nat \<Rightarrow> string list \<Rightarrow> traceop list \<Rightarrow> nat \<Rightarrow> (drv_error + traceop list \<times> nat) option" where
  "read_ops5 n [] ops max_index = Some (Inr (ops, max_index))"
| "read_ops5 n (t # ws) ops max_index =
     (if take 1 t = ''a'' then
        (if num_args 2 ws = Some True \<and> length ops < n
         then read_ops5 n (drop 2 ws) (ops @ [\<lparr>op_type = ALLOC, op_index = scan_u (ws ! 0), op_size = scan_u (ws ! 1)\<rparr>])
           (max max_index (scan_u (ws ! 0)))
         else None)
      else if take 1 t = ''f'' then
        (if num_args 1 ws = Some True \<and> length ops < n
         then read_ops5 n (drop 1 ws) (ops @ [\<lparr>op_type = FREE, op_index = scan_u (ws ! 0), op_size = 0\<rparr>]) max_index
         else None)
      else Some (Inl Bogus_type))"

text \<open>
  The requests of \<^verbatim>\<open>mdriver-realloc.c\<close>, where the numbers of a request are asserted to be there.
\<close>

fun read_ops5r :: "nat \<Rightarrow> string list \<Rightarrow> traceop list \<Rightarrow> nat \<Rightarrow> (drv_error + traceop list \<times> nat) option" where
  "read_ops5r n [] ops max_index = Some (Inr (ops, max_index))"
| "read_ops5r n (t # ws) ops max_index =
     (if take 1 t = ''a'' \<or> take 1 t = ''r'' then
        (if num_args 2 ws = Some False then Some (Inl Assert_failed)
         else if num_args 2 ws = Some True \<and> length ops < n
         then read_ops5r n (drop 2 ws)
           (ops @ [\<lparr>op_type = (if take 1 t = ''a'' then ALLOC else REALLOC), op_index = scan_u (ws ! 0), op_size = scan_u (ws ! 1)\<rparr>])
           (max max_index (scan_u (ws ! 0)))
         else None)
      else if take 1 t = ''f'' then
        (if num_args 1 ws = Some False then Some (Inl Assert_failed)
         else if num_args 1 ws = Some True \<and> length ops < n
         then read_ops5r n (drop 1 ws) (ops @ [\<lparr>op_type = FREE, op_index = scan_u (ws ! 0), op_size = 0\<rparr>]) max_index
         else None)
      else Some (Inl Bogus_type))"

text \<open>The header and the checks at the end.\<close>

definition check_trace :: "string list \<Rightarrow> traceop list \<times> nat \<Rightarrow> drv_error + trace" where
  "check_trace hdr = (\<lambda>(ops, max_index). case map scan_u hdr of
     [h, ids, n, w] \<Rightarrow>
       if int max_index = int ids - 1 \<and> n = length ops
       then Inr \<lparr>sugg_heapsize = int h, num_ids = ids, num_ops = n, weight = int w, trace_ops = ops,
         blocks = replicate ids 0, block_sizes = replicate ids 0\<rparr>
       else Inl Assert_failed
   | _ \<Rightarrow> Inl Assert_failed)"

definition read_trace5 :: "string list \<Rightarrow> (drv_error + trace) option" where
  "read_trace5 ws =
     (if num_args 4 ws \<noteq> Some True then None
      else seq (read_ops5 (scan_u (ws ! 2)) (drop 4 ws) [] 0) (\<lambda>r. Some (check_trace (take 4 ws) r)))"

definition read_trace5r :: "string list \<Rightarrow> (drv_error + trace) option" where
  "read_trace5r ws =
     (if num_args 4 ws = None then None
      else if num_args 4 ws = Some False then Some (Inl Assert_failed)
      else seq (read_ops5r (scan_u (ws ! 2)) (drop 4 ws) [] 0) (\<lambda>r. Some (check_trace (take 4 ws) r)))"

section \<open>Evaluating correctness\<close>

type_synonym drv5 = "mm5 \<times> range list \<times> nat list \<times> nat list"

text \<open>A new payload is checked and filled, and its block is remembered.\<close>

definition adopt5 :: "nat \<Rightarrow> nat \<Rightarrow> nat \<Rightarrow> nat \<Rightarrow> drv5 \<Rightarrow> (stop5 + drv5) option" where
  "adopt5 i index p n = (\<lambda>(s, ranges, bl, zs). do {
     s \<leftarrow> memset5 s p (index mod 256) n;
     bl \<leftarrow> aset bl index p;
     zs \<leftarrow> aset zs index n;
     Some (Inr (s, ranges, bl, zs)) })"

definition range_error :: "nat \<Rightarrow> drv_error \<Rightarrow> mm5 \<Rightarrow> stop5" where
  "range_error i e s = (if e = Assert_failed then Assertion else Complaint i e s)"

text \<open>The request number \<open>i\<close> in \<^verbatim>\<open>eval_mm_valid\<close> of \<^verbatim>\<open>mdriver.c\<close>.\<close>

definition valid_op5 :: "pkg5 \<Rightarrow> nat \<Rightarrow> traceop \<Rightarrow> drv5 \<Rightarrow> (stop5 + drv5) option" where
  "valid_op5 pk i r = (\<lambda>(s, ranges, bl, zs). let index = op_index r; n = op_size r in
     case op_type r of
       ALLOC \<Rightarrow> seq (p5_malloc pk s n) (\<lambda>(s, p).
         if p = 0 then Some (Inl (Complaint i Malloc_failed s))
         else case add_range5 ranges (lib5 s) p n of
           Inl e \<Rightarrow> Some (Inl (range_error i e s))
         | Inr ranges \<Rightarrow> adopt5 i index p n (s, ranges, bl, zs))
     | FREE \<Rightarrow> do {
         p \<leftarrow> aget bl index;
         let ranges = remove_range ranges p;
         seq (p5_free pk s p) (\<lambda>s. Some (Inr (s, ranges, bl, zs))) }
     | REALLOC \<Rightarrow> Some (Inl (App Bogus_type)))"

text \<open>The same in \<^verbatim>\<open>mdriver-realloc.c\<close>.\<close>

definition valid_op5r :: "pkg5 \<Rightarrow> nat \<Rightarrow> traceop \<Rightarrow> drv5 \<Rightarrow> (stop5 + drv5) option" where
  "valid_op5r pk i r = (\<lambda>(s, ranges, bl, zs). let index = op_index r; n = op_size r in
     case op_type r of
       REALLOC \<Rightarrow> do {
         oldp \<leftarrow> aget bl index;
         seq (p5_realloc pk s oldp n) (\<lambda>(s, newp).
           if newp = 0 then Some (Inl (Complaint i Realloc_failed s))
           else case add_range5 (remove_range ranges oldp) (lib5 s) newp n of
             Inl e \<Rightarrow> Some (Inl (range_error i e s))
           | Inr ranges \<Rightarrow> do {
               oldsize \<leftarrow> aget zs index;
               let oldsize = (if n < oldsize then n else oldsize);
               if \<not> data_kept5 s newp index oldsize then Some (Inl (Complaint i Data_lost s))
               else adopt5 i index newp n (s, ranges, bl, zs) }) }
     | _ \<Rightarrow> valid_op5 pk i r (s, ranges, bl, zs))"

fun valid_ops5 :: "(nat \<Rightarrow> traceop \<Rightarrow> drv5 \<Rightarrow> (stop5 + drv5) option) \<Rightarrow> nat \<Rightarrow> traceop list \<Rightarrow> drv5 \<Rightarrow> (stop5 + drv5) option" where
  "valid_ops5 step i [] d = Some (Inr d)"
| "valid_ops5 step i (r # rs) d = seq (step i r d) (valid_ops5 step (Suc i) rs)"

definition eval_valid_with :: "pkg5 \<Rightarrow> (nat \<Rightarrow> traceop \<Rightarrow> drv5 \<Rightarrow> (stop5 + drv5) option) \<Rightarrow> mm5 \<Rightarrow> trace \<Rightarrow> (stop5 + drv5) option" where
  "eval_valid_with pk step s t =
     seq (p5_init pk (s\<lparr>lib5 := mem_reset_brk (lib5 s)\<rparr>)) (\<lambda>(s, r).
       if r < 0 then Some (Inl (Complaint 0 Init_failed s))
       else valid_ops5 step 0 (trace_ops t) (s, clear_ranges [], blocks t, block_sizes t))"

definition eval_mm_valid5 :: "pkg5 \<Rightarrow> mm5 \<Rightarrow> trace \<Rightarrow> (stop5 + drv5) option" where
  "eval_mm_valid5 pk = eval_valid_with pk (valid_op5 pk)"

definition eval_mm_valid5r :: "pkg5 \<Rightarrow> mm5 \<Rightarrow> trace \<Rightarrow> (stop5 + drv5) option" where
  "eval_mm_valid5r pk = eval_valid_with pk (valid_op5r pk)"

section \<open>Evaluating utilization\<close>

type_synonym util5 = "mm5 \<times> nat list \<times> nat list \<times> int \<times> int"

definition util_op5 :: "pkg5 \<Rightarrow> traceop \<Rightarrow> util5 \<Rightarrow> (stop5 + util5) option" where
  "util_op5 pk r = (\<lambda>(s, bl, zs, ttl, hwm). let index = op_index r; n = op_size r in
     case op_type r of
       ALLOC \<Rightarrow> seq (p5_malloc pk s n) (\<lambda>(s, p).
         if p = 0 then Some (Inl (App Malloc_failed))
         else do {
           bl \<leftarrow> aset bl index p;
           zs \<leftarrow> aset zs index n;
           let ttl = ttl + int n;
           Some (Inr (s, bl, zs, ttl, if ttl > hwm then ttl else hwm)) })
     | FREE \<Rightarrow> do {
         n \<leftarrow> aget zs index;
         p \<leftarrow> aget bl index;
         seq (p5_free pk s p) (\<lambda>s. Some (Inr (s, bl, zs, ttl - int n, hwm))) }
     | REALLOC \<Rightarrow> Some (Inl (App Bogus_type)))"

definition util_op5r :: "pkg5 \<Rightarrow> traceop \<Rightarrow> util5 \<Rightarrow> (stop5 + util5) option" where
  "util_op5r pk r = (\<lambda>(s, bl, zs, ttl, hwm). let index = op_index r; n = op_size r in
     case op_type r of
       REALLOC \<Rightarrow> do {
         oldsize \<leftarrow> aget zs index;
         oldp \<leftarrow> aget bl index;
         seq (p5_realloc pk s oldp n) (\<lambda>(s, newp).
           if newp = 0 then Some (Inl (App Realloc_failed))
           else do {
             bl \<leftarrow> aset bl index newp;
             zs \<leftarrow> aset zs index n;
             let ttl = ttl + (int n - int oldsize);
             Some (Inr (s, bl, zs, ttl, if ttl > hwm then ttl else hwm)) }) }
     | _ \<Rightarrow> util_op5 pk r (s, bl, zs, ttl, hwm))"

fun run_ops5 :: "(traceop \<Rightarrow> 'a \<Rightarrow> (stop5 + 'a) option) \<Rightarrow> traceop list \<Rightarrow> 'a \<Rightarrow> (stop5 + 'a) option" where
  "run_ops5 step [] d = Some (Inr d)"
| "run_ops5 step (r # rs) d = seq (step r d) (run_ops5 step rs)"

text \<open>The result is the pair of the quotient, and the state after the evaluation.\<close>

definition eval_util_with :: "pkg5 \<Rightarrow> (traceop \<Rightarrow> util5 \<Rightarrow> (stop5 + util5) option) \<Rightarrow> mm5 \<Rightarrow> trace
    \<Rightarrow> (stop5 + int \<times> int \<times> mm5 \<times> nat list \<times> nat list) option" where
  "eval_util_with pk step s t =
     seq (p5_init pk (s\<lparr>lib5 := mem_reset_brk (lib5 s)\<rparr>)) (\<lambda>(s, r).
       if r < 0 then Some (Inl (App Init_failed))
       else seq (run_ops5 step (trace_ops t) (s, blocks t, block_sizes t, 0, 0))
         (\<lambda>(s, bl, zs, ttl, hwm). Some (Inr (hwm, mem_heapsize (lib5 s), s, bl, zs))))"

definition eval_mm_util5 :: "pkg5 \<Rightarrow> mm5 \<Rightarrow> trace \<Rightarrow> (stop5 + int \<times> int \<times> mm5 \<times> nat list \<times> nat list) option" where
  "eval_mm_util5 pk = eval_util_with pk (util_op5 pk)"

definition eval_mm_util5r :: "pkg5 \<Rightarrow> mm5 \<Rightarrow> trace \<Rightarrow> (stop5 + int \<times> int \<times> mm5 \<times> nat list \<times> nat list) option" where
  "eval_mm_util5r pk = eval_util_with pk (util_op5r pk)"

section \<open>Evaluating speed\<close>

definition speed_op5 :: "pkg5 \<Rightarrow> traceop \<Rightarrow> mm5 \<times> nat list \<Rightarrow> (stop5 + mm5 \<times> nat list) option" where
  "speed_op5 pk r = (\<lambda>(s, bl). let index = op_index r; n = op_size r in
     case op_type r of
       ALLOC \<Rightarrow> seq (p5_malloc pk s n) (\<lambda>(s, p).
         if p = 0 then Some (Inl (App Malloc_failed))
         else do { bl \<leftarrow> aset bl index p; Some (Inr (s, bl)) })
     | FREE \<Rightarrow> do {
         block \<leftarrow> aget bl index;
         seq (p5_free pk s block) (\<lambda>s. Some (Inr (s, bl))) }
     | REALLOC \<Rightarrow> Some (Inl (App Bogus_type)))"

definition speed_op5r :: "pkg5 \<Rightarrow> traceop \<Rightarrow> mm5 \<times> nat list \<Rightarrow> (stop5 + mm5 \<times> nat list) option" where
  "speed_op5r pk r = (\<lambda>(s, bl). let index = op_index r; n = op_size r in
     case op_type r of
       REALLOC \<Rightarrow> do {
         oldp \<leftarrow> aget bl index;
         seq (p5_realloc pk s oldp n) (\<lambda>(s, newp).
           if newp = 0 then Some (Inl (App Realloc_failed))
           else do { bl \<leftarrow> aset bl index newp; Some (Inr (s, bl)) }) }
     | _ \<Rightarrow> speed_op5 pk r (s, bl))"

definition eval_speed_with :: "pkg5 \<Rightarrow> (traceop \<Rightarrow> mm5 \<times> nat list \<Rightarrow> (stop5 + mm5 \<times> nat list) option) \<Rightarrow> mm5 \<Rightarrow> trace
    \<Rightarrow> (stop5 + mm5 \<times> nat list) option" where
  "eval_speed_with pk step s t =
     seq (p5_init pk (s\<lparr>lib5 := mem_reset_brk (lib5 s)\<rparr>)) (\<lambda>(s, r).
       if r < 0 then Some (Inl (App Init_failed)) else run_ops5 step (trace_ops t) (s, blocks t))"

definition eval_mm_speed5 :: "pkg5 \<Rightarrow> mm5 \<Rightarrow> trace \<Rightarrow> (stop5 + mm5 \<times> nat list) option" where
  "eval_mm_speed5 pk = eval_speed_with pk (speed_op5 pk)"

definition eval_mm_speed5r :: "pkg5 \<Rightarrow> mm5 \<Rightarrow> trace \<Rightarrow> (stop5 + mm5 \<times> nat list) option" where
  "eval_mm_speed5r pk = eval_speed_with pk (speed_op5r pk)"

section \<open>The allocator of the C library\<close>

record 'c libc5 =
  c_malloc :: "'c \<Rightarrow> nat \<Rightarrow> 'c \<times> nat"
  c_free :: "'c \<Rightarrow> nat \<Rightarrow> 'c"
  c_realloc :: "'c \<Rightarrow> nat \<Rightarrow> nat \<Rightarrow> 'c \<times> nat"

text \<open>One request: a failure is reported and ends the program.\<close>

definition libc_op5 :: "'c libc5 \<Rightarrow> traceop \<Rightarrow> 'c \<times> nat list \<Rightarrow> (drv_error + 'c \<times> nat list) option" where
  "libc_op5 libc r = (\<lambda>(c, bl). let index = op_index r; n = op_size r in
     case op_type r of
       ALLOC \<Rightarrow> (case c_malloc libc c n of (c, p) \<Rightarrow>
         if p = 0 then Some (Inl Malloc_failed) else do { bl \<leftarrow> aset bl index p; Some (Inr (c, bl)) })
     | FREE \<Rightarrow> do { p \<leftarrow> aget bl index; Some (Inr (c_free libc c p, bl)) }
     | REALLOC \<Rightarrow> Some (Inl Bogus_type))"

definition libc_op5r :: "'c libc5 \<Rightarrow> traceop \<Rightarrow> 'c \<times> nat list \<Rightarrow> (drv_error + 'c \<times> nat list) option" where
  "libc_op5r libc r = (\<lambda>(c, bl). let index = op_index r; n = op_size r in
     case op_type r of
       REALLOC \<Rightarrow> do {
         p \<leftarrow> aget bl index;
         (case c_realloc libc c p n of (c, newp) \<Rightarrow>
            if newp = 0 then Some (Inl Realloc_failed) else do { bl \<leftarrow> aset bl index newp; Some (Inr (c, bl)) }) }
     | _ \<Rightarrow> libc_op5 libc r (c, bl))"

fun libc_valid_ops5 :: "(traceop \<Rightarrow> 'c \<times> nat list \<Rightarrow> (drv_error + 'c \<times> nat list) option) \<Rightarrow> nat \<Rightarrow> traceop list \<Rightarrow> 'c \<times> nat list
    \<Rightarrow> (nat \<times> drv_error + 'c \<times> nat list) option" where
  "libc_valid_ops5 step i [] d = Some (Inr d)"
| "libc_valid_ops5 step i (r # rs) d =
     (case step r d of None \<Rightarrow> None | Some (Inl e) \<Rightarrow> Some (Inl (i, e)) | Some (Inr d) \<Rightarrow> libc_valid_ops5 step (Suc i) rs d)"

definition eval_libc_valid5 :: "(traceop \<Rightarrow> 'c \<times> nat list \<Rightarrow> (drv_error + 'c \<times> nat list) option) \<Rightarrow> 'c \<Rightarrow> trace
    \<Rightarrow> (nat \<times> drv_error + 'c \<times> nat list) option" where
  "eval_libc_valid5 step c t = libc_valid_ops5 step 0 (trace_ops t) (c, blocks t)"

text \<open>\<^verbatim>\<open>eval_libc_speed\<close> has no default case: it passes over other requests.\<close>

fun libc_speed_ops5 :: "(traceop \<Rightarrow> 'c \<times> nat list \<Rightarrow> (drv_error + 'c \<times> nat list) option) \<Rightarrow> traceop list \<Rightarrow> 'c \<times> nat list
    \<Rightarrow> (drv_error + 'c \<times> nat list) option" where
  "libc_speed_ops5 step [] d = Some (Inr d)"
| "libc_speed_ops5 step (r # rs) d =
     (case step r d of
        None \<Rightarrow> None
      | Some (Inl e) \<Rightarrow> if e = Bogus_type then libc_speed_ops5 step rs d else Some (Inl e)
      | Some (Inr d) \<Rightarrow> libc_speed_ops5 step rs d)"

definition eval_libc_speed5 :: "(traceop \<Rightarrow> 'c \<times> nat list \<Rightarrow> (drv_error + 'c \<times> nat list) option) \<Rightarrow> 'c \<Rightarrow> trace
    \<Rightarrow> (drv_error + 'c \<times> nat list) option" where
  "eval_libc_speed5 step c t = libc_speed_ops5 step (trace_ops t) (c, blocks t)"

section \<open>One trace\<close>

definition TRACEDIR5 :: string where "TRACEDIR5 = ''traces/''"

definition DEFAULT_TRACEFILES5 :: "string list" where
  "DEFAULT_TRACEFILES5 = [''amptjp-bal.rep'', ''cccp-bal.rep'', ''cp-decl-bal.rep'', ''expr-bal.rep'',
     ''coalescing-bal.rep'', ''random-bal.rep'', ''random2-bal.rep'', ''binary-bal.rep'', ''binary2-bal.rep'']"

definition AVG_LIBC_THRUPUT5 :: rat where "AVG_LIBC_THRUPUT5 = 1800000"

definition opts5 :: opts where
  "opts5 = \<lparr>autograder = False, run_libc = False, verbose = 0, tracedir = TRACEDIR5, tracefiles = None\<rparr>"

text \<open>The option \<^verbatim>\<open>-a\<close> of \<^verbatim>\<open>mdriver-realloc.c\<close> sets a variable that nothing reads.\<close>

definition parse_opts5r :: "(char \<times> string) list \<Rightarrow> opts \<Rightarrow> (int + opts) option" where
  "parse_opts5r cs opt = parse_opts (filter (\<lambda>(c, arg). c \<noteq> CHR ''a'') cs) opt"

text \<open>The configuration of the lab (\<^verbatim>\<open>USE_ITIMER\<close>): the average of ten runs by the interval timer.\<close>

definition fsecs5 :: "timeval \<times> timeval \<Rightarrow> rat" where
  "fsecs5 readings = ftimer_itimer (fst readings) (snd readings) 10"

text \<open>\<open>reader\<close> is the \<^verbatim>\<open>read_trace\<close> of either program.\<close>

definition load_trace5 :: "(string list \<Rightarrow> (drv_error + trace) option) \<Rightarrow> world \<Rightarrow> opts \<Rightarrow> string \<Rightarrow> drv_out list
    \<Rightarrow> (drv_status \<times> drv_out list + trace \<times> drv_out list) option" where
  "load_trace5 reader w opt file out =
     (let out = announce (1 < verbose opt) (Reading file) out;
          path = tracedir opt @ file
      in if DRV_MAXLINE \<le> length path then None
         else case w_files w path of
           None \<Rightarrow> if DRV_MAXLINE \<le> length path + 29 then None else Some (Inl (Exited 1, out @ [Cannot_open path]))
         | Some ws \<Rightarrow>
             (case reader ws of
                None \<Rightarrow> None
              | Some (Inl e) \<Rightarrow> if e = Bogus_type then Some (Inl (Exited 1, out @ [Bogus path])) else Some (Inl (Aborted, out))
              | Some (Inr t) \<Rightarrow> Some (Inr (t, out))))"

text \<open>The C library on one trace; \<open>loud\<close> is whether the progress is printed.\<close>

definition libc_trace5 :: "(string list \<Rightarrow> (drv_error + trace) option) \<Rightarrow> (traceop \<Rightarrow> 'c \<times> nat list \<Rightarrow> (drv_error + 'c \<times> nat list) option) \<Rightarrow>
    bool \<Rightarrow> world \<Rightarrow> opts \<Rightarrow> nat \<Rightarrow> string \<Rightarrow> 'c \<Rightarrow> drv_out list \<Rightarrow> (drv_status \<times> drv_out list + stats \<times> 'c \<times> drv_out list) option" where
  "libc_trace5 reader step loud w opt i file c out =
     seq (load_trace5 reader w opt file out) (\<lambda>(t, out).
       let out = announce loud (Checking ''libc malloc'') out in
       case eval_libc_valid5 step c t of
         None \<Rightarrow> None
       | Some (Inl (j, e)) \<Rightarrow>
           Some (Inl (Exited 1, out @ (if e = Bogus_type then [App_error e ''eval_libc_valid'']
             else [Malloc_error i (LINENUM j) e, Unix_error ''System message''])))
       | Some (Inr (c, bl)) \<Rightarrow>
           (let out = announce loud And_performance out in
            case timed_runs (eval_libc_speed5 step) 10 c (t\<lparr>blocks := bl\<rparr>) of
              None \<Rightarrow> None
            | Some (Inl e) \<Rightarrow> Some (Inl (Exited 1, out @ [Unix_error
                (if e = Malloc_failed then ''malloc failed in eval_libc_speed'' else ''realloc failed in eval_libc_speed'')]))
            | Some (Inr (c, bl)) \<Rightarrow>
                Some (Inr ((fresh_stats (num_ops t))\<lparr>st_valid := True, st_secs := fsecs5 (w_libc_clock w i)\<rparr>, c, out))))"

text \<open>The end of the program when an evaluation of speed or utilization stops.\<close>

definition ended :: "stop5 \<Rightarrow> string \<Rightarrow> drv_out list \<Rightarrow> drv_status \<times> drv_out list" where
  "ended e name out = (case e of
     Quit st \<Rightarrow> (Exited st, out)
   | App e \<Rightarrow> (Exited 1, out @ [App_error e name])
   | Complaint j e s \<Rightarrow> (Exited 1, out @ [App_error e name])
   | Assertion \<Rightarrow> (Aborted, out))"

text \<open>The three evaluations of a driver.\<close>

record evals5 =
  ev_valid :: "mm5 \<Rightarrow> trace \<Rightarrow> (stop5 + drv5) option"
  ev_util :: "mm5 \<Rightarrow> trace \<Rightarrow> (stop5 + int \<times> int \<times> mm5 \<times> nat list \<times> nat list) option"
  ev_speed :: "mm5 \<Rightarrow> trace \<Rightarrow> (stop5 + mm5 \<times> nat list) option"

definition mm_trace5 :: "(string list \<Rightarrow> (drv_error + trace) option) \<Rightarrow> evals5 \<Rightarrow> world \<Rightarrow> opts \<Rightarrow> nat \<Rightarrow> string \<Rightarrow> mm5 \<Rightarrow> drv_out list
    \<Rightarrow> (drv_status \<times> drv_out list + stats \<times> mm5 \<times> drv_out list) option" where
  "mm_trace5 reader ev w opt i file s out =
     seq (load_trace5 reader w opt file out) (\<lambda>(t, out).
       let out = announce (1 < verbose opt) (Checking ''mm_malloc'') out in
       case ev_valid ev s t of
         None \<Rightarrow> None
       | Some (Inl (Complaint j e s)) \<Rightarrow> Some (Inr (fresh_stats (num_ops t), s, out @ [Malloc_error i (LINENUM j) e]))
       | Some (Inl e) \<Rightarrow> Some (Inl (ended e ''eval_mm_valid'' out))
       | Some (Inr (s, ranges, bl, zs)) \<Rightarrow>
           (let out = announce (1 < verbose opt) Efficiency out in
            case ev_util ev s (t\<lparr>blocks := bl, block_sizes := zs\<rparr>) of
              None \<Rightarrow> None
            | Some (Inl e) \<Rightarrow> Some (Inl (ended e ''eval_mm_util'' out))
            | Some (Inr (hwm, h, s, bl, zs)) \<Rightarrow>
                (let out = announce (1 < verbose opt) And_performance out in
                 case timed_runs (ev_speed ev) 10 s (t\<lparr>blocks := bl, block_sizes := zs\<rparr>) of
                   None \<Rightarrow> None
                 | Some (Inl e) \<Rightarrow> Some (Inl (ended e ''eval_mm_speed'' out))
                 | Some (Inr (s, bl)) \<Rightarrow>
                     Some (Inr (\<lparr>st_ops = num_ops t, st_valid = True, st_secs = fsecs5 (w_mm_clock w i),
                       st_util = ddiv (of_int hwm) (of_int h)\<rparr>, s, out)))))"

section \<open>The performance index\<close>

definition throughput :: "stats list \<Rightarrow> dbl" where
  "throughput sts = ddiv (of_nat (sum_list (map st_ops sts))) (sum_list (map st_secs sts))"

definition perf_p2_5 :: "dbl \<Rightarrow> dbl" where
  "perf_p2_5 avg_mm_throughput =
     (if dgreater avg_mm_throughput AVG_LIBC_THRUPUT5 then Fin (1 - UTIL_WEIGHT)
      else dscale ((1 - UTIL_WEIGHT) / AVG_LIBC_THRUPUT5) avg_mm_throughput)"

definition perf_report5 :: "bool \<Rightarrow> nat \<Rightarrow> nat \<Rightarrow> dbl \<Rightarrow> dbl \<Rightarrow> drv_out list" where
  "perf_report5 grade errs numcorrect p1 p2 =
     (let perfindex = (if errs = 0 then dscale 100 (dadd p1 p2) else Fin 0)
      in [if errs = 0 then Perf (dscale 100 p1) (dscale 100 p2) perfindex else Terminated errs] @
         (if grade then [Correct numcorrect, Perfidx perfindex] else []))"

text \<open>
  \<^verbatim>\<open>sumresults\<close> of \<^verbatim>\<open>mdriver-realloc.c\<close>.  \<open>cnt\<close> is whether the pointer \<^verbatim>\<open>num_correct\<close> is not null, \<open>junk\<close> what the variable behind
  \<^verbatim>\<open>avg_tput\<close> holds before; the result is the number of correct traces, the utilization and this variable, or \<open>None\<close> for the failed assertion.
\<close>

definition sumresults :: "bool \<Rightarrow> stats list \<Rightarrow> dbl \<Rightarrow> (nat \<times> dbl \<times> dbl) option" where
  "sumresults cnt sts junk =
     (let num_correct = length (filter st_valid sts);
          avg_util = dbl_over (sum_util sts) (length sts);
          avg_tput = (if \<not> cnt \<or> num_correct = length sts then throughput sts else junk)
      in if dgreater avg_tput 0 then Some (num_correct, avg_util, avg_tput) else None)"

text \<open>Its table has a flag of its own for the errors.\<close>

definition printresults5r :: "stats list \<Rightarrow> drv_out list" where
  "printresults5r sts = printresults (length (filter (\<lambda>st. \<not> st_valid st) sts)) sts"

section \<open>The main routines\<close>

text \<open>The start of both: the options and the files.\<close>

definition start5 :: "opts \<Rightarrow> string list \<times> drv_out list" where
  "start5 opt =
     ((case tracefiles opt of None \<Rightarrow> DEFAULT_TRACEFILES5 | Some fs \<Rightarrow> fs),
      announce (0 < verbose opt) Using_itimer (announce (tracefiles opt = None) (Using_default (tracedir opt)) []))"

text \<open>The traces of the package under test, and the table.\<close>

definition mm_traces5 :: "(string list \<Rightarrow> (drv_error + trace) option) \<Rightarrow> evals5 \<Rightarrow> (nat \<Rightarrow> stats list \<Rightarrow> drv_out list) \<Rightarrow> world \<Rightarrow> opts \<Rightarrow>
    string list \<Rightarrow> mm5 \<Rightarrow> nat \<Rightarrow> drv_out list \<Rightarrow> (drv_status \<times> drv_out list + stats list \<times> drv_out list) option" where
  "mm_traces5 reader ev table w opt files s b0 out =
     (let out = announce (1 < verbose opt) (Testing ''mm'') out in
      case mem_init b0 of
        None \<Rightarrow> Some (Inl (Exited 1, out))
      | Some l \<Rightarrow> seq (all_traces (mm_trace5 reader ev w opt) 0 files (s\<lparr>lib5 := l\<rparr>) out) (\<lambda>(sts, out).
          Some (Inr (sts, if 0 < verbose opt then out @ [Results ''mm malloc''] @ table (errors out) sts else out))))"

definition evals_mdriver :: "pkg5 \<Rightarrow> evals5" where
  "evals_mdriver pk = \<lparr>ev_valid = eval_mm_valid5 pk, ev_util = eval_mm_util5 pk, ev_speed = eval_mm_speed5 pk\<rparr>"

definition evals_mdriver_realloc :: "pkg5 \<Rightarrow> evals5" where
  "evals_mdriver_realloc pk = \<lparr>ev_valid = eval_mm_valid5r pk, ev_util = eval_mm_util5r pk, ev_speed = eval_mm_speed5r pk\<rparr>"

definition finish :: "(drv_status \<times> drv_out list + drv_status \<times> drv_out list) option \<Rightarrow> (drv_status \<times> drv_out list) option" where
  "finish m = (case m of None \<Rightarrow> None | Some (Inl x) \<Rightarrow> Some x | Some (Inr x) \<Rightarrow> Some x)"

definition mdriver5_main :: "world \<Rightarrow> pkg5 \<Rightarrow> 'c libc5 \<Rightarrow> 'c \<Rightarrow> mm5 \<Rightarrow> nat \<Rightarrow> (char \<times> string) list \<Rightarrow> (drv_status \<times> drv_out list) option" where
  "mdriver5_main w pk libc c s b0 args =
     (case parse_opts args opts5 of
        None \<Rightarrow> None
      | Some (Inl st) \<Rightarrow> Some (Exited st, [Usage])
      | Some (Inr opt) \<Rightarrow>
          (case start5 opt of (files, out) \<Rightarrow> finish (
             seq (if run_libc opt then
                    seq (all_traces (libc_trace5 read_trace5 (libc_op5 libc) (1 < verbose opt) w opt) 0 files c
                      (announce (1 < verbose opt) (Testing ''libc'') out)) (\<lambda>(sts, out).
                      Some (Inr (if 0 < verbose opt then out @ [Results ''libc malloc''] @ printresults (errors out) sts else out)))
                  else Some (Inr out)) (\<lambda>out.
             seq (mm_traces5 read_trace5 (evals_mdriver pk) printresults w opt files s b0 out) (\<lambda>(sts, out).
               let numcorrect = length (filter st_valid sts);
                   p1 = dscale UTIL_WEIGHT (dbl_over (sum_util sts) (length sts));
                   p2 = perf_p2_5 (throughput sts)
               in Some (Inr (Exited 0, out @ perf_report5 (autograder opt) (errors out) numcorrect p1 p2)))))))"

text \<open>\<open>junk\<close> is the variable \<^verbatim>\<open>avg_mm_throughput\<close> before it is set.\<close>

definition mdriver5r_main :: "world \<Rightarrow> pkg5 \<Rightarrow> 'c libc5 \<Rightarrow> 'c \<Rightarrow> dbl \<Rightarrow> mm5 \<Rightarrow> nat \<Rightarrow> (char \<times> string) list \<Rightarrow> (drv_status \<times> drv_out list) option" where
  "mdriver5r_main w pk libc c junk s b0 args =
     (case parse_opts5r args opts5 of
        None \<Rightarrow> None
      | Some (Inl st) \<Rightarrow> Some (Exited st, [Usage])
      | Some (Inr opt) \<Rightarrow>
          (case start5 opt of (files, out) \<Rightarrow> finish (
             seq (if run_libc opt then
                    seq (all_traces (libc_trace5 read_trace5r (libc_op5r libc) True w opt) 0 files c (out @ [Testing ''libc''])) (\<lambda>(sts, out).
                      let out = out @ [Results ''libc malloc''] @ printresults5r sts in
                      (case sumresults False sts (Fin 0) of None \<Rightarrow> Some (Inl (Aborted, out)) | Some r \<Rightarrow> Some (Inr out)))
                  else Some (Inr out)) (\<lambda>out.
             seq (mm_traces5 read_trace5r (evals_mdriver_realloc pk) (\<lambda>n. printresults5r) w opt files s b0 out) (\<lambda>(sts, out).
               (case sumresults True sts junk of
                  None \<Rightarrow> Some (Inl (Aborted, out))
                | Some (numcorrect, avg_mm_util, avg_mm_throughput) \<Rightarrow>
                    Some (Inr (Exited 0, out @ perf_report5 (autograder opt) (errors out) numcorrect (dscale UTIL_WEIGHT avg_mm_util)
                      (perf_p2_5 avg_mm_throughput)))))))))"

end
