(* ===== verification/Lab5Verdict.thy ===== *)
theory Lab5Verdict
  imports Lab5Driver MdriverCorrect
begin

text \<open>
  What the drivers of the older lab say about the allocator that is handed out with them: every trace that begins with an allocation
  is reported as failed, and what \<^verbatim>\<open>mdriver-realloc.c\<close> does then depends on a variable that it never sets.
\<close>

section \<open>One trace\<close>

definition storage5 :: "mm5 \<Rightarrow> bool" where
  "storage5 s \<longleftrightarrow> 8 dvd mem_start_brk (lib5 s) \<and> 0 < mem_start_brk (lib5 s) \<and>
     mem_start_brk (lib5 s) + 48 \<le> mem_max_addr (lib5 s) \<and> mem_max_addr (lib5 s) \<le> 2 ^ 63"

lemma handout_init:
  assumes "storage5 s"
  shows "\<exists>s'. p5_init handout (s\<lparr>lib5 := mem_reset_brk (lib5 s)\<rparr>) = Some (Inr (s', 0)) \<and> storage5 s'"
proof -
  let ?lo = "mem_start_brk (lib5 s)" and ?mx = "mem_max_addr (lib5 s)"
  have e: "s\<lparr>lib5 := mem_reset_brk (lib5 s)\<rparr> = \<lparr>lib5 = \<lparr>mem_start_brk = ?lo, mem_brk = ?lo, mem_max_addr = ?mx\<rparr>, words = words s\<rparr>"
    by (cases s; cases "lib5 s") (simp add: mem_reset_brk_def)
  have "8 dvd ?lo" "0 < ?lo" "?lo + 48 \<le> ?mx" "?mx \<le> 2 ^ 63" using assms by (auto simp: storage5_def)
  from mm5_init_ok [OF this, of "words s", folded e] obtain s' where
    "mm5_init (s\<lparr>lib5 := mem_reset_brk (lib5 s)\<rparr>) = Some (Inr s')" "lo5 s' = ?lo" "max5 s' = ?mx" by blast
  then show ?thesis using assms by (auto simp: handout_def storage5_def)
qed

text \<open>A trace file that can be read and begins with an allocation.\<close>

definition begins_with_alloc :: "trace \<Rightarrow> bool" where
  "begins_with_alloc t \<longleftrightarrow> (\<exists>r rs. trace_ops t = r # rs \<and> op_type r = ALLOC)"

definition usable_file :: "(string list \<Rightarrow> (drv_error + trace) option) \<Rightarrow> world \<Rightarrow> opts \<Rightarrow> string \<Rightarrow> bool" where
  "usable_file reader w opt file \<longleftrightarrow> length (tracedir opt @ file) < DRV_MAXLINE \<and>
     (\<exists>ws t. w_files w (tracedir opt @ file) = Some ws \<and> reader ws = Some (Inr t) \<and> begins_with_alloc t)"

lemma handout_valid:
  assumes "storage5 s" and "begins_with_alloc t" and "step = valid_op5 handout \<or> step = valid_op5r handout"
  shows "\<exists>s'. eval_valid_with handout step s t = Some (Inl (Complaint 0 Malloc_failed s')) \<and> storage5 s'"
proof -
  obtain r rs where t: "trace_ops t = r # rs" "op_type r = ALLOC" using assms(2) by (auto simp: begins_with_alloc_def)
  obtain s' where s': "p5_init handout (s\<lparr>lib5 := mem_reset_brk (lib5 s)\<rparr>) = Some (Inr (s', 0))" "storage5 s'"
    using handout_init [OF assms(1)] by blast
  have m: "p5_malloc handout x n = Some (Inr (x, 0))" for x n by (simp add: handout_def mm5_malloc_def)
  have "step 0 r (s', [], blocks t, block_sizes t) = Some (Inl (Complaint 0 Malloc_failed s'))"
    using assms(3) t(2) m by (auto simp: valid_op5_def valid_op5r_def)
  then show ?thesis using s' t(1) by (simp add: eval_valid_with_def clear_ranges_def)
qed

lemma errors_announce [simp]: "\<not> is_malloc_error m \<Longrightarrow> errors (announce b m out) = errors out"
  by (simp add: announce_def errors_def)

lemma errors_append [simp]: "errors (a @ b) = errors a + errors b"
  by (simp add: errors_def)

lemma handout_trace:
  assumes "storage5 s" and "usable_file reader w opt file"
    and "ev_valid ev = eval_valid_with handout step" and "step = valid_op5 handout \<or> step = valid_op5r handout"
  shows "\<exists>n s' out'. mm_trace5 reader ev w opt i file s out = Some (Inr (fresh_stats n, s', out')) \<and> storage5 s' \<and>
    errors out' = Suc (errors out)"
proof -
  obtain ws t where f: "\<not> DRV_MAXLINE \<le> length (tracedir opt @ file)" "w_files w (tracedir opt @ file) = Some ws"
    "reader ws = Some (Inr t)" "begins_with_alloc t" using assms(2) by (auto simp: usable_file_def)
  obtain s' where s': "eval_valid_with handout step s t = Some (Inl (Complaint 0 Malloc_failed s'))" "storage5 s'"
    using handout_valid [OF assms(1) f(4) assms(4)] by blast
  let ?out = "announce (1 < verbose opt) (Checking ''mm_malloc'') (announce (1 < verbose opt) (Reading file) out)"
  have l: "load_trace5 reader w opt file out = Some (Inr (t, announce (1 < verbose opt) (Reading file) out))"
    using f(1-3) by (simp add: load_trace5_def Let_def)
  have "mm_trace5 reader ev w opt i file s out =
      Some (Inr (fresh_stats (num_ops t), s', ?out @ [Malloc_error i (LINENUM 0) Malloc_failed]))"
    using s'(1) assms(3) by (simp add: mm_trace5_def l Let_def)
  moreover have "errors (?out @ [Malloc_error i (LINENUM 0) Malloc_failed]) = Suc (errors out)"
    by (simp add: errors_def announce_def)
  ultimately show ?thesis using s'(2) by blast
qed

lemma handout_traces:
  assumes "storage5 s" and "\<forall>f\<in>set files. usable_file reader w opt f"
    and "ev_valid ev = eval_valid_with handout step" and "step = valid_op5 handout \<or> step = valid_op5r handout"
  shows "\<exists>sts out'. all_traces (mm_trace5 reader ev w opt) i files s out = Some (Inr (sts, out')) \<and>
    errors out' = errors out + length files \<and> length sts = length files \<and> filter st_valid sts = []"
  using assms(1,2)
proof (induction files arbitrary: i s out)
  case (Cons f fs)
  obtain n s' out' where t: "mm_trace5 reader ev w opt i f s out = Some (Inr (fresh_stats n, s', out'))" "storage5 s'"
    "errors out' = Suc (errors out)" using handout_trace [OF Cons.prems(1) _ assms(3,4), of reader w opt f i out] Cons.prems(2) by auto
  obtain sts out2 where r: "all_traces (mm_trace5 reader ev w opt) (Suc i) fs s' out' = Some (Inr (sts, out2))"
    "errors out2 = errors out' + length fs" "length sts = length fs" "filter st_valid sts = []"
    using Cons.IH [OF t(2), of "Suc i" out'] Cons.prems(2) by auto
  then show ?case using t by (simp add: fresh_stats_def)
qed simp

section \<open>The verdict\<close>

lemma table_errors: "errors (printresults n sts) = 0"
  by (auto simp: errors_def printresults_def stats_row_def filter_empty_conv Let_def)

lemma handout_all:
  assumes "0 < b0" and "8 dvd b0" and "b0 + MAX_HEAP \<le> 2 ^ 63" and "\<forall>f\<in>set files. usable_file reader w opt f"
    and "ev_valid ev = eval_valid_with handout step" and "step = valid_op5 handout \<or> step = valid_op5r handout"
    and "\<And>n sts. errors (table n sts) = 0"
  shows "\<exists>sts out'. mm_traces5 reader ev table w opt files s b0 out = Some (Inr (sts, out')) \<and>
    errors out' = errors out + length files \<and> length sts = length files \<and> filter st_valid sts = []"
proof -
  let ?l = "\<lparr>mem_start_brk = b0, mem_brk = b0, mem_max_addr = b0 + MAX_HEAP\<rparr>"
  have l: "mem_init b0 = Some ?l" using assms(1) by (simp add: mem_init_def)
  have "storage5 (s\<lparr>lib5 := ?l\<rparr>)" using assms(1-3) by (simp add: storage5_def MAX_HEAP_def)
  from handout_traces [OF this assms(4-6), of 0 "announce (1 < verbose opt) (Testing ''mm'') out"]
  obtain sts out' where a: "all_traces (mm_trace5 reader ev w opt) 0 files (s\<lparr>lib5 := ?l\<rparr>) (announce (1 < verbose opt) (Testing ''mm'') out) = Some (Inr (sts, out'))"
    "errors out' = errors out + length files" "length sts = length files" "filter st_valid sts = []" by auto
  have "errors [Results ''mm malloc''] = 0" by (simp add: errors_def)
  then show ?thesis using a assms(7) by (simp add: mm_traces5_def l Let_def del: append_Cons)
qed

lemma report_errors: "errors (perf_report5 g e n p1 p2) = 0"
  by (simp add: errors_def perf_report5_def Let_def)

lemma report_terminated: "0 < e \<Longrightarrow> Terminated e \<in> set (perf_report5 g e n p1 p2)"
  by (simp add: perf_report5_def Let_def)

lemma table_errors_r: "errors (printresults5r sts) = 0"
  by (simp add: printresults5r_def table_errors)

lemma start_errors: "errors (snd (start5 opt)) = 0"
  by (simp add: start5_def) (simp add: errors_def)

lemma start_files: "tracefiles opt \<noteq> Some [] \<Longrightarrow> fst (start5 opt) \<noteq> []"
  by (auto simp: start5_def DEFAULT_TRACEFILES5_def split: option.splits)

lemma sumresults_none_valid:
  "filter st_valid sts = [] \<Longrightarrow> sts \<noteq> [] \<Longrightarrow>
     sumresults True sts junk = (if dgreater junk 0 then Some (0, dbl_over (sum_util sts) (length sts), junk) else None)"
  by (simp add: sumresults_def)

text \<open>
  The two programs on the same files, none of them for the C library.  \<open>ends_with_errors\<close> is the result that reports \<open>n\<close> failed traces.
\<close>

definition ends_with_errors :: "nat \<Rightarrow> drv_status \<Rightarrow> (drv_status \<times> drv_out list) option \<Rightarrow> bool" where
  "ends_with_errors n st res \<longleftrightarrow> (\<exists>out. res = Some (st, out) \<and> errors out = n \<and> (st = Exited 0 \<longrightarrow> Terminated n \<in> set out))"

lemma mdriver5_handout:
  assumes "parse_opts args opts5 = Some (Inr opt)" and "\<not> run_libc opt" and "files = fst (start5 opt)"
    and "\<forall>f\<in>set files. usable_file read_trace5 w opt f"
    and "0 < b0" and "8 dvd b0" and "b0 + MAX_HEAP \<le> 2 ^ 63"
  shows "ends_with_errors (length files) (Exited 0) (mdriver5_main w handout libc c s b0 args)"
proof -
  have ne: "0 < length files" using assms(3) start_files parse_opts_files [OF assms(1)] by (simp add: opts5_def)
  obtain st0 where st: "start5 opt = (files, st0)" "errors st0 = 0" using assms(3) start_errors [of opt] by (cases "start5 opt") auto
  have ev: "ev_valid (evals_mdriver handout) = eval_valid_with handout (valid_op5 handout)"
    by (simp add: evals_mdriver_def eval_mm_valid5_def)
  obtain sts out where r: "mm_traces5 read_trace5 (evals_mdriver handout) printresults w opt files s b0 st0 = Some (Inr (sts, out))"
    "errors out = length files"
    using handout_all [OF assms(5-7,4) ev disjI1 [OF refl], where table = printresults and s = s and out = st0, OF table_errors] st(2) by auto
  obtain n p1 p2 where "mdriver5_main w handout libc c s b0 args =
      Some (Exited 0, out @ perf_report5 (autograder opt) (length files) n p1 p2)"
    using r assms(1,2) st(1) by (simp add: mdriver5_main_def finish_def Let_def)
  then show ?thesis using r(2) report_terminated [OF ne] by (auto simp: ends_with_errors_def report_errors)
qed

lemma mdriver5r_handout:
  assumes "parse_opts5r args opts5 = Some (Inr opt)" and "\<not> run_libc opt" and "files = fst (start5 opt)"
    and "\<forall>f\<in>set files. usable_file read_trace5r w opt f"
    and "0 < b0" and "8 dvd b0" and "b0 + MAX_HEAP \<le> 2 ^ 63"
  shows "ends_with_errors (length files) (if dgreater junk 0 then Exited 0 else Aborted) (mdriver5r_main w handout libc c junk s b0 args)"
proof -
  have p: "parse_opts (filter (\<lambda>(c, arg). c \<noteq> CHR ''a'') args) opts5 = Some (Inr opt)" using assms(1) by (simp add: parse_opts5r_def)
  have ne: "0 < length files" using assms(3) start_files parse_opts_files [OF p] by (simp add: opts5_def)
  obtain st0 where st: "start5 opt = (files, st0)" "errors st0 = 0" using assms(3) start_errors [of opt] by (cases "start5 opt") auto
  have ev: "ev_valid (evals_mdriver_realloc handout) = eval_valid_with handout (valid_op5r handout)"
    by (simp add: evals_mdriver_realloc_def eval_mm_valid5r_def)
  obtain sts out where r: "mm_traces5 read_trace5r (evals_mdriver_realloc handout) (\<lambda>n. printresults5r) w opt files s b0 st0 = Some (Inr (sts, out))"
    "errors out = length files" "length sts = length files" "filter st_valid sts = []"
    using handout_all [OF assms(5-7,4) ev disjI2 [OF refl], where table = "\<lambda>n. printresults5r" and s = s and out = st0, OF table_errors_r]
      st(2) by auto
  have sum: "sumresults True sts junk = (if dgreater junk 0 then Some (0, dbl_over (sum_util sts) (length sts), junk) else None)"
    using r(3) ne by (intro sumresults_none_valid [OF r(4)]) auto
  have "\<exists>n p1 p2. mdriver5r_main w handout libc c junk s b0 args =
      (if dgreater junk 0 then Some (Exited 0, out @ perf_report5 (autograder opt) (length files) n p1 p2) else Some (Aborted, out))"
    using r(1,2) assms(1,2) st(1) sum by (simp add: mdriver5r_main_def finish_def) blast
  then show ?thesis using r(2) report_terminated [OF ne] by (auto simp: ends_with_errors_def report_errors)
qed

lemma no_a_option: "parse_opts args opt = Some (Inr opt') \<Longrightarrow> filter (\<lambda>(c, arg). c \<noteq> CHR ''a'') args = args"
proof (induction args opt rule: parse_opts.induct)
  case (2 c arg cs opt)
  then have "c \<noteq> CHR ''a''" by auto
  moreover have "filter (\<lambda>(c, arg). c \<noteq> CHR ''a'') cs = cs"
    using 2 by (auto split: if_splits Option.bind_splits)
  ultimately show ?case by simp
qed simp

text \<open>
  C40. The two drivers of the older lab, run with the allocator that is handed out, on any trace files that they can read and that begin with an
  allocation: each trace is reported as failed exactly once.  \<^verbatim>\<open>mdriver.c\<close> then prints the number of errors and exits with
  status 0; \<^verbatim>\<open>mdriver-realloc.c\<close> reads a variable that it has not set, and ends in the same way if the variable happens to be positive, and
  otherwise by a failed assertion, before it prints the number.
\<close>

theorem lab5_drivers_reject_handout:
  assumes "parse_opts args opts5 = Some (Inr opt)" and "\<not> run_libc opt" and "files = fst (start5 opt)"
    and "\<forall>f\<in>set files. usable_file read_trace5 w opt f \<and> usable_file read_trace5r w opt f"
    and "0 < b0" and "8 dvd b0" and "b0 + MAX_HEAP \<le> 2 ^ 63"
  shows "ends_with_errors (length files) (Exited 0) (mdriver5_main w handout libc c s b0 args) \<and>
    ends_with_errors (length files) (if dgreater junk 0 then Exited 0 else Aborted) (mdriver5r_main w handout libc c junk s b0 args)"
proof
  show "ends_with_errors (length files) (Exited 0) (mdriver5_main w handout libc c s b0 args)"
    using assms(4) by (intro mdriver5_handout [OF assms(1-3) _ assms(5-7)]) blast
  have p: "parse_opts5r args opts5 = Some (Inr opt)" using assms(1) by (simp add: parse_opts5r_def no_a_option [OF assms(1)])
  show "ends_with_errors (length files) (if dgreater junk 0 then Exited 0 else Aborted) (mdriver5r_main w handout libc c junk s b0 args)"
    using assms(4) by (intro mdriver5r_handout [OF p assms(2,3) _ assms(5-7)]) blast
qed

definition small_world :: world where
  "small_world = \<lparr>w_files = (\<lambda>path. Some [''64'', ''1'', ''2'', ''1'', ''a'', ''0'', ''8'', ''f'', ''0'']),
     w_libc_clock = (\<lambda>i. (\<lparr>tv_sec = 0, tv_usec = 0\<rparr>, \<lparr>tv_sec = 0, tv_usec = 1\<rparr>)),
     w_mm_clock = (\<lambda>i. (\<lparr>tv_sec = 0, tv_usec = 0\<rparr>, \<lparr>tv_sec = 0, tv_usec = 1\<rparr>))\<rparr>"

lemma small_usable:
  assumes "length (tracedir opt @ file) < DRV_MAXLINE"
  shows "usable_file read_trace5 small_world opt file \<and> usable_file read_trace5r small_world opt file"
proof -
  let ?ws = "[''64'', ''1'', ''2'', ''1'', ''a'', ''0'', ''8'', ''f'', ''0'']"
  have f: "w_files small_world p = Some ?ws" for p by (simp add: small_world_def)
  have "\<exists>t. read_trace5 ?ws = Some (Inr t) \<and> begins_with_alloc t"
    by (simp add: read_trace5_def check_trace_def num_args_def number_def no_number_def scan_u_def is_digit_def begins_with_alloc_def)
  moreover have "\<exists>t. read_trace5r ?ws = Some (Inr t) \<and> begins_with_alloc t"
    by (simp add: read_trace5r_def check_trace_def num_args_def number_def no_number_def scan_u_def is_digit_def begins_with_alloc_def)
  ultimately show ?thesis using assms f by (auto simp: usable_file_def)
qed

definition no_libc :: "unit libc5" where
  "no_libc = \<lparr>c_malloc = (\<lambda>c n. (c, 0)), c_free = (\<lambda>c p. c), c_realloc = (\<lambda>c p n. (c, 0))\<rparr>"

lemma lab5_drivers_reject_handout_witness:
  "let s = \<lparr>lib5 = \<lparr>mem_start_brk = 0, mem_brk = 0, mem_max_addr = 0\<rparr>, words = (\<lambda>w. 0)\<rparr> in
   ends_with_errors 1 (Exited 0) (mdriver5_main small_world handout no_libc () s 4096 [(CHR ''f'', ''t'')]) \<and>
   ends_with_errors 1 Aborted (mdriver5r_main small_world handout no_libc () (Fin 0) s 4096 [(CHR ''f'', ''t'')])"
proof -
  let ?s = "\<lparr>lib5 = \<lparr>mem_start_brk = 0, mem_brk = 0, mem_max_addr = 0\<rparr>, words = (\<lambda>w. 0)\<rparr>"
  let ?opt = "opts5\<lparr>tracedir := ''./'', tracefiles := Some [''t'']\<rparr>"
  have p: "parse_opts [(CHR ''f'', ''t'')] opts5 = Some (Inr ?opt)" by simp
  have l: "\<not> run_libc ?opt" by (simp add: opts5_def)
  have f: "[''t''] = fst (start5 ?opt)" by (simp add: start5_def)
  have u: "\<forall>f\<in>set [''t'']. usable_file read_trace5 small_world ?opt f \<and> usable_file read_trace5r small_world ?opt f"
    using small_usable [of ?opt "''t''"] by (simp add: DRV_MAXLINE_def)
  have b: "0 < (4096 :: nat)" "8 dvd (4096 :: nat)" "4096 + MAX_HEAP \<le> 2 ^ 63" by (simp_all add: MAX_HEAP_def)
  show ?thesis
    using lab5_drivers_reject_handout [OF p l f u b, of no_libc "()" ?s "Fin 0"] by (simp add: Let_def)
qed

end
