(* ===== verification/Spec2Isabelle.thy ===== *)
theory Spec2Isabelle
  imports MmTheorems MdriverCorrect MdriverSound TestTrans Memtrace TshMain ProxyServer ProxyLock ProxyTiny Timing KernelLab Lab5Verdict
begin

text \<open>
  A verification library for the programs of a systems programming course.  The repository holds six
  labs, each with its own programs in C.  They are separate programs that meet in the following places: a driver that runs the
  allocators of the malloc lab through the four functions of \<^verbatim>\<open>mm.h\<close>; a trace generator that runs the
  transposes of the cache lab, and a test program that runs the generator and a cache simulator on its
  trace; a shell; tracers that wrap the allocation functions of the C library; kernel modules with a
  test program; and a web proxy and a web server that share the package \<^verbatim>\<open>csapp.c\<close>.

  Paths below start at \<^verbatim>\<open>src/\<close>.  Definitions have the names of the C functions where Isabelle allows
  it; a suffix marks a second version of a function (\<^verbatim>\<open>5\<close> for the 64-bit lab5 directory, the
  prefix \<^verbatim>\<open>seg_\<close> for \<^verbatim>\<open>mm.c\<close>).

  \<^bold>\<open>Conventions.\<close>  A function of a program is a function of its state, a record with the globals of
  the file, and returns the new state.  The option type is undefined behaviour: \<^verbatim>\<open>None\<close> stands for
  an access outside of an array or of the storage, for an uninitialised variable that is read, and for a
  loop that does not end, which is a \<^verbatim>\<open>partial_function (option)\<close>.  An error that the code
  handles is a value: \<^verbatim>\<open>Inl\<close> with a constructor of the component's own type of errors.  So a theorem
  that a result is \<^verbatim>\<open>Some\<close> says that no access leaves an array and that every loop ends, and no loop
  in the development runs on fuel.  What a program gets from outside (the kernel, files, the clock, the C library
  behind a wrapper, the commands that are run) is a parameter: mostly the list of the
  answers that it will give.  Concurrent programs are step relations over one statement of one thread.

  \<^bold>\<open>Widths.\<close>  The programs of \<^verbatim>\<open>sp_03_malloclab/src\<close> run with pointers of 32 bits: addresses are natural numbers below
  2 ^ 32, the words in memory are four bytes, and the rounding of a size is computed modulo 2 ^ 32, so that \<^verbatim>\<open>mm_malloc\<close> is specified
  for sizes below 2 ^ 32 - 15 (\<^verbatim>\<open>get_asize_wraps\<close> shows what happens above).  The driver passes an \<^verbatim>\<open>int\<close>, so its contract asks for sizes below
  2 ^ 31, and for a storage of 20 MB (\<^verbatim>\<open>MAX_HEAP\<close>) below address 2 ^ 31.  \<^verbatim>\<open>lab5\<close> has 64 bits.  The cache simulator has 32-bit
  addresses; its dimensions and counters are of type \<^verbatim>\<open>int\<close>, and the model has no result when one of them overflows (its theorem is for
  caches of at most \<^verbatim>\<open>INT_MAX\<close> lines and traces of at most 2 ^ 30 lines).  The web server passes the size of a file as an \<^verbatim>\<open>int\<close>.  The counter of
  \<^verbatim>\<open>clock.c\<close> and the counters of \<^verbatim>\<open>memtrace.c\<close> are words.  A \<^verbatim>\<open>double\<close> is a rational number: its
  rounding is not modelled.

  \<^bold>\<open>Generic theories.\<close>  \<^verbatim>\<open>Prelude\<close>: checked arrays, \<^verbatim>\<open>atoi\<close>, counting of threads.  \<^verbatim>\<open>CString\<close>: character
  arrays with a terminator and the functions of the C library on them.  \<^verbatim>\<open>Blocks\<close>: a heap as a
  sequence of blocks with sizes and tags, which the 32-bit and the 64-bit allocators share.

  \<^bold>\<open>Malloc lab\<close> (\<^verbatim>\<open>sp_03_malloclab/src\<close>).  The allocators differ in their free list only.  The theories follow that:

  \<^item> \<^verbatim>\<open>Memlib\<close>: \<^verbatim>\<open>memlib.c\<close> (\<^verbatim>\<open>mem_init\<close>, \<^verbatim>\<open>mem_sbrk\<close>, \<^verbatim>\<open>mem_reset_brk\<close>, ...), and \<^verbatim>\<open>mem_sbrk\<close> of \<^verbatim>\<open>lab5/memlib.c\<close>.
  \<^item> \<^verbatim>\<open>MmMem\<close>: memory by bytes and the macros \<^verbatim>\<open>GET\<close>, \<^verbatim>\<open>PUT\<close>, \<^verbatim>\<open>PACK\<close>, \<^verbatim>\<open>HDRP\<close>, \<^verbatim>\<open>NEXT_BLKP\<close>, ...
  \<^item> \<^verbatim>\<open>MmShared\<close>: the functions that \<^verbatim>\<open>mm-2014-17831.c\<close> and \<^verbatim>\<open>mm.c\<close> have in the same words (\<^verbatim>\<open>coalesce\<close>, \<^verbatim>\<open>extend_heap\<close>, \<^verbatim>\<open>place\<close>, \<^verbatim>\<open>mm_malloc\<close>,
    \<^verbatim>\<open>mm_free\<close>, \<^verbatim>\<open>mm_realloc\<close>), with \<^verbatim>\<open>remove_block\<close>, \<^verbatim>\<open>insert_block\<close> and \<^verbatim>\<open>find_fit\<close> as arguments.
  \<^item> \<^verbatim>\<open>MmHeap\<close>, \<^verbatim>\<open>MmFreeList\<close>, \<^verbatim>\<open>MmCoalesce\<close>, \<^verbatim>\<open>MmCorrect\<close>, \<^verbatim>\<open>MmAlloc\<close>, \<^verbatim>\<open>MmPlace\<close>, \<^verbatim>\<open>MmInterface\<close>: the
    abstract heap (\<^verbatim>\<open>heap_ok\<close>: a sequence of blocks with matching tags and no two neighbours free, and a free list that holds exactly
    the free ones) and what the shared functions do to it.  The locale \<^verbatim>\<open>free_list\<close> is the contract of the two operations on the list,
    the locale \<^verbatim>\<open>boundary_tags\<close> adds that of the search.  In them the four cases of coalescing, growing, splitting
    and the interface are proved once.
  \<^item> \<^verbatim>\<open>MmExplicit\<close>, \<^verbatim>\<open>MmExplicitList\<close>: the free list of \<^verbatim>\<open>mm-2014-17831.c\<close>, one doubly linked list, and the interpretations \<^verbatim>\<open>explicit\<close> of both locales.
  \<^item> \<^verbatim>\<open>MmSeg\<close>, \<^verbatim>\<open>MmSegList\<close>, \<^verbatim>\<open>MmSegInit\<close>, \<^verbatim>\<open>MmSegTheorems\<close>: the twelve lists of \<^verbatim>\<open>mm.c\<close> and the interpretations \<^verbatim>\<open>seg\<close>.  Its search
    never finds a block, a flaw in the test of the list heads, which \<^verbatim>\<open>seg_malloc_grows\<close> states.
  \<^item> \<^verbatim>\<open>Mdriver\<close>, \<^verbatim>\<open>MdriverEval\<close>: the range list, \<^verbatim>\<open>read_trace\<close> and the evaluations of \<^verbatim>\<open>mdriver.c\<close>.  The locale \<^verbatim>\<open>allocator\<close> is what the driver relies
    on; in it the evaluations stay inside of the storage and can only fail for lack of memory.
  \<^item> \<^verbatim>\<open>MmContract\<close>: the locale \<^verbatim>\<open>boundary_pkg\<close>, a sublocale of \<^verbatim>\<open>allocator\<close>: every allocator with boundary tags has
    the contract of the driver.  \<^verbatim>\<open>MmNaive\<close>: \<^verbatim>\<open>mm_naive.c\<close>, a direct interpretation of \<^verbatim>\<open>allocator\<close>.
  \<^item> \<^verbatim>\<open>MmTheorems\<close>: the properties of the explicit allocator.
  \<^item> \<^verbatim>\<open>Timing\<close>: \<^verbatim>\<open>clock.c\<close>, \<^verbatim>\<open>fcyc.c\<close>, \<^verbatim>\<open>ftimer.c\<close>, \<^verbatim>\<open>fsecs.c\<close> over the readings of the clocks.
  \<^item> \<^verbatim>\<open>MdriverMain\<close>, \<^verbatim>\<open>MdriverCorrect\<close>: \<^verbatim>\<open>main\<close> of the driver (options, loop over the traces, tables, performance
    index), and that it ends on well-formed traces with any of the three allocators.
  \<^item> \<^verbatim>\<open>MdriverSound\<close>: what it means that the driver accepts an allocator, for any package that only grows the heap.

  \<^bold>\<open>The starter allocator\<close> (\<^verbatim>\<open>sp_03_malloclab/lab5\<close>).  \<^verbatim>\<open>Lab5Mm\<close>: \<^verbatim>\<open>mm.c\<close>, \<^verbatim>\<open>mm-gc.c\<close>, \<^verbatim>\<open>mm-realloc.c\<close> and
  \<^verbatim>\<open>GarbageCollectorDriver.c\<close>, the functions left to the students as they are.  \<^verbatim>\<open>Lab5List\<close>, \<^verbatim>\<open>Lab5Heap\<close>, \<^verbatim>\<open>Lab5Grow\<close>,
  \<^verbatim>\<open>Lab5Theorems\<close>: the free list, the heap invariant, what growing does to it, and that the collector's \<^verbatim>\<open>is_pointer\<close> accepts the payloads
  of the used blocks and nothing else.  \<^verbatim>\<open>Lab5Driver\<close>: \<^verbatim>\<open>mdriver.c\<close> and \<^verbatim>\<open>mdriver-realloc.c\<close> of the same directory, from the command line to the
  exit; \<^verbatim>\<open>Lab5Verdict\<close>: what they say about the allocator that is handed out.

  \<^bold>\<open>Link lab\<close> (\<^verbatim>\<open>sp_01_linklab/handout\<close>).  \<^verbatim>\<open>Memlist\<close>: \<^verbatim>\<open>utils/memlist.c\<close>.  \<^verbatim>\<open>Memtrace\<close>: \<^verbatim>\<open>part1/memtrace.c\<close> to
  \<^verbatim>\<open>part3/memtrace.c\<close> with the messages of \<^verbatim>\<open>utils/memlog.c\<close>, over a C library that is a record of its four functions: the
  counters are the sums of the history, the list holds the live blocks, and what part 3 refuses does not reach the library.

  \<^bold>\<open>Shell lab\<close> (\<^verbatim>\<open>sp_02_shelllab/tsh.c\<close>).  \<^verbatim>\<open>Tsh\<close>: the job list, \<^verbatim>\<open>parseline\<close>, the built-in commands, \<^verbatim>\<open>eval\<close> and the
  signal handlers, and the step relation \<^verbatim>\<open>shell_step\<close> of everything that can happen to the globals.  A handler runs between any two steps of
  \<^verbatim>\<open>fg\<close>, \<^verbatim>\<open>bg\<close>, \<^verbatim>\<open>jobs\<close> and the end of \<^verbatim>\<open>eval\<close> that do not block signals, and a keyboard handler can be interrupted itself.  The relation has
  a flag \<^verbatim>\<open>late\<close>: without it, no job is reaped between the SIGCONT of \<^verbatim>\<open>fg\<close> and the update of its state, which the code does not
  prevent.  The program is the relation with the flag; what holds only without it says so.  \<^verbatim>\<open>TshCorrect\<close>, \<^verbatim>\<open>TshTheorems\<close>: the
  invariant, the parser against a printer, which job a signal or a command reaches, and the races in the code (\<^verbatim>\<open>late_fg\<close>, \<^verbatim>\<open>launched_race\<close>).  \<^verbatim>\<open>TshMain\<close>:
  the options, \<^verbatim>\<open>fgets\<close> and the read and evaluate loop; a run of \<^verbatim>\<open>main\<close> refines the step relation, and a session ends.

  \<^bold>\<open>Cache lab\<close> (\<^verbatim>\<open>sp_04_cachelab\<close>).  \<^verbatim>\<open>Csim\<close>, \<^verbatim>\<open>CsimCorrect\<close>: \<^verbatim>\<open>csim.c\<close> and its refinement of an LRU cache, a list of tags
  for each set.  \<^verbatim>\<open>Trans\<close>: \<^verbatim>\<open>trans.c\<close>, \<^verbatim>\<open>cachelab.c\<close> and the core of \<^verbatim>\<open>tracegen.c\<close>; the blocked transpose against the baseline.  \<^verbatim>\<open>CacheMain\<close>: the
  command lines, the trace parser (\<^verbatim>\<open>fscanf\<close>) and the output of \<^verbatim>\<open>csim.c\<close> and \<^verbatim>\<open>tracegen.c\<close>.  \<^verbatim>\<open>TestTrans\<close>: \<^verbatim>\<open>test-trans.c\<close>, and the three
  programs together, through their command lines, exit status and files.

  \<^bold>\<open>Kernel lab\<close> (\<^verbatim>\<open>sp_05_kernallab/kernellab-handout\<close>).  \<^verbatim>\<open>KernelLab\<close>: \<^verbatim>\<open>ptree/dbfs_ptree.c\<close>, \<^verbatim>\<open>paddr/dbfs_paddr.c\<close> and \<^verbatim>\<open>paddr/app.c\<close> over the
  tables of tasks and pages.

  \<^bold>\<open>Proxy lab\<close> (\<^verbatim>\<open>sp_06_proxylab/proxylab-handout\<close>).
  \<^item> \<^verbatim>\<open>Rio\<close>, \<^verbatim>\<open>RioCorrect\<close>, \<^verbatim>\<open>RioWrap\<close>: the robust I/O of \<^verbatim>\<open>csapp.c\<close>.  Short reads, interruptions and the buffer are invisible: a
    descriptor is its stream of bytes.
  \<^item> \<^verbatim>\<open>Sio\<close>: signal-safe output.  \<^verbatim>\<open>Csapp\<close>: error functions, wrappers, \<^verbatim>\<open>open_clientfd\<close>, \<^verbatim>\<open>open_listenfd\<close> over the table of open descriptors.
  \<^item> \<^verbatim>\<open>Sbuf\<close>: \<^verbatim>\<open>sbuf.c\<close>, statement by statement, for any number of threads: a FIFO queue of bounded length.
  \<^item> \<^verbatim>\<open>Proxy\<close>, \<^verbatim>\<open>ProxyCorrect\<close>, \<^verbatim>\<open>ProxyTheorems\<close>, \<^verbatim>\<open>ProxyDoit\<close>: the cache, the parsers and \<^verbatim>\<open>doit\<close> of \<^verbatim>\<open>proxy.c\<close>.  The locale \<^verbatim>\<open>web_cache\<close> is what a transaction relies on, interpreted
    on the cache of the proxy (\<^verbatim>\<open>pc\<close>).  For \<^verbatim>\<open>evict\<close>, the links of the list and the blocks of its items are in memory (\<^verbatim>\<open>links\<close>).
  \<^item> \<^verbatim>\<open>ProxyLock\<close>: the readers and writers protocol of the cache, with the shared variables that each statement reads and writes.  \<^verbatim>\<open>ProxyServer\<close>: \<^verbatim>\<open>main\<close> and the worker threads over the
    buffer of \<^verbatim>\<open>Sbuf\<close>: every accepted connection is served by one worker, in the order of arrival, and closed once.
  \<^item> \<^verbatim>\<open>Tiny\<close>, \<^verbatim>\<open>TinyCorrect\<close>: \<^verbatim>\<open>tiny/tiny.c\<close> and \<^verbatim>\<open>tiny/cgi-bin/adder.c\<close>: static files, programs, error pages.
  \<^item> \<^verbatim>\<open>ProxyTiny\<close>: the proxy in front of the web server, when three bytes of uninitialised stack memory are zero (\<^verbatim>\<open>fresh_arrays\<close>).

  \<^bold>\<open>Flaws.\<close>  Where the code does not do what it means to, the theorem says what it does, under the hypothesis that
  excludes the flaw, and a lemma shows the flaw on a concrete input (\<^verbatim>\<open>cache_never_evicts\<close>, \<^verbatim>\<open>hit_breaks_u_mutex\<close>, \<^verbatim>\<open>p3_realloc_in_place_miscounts\<close>, \<^verbatim>\<open>late_fg\<close>, \<^verbatim>\<open>tiny_big_file\<close>, \<^verbatim>\<open>csim_name_overrun\<close>,
  \<^verbatim>\<open>job_numbers\<close>, \<^verbatim>\<open>tiny_early_close_hangs\<close>, \<^verbatim>\<open>last_line_dropped\<close>, \<^verbatim>\<open>sio_putl_negative\<close>, \<^verbatim>\<open>gc_driver_faults\<close> and others).

  \<^bold>\<open>Not modelled.\<close>
  \<^item> The timing package of \<^verbatim>\<open>lab5\<close> (\<^verbatim>\<open>clock.c\<close>, \<^verbatim>\<open>fcyc.c\<close>, \<^verbatim>\<open>ftimer.c\<close>, \<^verbatim>\<open>fsecs.c\<close>): the same code as in \<^verbatim>\<open>src\<close>.
  \<^item> \<^verbatim>\<open>proxylab-handout/tiny/csapp.c\<close>, \<^verbatim>\<open>.proxy/csapp.c\<close> and \<^verbatim>\<open>.proxy/tiny.c\<close>: copies of modelled files.
  \<^item> The child of \<^verbatim>\<open>fork\<close> in the shell: the program that it becomes is not under \<^verbatim>\<open>src/\<close>.
  \<^item> The text that goes to a terminal, where a message is a constructor with the values that it prints; the verbose
    listings of \<^verbatim>\<open>csim.c\<close> and \<^verbatim>\<open>tiny.c\<close>; \<^verbatim>\<open>free_list\<close> and \<^verbatim>\<open>dump_list\<close> of \<^verbatim>\<open>memlist.c\<close>, \<^verbatim>\<open>print_cache\<close> of \<^verbatim>\<open>csim.c\<close>, \<^verbatim>\<open>examine_heap_gc\<close>
    of \<^verbatim>\<open>mm-gc.c\<close>, \<^verbatim>\<open>mem_deinit\<close>, \<^verbatim>\<open>sbuf_deinit\<close>.
  \<^item> The helper programs of the shell lab (\<^verbatim>\<open>myspin.c\<close>, ...), the test programs of the
    link lab, and the scripts.
  \<^item> The memory of C below the level of arrays and records: a pointer is an index, an address in the heap of the program, or a value of
    the model; the storage of a local array that the program does not initialise is a parameter.
  \<^item> The weak memory of the machine: the threads of the proxy interleave at statements.
\<close>

end
